(* ===== verification/Prelude.thy ===== *)
theory Prelude
  imports Main "HOL-Library.Word" "HOL-Library.Multiset"
begin

text \<open>
  What the components share: the error numbers the kernel returns, the machine integer
  types, the collections of rewrite rules, and generic facts on lists, options and words.
\<close>

unbundle bit_operations_syntax

section \<open>Machine integers and error numbers\<close>

type_synonym u8 = "8 word"
type_synonym u32 = "32 word"
type_synonym u64 = "64 word"

datatype errno =
    EPERM | ENOENT | EIO | EBADF | EAGAIN | ENOMEM | EACCES | EFAULT | EBUSY | EEXIST
  | EXDEV | ENODEV | ENOTDIR | EISDIR | EINVAL | EMFILE | EFBIG | ESPIPE | EROFS
  | ENAMETOOLONG | ENOSYS | ELOOP | ENOTEMPTY | ENOTSUP | EOPNOTSUPP | EPIPE | ETIMEDOUT | EINTR | ERESTART | ERANGE

section \<open>Rule collections\<close>

named_theorems ring_simps \<open>index arithmetic of the power-of-two rings\<close>

section \<open>Words\<close>

lemma unat_and_mask:
  fixes w :: "'a::len word"
  assumes "k < LENGTH('a)"
  shows "unat (w AND (2 ^ k - 1)) = unat w mod 2 ^ k"
proof -
  have "w AND (2 ^ k - 1) = take_bit k w"
    by (simp add: take_bit_eq_mask mask_eq_exp_minus_1)
  then have "unat (w AND (2 ^ k - 1)) = take_bit k (unat w)"
    by (simp only: unsigned_take_bit_eq)
  then show ?thesis
    by (simp only: take_bit_eq_mod)
qed

lemma pow2_dvd_pow2_32: "k < 32 \<Longrightarrow> (2::nat) ^ k dvd 4294967296"
  using le_imp_power_dvd [of k 32 "2::nat"] by simp

lemma add_mod_inj:
  fixes a i j n :: nat
  assumes eq: "(a + i) mod n = (a + j) mod n" and "i < n" "j < n"
  shows "i = j"
proof -
  have le: "x = y" if "x \<le> y" "y < n" "(a + x) mod n = (a + y) mod n" for x y
  proof -
    have "n dvd (a + y) - (a + x)"
      using that mod_eq_dvd_iff_nat [of "a + x" "a + y" n] by simp
    then show ?thesis
      using that by (auto dest: dvd_imp_le)
  qed
  show ?thesis
    using le [of i j] le [of j i] assms by (cases "i \<le> j") auto
qed


section \<open>Tables of lists\<close>

text \<open>A hash table is a list of buckets; these lemmas treat insertion at the head of a bucket and removal.\<close>

lemma in_concat_nth: "x \<in> set (concat t) \<longleftrightarrow> (\<exists>i<length t. x \<in> set (t ! i))"
  by (induction t) (auto simp: less_Suc_eq_0_disj nth_Cons')

lemma mset_concat_insert: "i < length t \<Longrightarrow> mset (concat (t[i := x # t ! i])) = add_mset x (mset (concat t))"
  by (induction t arbitrary: i) (auto split: nat.splits)

lemma set_concat_insert: "i < length t \<Longrightarrow> set (concat (t[i := x # t ! i])) = insert x (set (concat t))"
  using mset_concat_insert [of i t x] by (metis set_mset_add_mset_insert set_mset_mset)

lemma distinct_concat_insert: "\<lbrakk>i < length t; distinct (concat t); x \<notin> set (concat t)\<rbrakk> \<Longrightarrow> distinct (concat (t[i := x # t ! i]))"
  using mset_concat_insert [of i t x] mset_eq_imp_distinct_iff [of "concat (t[i := x # t ! i])" "x # concat t"] by simp

lemma concat_removeAll: "concat (map (removeAll x) t) = removeAll x (concat t)"
  by (induction t) auto

lemma unat_and_31: "unat ((w :: u64) AND 31) < 32"
  using unat_and_mask [of 5 w] by simp

end
