(* ===== verification/Linked_List.thy ===== *)
theory Linked_List
  imports Prelude
begin

text \<open>
  Singly linked lists in a heap of \<open>next\<close> pointers, as the kernel's intrusive lists use them.
  A null pointer is \<open>None\<close>; \<open>list_at nxt p xs\<close> says that the chain from \<open>p\<close> is \<open>xs\<close> and ends
  in a null pointer.
\<close>

fun list_at :: "('p \<Rightarrow> 'p option) \<Rightarrow> 'p option \<Rightarrow> 'p list \<Rightarrow> bool" where
  "list_at nxt p [] \<longleftrightarrow> p = None"
| "list_at nxt p (x # xs) \<longleftrightarrow> p = Some x \<and> list_at nxt (nxt x) xs"

text \<open>A chain that stops at a given pointer instead of at null.\<close>

fun seg_at :: "('p \<Rightarrow> 'p option) \<Rightarrow> 'p option \<Rightarrow> 'p list \<Rightarrow> 'p option \<Rightarrow> bool" where
  "seg_at nxt p [] e \<longleftrightarrow> p = e"
| "seg_at nxt p (x # xs) e \<longleftrightarrow> p = Some x \<and> seg_at nxt (nxt x) xs e"

lemma list_at_None [simp]: "list_at nxt None xs \<longleftrightarrow> xs = []"
  by (cases xs) auto

lemma list_at_Some: "list_at nxt (Some x) xs \<longleftrightarrow> (\<exists>ys. xs = x # ys \<and> list_at nxt (nxt x) ys)"
  by (cases xs) auto

lemma list_at_unique: "list_at nxt p xs \<Longrightarrow> list_at nxt p ys \<Longrightarrow> xs = ys"
  by (induction xs arbitrary: p ys) (auto simp: list_at_Some)

lemma list_at_upd [simp]: "x \<notin> set xs \<Longrightarrow> list_at (nxt(x := v)) p xs \<longleftrightarrow> list_at nxt p xs"
  by (induction xs arbitrary: p) auto

lemma seg_at_upd [simp]: "x \<notin> set xs \<Longrightarrow> seg_at (nxt(x := v)) p xs e \<longleftrightarrow> seg_at nxt p xs e"
  by (induction xs arbitrary: p) auto

lemma list_at_append: "list_at nxt p (xs @ ys) \<longleftrightarrow> (\<exists>e. seg_at nxt p xs e \<and> list_at nxt e ys)"
  by (induction xs arbitrary: p) auto

lemma list_at_seg: "list_at nxt p xs \<longleftrightarrow> seg_at nxt p xs None"
  by (induction xs arbitrary: p) auto

lemma seg_at_append: "seg_at nxt p (xs @ ys) e \<longleftrightarrow> (\<exists>m. seg_at nxt p xs m \<and> seg_at nxt m ys e)"
  by (induction xs arbitrary: p) auto

text \<open>A null-terminated chain has no cycle.\<close>

lemma list_at_distinct: "list_at nxt p xs \<Longrightarrow> distinct xs"
proof (induction xs arbitrary: p)
  case Nil
  then show ?case by simp
next
  case (Cons x xs)
  have "x \<notin> set xs"
  proof
    assume "x \<in> set xs"
    then obtain ys zs where xs: "xs = ys @ x # zs" by (meson split_list)
    then have "list_at nxt (Some x) (x # zs)" "list_at nxt (Some x) (x # xs)"
      using Cons.prems by (auto simp: list_at_append)
    then have "x # zs = x # xs" by (rule list_at_unique)
    with xs show False by simp
  qed
  then show ?case using Cons by auto
qed

text \<open>Appending a node by writing the last node's pointer.\<close>

lemma list_at_snoc:
  assumes "list_at nxt p (xs @ [l])" "x \<notin> set (xs @ [l])" "nxt x = None"
  shows "list_at (nxt(l := Some x)) p (xs @ [l, x])"
proof -
  have "l \<notin> set xs" using list_at_distinct [OF assms(1)] by auto
  then show ?thesis using assms by (auto simp: list_at_append)
qed

text \<open>Unlinking a node by writing its predecessor's pointer.\<close>

lemma list_at_unlink:
  assumes "list_at nxt p (xs @ l # x # ys)"
  shows "list_at (nxt(l := nxt x)) p (xs @ l # ys)"
proof -
  have "l \<notin> set xs" "l \<notin> set ys" using list_at_distinct [OF assms] by auto
  then show ?thesis using assms by (auto simp: list_at_append)
qed

end
