(* ===== verification/Lockfree_Ring.thy ===== *)
theory Lockfree_Ring
  imports Prelude
begin

text \<open>
  The fixed-size lock-free rings of \<^verbatim>\<open>include/lockfree/ring.hh\<close> (\<open>ring_spsc\<close>, one producer
  and one consumer) and \<^verbatim>\<open>include/lockfree/unordered_ring_mpsc.hh\<close> (one \<open>ring_spsc\<close> per CPU).
  The operations are first modelled as whole calls; the locale \<open>bounded_fifo\<close> states what a
  bounded queue promises and the ring implements it, across the wrap-around of the 32-bit
  indices. The second half splits \<open>push\<close> and \<open>pop\<close> into their loads and stores and interleaves
  them arbitrarily, over a sequentially consistent memory.
\<close>

section \<open>The interface of a bounded queue\<close>

locale bounded_fifo =
  fixes invar :: "'q \<Rightarrow> bool"
    and contents :: "'q \<Rightarrow> 'a list"
    and capacity :: "'q \<Rightarrow> nat"
    and put :: "'a \<Rightarrow> 'q \<Rightarrow> bool \<times> 'q"
    and get :: "'q \<Rightarrow> 'a option \<times> 'q"
  assumes put_full: "\<lbrakk>invar q; length (contents q) = capacity q\<rbrakk> \<Longrightarrow> put x q = (False, q)"
    and put_room: "\<lbrakk>invar q; length (contents q) < capacity q\<rbrakk> \<Longrightarrow>
      \<exists>q'. put x q = (True, q') \<and> invar q' \<and> contents q' = contents q @ [x] \<and> capacity q' = capacity q"
    and get_none: "\<lbrakk>invar q; contents q = []\<rbrakk> \<Longrightarrow> get q = (None, q)"
    and get_some: "\<lbrakk>invar q; contents q = x # xs\<rbrakk> \<Longrightarrow>
      \<exists>q'. get q = (Some x, q') \<and> invar q' \<and> contents q' = xs \<and> capacity q' = capacity q"
    and within_capacity: "invar q \<Longrightarrow> length (contents q) \<le> capacity q"

text \<open>
  A client that puts and gets in any order: \<open>Some x\<close> is a call of \<open>put x\<close> and \<open>None\<close> one of \<open>get\<close>. The run returns what each call
  returned, \<open>Inl\<close> for a put, and the final queue. \<open>bounded_run\<close> is the run of a list of at most \<open>n\<close> elements.
\<close>

fun queue_run ::
  "('a \<Rightarrow> 'q \<Rightarrow> bool \<times> 'q) \<Rightarrow> ('q \<Rightarrow> 'a option \<times> 'q) \<Rightarrow> 'a option list \<Rightarrow> 'q \<Rightarrow> (bool + 'a option) list \<times> 'q"
where
  "queue_run put get [] q = ([], q)"
| "queue_run put get (Some x # ops) q = (let (ok, q1) = put x q in apfst ((#) (Inl ok)) (queue_run put get ops q1))"
| "queue_run put get (None # ops) q = (let (r, q1) = get q in apfst ((#) (Inr r)) (queue_run put get ops q1))"

fun bounded_run :: "nat \<Rightarrow> 'a option list \<Rightarrow> 'a list \<Rightarrow> (bool + 'a option) list \<times> 'a list" where
  "bounded_run n [] xs = ([], xs)"
| "bounded_run n (Some x # ops) xs =
     (if length xs < n then apfst ((#) (Inl True)) (bounded_run n ops (xs @ [x])) else apfst ((#) (Inl False)) (bounded_run n ops xs))"
| "bounded_run n (None # ops) [] = apfst ((#) (Inr None)) (bounded_run n ops [])"
| "bounded_run n (None # ops) (x # xs) = apfst ((#) (Inr (Some x))) (bounded_run n ops xs)"

context bounded_fifo
begin

lemma put_contents:
  assumes "invar q" "put x q = (ok, q')"
  shows "invar q' \<and> contents q' = contents q @ (if ok then [x] else [])"
  using assms put_full [of q x] put_room [of q x] within_capacity [of q]
  by (cases "length (contents q) < capacity q") auto

lemma get_contents:
  assumes "invar q" "get q = (r, q')"
  shows "invar q' \<and> contents q = (case r of None \<Rightarrow> [] | Some y \<Rightarrow> [y]) @ contents q'"
  using assms get_none [of q] get_some [of q] by (cases "contents q") fastforce+

lemma run_fifo:
  assumes "invar q"
  shows "\<exists>q'. queue_run put get ops q = (fst (bounded_run (capacity q) ops (contents q)), q') \<and> invar q' \<and> capacity q' = capacity q \<and>
    contents q' = snd (bounded_run (capacity q) ops (contents q))"
  using assms
proof (induction ops arbitrary: q)
  case Nil
  then show ?case by simp
next
  case (Cons op ops)
  note IH = Cons.IH and inv = Cons.prems
  show ?case
  proof (cases op)
    case None
    show ?thesis
    proof (cases "contents q")
      case Nil
      then show ?thesis using IH [OF inv] get_none [OF inv Nil] None by auto
    next
      case (Cons x xs)
      then obtain q1 where "get q = (Some x, q1)" "invar q1" "contents q1 = xs" "capacity q1 = capacity q" using get_some [OF inv] by blast
      then show ?thesis using IH [of q1] None Cons by auto
    qed
  next
    case (Some x)
    show ?thesis
    proof (cases "length (contents q) < capacity q")
      case True
      then obtain q1 where "put x q = (True, q1)" "invar q1" "contents q1 = contents q @ [x]" "capacity q1 = capacity q"
        using put_room [OF inv] by blast
      then show ?thesis using IH [of q1] Some True by auto
    next
      case False
      then have "put x q = (False, q)" using put_full [OF inv] within_capacity [OF inv] by simp
      then show ?thesis using IH [OF inv] Some False by auto
    qed
  qed
qed

end

section \<open>The single-producer single-consumer ring\<close>

record 'a ring_spsc =
  r_begin :: u32
  r_end :: u32
  r_ring :: "'a list"

text \<open>
  The template parameter \<open>MaxSize\<close> is the length of the array \<open>_ring\<close>; \<open>ring_new\<close> is the
  constructor, given the array's uninitialised contents, and its \<open>static_assert\<close> is the first
  conjunct of \<open>ring_ok\<close>.
\<close>

definition ring_new :: "'a list \<Rightarrow> 'a ring_spsc" where
  "ring_new storage = \<lparr>r_begin = 0, r_end = 0, r_ring = storage\<rparr>"

definition slot_idx :: "nat \<Rightarrow> u32 \<Rightarrow> nat" where
  "slot_idx max_size w = unat (w AND (of_nat max_size - 1))"

definition ring_size :: "'a ring_spsc \<Rightarrow> u32" where
  "ring_size r = r_end r - r_begin r"

definition ring_empty :: "'a ring_spsc \<Rightarrow> bool" where
  "ring_empty r \<longleftrightarrow> r_begin r = r_end r"

definition ring_emplace :: "'a \<Rightarrow> 'a ring_spsc \<Rightarrow> bool \<times> 'a ring_spsc" where
  "ring_emplace x r =
     (let e = r_end r; n = length (r_ring r) in
      if ring_size r \<ge> of_nat n then (False, r)
      else (True, r\<lparr>r_ring := (r_ring r)[slot_idx n e := x], r_end := e + 1\<rparr>))"

definition ring_push :: "'a \<Rightarrow> 'a ring_spsc \<Rightarrow> bool \<times> 'a ring_spsc" where
  "ring_push x r = ring_emplace x r"

definition ring_pop :: "'a ring_spsc \<Rightarrow> 'a option \<times> 'a ring_spsc" where
  "ring_pop r =
     (let b = r_begin r in
      if ring_empty r then (None, r)
      else (Some (r_ring r ! slot_idx (length (r_ring r)) b), r\<lparr>r_begin := b + 1\<rparr>))"

text \<open>\<open>front\<close> of an empty ring fails its \<open>DEBUG_ASSERT\<close>.\<close>

definition ring_front :: "'a ring_spsc \<Rightarrow> 'a option" where
  "ring_front r =
     (if ring_empty r then None else Some (r_ring r ! slot_idx (length (r_ring r)) (r_begin r)))"

definition ring_ok :: "'a ring_spsc \<Rightarrow> bool" where
  "ring_ok r \<longleftrightarrow> (\<exists>k<32. length (r_ring r) = 2 ^ k) \<and> unat (ring_size r) \<le> length (r_ring r)"

definition ring_list :: "'a ring_spsc \<Rightarrow> 'a list" where
  "ring_list r =
     map (\<lambda>i. r_ring r ! slot_idx (length (r_ring r)) (r_begin r + of_nat i)) [0..<unat (ring_size r)]"

subsection \<open>Index arithmetic\<close>

lemma slot_idx_mod [ring_simps]:
  assumes "k < 32"
  shows "slot_idx (2 ^ k) w = unat w mod 2 ^ k"
  unfolding slot_idx_def using unat_and_mask [of k w] assms by simp

lemma slot_idx_less: "k < 32 \<Longrightarrow> slot_idx (2 ^ k) w < 2 ^ k"
  by (simp add: slot_idx_mod)

lemma slot_idx_add:
  assumes "k < 32"
  shows "slot_idx (2 ^ k) (w + of_nat i) = (slot_idx (2 ^ k) w + i) mod 2 ^ k"
proof -
  have "unat (w + of_nat i) = (unat w + i) mod 2 ^ 32"
    by (simp add: unat_word_ariths unsigned_of_nat take_bit_eq_mod mod_add_right_eq)
  then show ?thesis
    using assms pow2_dvd_pow2_32 [OF assms] by (simp add: slot_idx_mod mod_mod_cancel mod_add_left_eq)
qed

lemma slot_idx_inj:
  assumes "k < 32" "i < 2 ^ k" "j < 2 ^ k"
    and "slot_idx (2 ^ k) (w + of_nat i) = slot_idx (2 ^ k) (w + of_nat j)"
  shows "i = j"
  using assms by (auto simp: slot_idx_add intro: add_mod_inj)

lemma unat_of_pow2: "k < 32 \<Longrightarrow> unat (of_nat (2 ^ k) :: u32) = 2 ^ k"
  using power_strict_increasing [of k 32 "2::nat"]
  by (simp add: unsigned_of_nat take_bit_eq_mod del: of_nat_power of_nat_numeral)

lemma size_less_iff:
  fixes w :: u32
  assumes "k < 32"
  shows "w < of_nat (2 ^ k) \<longleftrightarrow> unat w < 2 ^ k"
  using assms by (simp only: word_less_nat_alt unat_of_pow2)

lemma ring_end_eq: "r_end r = r_begin r + of_nat (unat (ring_size r))"
  by (simp add: ring_size_def)

lemma unat_add_one:
  fixes w :: u32
  assumes "unat w < 2 ^ k" "k < 32"
  shows "unat (w + 1) = Suc (unat w)"
proof -
  have "(2::nat) ^ k \<le> 2 ^ 31"
    using assms(2) by (intro power_increasing) auto
  then have "unat w + 1 < 2 ^ 32"
    using assms(1) by simp
  then show ?thesis
    by (simp add: unat_word_ariths)
qed

subsection \<open>The ring is a bounded queue\<close>

lemma length_ring_list [simp]: "length (ring_list r) = unat (ring_size r)"
  by (simp add: ring_list_def)

lemma ring_ok_obtain:
  assumes "ring_ok r"
  obtains k where "k < 32" "length (r_ring r) = 2 ^ k" "unat (ring_size r) \<le> 2 ^ k"
  using assms by (auto simp: ring_ok_def)

lemma ring_empty_iff: "ring_empty r \<longleftrightarrow> ring_list r = []"
proof -
  have "ring_list r = [] \<longleftrightarrow> unat (ring_size r) = 0"
    by (metis length_0_conv length_ring_list)
  then show ?thesis
    by (auto simp: ring_empty_def ring_size_def unsigned_eq_0_iff)
qed

lemma ring_list_begin:
  assumes "\<not> ring_empty r"
  shows "ring_list r = r_ring r ! slot_idx (length (r_ring r)) (r_begin r) # ring_list (r\<lparr>r_begin := r_begin r + 1\<rparr>)"
proof -
  let ?n = "unat (ring_size r)"
  have nz: "r_end r - r_begin r \<noteq> 0"
    using assms by (simp add: ring_empty_def)
  then have n: "?n = Suc (?n - 1)"
    by (simp add: ring_size_def unat_gt_0)
  have sz: "unat (ring_size (r\<lparr>r_begin := r_begin r + 1\<rparr>)) = ?n - 1"
    using unat_minus_one [OF nz] by (simp add: ring_size_def diff_diff_eq)
  have "[0..<?n] = 0 # map Suc [0..<?n - 1]"
    by (subst n) (simp add: map_Suc_upt upt_conv_Cons)
  then show ?thesis
    by (simp add: ring_list_def sz add.assoc o_def)
qed

lemma ring_list_end:
  assumes "k < 32" "length (r_ring r) = 2 ^ k" "unat (ring_size r) < 2 ^ k"
  shows "ring_list (r\<lparr>r_ring := (r_ring r)[slot_idx (2 ^ k) (r_end r) := x], r_end := r_end r + 1\<rparr>)
           = ring_list r @ [x]" (is "ring_list ?r' = _")
proof (rule nth_equalityI)
  have "ring_size ?r' = ring_size r + 1"
    by (simp add: ring_size_def)
  then have sz: "unat (ring_size ?r') = Suc (unat (ring_size r))"
    using unat_add_one [OF assms(3,1)] by simp
  then show "length (ring_list ?r') = length (ring_list r @ [x])"
    by simp
  fix i assume "i < length (ring_list ?r')"
  then have i: "i \<le> unat (ring_size r)" using sz by simp
  let ?j = "slot_idx (2 ^ k) (r_begin r + of_nat i)"
  let ?e = "slot_idx (2 ^ k) (r_begin r + of_nat (unat (ring_size r)))"
  have eq: "?e = ?j \<longleftrightarrow> i = unat (ring_size r)"
    using slot_idx_inj [OF assms(1), of i "unat (ring_size r)" "r_begin r"] i assms(3) by auto
  have len: "?e < length (r_ring r)"
    using assms slot_idx_less by simp
  have "ring_list ?r' ! i = (r_ring r)[?e := x] ! ?j"
    using i sz assms(2) ring_end_eq [of r] by (simp add: ring_list_def del: upt_Suc)
  also have "\<dots> = (ring_list r @ [x]) ! i"
    using i eq len assms(2) by (auto simp: ring_list_def nth_append nth_list_update)
  finally show "ring_list ?r' ! i = (ring_list r @ [x]) ! i" .
qed

lemma ring_put_full:
  assumes "ring_ok r" "length (ring_list r) = length (r_ring r)"
  shows "ring_push x r = (False, r)"
proof -
  from assms(1) obtain k where k: "k < 32" "length (r_ring r) = 2 ^ k"
    by (rule ring_ok_obtain)
  then have "\<not> ring_size r < of_nat (2 ^ k)"
    using assms(2) by (simp add: size_less_iff del: of_nat_power of_nat_numeral)
  then show ?thesis
    using k by (simp add: ring_push_def ring_emplace_def Let_def not_less)
qed

lemma ring_put_room:
  assumes "ring_ok r" "length (ring_list r) < length (r_ring r)"
  shows "\<exists>r'. ring_push x r = (True, r') \<and> ring_ok r' \<and> ring_list r' = ring_list r @ [x]
           \<and> length (r_ring r') = length (r_ring r)"
proof -
  from assms(1) obtain k where k: "k < 32" "length (r_ring r) = 2 ^ k" "unat (ring_size r) \<le> 2 ^ k"
    by (rule ring_ok_obtain)
  then have lt: "unat (ring_size r) < 2 ^ k" using assms(2) by simp
  let ?r' = "r\<lparr>r_ring := (r_ring r)[slot_idx (2 ^ k) (r_end r) := x], r_end := r_end r + 1\<rparr>"
  have push: "ring_push x r = (True, ?r')"
    using k lt size_less_iff [OF k(1)] by (simp add: ring_push_def ring_emplace_def Let_def not_le)
  have "length (ring_list ?r') = Suc (unat (ring_size r))"
    using ring_list_end [OF k(1,2) lt] by simp
  then have "ring_ok ?r'"
    using k lt by (auto simp: ring_ok_def)
  then show ?thesis
    using push ring_list_end [OF k(1,2) lt] by auto
qed

lemma ring_get_some:
  assumes "ring_ok r" "ring_list r = x # xs"
  shows "\<exists>r'. ring_pop r = (Some x, r') \<and> ring_ok r' \<and> ring_list r' = xs
           \<and> length (r_ring r') = length (r_ring r)"
proof -
  let ?r' = "r\<lparr>r_begin := r_begin r + 1\<rparr>"
  have ne: "\<not> ring_empty r" using assms(2) by (simp add: ring_empty_iff)
  then have list: "ring_list ?r' = xs" "x = r_ring r ! slot_idx (length (r_ring r)) (r_begin r)"
    using ring_list_begin [OF ne] assms(2) by auto
  have "unat (ring_size ?r') \<le> unat (ring_size r)"
    using list(1) assms(2) length_ring_list [of ?r'] length_ring_list [of r] by simp
  then have "ring_ok ?r'"
    using assms(1) by (auto simp: ring_ok_def)
  then show ?thesis
    using ne list by (auto simp: ring_pop_def Let_def)
qed

interpretation ring: bounded_fifo ring_ok ring_list "\<lambda>r. length (r_ring r)" ring_push ring_pop
proof unfold_locales
  fix r :: "'a ring_spsc" and x :: 'a and xs
  show "\<lbrakk>ring_ok r; length (ring_list r) = length (r_ring r)\<rbrakk> \<Longrightarrow> ring_push x r = (False, r)"
    by (rule ring_put_full)
  show "\<lbrakk>ring_ok r; length (ring_list r) < length (r_ring r)\<rbrakk> \<Longrightarrow>
      \<exists>r'. ring_push x r = (True, r') \<and> ring_ok r' \<and> ring_list r' = ring_list r @ [x]
        \<and> length (r_ring r') = length (r_ring r)"
    by (rule ring_put_room)
  show "\<lbrakk>ring_ok r; ring_list r = []\<rbrakk> \<Longrightarrow> ring_pop r = (None, r)"
    by (simp add: ring_pop_def ring_empty_iff Let_def)
  show "\<lbrakk>ring_ok r; ring_list r = x # xs\<rbrakk> \<Longrightarrow>
      \<exists>r'. ring_pop r = (Some x, r') \<and> ring_ok r' \<and> ring_list r' = xs \<and> length (r_ring r') = length (r_ring r)"
    by (rule ring_get_some)
  show "ring_ok r \<Longrightarrow> length (ring_list r) \<le> length (r_ring r)"
    by (auto simp: ring_ok_def)
qed


section \<open>Interleaving the loads and stores of push and pop\<close>

text \<open>
  \<open>emplace\<close> loads \<open>_end\<close>, loads \<open>_begin\<close> and compares, stores the element and then stores
  \<open>_end\<close>; \<open>pop\<close> loads \<open>_begin\<close>, loads \<open>_end\<close> and compares, reads the element and then stores
  \<open>_begin\<close>. The lists \<open>s_pushed\<close> and \<open>s_popped\<close> record the completed calls.
\<close>

datatype 'a producer = P_idle | P_loaded 'a u32 | P_checked 'a u32 | P_stored 'a u32

datatype 'a consumer = C_idle | C_loaded u32 | C_checked u32 | C_read u32 'a

record 'a ring_sys =
  s_ring :: "'a ring_spsc"
  s_prod :: "'a producer"
  s_cons :: "'a consumer"
  s_pushed :: "'a list"
  s_popped :: "'a list"

inductive ring_step :: "'a ring_sys \<Rightarrow> 'a ring_sys \<Rightarrow> bool" where
  p_load: "s_prod s = P_idle \<Longrightarrow> ring_step s (s\<lparr>s_prod := P_loaded x (r_end (s_ring s))\<rparr>)"
| p_full: "\<lbrakk>s_prod s = P_loaded x e; ring_size (s_ring s) \<ge> of_nat (length (r_ring (s_ring s)))\<rbrakk> \<Longrightarrow>
    ring_step s (s\<lparr>s_prod := P_idle\<rparr>)"
| p_check: "\<lbrakk>s_prod s = P_loaded x e; \<not> ring_size (s_ring s) \<ge> of_nat (length (r_ring (s_ring s)))\<rbrakk> \<Longrightarrow>
    ring_step s (s\<lparr>s_prod := P_checked x e\<rparr>)"
| p_store: "s_prod s = P_checked x e \<Longrightarrow>
    ring_step s (s\<lparr>s_ring := (s_ring s)\<lparr>r_ring := (r_ring (s_ring s))[slot_idx (length (r_ring (s_ring s))) e := x]\<rparr>,
                   s_prod := P_stored x e\<rparr>)"
| p_commit: "s_prod s = P_stored x e \<Longrightarrow>
    ring_step s (s\<lparr>s_ring := (s_ring s)\<lparr>r_end := e + 1\<rparr>, s_prod := P_idle, s_pushed := s_pushed s @ [x]\<rparr>)"
| c_load: "s_cons s = C_idle \<Longrightarrow> ring_step s (s\<lparr>s_cons := C_loaded (r_begin (s_ring s))\<rparr>)"
| c_empty: "\<lbrakk>s_cons s = C_loaded b; ring_empty (s_ring s)\<rbrakk> \<Longrightarrow> ring_step s (s\<lparr>s_cons := C_idle\<rparr>)"
| c_check: "\<lbrakk>s_cons s = C_loaded b; \<not> ring_empty (s_ring s)\<rbrakk> \<Longrightarrow> ring_step s (s\<lparr>s_cons := C_checked b\<rparr>)"
| c_read: "s_cons s = C_checked b \<Longrightarrow>
    ring_step s (s\<lparr>s_cons := C_read b (r_ring (s_ring s) ! slot_idx (length (r_ring (s_ring s))) b)\<rparr>)"
| c_commit: "s_cons s = C_read b v \<Longrightarrow>
    ring_step s (s\<lparr>s_ring := (s_ring s)\<lparr>r_begin := b + 1\<rparr>, s_cons := C_idle, s_popped := s_popped s @ [v]\<rparr>)"

definition ring_start :: "'a list \<Rightarrow> 'a ring_sys" where
  "ring_start storage =
     \<lparr>s_ring = ring_new storage, s_prod = P_idle, s_cons = C_idle, s_pushed = [], s_popped = []\<rparr>"

definition prod_ok :: "'a ring_spsc \<Rightarrow> 'a producer \<Rightarrow> bool" where
  "prod_ok r p \<longleftrightarrow> (case p of
       P_idle \<Rightarrow> True
     | P_loaded x e \<Rightarrow> e = r_end r
     | P_checked x e \<Rightarrow> e = r_end r \<and> unat (ring_size r) < length (r_ring r)
     | P_stored x e \<Rightarrow> e = r_end r \<and> unat (ring_size r) < length (r_ring r)
         \<and> r_ring r ! slot_idx (length (r_ring r)) e = x)"

definition cons_ok :: "'a ring_spsc \<Rightarrow> 'a consumer \<Rightarrow> bool" where
  "cons_ok r c \<longleftrightarrow> (case c of
       C_idle \<Rightarrow> True
     | C_loaded b \<Rightarrow> b = r_begin r
     | C_checked b \<Rightarrow> b = r_begin r \<and> \<not> ring_empty r
     | C_read b v \<Rightarrow> b = r_begin r \<and> (\<exists>xs. ring_list r = v # xs))"

definition sys_ok :: "'a ring_sys \<Rightarrow> bool" where
  "sys_ok s \<longleftrightarrow> ring_ok (s_ring s) \<and> s_pushed s = s_popped s @ ring_list (s_ring s)
     \<and> prod_ok (s_ring s) (s_prod s) \<and> cons_ok (s_ring s) (s_cons s)"

lemma sys_ok_start:
  assumes "k < 32" "length storage = 2 ^ k"
  shows "sys_ok (ring_start storage)"
  using assms by (auto simp: sys_ok_def ring_start_def ring_new_def ring_ok_def ring_size_def
      ring_list_def prod_ok_def cons_ok_def)

lemma ring_list_store:
  assumes "ring_ok r" "unat (ring_size r) < length (r_ring r)"
  shows "ring_list (r\<lparr>r_ring := (r_ring r)[slot_idx (length (r_ring r)) (r_end r) := x]\<rparr>) = ring_list r"
proof -
  from assms(1) obtain k where k: "k < 32" "length (r_ring r) = 2 ^ k"
    by (rule ring_ok_obtain)
  have "slot_idx (2 ^ k) (r_end r) \<noteq> slot_idx (2 ^ k) (r_begin r + of_nat i)"
    if "i < unat (ring_size r)" for i
    using slot_idx_inj [OF k(1), of "unat (ring_size r)" i "r_begin r"] that assms(2) k ring_end_eq [of r]
    by auto
  then show ?thesis
    using k by (auto simp: ring_list_def ring_size_def)
qed

lemma ring_list_commit:
  assumes "ring_ok r" "unat (ring_size r) < length (r_ring r)"
    and "r_ring r ! slot_idx (length (r_ring r)) (r_end r) = x"
  shows "ring_ok (r\<lparr>r_end := r_end r + 1\<rparr>) \<and> ring_list (r\<lparr>r_end := r_end r + 1\<rparr>) = ring_list r @ [x]"
proof -
  from assms(1) obtain k where k: "k < 32" "length (r_ring r) = 2 ^ k"
    by (rule ring_ok_obtain)
  have "(r_ring r)[slot_idx (2 ^ k) (r_end r) := x] = r_ring r"
    using assms(3) k(2) list_update_id by metis
  then have list: "ring_list (r\<lparr>r_end := r_end r + 1\<rparr>) = ring_list r @ [x]"
    using ring_list_end [OF k, of x] assms(2) k(2) by simp
  have "unat (ring_size (r\<lparr>r_end := r_end r + 1\<rparr>)) = Suc (unat (ring_size r))"
    using arg_cong [OF list, of length] by simp
  then show ?thesis
    using list assms(2) k by (auto simp: ring_ok_def)
qed


lemma sys_ok_p_store:
  assumes "sys_ok s" "s_prod s = P_checked x e"
  shows "sys_ok (s\<lparr>s_ring := (s_ring s)\<lparr>r_ring := (r_ring (s_ring s))[slot_idx (length (r_ring (s_ring s))) e := x]\<rparr>,
                   s_prod := P_stored x e\<rparr>)"
proof -
  let ?r = "s_ring s"
  let ?r' = "?r\<lparr>r_ring := (r_ring ?r)[slot_idx (length (r_ring ?r)) e := x]\<rparr>"
  have r: "ring_ok ?r" "e = r_end ?r" "unat (ring_size ?r) < length (r_ring ?r)"
    using assms by (auto simp: sys_ok_def prod_ok_def)
  then have list: "ring_list ?r' = ring_list ?r"
    using ring_list_store by simp
  moreover have "slot_idx (length (r_ring ?r)) e < length (r_ring ?r)"
    using r(1) slot_idx_less by (metis ring_ok_obtain)
  ultimately show ?thesis
    using assms r by (auto simp: sys_ok_def prod_ok_def cons_ok_def ring_ok_def ring_size_def
        ring_empty_def split: consumer.splits)
qed

lemma sys_ok_p_commit:
  assumes "sys_ok s" "s_prod s = P_stored x e"
  shows "sys_ok (s\<lparr>s_ring := (s_ring s)\<lparr>r_end := e + 1\<rparr>, s_prod := P_idle, s_pushed := s_pushed s @ [x]\<rparr>)"
proof -
  let ?r = "s_ring s"
  have e: "e = r_end ?r" using assms by (simp add: sys_ok_def prod_ok_def)
  have new: "ring_ok (?r\<lparr>r_end := e + 1\<rparr>)" "ring_list (?r\<lparr>r_end := e + 1\<rparr>) = ring_list ?r @ [x]"
    using ring_list_commit [of ?r x] assms by (auto simp: sys_ok_def prod_ok_def)
  then show ?thesis
    using assms by (auto simp: sys_ok_def prod_ok_def cons_ok_def ring_empty_iff split: consumer.splits)
qed

lemma sys_ok_c_commit:
  assumes "sys_ok s" "s_cons s = C_read b v"
  shows "sys_ok (s\<lparr>s_ring := (s_ring s)\<lparr>r_begin := b + 1\<rparr>, s_cons := C_idle, s_popped := s_popped s @ [v]\<rparr>)"
proof -
  let ?r = "s_ring s"
  let ?r' = "?r\<lparr>r_begin := b + 1\<rparr>"
  from assms obtain xs where b: "b = r_begin ?r" "ring_ok ?r" and xs: "ring_list ?r = v # xs"
    by (auto simp: sys_ok_def cons_ok_def)
  then have new: "ring_ok ?r'" "ring_list ?r' = xs"
    using ring_get_some [OF b(2) xs] by (auto simp: ring_pop_def Let_def ring_empty_iff)
  have "unat (ring_size ?r') < unat (ring_size ?r)"
    using new(2) xs length_ring_list [of ?r'] length_ring_list [of ?r] by simp
  then show ?thesis
    using assms new xs b by (auto simp: sys_ok_def prod_ok_def cons_ok_def split: producer.splits)
qed

lemma sys_ok_step: "ring_step s t \<Longrightarrow> sys_ok s \<Longrightarrow> sys_ok t"
proof (induction rule: ring_step.induct)
  case (p_check s x e)
  from p_check(3) obtain k where k: "k < 32" "length (r_ring (s_ring s)) = 2 ^ k"
    by (auto simp: sys_ok_def elim: ring_ok_obtain)
  then have "unat (ring_size (s_ring s)) < length (r_ring (s_ring s))"
    using p_check(2) size_less_iff [OF k(1)] by (simp add: not_le)
  with p_check show ?case by (auto simp: sys_ok_def prod_ok_def)
next
  case (p_store s x e)
  then show ?case by (intro sys_ok_p_store)
next
  case (p_commit s x e)
  then show ?case by (intro sys_ok_p_commit)
next
  case (c_read s b)
  then show ?case
    using ring_list_begin [of "s_ring s"] by (auto simp: sys_ok_def cons_ok_def)
next
  case (c_commit s b v)
  then show ?case by (intro sys_ok_c_commit)
qed (auto simp: sys_ok_def prod_ok_def cons_ok_def)

lemma sys_ok_reach: "ring_step\<^sup>*\<^sup>* s t \<Longrightarrow> sys_ok s \<Longrightarrow> sys_ok t"
  by (induction rule: rtranclp_induct) (auto intro: sys_ok_step)

section \<open>One ring per CPU: the unordered MPSC ring\<close>

text \<open>
  \<open>emplace\<close> asserts that the current CPU has a ring; an abort is \<open>None\<close>. The draining iterator
  keeps an index and the element it last popped.
\<close>

definition mpsc_emplace :: "nat \<Rightarrow> 'a \<Rightarrow> 'a ring_spsc list \<Rightarrow> (bool \<times> 'a ring_spsc list) option" where
  "mpsc_emplace cpu x rings =
     (if cpu < length rings
      then (let (ok, r) = ring_emplace x (rings ! cpu) in Some (ok, rings[cpu := r]))
      else None)"

function mpsc_advance_loop :: "nat \<Rightarrow> 'a ring_spsc list \<Rightarrow> nat \<times> 'a option \<times> 'a ring_spsc list" where
  "mpsc_advance_loop idx rings =
     (let i = Suc idx in
      if i < length rings
      then (case ring_pop (rings ! i) of
              (Some x, r) \<Rightarrow> (i, Some x, rings[i := r])
            | (None, r) \<Rightarrow> mpsc_advance_loop i (rings[i := r]))
      else (i, None, rings))"
  by pat_completeness auto
termination
  by (relation "measure (\<lambda>(idx, rings). length rings - idx)") auto

definition mpsc_advance :: "nat \<Rightarrow> 'a ring_spsc list \<Rightarrow> nat \<times> 'a option \<times> 'a ring_spsc list" where
  "mpsc_advance idx rings =
     (if idx \<ge> length rings then (idx, None, rings)
      else case ring_pop (rings ! idx) of
             (Some x, r) \<Rightarrow> (idx, Some x, rings[idx := r])
           | (None, r) \<Rightarrow> mpsc_advance_loop idx (rings[idx := r]))"

declare mpsc_advance_loop.simps [simp del]

text \<open>The elements still in the rings bound the number of iterations of a drain.\<close>

definition mpsc_count :: "'a ring_spsc list \<Rightarrow> nat" where
  "mpsc_count rings = (\<Sum>r\<leftarrow>rings. unat (ring_size r))"

lemma ring_pop_None: "ring_pop r = (None, r') \<Longrightarrow> r' = r \<and> ring_list r = []"
  by (auto simp: ring_pop_def Let_def ring_empty_iff split: if_splits)

lemma ring_pop_Some: "ring_pop r = (Some x, r') \<Longrightarrow> ring_list r = x # ring_list r'"
  using ring_list_begin [of r] by (auto simp: ring_pop_def Let_def split: if_splits)


definition mpsc_rest :: "nat \<Rightarrow> 'a ring_spsc list \<Rightarrow> 'a list" where
  "mpsc_rest idx rings = concat (map ring_list (drop idx rings))"

lemma mpsc_rest_pop:
  assumes "idx < length rings" "ring_pop (rings ! idx) = (Some x, r)"
  shows "mpsc_rest idx rings = x # mpsc_rest idx (rings[idx := r])"
proof -
  have "drop idx rings = rings ! idx # drop (Suc idx) rings"
    "drop idx (rings[idx := r]) = r # drop (Suc idx) rings"
    using assms(1) by (simp_all add: Cons_nth_drop_Suc [symmetric])
  then show ?thesis
    using ring_pop_Some [OF assms(2)] by (simp add: mpsc_rest_def)
qed

lemma mpsc_rest_skip:
  assumes "idx < length rings" "ring_pop (rings ! idx) = (None, r)"
  shows "rings[idx := r] = rings \<and> mpsc_rest idx rings = mpsc_rest (Suc idx) rings"
  using ring_pop_None [OF assms(2)] assms(1)
  by (simp add: mpsc_rest_def Cons_nth_drop_Suc [symmetric])

lemma mpsc_advance_loop_spec:
  assumes "mpsc_advance_loop idx rings = (i, e, rings')" "idx < length rings"
    and "\<forall>j\<le>idx. ring_list (rings ! j) = []"
  shows "length rings' = length rings \<and> i \<le> length rings \<and> (\<forall>j<i. ring_list (rings' ! j) = [])
     \<and> (case e of None \<Rightarrow> i = length rings \<and> mpsc_rest (Suc idx) rings = []
         | Some x \<Rightarrow> i < length rings \<and> mpsc_rest (Suc idx) rings = x # mpsc_rest i rings')"
  using assms
proof (induction idx rings rule: mpsc_advance_loop.induct)
  case (1 idx rings)
  show ?case
  proof (cases "Suc idx < length rings")
    case False
    then show ?thesis
      using "1.prems" by (auto simp: mpsc_advance_loop.simps [of idx rings] Let_def mpsc_rest_def)
  next
    case True
    obtain o1 r where pop: "ring_pop (rings ! Suc idx) = (o1, r)" by fastforce
    show ?thesis
    proof (cases o1)
      case None
      then have same: "rings[Suc idx := r] = rings" "mpsc_rest (Suc idx) rings = mpsc_rest (Suc (Suc idx)) rings"
        using mpsc_rest_skip True pop by auto
      have "\<forall>j\<le>Suc idx. ring_list (rings ! j) = []"
        using "1.prems"(3) ring_pop_None pop None by (metis le_SucE)
      then show ?thesis
        using "1.IH" [OF refl True pop [symmetric] None] "1.prems"(1) True pop None same
        by (simp add: mpsc_advance_loop.simps [of idx rings] Let_def split: option.splits)
    next
      case (Some x)
      then have "i = Suc idx" "e = Some x" "rings' = rings[Suc idx := r]"
        using "1.prems"(1) True pop by (auto simp: mpsc_advance_loop.simps [of idx rings] Let_def)
      then show ?thesis
        using "1.prems"(3) True mpsc_rest_pop [OF True] pop Some by auto
    qed
  qed
qed

lemma mpsc_advance_spec:
  assumes "mpsc_advance idx rings = (i, e, rings')" "idx \<le> length rings"
    and "\<forall>j<idx. ring_list (rings ! j) = []"
  shows "length rings' = length rings \<and> i \<le> length rings \<and> (\<forall>j<i. ring_list (rings' ! j) = [])
     \<and> (case e of None \<Rightarrow> i = length rings \<and> mpsc_rest idx rings = []
         | Some x \<Rightarrow> i < length rings \<and> mpsc_rest idx rings = x # mpsc_rest i rings')"
proof (cases "idx < length rings")
  case False
  then show ?thesis
    using assms by (auto simp: mpsc_advance_def mpsc_rest_def)
next
  case True
  obtain o1 r where pop: "ring_pop (rings ! idx) = (o1, r)" by fastforce
  show ?thesis
  proof (cases o1)
    case None
    have "\<forall>j\<le>idx. ring_list (rings ! j) = []"
      using assms(3) ring_pop_None pop None by (metis le_neq_implies_less)
    then show ?thesis
      using mpsc_advance_loop_spec [of idx rings i e rings'] mpsc_rest_skip [OF True] assms(1) True pop None
      by (simp add: mpsc_advance_def split: option.splits)
  next
    case (Some x)
    then have "i = idx" "e = Some x" "rings' = rings[idx := r]"
      using assms(1) True pop by (auto simp: mpsc_advance_def)
    then show ?thesis
      using assms(3) True mpsc_rest_pop [OF True] pop Some by auto
  qed
qed


lemma mpsc_count_pop:
  assumes "i < length rings" "ring_pop (rings ! i) = (Some x, r)"
  shows "mpsc_count (rings[i := r]) < mpsc_count rings"
proof -
  have "unat (ring_size r) < unat (ring_size (rings ! i))"
    using arg_cong [OF ring_pop_Some [OF assms(2)], of length] by simp
  moreover have "unat (ring_size (rings ! i)) \<le> mpsc_count rings"
    unfolding mpsc_count_def using assms(1) by (intro member_le_sum_list) auto
  ultimately show ?thesis
    using assms(1) by (simp add: mpsc_count_def map_update sum_list_update)
qed

lemma mpsc_advance_loop_count:
  "mpsc_advance_loop idx rings = (i, Some x, rings') \<Longrightarrow> mpsc_count rings' < mpsc_count rings"
proof (induction idx rings rule: mpsc_advance_loop.induct)
  case (1 idx rings)
  then show ?case
    by (auto simp: mpsc_advance_loop.simps [of idx rings] Let_def mpsc_count_pop mpsc_rest_skip
        split: if_splits prod.splits option.splits)
qed

lemma mpsc_advance_count:
  "mpsc_advance idx rings = (i, Some x, rings') \<Longrightarrow> mpsc_count rings' < mpsc_count rings"
  using mpsc_advance_loop_count [of idx _ i x rings']
  by (auto simp: mpsc_advance_def mpsc_count_pop mpsc_rest_skip not_le
      split: if_splits prod.splits option.splits)

text \<open>
  The range-for over \<open>drain()\<close>: the iterator is compared with the end index before every
  element is handed out.
\<close>

function mpsc_drain_from :: "nat \<Rightarrow> 'a ring_spsc list \<Rightarrow> 'a list \<times> 'a ring_spsc list" where
  "mpsc_drain_from idx rings =
     (case mpsc_advance idx rings of (i, e, rings') \<Rightarrow>
        if i = length rings' then ([], rings')
        else (case e of
                None \<Rightarrow> ([], rings')
              | Some x \<Rightarrow> (let (xs, final) = mpsc_drain_from i rings' in (x # xs, final))))"
  by pat_completeness auto
termination
  by (relation "measure (\<lambda>(idx, rings). mpsc_count rings)") (auto dest: sym intro: mpsc_advance_count)

declare mpsc_drain_from.simps [simp del]

definition mpsc_drain :: "'a ring_spsc list \<Rightarrow> 'a list \<times> 'a ring_spsc list" where
  "mpsc_drain rings = mpsc_drain_from 0 rings"


lemma mpsc_drain_from_all:
  assumes "mpsc_drain_from idx rings = (xs, final)" "idx \<le> length rings"
    and "\<forall>j<idx. ring_list (rings ! j) = []"
  shows "xs = mpsc_rest idx rings \<and> length final = length rings \<and> (\<forall>j<length final. ring_list (final ! j) = [])"
  using assms
proof (induction idx rings arbitrary: xs rule: mpsc_drain_from.induct)
  case (1 idx rings)
  obtain i e rings' where adv: "mpsc_advance idx rings = (i, e, rings')"
    by (metis prod_cases3)
  note spec = mpsc_advance_spec [OF adv "1.prems"(2,3)]
  show ?case
  proof (cases e)
    case None
    then show ?thesis
      using spec "1.prems"(1) adv by (auto simp: mpsc_drain_from.simps [of idx rings])
  next
    case (Some x)
    obtain ys where ys: "mpsc_drain_from i rings' = (ys, final)" "xs = x # ys"
      using spec "1.prems"(1) adv Some
      by (auto simp: mpsc_drain_from.simps [of idx rings] split: prod.splits)
    then show ?thesis
      using "1.IH" [OF adv [symmetric] refl _ Some ys(1)] spec Some by simp
  qed
qed


section \<open>Properties\<close>

text \<open>C31: a \<open>ring_spsc\<close> is a bounded first-in first-out queue of \<open>MaxSize\<close> elements: in any sequence of \<open>push\<close> and \<open>pop\<close> calls every call returns what it
  returns on a list of at most \<open>MaxSize\<close> elements (\<open>push\<close> succeeds unless the list is full, \<open>pop\<close> fails only when it is empty and takes the oldest element
  otherwise), and the ring holds that list. The 32-bit indices may wrap around.\<close>

theorem ring_run_fifo:
  assumes "ring_ok r"
  shows "\<exists>r'. queue_run ring_push ring_pop ops r = (fst (bounded_run (length (r_ring r)) ops (ring_list r)), r') \<and>
    ring_ok r' \<and> length (r_ring r') = length (r_ring r) \<and> ring_list r' = snd (bounded_run (length (r_ring r)) ops (ring_list r))"
  using assms by (rule ring.run_fifo)

theorem ring_run_fifo_witness:
  "fst (queue_run ring_push ring_pop [Some 7, Some 8, Some 9, None, Some 5, None] \<lparr>r_begin = 4294967295, r_end = 4294967295, r_ring = [0, 0 :: nat]\<rparr>)
     = [Inl True, Inl True, Inl False, Inr (Some 7), Inl True, Inr (Some 8)]"
proof -
  let ?r = "\<lparr>r_begin = 4294967295, r_end = 4294967295, r_ring = [0, 0 :: nat]\<rparr>"
  have "ring_ok ?r"
    unfolding ring_ok_def by (intro conjI exI [of _ 1]) (simp_all add: ring_size_def)
  moreover have "ring_list ?r = []" by (simp add: ring_list_def ring_size_def)
  ultimately show ?thesis
    using ring_run_fifo [of ?r "[Some 7, Some 8, Some 9, None, Some 5, None]"] by auto
qed

text \<open>C19: in every interleaving of the loads and stores of one producer and one consumer, starting
  from a new ring whose size is a power of two, the elements whose \<open>pop\<close> has completed are a prefix
  of those whose \<open>push\<close> has completed, and the rest is in the ring, which never holds more than
  \<open>MaxSize\<close> elements.\<close>

theorem ring_interleaving_fifo:
  assumes "k < 32" "length storage = 2 ^ k" "ring_step\<^sup>*\<^sup>* (ring_start storage) s"
  shows "s_pushed s = s_popped s @ ring_list (s_ring s)
         \<and> length (ring_list (s_ring s)) \<le> length (r_ring (s_ring s))"
proof -
  have "sys_ok s"
    using sys_ok_reach [OF assms(3)] sys_ok_start [OF assms(1,2)] by simp
  then show ?thesis
    by (auto simp: sys_ok_def ring_ok_def)
qed

text \<open>The run of the witness interleaves the two calls: the consumer finds the ring empty between
  the producer's store of the element and its store of \<open>_end\<close>.\<close>

lemma ring_interleaving_run:
  "ring_step\<^sup>*\<^sup>* (ring_start [0, 0 :: nat])
     \<lparr>s_ring = \<lparr>r_begin = 0, r_end = 1, r_ring = [7, 0]\<rparr>, s_prod = P_idle, s_cons = C_idle,
      s_pushed = [7], s_popped = []\<rparr>"
proof -
  let ?s = "\<lambda>r p c. \<lparr>s_ring = r, s_prod = p, s_cons = c, s_pushed = [], s_popped = [] :: nat list\<rparr>"
  let ?r0 = "\<lparr>r_begin = 0, r_end = 0, r_ring = [0, 0 :: nat]\<rparr>"
  let ?r1 = "\<lparr>r_begin = 0, r_end = 0, r_ring = [7, 0 :: nat]\<rparr>"
  let ?goal = "\<lparr>s_ring = \<lparr>r_begin = 0, r_end = 1, r_ring = [7, 0 :: nat]\<rparr>, s_prod = P_idle,
      s_cons = C_idle, s_pushed = [7], s_popped = []\<rparr>"
  have "ring_step (ring_start [0, 0]) (?s ?r0 (P_loaded 7 0) C_idle)"
    using ring_step.p_load [of "ring_start [0, 0 :: nat]" 7] by (simp add: ring_start_def ring_new_def)
  moreover have "ring_step (?s ?r0 (P_loaded 7 0) C_idle) (?s ?r0 (P_checked 7 0) C_idle)"
    using ring_step.p_check [of "?s ?r0 (P_loaded 7 0) C_idle" 7 0] by (simp add: ring_size_def)
  moreover have "ring_step (?s ?r0 (P_checked 7 0) C_idle) (?s ?r1 (P_stored 7 0) C_idle)"
    using ring_step.p_store [of "?s ?r0 (P_checked 7 0) C_idle" 7 0] by (simp add: slot_idx_def)
  moreover have "ring_step (?s ?r1 (P_stored 7 0) C_idle) (?s ?r1 (P_stored 7 0) (C_loaded 0))"
    using ring_step.c_load [of "?s ?r1 (P_stored 7 0) C_idle"] by simp
  moreover have "ring_step (?s ?r1 (P_stored 7 0) (C_loaded 0)) (?s ?r1 (P_stored 7 0) C_idle)"
    using ring_step.c_empty [of "?s ?r1 (P_stored 7 0) (C_loaded 0)" 0] by (simp add: ring_empty_def)
  moreover have "ring_step (?s ?r1 (P_stored 7 0) C_idle) ?goal"
    using ring_step.p_commit [of "?s ?r1 (P_stored 7 0) C_idle" 7 0] by simp
  ultimately show ?thesis
    by (meson converse_rtranclp_into_rtranclp rtranclp.rtrancl_refl)
qed

theorem ring_interleaving_fifo_witness:
  "s_pushed \<lparr>s_ring = \<lparr>r_begin = 0, r_end = 1, r_ring = [7, 0 :: nat]\<rparr>, s_prod = P_idle, s_cons = C_idle,
      s_pushed = [7], s_popped = []\<rparr> = [] @ ring_list \<lparr>r_begin = 0, r_end = 1, r_ring = [7, 0]\<rparr>"
  using ring_interleaving_fifo [OF _ _ ring_interleaving_run, of 1] by simp

text \<open>C34: draining an \<open>unordered_ring_mpsc\<close> terminates, hands out every element of every CPU's ring
  exactly once (each ring's elements in the order they were pushed) and leaves all rings empty.\<close>

theorem mpsc_drain_all:
  "fst (mpsc_drain rings) = concat (map ring_list rings)
   \<and> map ring_list (snd (mpsc_drain rings)) = replicate (length rings) []"
proof -
  obtain xs final where d: "mpsc_drain_from 0 rings = (xs, final)" by fastforce
  then have "xs = mpsc_rest 0 rings" "length final = length rings" "\<forall>j<length final. ring_list (final ! j) = []"
    using mpsc_drain_from_all [OF d] by auto
  then show ?thesis
    using d by (auto simp: mpsc_drain_def mpsc_rest_def intro: nth_equalityI)
qed

end
