(* ===== verification/Lockfree_Queue.thy ===== *)
theory Lockfree_Queue
  imports Linked_List Lockfree_Ring
begin

text \<open>
  The lock-free linked queues: \<open>queue_mpsc\<close> (\<^verbatim>\<open>include/lockfree/queue-mpsc.hh\<close>, the wait queue
  of the mutex), \<open>unordered_queue_mpsc\<close> and \<open>unordered_queue_spsc\<close>
  (\<^verbatim>\<open>include/lockfree/unordered-queue-mpsc.hh\<close>, \<^verbatim>\<open>unordered-queue-spsc.hh\<close>). Items are addresses
  and every item has a \<open>next\<close> pointer in the heap. The locale \<open>item_bag\<close> states what an unordered
  collection promises, \<open>item_fifo\<close> extends it to a queue; both are interpreted on the code's
  queues. The last part interleaves any number of pushers with the single popper.
\<close>

section \<open>Interfaces\<close>

text \<open>
  \<open>bag q M\<close>: the collection \<open>q\<close> holds exactly the items \<open>M\<close>. An item may be pushed when it is not
  already queued. A \<open>pop\<close> that does not return is \<open>None\<close>; \<open>Some (None, q)\<close> is the null pointer.
\<close>

locale item_bag =
  fixes bag :: "'q \<Rightarrow> 'p multiset \<Rightarrow> bool"
    and push :: "'p \<Rightarrow> 'q \<Rightarrow> 'q"
    and pop :: "'q \<Rightarrow> ('p option \<times> 'q) option"
  assumes push_bag: "\<lbrakk>bag q M; x \<notin># M\<rbrakk> \<Longrightarrow> bag (push x q) (add_mset x M)"
    and pop_bag_empty: "bag q {#} \<Longrightarrow> \<exists>q'. pop q = Some (None, q') \<and> bag q' {#}"
    and pop_bag: "\<lbrakk>bag q M; M \<noteq> {#}\<rbrakk> \<Longrightarrow> \<exists>x q'. pop q = Some (Some x, q') \<and> x \<in># M \<and> bag q' (M - {#x#})"

locale item_fifo =
  fixes holds :: "'q \<Rightarrow> 'p list \<Rightarrow> bool"
    and push :: "'p \<Rightarrow> 'q \<Rightarrow> 'q"
    and pop :: "'q \<Rightarrow> ('p option \<times> 'q) option"
    and empty :: "'q \<Rightarrow> bool"
  assumes push_holds: "\<lbrakk>holds q xs; x \<notin> set xs\<rbrakk> \<Longrightarrow> holds (push x q) (xs @ [x])"
    and pop_holds_Nil: "holds q [] \<Longrightarrow> \<exists>q'. pop q = Some (None, q') \<and> holds q' []"
    and pop_holds_Cons: "holds q (x # xs) \<Longrightarrow> \<exists>q'. pop q = Some (Some x, q') \<and> holds q' xs"
    and empty_holds: "holds q xs \<Longrightarrow> empty q \<longleftrightarrow> xs = []"

sublocale item_fifo \<subseteq> item_bag "\<lambda>q M. \<exists>xs. holds q xs \<and> mset xs = M" push pop
proof unfold_locales
  fix q M x
  assume "\<exists>xs. holds q xs \<and> mset xs = M"
  then obtain xs where xs: "holds q xs" "mset xs = M" by blast
  show "x \<notin># M \<Longrightarrow> \<exists>xs. holds (push x q) xs \<and> mset xs = add_mset x M"
    using xs push_holds [OF xs(1), of x] by (intro exI [of _ "xs @ [x]"]) auto
  show "M \<noteq> {#} \<Longrightarrow> \<exists>x q'. pop q = Some (Some x, q') \<and> x \<in># M \<and> (\<exists>xs. holds q' xs \<and> mset xs = M - {#x#})"
    using xs pop_holds_Cons by (cases xs) fastforce+
next
  fix q
  show "\<exists>xs. holds q xs \<and> mset xs = {#} \<Longrightarrow> \<exists>q'. pop q = Some (None, q') \<and> (\<exists>xs. holds q' xs \<and> mset xs = {#})"
    using pop_holds_Nil by fastforce
qed

text \<open>
  The consumer's loop \<open>while ((obj = sink->pop())) ...\<close> of \<open>pool::collect_garbage\<close>, over any \<open>pop\<close>: pop until the null pointer comes back. There it
  empties an \<open>unordered_queue_mpsc\<close>; what is done with each item, and the loop over the CPUs around it, are not part of the definition.
\<close>

partial_function (option) pop_all :: "('q \<Rightarrow> ('p option \<times> 'q) option) \<Rightarrow> 'q \<Rightarrow> ('p list \<times> 'q) option" where
  "pop_all pop q =
     (case pop q of
        None \<Rightarrow> None
      | Some r \<Rightarrow> (case fst r of
          None \<Rightarrow> Some ([], snd r)
        | Some x \<Rightarrow> Option.bind (pop_all pop (snd r)) (\<lambda>r'. Some (x # fst r', snd r'))))"

context item_bag
begin

lemma fold_push_bag: "\<lbrakk>bag q M; distinct ys; \<forall>y\<in>set ys. y \<notin># M\<rbrakk> \<Longrightarrow> bag (fold push ys q) (M + mset ys)"
proof (induction ys arbitrary: q M)
  case (Cons y ys)
  then have "bag (push y q) (add_mset y M)" using push_bag by simp
  then show ?case using Cons.IH [of "push y q" "add_mset y M"] Cons.prems by auto
qed simp

lemma pop_all_bag: "bag q M \<Longrightarrow> \<exists>xs q'. pop_all pop q = Some (xs, q') \<and> mset xs = M \<and> bag q' {#}"
proof (induction "size M" arbitrary: q M)
  case 0
  then show ?case
    using pop_bag_empty [of q] by (auto simp: pop_all.simps [of pop q])
next
  case (Suc n)
  then have "M \<noteq> {#}" by auto
  with Suc.prems obtain x q1 where x: "pop q = Some (Some x, q1)" "x \<in># M" "bag q1 (M - {#x#})"
    using pop_bag by blast
  moreover have "n = size (M - {#x#})" using Suc(2) x(2) by (simp add: size_Diff_singleton)
  ultimately obtain xs q' where "pop_all pop q1 = Some (xs, q')" "mset xs = M - {#x#}" "bag q' {#}"
    using Suc(1) by blast
  with x show ?case by (auto simp: pop_all.simps [of pop q])
qed

end

context item_fifo
begin

lemma pop_all_holds: "holds q xs \<Longrightarrow> \<exists>q'. pop_all pop q = Some (xs, q') \<and> holds q' []"
proof (induction xs arbitrary: q)
  case Nil
  then show ?case
    using pop_holds_Nil [of q] by (auto simp: pop_all.simps [of pop q])
next
  case (Cons x xs)
  then obtain q1 where "pop q = Some (Some x, q1)" "holds q1 xs" using pop_holds_Cons by blast
  then show ?case
    using Cons.IH [of q1] by (auto simp: pop_all.simps [of pop q])
qed

lemma fold_push_holds: "\<lbrakk>holds q xs; distinct (xs @ ys)\<rbrakk> \<Longrightarrow> holds (fold push ys q) (xs @ ys)"
proof (induction ys arbitrary: q xs)
  case Nil
  then show ?case by simp
next
  case (Cons y ys)
  then have "holds (push y q) (xs @ [y])" by (intro push_holds) auto
  then show ?case using Cons by fastforce
qed

lemma push_pop_all: "\<lbrakk>holds q xs; distinct (xs @ ys)\<rbrakk> \<Longrightarrow> \<exists>q'. pop_all pop (fold push ys q) = Some (xs @ ys, q') \<and> holds q' []"
  using fold_push_holds pop_all_holds by blast

end


section \<open>The MPSC queue\<close>

record 'p queue_mpsc =
  pushlist :: "'p option"
  poplist :: "'p option"
  nxt :: "'p \<Rightarrow> 'p option"

definition mq_push :: "'p \<Rightarrow> 'p queue_mpsc \<Rightarrow> 'p queue_mpsc" where
  "mq_push item q = q\<lparr>nxt := (nxt q)(item := pushlist q), pushlist := Some item\<rparr>"

text \<open>The loop of \<open>pop\<close> that reverses the taken list into \<open>poplist\<close>.\<close>

partial_function (option) mq_reverse :: "'p \<Rightarrow> 'p queue_mpsc \<Rightarrow> ('p \<times> 'p queue_mpsc) option" where
  "mq_reverse r q =
     (case nxt q r of
        None \<Rightarrow> Some (r, q)
      | Some next \<Rightarrow> mq_reverse next (q\<lparr>nxt := (nxt q)(r := poplist q), poplist := Some r\<rparr>))"

definition mq_pop :: "'p queue_mpsc \<Rightarrow> ('p option \<times> 'p queue_mpsc) option" where
  "mq_pop q =
     (case poplist q of
        Some result \<Rightarrow> Some (Some result, q\<lparr>poplist := nxt q result\<rparr>)
      | None \<Rightarrow>
          (case pushlist q of
             None \<Rightarrow> Some (None, q\<lparr>pushlist := None\<rparr>)
           | Some r \<Rightarrow> (case mq_reverse r (q\<lparr>pushlist := None\<rparr>) of
               None \<Rightarrow> None
             | Some (p, q') \<Rightarrow> Some (Some p, q'))))"

definition mq_empty :: "'p queue_mpsc \<Rightarrow> bool" where
  "mq_empty q \<longleftrightarrow> poplist q = None \<and> pushlist q = None"

text \<open>The queue holds the pop list followed by the push list, oldest first.\<close>

definition mq_holds :: "'p queue_mpsc \<Rightarrow> 'p list \<Rightarrow> bool" where
  "mq_holds q xs \<longleftrightarrow> (\<exists>ps qs. xs = qs @ rev ps \<and> distinct xs
     \<and> list_at (nxt q) (pushlist q) ps \<and> list_at (nxt q) (poplist q) qs)"

lemma mq_reverse_list:
  assumes "list_at (nxt q) (Some r) (rs @ [l])" "list_at (nxt q) (poplist q) qs" "distinct (rs @ l # qs)"
  shows "\<exists>q'. mq_reverse r q = Some (l, q') \<and> list_at (nxt q') (poplist q') (rev rs @ qs) \<and> pushlist q' = pushlist q"
  using assms
proof (induction rs arbitrary: r q qs)
  case Nil
  then show ?case by (auto simp: mq_reverse.simps [of l q])
next
  case (Cons r' rs)
  then have r: "r' = r" by simp
  let ?q = "q\<lparr>nxt := (nxt q)(r := poplist q), poplist := Some r\<rparr>"
  obtain nx where n: "nxt q r = Some nx"
    using Cons.prems(1) r by (cases rs) auto
  have tail: "list_at (nxt q) (nxt q r) (rs @ [l])" and fresh: "r \<notin> set (rs @ [l])" "r \<notin> set qs"
    using Cons.prems r by auto
  have "list_at (nxt ?q) (Some nx) (rs @ [l])"
    using tail n list_at_upd [OF fresh(1), of "nxt q" "poplist q"] by simp
  moreover have "list_at (nxt ?q) (poplist ?q) (r # qs)"
    using Cons.prems(2) fresh(2) by simp
  moreover have "distinct (rs @ l # r # qs)"
    using Cons.prems(3) r by auto
  ultimately have "\<exists>q'. mq_reverse nx ?q = Some (l, q') \<and> list_at (nxt q') (poplist q') (rev rs @ r # qs)
      \<and> pushlist q' = pushlist ?q"
    by (rule Cons.IH)
  then show ?case
    using n r by (simp add: mq_reverse.simps [of r q])
qed

lemma mq_push_holds:
  assumes "mq_holds q xs" "x \<notin> set xs"
  shows "mq_holds (mq_push x q) (xs @ [x])"
proof -
  from assms(1) obtain ps qs where q: "xs = qs @ rev ps" "distinct xs"
      "list_at (nxt q) (pushlist q) ps" "list_at (nxt q) (poplist q) qs"
    by (auto simp: mq_holds_def)
  then have "list_at (nxt (mq_push x q)) (pushlist (mq_push x q)) (x # ps)"
    "list_at (nxt (mq_push x q)) (poplist (mq_push x q)) qs"
    using assms(2) by (auto simp: mq_push_def)
  then show ?thesis
    unfolding mq_holds_def using q assms(2) by (intro exI [of _ "x # ps"] exI [of _ qs]) auto
qed

lemma mq_pop_holds_Cons:
  assumes "mq_holds q (x # xs)"
  shows "\<exists>q'. mq_pop q = Some (Some x, q') \<and> mq_holds q' xs"
proof -
  from assms obtain ps qs where q: "x # xs = qs @ rev ps" "distinct (x # xs)"
      "list_at (nxt q) (pushlist q) ps" "list_at (nxt q) (poplist q) qs"
    unfolding mq_holds_def by blast
  show ?thesis
  proof (cases qs)
    case (Cons y ys)
    then show ?thesis
      using q by (auto simp: mq_pop_def mq_holds_def)
  next
    case Nil
    then obtain rs where ps: "ps = rs @ [x]" "xs = rev rs"
      using q(1) by (metis append_Nil rev.simps(2) rev_rev_ident)
    then obtain r where r: "pushlist q = Some r"
      using q(3) by (cases rs) auto
    obtain q' where "mq_reverse r (q\<lparr>pushlist := None\<rparr>) = Some (x, q')"
      "list_at (nxt q') (poplist q') (rev rs)" "pushlist q' = None"
      using mq_reverse_list [of "q\<lparr>pushlist := None\<rparr>" r rs x "[]"] q r ps Nil by auto
    then show ?thesis
      using q r ps Nil by (auto simp: mq_pop_def mq_holds_def)
  qed
qed

interpretation mq: item_fifo mq_holds mq_push mq_pop mq_empty
proof unfold_locales
  fix q :: "'p queue_mpsc" and x xs
  show "mq_holds q xs \<Longrightarrow> x \<notin> set xs \<Longrightarrow> mq_holds (mq_push x q) (xs @ [x])"
    by (rule mq_push_holds)
  show "mq_holds q [] \<Longrightarrow> \<exists>q'. mq_pop q = Some (None, q') \<and> mq_holds q' []"
    by (auto simp: mq_holds_def mq_pop_def)
  show "mq_holds q (x # xs) \<Longrightarrow> \<exists>q'. mq_pop q = Some (Some x, q') \<and> mq_holds q' xs"
    by (rule mq_pop_holds_Cons)
  show "mq_holds q xs \<Longrightarrow> mq_empty q \<longleftrightarrow> xs = []"
    by (auto simp: mq_holds_def mq_empty_def)
qed


section \<open>The unordered queues\<close>

record 'p unordered_queue_mpsc =
  uq_head :: "'p option"
  uq_poll_list :: "'p option"
  uq_nxt :: "'p \<Rightarrow> 'p option"

definition uq_push :: "'p \<Rightarrow> 'p unordered_queue_mpsc \<Rightarrow> 'p unordered_queue_mpsc" where
  "uq_push item q = q\<lparr>uq_nxt := (uq_nxt q)(item := uq_head q), uq_head := Some item\<rparr>"

definition uq_pop :: "'p unordered_queue_mpsc \<Rightarrow> 'p option \<times> 'p unordered_queue_mpsc" where
  "uq_pop q =
     (case uq_poll_list q of
        Some result \<Rightarrow> (Some result, q\<lparr>uq_poll_list := uq_nxt q result\<rparr>)
      | None \<Rightarrow>
          (case uq_head q of
             None \<Rightarrow> (None, q\<lparr>uq_head := None\<rparr>)
           | Some r \<Rightarrow> (Some r, q\<lparr>uq_head := None, uq_poll_list := uq_nxt q r\<rparr>)))"

definition uq_bag :: "'p unordered_queue_mpsc \<Rightarrow> 'p multiset \<Rightarrow> bool" where
  "uq_bag q M \<longleftrightarrow> (\<exists>hs ps. M = mset (hs @ ps) \<and> distinct (hs @ ps)
     \<and> list_at (uq_nxt q) (uq_head q) hs \<and> list_at (uq_nxt q) (uq_poll_list q) ps)"

lemma uq_push_bag:
  assumes "uq_bag q M" "x \<notin># M"
  shows "uq_bag (uq_push x q) (add_mset x M)"
proof -
  from assms(1) obtain hs ps where q: "M = mset (hs @ ps)" "distinct (hs @ ps)"
      "list_at (uq_nxt q) (uq_head q) hs" "list_at (uq_nxt q) (uq_poll_list q) ps"
    unfolding uq_bag_def by blast
  then show ?thesis
    unfolding uq_bag_def using assms(2)
    by (intro exI [of _ "x # hs"] exI [of _ ps]) (auto simp: uq_push_def)
qed

lemma uq_pop_bag:
  assumes "uq_bag q M"
  shows "case uq_pop q of (None, q') \<Rightarrow> M = {#} \<and> uq_bag q' {#}
           | (Some x, q') \<Rightarrow> x \<in># M \<and> uq_bag q' (M - {#x#})"
proof -
  from assms obtain hs ps where q: "M = mset (hs @ ps)" "distinct (hs @ ps)"
      "list_at (uq_nxt q) (uq_head q) hs" "list_at (uq_nxt q) (uq_poll_list q) ps"
    unfolding uq_bag_def by blast
  show ?thesis
  proof (cases ps)
    case (Cons y ys)
    have "uq_bag (q\<lparr>uq_poll_list := uq_nxt q y\<rparr>) (mset (hs @ ys))"
      unfolding uq_bag_def using q Cons by (intro exI [of _ hs] exI [of _ ys]) auto
    then show ?thesis using q Cons by (auto simp: uq_pop_def)
  next
    case Nil
    show ?thesis
    proof (cases hs)
      case Nil
      then show ?thesis using q \<open>ps = []\<close> by (auto simp: uq_pop_def uq_bag_def)
    next
      case (Cons y ys)
      have "uq_bag (q\<lparr>uq_head := None, uq_poll_list := uq_nxt q y\<rparr>) (mset ys)"
        unfolding uq_bag_def using q Cons Nil by (intro exI [of _ "[]"] exI [of _ ys]) auto
      then show ?thesis using q Cons Nil by (auto simp: uq_pop_def)
    qed
  qed
qed

interpretation uq: item_bag uq_bag uq_push "\<lambda>q. Some (uq_pop q)"
proof unfold_locales
  fix q :: "'p unordered_queue_mpsc" and M x
  show "uq_bag q M \<Longrightarrow> x \<notin># M \<Longrightarrow> uq_bag (uq_push x q) (add_mset x M)"
    by (rule uq_push_bag)
  show "uq_bag q {#} \<Longrightarrow> \<exists>q'. Some (uq_pop q) = Some (None, q') \<and> uq_bag q' {#}"
    using uq_pop_bag [of q "{#}"] by (cases "uq_pop q") (auto split: option.splits)
  show "uq_bag q M \<Longrightarrow> M \<noteq> {#} \<Longrightarrow>
      \<exists>x q'. Some (uq_pop q) = Some (Some x, q') \<and> x \<in># M \<and> uq_bag q' (M - {#x#})"
    using uq_pop_bag [of q M] by (cases "uq_pop q") (auto split: option.splits)
qed

text \<open>\<open>unordered_queue_spsc\<close>: a ring in front of an unordered queue that takes the overflow.\<close>

record 'p unordered_queue_spsc =
  us_ring :: "'p ring_spsc"
  us_queue :: "'p unordered_queue_mpsc"

definition us_push :: "'p \<Rightarrow> 'p unordered_queue_spsc \<Rightarrow> 'p unordered_queue_spsc" where
  "us_push item s =
     (case ring_push item (us_ring s) of
        (True, r) \<Rightarrow> s\<lparr>us_ring := r\<rparr>
      | (False, r) \<Rightarrow> s\<lparr>us_ring := r, us_queue := uq_push item (us_queue s)\<rparr>)"

definition us_pop :: "'p unordered_queue_spsc \<Rightarrow> 'p option \<times> 'p unordered_queue_spsc" where
  "us_pop s =
     (case ring_pop (us_ring s) of
        (Some v, r) \<Rightarrow> (Some v, s\<lparr>us_ring := r\<rparr>)
      | (None, r) \<Rightarrow> (let (v, q) = uq_pop (us_queue s) in (v, s\<lparr>us_ring := r, us_queue := q\<rparr>)))"

definition us_bag :: "'p unordered_queue_spsc \<Rightarrow> 'p multiset \<Rightarrow> bool" where
  "us_bag s M \<longleftrightarrow> ring_ok (us_ring s) \<and>
     (\<exists>N. uq_bag (us_queue s) N \<and> M = mset (ring_list (us_ring s)) + N)"

interpretation us: item_bag us_bag us_push "\<lambda>s. Some (us_pop s)"
proof unfold_locales
  fix s :: "'p unordered_queue_spsc" and M x
  assume s: "us_bag s M"
  then obtain N where N: "ring_ok (us_ring s)" "uq_bag (us_queue s) N" "M = mset (ring_list (us_ring s)) + N"
    by (auto simp: us_bag_def)
  show "us_bag (us_push x s) (add_mset x M)" if "x \<notin># M"
  proof -
    obtain ok r where push: "ring_push x (us_ring s) = (ok, r)" by fastforce
    show ?thesis
      using ring.put_contents [OF N(1) push] push N that uq.push_bag [OF N(2), of x]
      by (cases ok) (auto simp: us_bag_def us_push_def)
  qed
  obtain v r where pop: "ring_pop (us_ring s) = (v, r)" by fastforce
  note pop_ring = ring.get_contents [OF N(1) pop]
  show "\<exists>x q'. Some (us_pop s) = Some (Some x, q') \<and> x \<in># M \<and> us_bag q' (M - {#x#})" if ne: "M \<noteq> {#}"
  proof (cases v)
    case None
    then have M: "ring_list (us_ring s) = []" "r = us_ring s" "M = N"
      using ring_pop_None [of "us_ring s" r] pop N(3) by simp_all
    obtain x q' where "uq_pop (us_queue s) = (Some x, q')" "x \<in># N" "uq_bag q' (N - {#x#})"
      using uq.pop_bag [OF N(2)] M(3) ne by auto
    then show ?thesis
      using None pop M N(1) by (auto simp: us_bag_def us_pop_def)
  next
    case (Some y)
    then show ?thesis
      using pop pop_ring N by (auto simp: us_bag_def us_pop_def)
  qed
next
  fix s :: "'p unordered_queue_spsc"
  assume s: "us_bag s {#}"
  obtain v r where pop: "ring_pop (us_ring s) = (v, r)" by fastforce
  show "\<exists>q'. Some (us_pop s) = Some (None, q') \<and> us_bag q' {#}"
    using s pop ring.get_contents [OF _ pop] uq.pop_bag_empty [of "us_queue s"]
    by (cases v) (auto simp: us_bag_def us_pop_def)
qed


section \<open>Interleaving pushers with the popper\<close>

text \<open>
  \<open>push\<close> loads \<open>pushlist\<close>, stores \<open>item->next\<close> and tries the compare-and-swap, which may also fail
  spuriously; \<open>pop\<close> exchanges \<open>pushlist\<close> and reverses the list it took one node at a time. Each of
  these accesses is one step. \<open>pushed\<close> and \<open>popped\<close> record the items in the order of the successful
  compare-and-swaps and of the returns of \<open>pop\<close>.
\<close>

datatype 'p pusher = Push_Idle | Push_Loaded 'p "'p option" | Push_Linked 'p "'p option"

datatype 'p popper = Pop_Idle | Pop_Reversing 'p

record ('t, 'p) mq_sys =
  sys_queue :: "'p queue_mpsc"
  pushers :: "'t \<Rightarrow> 'p pusher"
  popper :: "'p popper"
  pushed :: "'p list"
  popped :: "'p list"

definition queued :: "('t, 'p) mq_sys \<Rightarrow> 'p list" where
  "queued s = drop (length (popped s)) (pushed s)"

fun owned :: "'p pusher \<Rightarrow> 'p option" where
  "owned Push_Idle = None"
| "owned (Push_Loaded i old) = Some i"
| "owned (Push_Linked i old) = Some i"

inductive mq_step :: "('t, 'p) mq_sys \<Rightarrow> ('t, 'p) mq_sys \<Rightarrow> bool" where
  push_load: "\<lbrakk>pushers s t = Push_Idle; item \<notin> set (queued s); \<forall>t'. owned (pushers s t') \<noteq> Some item\<rbrakk>
    \<Longrightarrow> mq_step s (s\<lparr>pushers := (pushers s)(t := Push_Loaded item (pushlist (sys_queue s)))\<rparr>)"
| push_link: "pushers s t = Push_Loaded item old
    \<Longrightarrow> mq_step s (s\<lparr>sys_queue := (sys_queue s)\<lparr>nxt := (nxt (sys_queue s))(item := old)\<rparr>,
                    pushers := (pushers s)(t := Push_Linked item old)\<rparr>)"
| push_cas: "\<lbrakk>pushers s t = Push_Linked item old; pushlist (sys_queue s) = old\<rbrakk>
    \<Longrightarrow> mq_step s (s\<lparr>sys_queue := (sys_queue s)\<lparr>pushlist := Some item\<rparr>,
                    pushers := (pushers s)(t := Push_Idle), pushed := pushed s @ [item]\<rparr>)"
| push_retry: "pushers s t = Push_Linked item old
    \<Longrightarrow> mq_step s (s\<lparr>pushers := (pushers s)(t := Push_Loaded item (pushlist (sys_queue s)))\<rparr>)"
| pop_front: "\<lbrakk>popper s = Pop_Idle; poplist (sys_queue s) = Some r\<rbrakk>
    \<Longrightarrow> mq_step s (s\<lparr>sys_queue := (sys_queue s)\<lparr>poplist := nxt (sys_queue s) r\<rparr>, popped := popped s @ [r]\<rparr>)"
| pop_take: "\<lbrakk>popper s = Pop_Idle; poplist (sys_queue s) = None; pushlist (sys_queue s) = Some r\<rbrakk>
    \<Longrightarrow> mq_step s (s\<lparr>sys_queue := (sys_queue s)\<lparr>pushlist := None\<rparr>, popper := Pop_Reversing r\<rparr>)"
| pop_reverse: "\<lbrakk>popper s = Pop_Reversing r; nxt (sys_queue s) r = Some n\<rbrakk>
    \<Longrightarrow> mq_step s (s\<lparr>sys_queue := (sys_queue s)\<lparr>nxt := (nxt (sys_queue s))(r := poplist (sys_queue s)),
                                   poplist := Some r\<rparr>, popper := Pop_Reversing n\<rparr>)"
| pop_last: "\<lbrakk>popper s = Pop_Reversing r; nxt (sys_queue s) r = None\<rbrakk>
    \<Longrightarrow> mq_step s (s\<lparr>popper := Pop_Idle, popped := popped s @ [r]\<rparr>)"

definition mq_start :: "('p \<Rightarrow> 'p option) \<Rightarrow> ('t, 'p) mq_sys" where
  "mq_start h = \<lparr>sys_queue = \<lparr>pushlist = None, poplist = None, nxt = h\<rparr>,
     pushers = (\<lambda>_. Push_Idle), popper = Pop_Idle, pushed = [], popped = []\<rparr>"

fun taken :: "'p popper \<Rightarrow> 'p option" where
  "taken Pop_Idle = None"
| "taken (Pop_Reversing r) = Some r"

text \<open>
  The invariant: what is queued is the rest of the list being reversed (newest first), then the pop
  list, then the push list (newest first), all disjoint from the items the pushers own; a pusher
  that has linked its item still has the link.
\<close>

definition lists_at :: "'p queue_mpsc \<Rightarrow> 'p popper \<Rightarrow> 'p list \<Rightarrow> bool" where
  "lists_at q c xs \<longleftrightarrow> (\<exists>rs qs ps. xs = rev rs @ qs @ rev ps \<and> distinct xs \<and>
     list_at (nxt q) (taken c) rs \<and> list_at (nxt q) (poplist q) qs \<and> list_at (nxt q) (pushlist q) ps)"

definition mq_sys_ok :: "('t, 'p) mq_sys \<Rightarrow> bool" where
  "mq_sys_ok s \<longleftrightarrow> (\<exists>xs. pushed s = popped s @ xs \<and> lists_at (sys_queue s) (popper s) xs \<and>
     (\<forall>t i. owned (pushers s t) = Some i \<longrightarrow> i \<notin> set xs \<and> (\<forall>t'. owned (pushers s t') = Some i \<longrightarrow> t' = t)) \<and>
     (\<forall>t i old. pushers s t = Push_Linked i old \<longrightarrow> nxt (sys_queue s) i = old))"

lemma queued_eq: "pushed s = popped s @ xs \<Longrightarrow> queued s = xs"
  by (simp add: queued_def)

lemma lists_at_link: "\<lbrakk>lists_at q c xs; i \<notin> set xs\<rbrakk> \<Longrightarrow> lists_at (q\<lparr>nxt := (nxt q)(i := old)\<rparr>) c xs"
  unfolding lists_at_def by fastforce

lemma lists_at_push:
  assumes "lists_at q c xs" "i \<notin> set xs" "nxt q i = pushlist q"
  shows "lists_at (q\<lparr>pushlist := Some i\<rparr>) c (xs @ [i])"
proof -
  from assms(1) obtain rs qs ps where "xs = rev rs @ qs @ rev ps" "distinct xs"
      "list_at (nxt q) (taken c) rs" "list_at (nxt q) (poplist q) qs" "list_at (nxt q) (pushlist q) ps"
    unfolding lists_at_def by blast
  then show ?thesis
    unfolding lists_at_def using assms(2,3)
    by (intro exI [of _ rs] exI [of _ qs] exI [of _ "i # ps"]) auto
qed

lemma lists_at_front:
  assumes "lists_at q Pop_Idle xs" "poplist q = Some r"
  obtains ys where "xs = r # ys" "lists_at (q\<lparr>poplist := nxt q r\<rparr>) Pop_Idle ys"
  using assms unfolding lists_at_def by (fastforce simp: list_at_Some)

lemma lists_at_take:
  assumes "lists_at q Pop_Idle xs" "poplist q = None" "pushlist q = Some r"
  shows "lists_at (q\<lparr>pushlist := None\<rparr>) (Pop_Reversing r) xs"
  using assms unfolding lists_at_def by fastforce

lemma lists_at_reverse:
  assumes "lists_at q (Pop_Reversing r) xs" "nxt q r = Some n"
  shows "lists_at (q\<lparr>nxt := (nxt q)(r := poplist q), poplist := Some r\<rparr>) (Pop_Reversing n) xs"
proof -
  from assms obtain rs qs ps where "xs = rev rs @ qs @ rev ps" "distinct xs"
      "list_at (nxt q) (Some r) rs" "list_at (nxt q) (poplist q) qs" "list_at (nxt q) (pushlist q) ps"
    unfolding lists_at_def by auto
  moreover from this assms(2) obtain rs' where "rs = r # rs'" "list_at (nxt q) (Some n) rs'"
    by (auto simp: list_at_Some)
  ultimately show ?thesis
    unfolding lists_at_def by (intro exI [of _ rs'] exI [of _ "r # qs"] exI [of _ ps]) auto
qed

lemma lists_at_last:
  assumes "lists_at q (Pop_Reversing r) xs" "nxt q r = None"
  obtains ys where "xs = r # ys" "lists_at q Pop_Idle ys"
proof -
  from assms obtain rs qs ps where "xs = rev rs @ qs @ rev ps" "distinct xs"
      "list_at (nxt q) (Some r) rs" "list_at (nxt q) (poplist q) qs" "list_at (nxt q) (pushlist q) ps"
    unfolding lists_at_def by auto
  moreover from this(3) assms(2) have "rs = [r]"
    by (auto simp: list_at_Some)
  ultimately show thesis
    using that [of "qs @ rev ps"] unfolding lists_at_def by auto
qed


lemma mq_step_ok: "\<lbrakk>mq_step s s'; mq_sys_ok s\<rbrakk> \<Longrightarrow> mq_sys_ok s'"
proof (induction rule: mq_step.induct)
  case (push_load s t item)
  then obtain xs where xs: "pushed s = popped s @ xs" "lists_at (sys_queue s) (popper s) xs"
      "\<forall>t i. owned (pushers s t) = Some i \<longrightarrow> i \<notin> set xs \<and> (\<forall>t'. owned (pushers s t') = Some i \<longrightarrow> t' = t)"
      "\<forall>t i old. pushers s t = Push_Linked i old \<longrightarrow> nxt (sys_queue s) i = old"
    unfolding mq_sys_ok_def by blast
  then show ?case
    unfolding mq_sys_ok_def using push_load queued_eq [OF xs(1)] by (intro exI [of _ xs]) auto
next
  case (push_link s t item old)
  then obtain xs where xs: "pushed s = popped s @ xs" "lists_at (sys_queue s) (popper s) xs"
      "\<forall>t i. owned (pushers s t) = Some i \<longrightarrow> i \<notin> set xs \<and> (\<forall>t'. owned (pushers s t') = Some i \<longrightarrow> t' = t)"
      "\<forall>t i old. pushers s t = Push_Linked i old \<longrightarrow> nxt (sys_queue s) i = old"
    unfolding mq_sys_ok_def by blast
  have "item \<notin> set xs" "\<And>t'. owned (pushers s t') = Some item \<Longrightarrow> t' = t"
    using xs(3) [rule_format, of t item] push_link(1) by simp_all
  then show ?case
    unfolding mq_sys_ok_def using xs push_link lists_at_link [OF xs(2), of item old]
    by (intro exI [of _ xs]) (auto split: if_splits)
next
  case (push_cas s t item old)
  then obtain xs where xs: "pushed s = popped s @ xs" "lists_at (sys_queue s) (popper s) xs"
      "\<forall>t i. owned (pushers s t) = Some i \<longrightarrow> i \<notin> set xs \<and> (\<forall>t'. owned (pushers s t') = Some i \<longrightarrow> t' = t)"
      "\<forall>t i old. pushers s t = Push_Linked i old \<longrightarrow> nxt (sys_queue s) i = old"
    unfolding mq_sys_ok_def by blast
  have "item \<notin> set xs" "\<And>t'. owned (pushers s t') = Some item \<Longrightarrow> t' = t" "nxt (sys_queue s) item = old"
    using xs(3) [rule_format, of t item] xs(4) push_cas(1) by simp_all
  then show ?case
    unfolding mq_sys_ok_def using xs push_cas lists_at_push [OF xs(2), of item]
    by (intro exI [of _ "xs @ [item]"]) auto
next
  case (push_retry s t item old)
  then obtain xs where xs: "pushed s = popped s @ xs" "lists_at (sys_queue s) (popper s) xs"
      "\<forall>t i. owned (pushers s t) = Some i \<longrightarrow> i \<notin> set xs \<and> (\<forall>t'. owned (pushers s t') = Some i \<longrightarrow> t' = t)"
      "\<forall>t i old. pushers s t = Push_Linked i old \<longrightarrow> nxt (sys_queue s) i = old"
    unfolding mq_sys_ok_def by blast
  have "item \<notin> set xs" "\<And>t'. owned (pushers s t') = Some item \<Longrightarrow> t' = t"
    using xs(3) [rule_format, of t item] push_retry by simp_all
  then show ?case
    unfolding mq_sys_ok_def using xs by (intro exI [of _ xs]) auto
next
  case (pop_front s r)
  then obtain xs where xs: "pushed s = popped s @ xs" "lists_at (sys_queue s) Pop_Idle xs"
    unfolding mq_sys_ok_def by auto
  obtain ys where "xs = r # ys" "lists_at ((sys_queue s)\<lparr>poplist := nxt (sys_queue s) r\<rparr>) Pop_Idle ys"
    by (rule lists_at_front [OF xs(2)]) (use pop_front in auto)
  then show ?case
    using pop_front xs unfolding mq_sys_ok_def by (intro exI [of _ ys]) auto
next
  case (pop_take s r)
  then show ?case
    using lists_at_take [of "sys_queue s"] unfolding mq_sys_ok_def by auto
next
  case (pop_reverse s r n)
  then obtain xs where xs: "pushed s = popped s @ xs" "lists_at (sys_queue s) (Pop_Reversing r) xs"
      "\<forall>t i. owned (pushers s t) = Some i \<longrightarrow> i \<notin> set xs \<and> (\<forall>t'. owned (pushers s t') = Some i \<longrightarrow> t' = t)"
      "\<forall>t i old. pushers s t = Push_Linked i old \<longrightarrow> nxt (sys_queue s) i = old"
    unfolding mq_sys_ok_def by auto
  then have "r \<in> set xs"
    unfolding lists_at_def by (auto simp: list_at_Some)
  then have "\<And>t old. pushers s t \<noteq> Push_Linked r old"
    using xs(3) owned.simps(3) by metis
  then show ?case
    using pop_reverse lists_at_reverse [OF xs(2) pop_reverse(2)] xs
    unfolding mq_sys_ok_def by (intro exI [of _ xs]) auto
next
  case (pop_last s r)
  then obtain xs where xs: "pushed s = popped s @ xs" "lists_at (sys_queue s) (Pop_Reversing r) xs"
    unfolding mq_sys_ok_def by auto
  obtain ys where "xs = r # ys" "lists_at (sys_queue s) Pop_Idle ys"
    by (rule lists_at_last [OF xs(2) pop_last(2)])
  then show ?case
    using pop_last xs unfolding mq_sys_ok_def by (intro exI [of _ ys]) auto
qed

lemma mq_reachable_ok: "mq_step\<^sup>*\<^sup>* (mq_start h) s \<Longrightarrow> mq_sys_ok s"
proof (induction rule: rtranclp_induct)
  case base
  show ?case by (simp add: mq_start_def mq_sys_ok_def lists_at_def)
qed (rule mq_step_ok)


section \<open>What the queues guarantee\<close>

text \<open>C18: In every interleaving of any number of \<open>queue_mpsc::push\<close> calls with the single popper the
items come out in the order in which their compare-and-swaps succeeded, none lost and none twice; and
when the popper finds both lists empty, so that \<open>pop\<close> returns the null pointer and \<open>empty\<close> is true,
every item pushed so far has been popped.\<close>

theorem mq_interleaving_fifo:
  assumes "mq_step\<^sup>*\<^sup>* (mq_start h) s"
  shows "\<exists>rest. pushed s = popped s @ rest \<and> distinct rest \<and>
     (popper s = Pop_Idle \<and> mq_empty (sys_queue s) \<longrightarrow> rest = [])"
proof -
  obtain xs where "pushed s = popped s @ xs" "lists_at (sys_queue s) (popper s) xs"
    using mq_reachable_ok [OF assms] unfolding mq_sys_ok_def by blast
  then show ?thesis
    unfolding lists_at_def mq_empty_def by auto
qed

text \<open>Two pushers race; the second one's swap fails once and is retried.\<close>

lemma mq_step_eq: "\<lbrakk>mq_step s s'; s' = u\<rbrakk> \<Longrightarrow> mq_step s u"
  by simp

definition mq_state :: "'p option \<Rightarrow> 'p option \<Rightarrow> ('p \<Rightarrow> 'p option) \<Rightarrow> ('t \<Rightarrow> 'p pusher) \<Rightarrow> 'p popper
    \<Rightarrow> 'p list \<Rightarrow> 'p list \<Rightarrow> ('t, 'p) mq_sys" where
  "mq_state pl ql h ps c xs ys =
     \<lparr>sys_queue = \<lparr>pushlist = pl, poplist = ql, nxt = h\<rparr>, pushers = ps, popper = c, pushed = xs, popped = ys\<rparr>"

lemma mq_run_two_pushers:
  fixes h :: "nat \<Rightarrow> nat option" and I :: "nat \<Rightarrow> nat pusher"
  assumes "I = (\<lambda>_. Push_Idle)"
  shows "mq_step\<^sup>*\<^sup>* (mq_state None None h I Pop_Idle [] [])
    (mq_state None (Some 8) (h(7 := None, 8 := None)) I Pop_Idle [7, 8] [7])"
proof -
  note defs = mq_state_def queued_def assms
  let ?L7 = "Push_Loaded 7 None" and ?L8 = "Push_Loaded 8 None"
  let ?K7 = "Push_Linked 7 None" and ?K8 = "Push_Linked 8 None"
  have "mq_step (mq_state None None h I Pop_Idle [] []) (mq_state None None h (I(1 := ?L7)) Pop_Idle [] [])"
    by (rule mq_step_eq, rule mq_step.push_load [where t = 1 and item = 7]) (simp_all add: defs)
  moreover have "mq_step \<dots> (mq_state None None h (I(1 := ?L7, 2 := ?L8)) Pop_Idle [] [])"
    by (rule mq_step_eq, rule mq_step.push_load [where t = 2 and item = 8]) (simp_all add: defs)
  moreover have "mq_step \<dots> (mq_state None None (h(7 := None)) (I(1 := ?K7, 2 := ?L8)) Pop_Idle [] [])"
    by (rule mq_step_eq, rule mq_step.push_link [where t = 1]) (auto simp: defs)
  moreover have "mq_step \<dots> (mq_state None None (h(7 := None, 8 := None)) (I(1 := ?K7, 2 := ?K8)) Pop_Idle [] [])"
    by (rule mq_step_eq, rule mq_step.push_link [where t = 2]) (auto simp: defs)
  moreover have "mq_step \<dots> (mq_state (Some 7) None (h(7 := None, 8 := None)) (I(2 := ?K8)) Pop_Idle [7] [])"
    by (rule mq_step_eq, rule mq_step.push_cas [where t = 1]) (auto simp: defs)
  moreover have "mq_step \<dots> (mq_state (Some 7) None (h(7 := None, 8 := None)) (I(2 := Push_Loaded 8 (Some 7))) Pop_Idle [7] [])"
    by (rule mq_step_eq, rule mq_step.push_retry [where t = 2]) (auto simp: defs)
  moreover have "mq_step \<dots> (mq_state (Some 7) None (h(7 := None, 8 := Some 7)) (I(2 := Push_Linked 8 (Some 7))) Pop_Idle [7] [])"
    by (rule mq_step_eq, rule mq_step.push_link [where t = 2]) (auto simp: defs)
  moreover have "mq_step \<dots> (mq_state (Some 8) None (h(7 := None, 8 := Some 7)) I Pop_Idle [7, 8] [])"
    by (rule mq_step_eq, rule mq_step.push_cas [where t = 2]) (auto simp: defs)
  moreover have "mq_step \<dots> (mq_state None None (h(7 := None, 8 := Some 7)) I (Pop_Reversing 8) [7, 8] [])"
    by (rule mq_step_eq, rule mq_step.pop_take [where r = 8]) (auto simp: defs)
  moreover have "mq_step \<dots> (mq_state None (Some 8) (h(7 := None, 8 := None)) I (Pop_Reversing 7) [7, 8] [])"
    by (rule mq_step_eq, rule mq_step.pop_reverse [where r = 8 and n = 7]) (auto simp: defs)
  moreover have "mq_step \<dots> (mq_state None (Some 8) (h(7 := None, 8 := None)) I Pop_Idle [7, 8] [7])"
    by (rule mq_step_eq, rule mq_step.pop_last [where r = 7]) (auto simp: defs)
  ultimately show ?thesis
    by (meson converse_rtranclp_into_rtranclp rtranclp.rtrancl_refl)
qed

theorem mq_interleaving_fifo_witness:
  "\<exists>s :: (nat, nat) mq_sys. mq_step\<^sup>*\<^sup>* (mq_start (\<lambda>_. None)) s \<and> pushed s = [7, 8] \<and> popped s = [7] \<and>
     (\<exists>rest. pushed s = popped s @ rest \<and> distinct rest)"
proof -
  obtain s :: "(nat, nat) mq_sys" where s: "mq_step\<^sup>*\<^sup>* (mq_start (\<lambda>_. None)) s" "pushed s = [7, 8]" "popped s = [7]"
    using mq_run_two_pushers [of "\<lambda>_. Push_Idle" "\<lambda>_. None"] that by (simp add: mq_state_def mq_start_def)
  show ?thesis using mq_interleaving_fifo [OF s(1)] s by blast
qed

text \<open>Run without interference, \<open>queue_mpsc\<close> is a first-in first-out queue: popping until the null
pointer comes back terminates and returns what was queued, then what was pushed, in order, and leaves
the queue empty.\<close>

theorem mq_drain_in_order:
  assumes "mq_holds q xs" "distinct (xs @ ys)"
  shows "\<exists>q'. pop_all mq_pop (fold mq_push ys q) = Some (xs @ ys, q') \<and> mq_empty q'"
  using mq.push_pop_all [OF assms] mq.empty_holds by blast

theorem mq_drain_in_order_witness:
  "\<exists>q'. pop_all mq_pop (fold mq_push [1::nat, 2, 3] \<lparr>pushlist = None, poplist = None, nxt = (\<lambda>_. None)\<rparr>)
     = Some ([1, 2, 3], q') \<and> mq_empty q'"
  using mq_drain_in_order [of "\<lparr>pushlist = None, poplist = None, nxt = (\<lambda>_. None)\<rparr>" "[]" "[1::nat, 2, 3]"]
  by (simp add: mq_holds_def)

text \<open>The loop of \<open>collect_garbage\<close> on the queue it is used on.\<close>

lemma uq_drain_all:
  assumes "uq_bag q M" "distinct ys" "\<forall>y\<in>set ys. y \<notin># M"
  shows "\<exists>xs q'. pop_all (\<lambda>q. Some (uq_pop q)) (fold uq_push ys q) = Some (xs, q') \<and> mset xs = M + mset ys \<and> uq_bag q' {#}"
  using uq.pop_all_bag [OF uq.fold_push_bag [OF assms]] .

text \<open>C32: \<open>unordered_queue_spsc\<close> loses nothing when the ring overflows into the unordered queue: after any number of pushes of new items,
popping until the null pointer comes back terminates and returns every queued and every pushed item exactly once, and leaves nothing behind.\<close>

theorem us_drain_all:
  assumes "us_bag s M" "distinct ys" "\<forall>y\<in>set ys. y \<notin># M"
  shows "\<exists>xs s'. pop_all (\<lambda>s. Some (us_pop s)) (fold us_push ys s) = Some (xs, s') \<and> mset xs = M + mset ys \<and> us_bag s' {#}"
  using us.pop_all_bag [OF us.fold_push_bag [OF assms]] .

theorem us_drain_all_witness:
  "let s = fold us_push [1, 2, 3 :: nat]
       \<lparr>us_ring = ring_new [0, 0], us_queue = \<lparr>uq_head = None, uq_poll_list = None, uq_nxt = (\<lambda>_. None)\<rparr>\<rparr>
   in uq_head (us_queue s) = Some 3 \<and>
     (\<exists>xs s'. pop_all (\<lambda>s. Some (us_pop s)) s = Some (xs, s') \<and> mset xs = {#1, 2, 3#} \<and> us_bag s' {#})"
proof -
  let ?s = "\<lparr>us_ring = ring_new [0, 0], us_queue = \<lparr>uq_head = None, uq_poll_list = None, uq_nxt = (\<lambda>_. None :: nat option)\<rparr>\<rparr>"
  have "us_bag ?s {#}"
    by (auto simp: us_bag_def uq_bag_def ring_ok_def ring_new_def ring_list_def ring_size_def intro: exI [of _ 1])
  from us_drain_all [OF this, of "[1, 2, 3]"] show ?thesis
    by (auto simp: Let_def us_push_def uq_push_def ring_push_def ring_emplace_def ring_new_def ring_size_def slot_idx_def)
qed

end
