(* ===== verification/Path.thy ===== *)
theory Path
  imports Prelude
begin

text \<open>
  Path strings: \<open>path_conv\<close> (\<^verbatim>\<open>fs/vfs/vfs_task.cc\<close>), \<open>count_match\<close> and the search of
  \<open>vfs_findroot\<close> (\<^verbatim>\<open>fs/vfs/vfs_mount.cc\<close>), \<open>is_parent\<close>, \<open>has_trailing\<close> and \<open>strip_trailing\<close>
  (\<^verbatim>\<open>fs/vfs/vfs_syscalls.cc\<close>), and the truncating copies of the C library they use. A C string is
  the list of its characters before the terminator. \<open>None\<close> is a read before the start of a buffer.
\<close>

section \<open>C strings\<close>

text \<open>\<open>PATH_MAX\<close> of \<^verbatim>\<open>limits.h\<close>.\<close>

definition path_max :: nat where
  "path_max = 4096"

abbreviation slash :: char where
  "slash \<equiv> CHR ''/''"

text \<open>The string left in a buffer of \<open>n\<close> bytes by \<open>strlcpy\<close> and by \<open>strlcat\<close>.\<close>

definition strlcpy :: "nat \<Rightarrow> string \<Rightarrow> string" where
  "strlcpy n src = take (n - 1) src"

definition strlcat :: "nat \<Rightarrow> string \<Rightarrow> string \<Rightarrow> string" where
  "strlcat n dst src = (if n \<le> length dst then dst else dst @ strlcpy (n - length dst) src)"

text \<open>\<open>strrchr (s, '/') + 1\<close>: what follows the last slash, and what precedes it.\<close>

definition after_last :: "string \<Rightarrow> string" where
  "after_last s = rev (takeWhile (\<lambda>c. c \<noteq> slash) (rev s))"

definition before_last :: "string \<Rightarrow> string" where
  "before_last s = rev (tl (dropWhile (\<lambda>c. c \<noteq> slash) (rev s)))"


section \<open>Conversion to a full path\<close>

text \<open>
  \<open>full\<close> is the part of the buffer before \<open>tgt\<close>, so \<open>len\<close> is its length. The inner loop of the
  \<open>..\<close> case moves \<open>tgt\<close> back to a slash.
\<close>

fun back_to_slash :: "string \<Rightarrow> nat \<Rightarrow> nat option" where
  "back_to_slash full 0 = (if full ! 0 = slash then Some 0 else None)"
| "back_to_slash full (Suc i) = (if full ! Suc i = slash then Some (Suc i) else back_to_slash full i)"

definition path_dotdot :: "string \<Rightarrow> string option" where
  "path_dotdot full =
     (if 2 \<le> length full then
        (case back_to_slash full (length full - 2) of
           None \<Rightarrow> None
         | Some i \<Rightarrow> Some (if i = 0 then take 1 full else take i full))
      else Some full)"

function path_loop :: "string \<Rightarrow> string \<Rightarrow> string option" where
  "path_loop src full =
     (if src = [] then Some full
      else
        let comp = takeWhile (\<lambda>c. c \<noteq> slash) src;
            p = dropWhile (\<lambda>c. c \<noteq> slash) src
        in case (if comp = ''..'' then path_dotdot full else if comp = ''.'' then Some full else Some (full @ comp)) of
             None \<Rightarrow> None
           | Some full' \<Rightarrow>
               if p = [] then Some full'
               else path_loop (tl p) (if full' \<noteq> [] \<and> last full' \<noteq> slash then full' @ [slash] else full'))"
  by auto
termination
proof (relation "measure (\<lambda>(src, full). length src)")
  fix src full :: string and comp p and full' :: string
  assume a: "src \<noteq> []" "p = dropWhile (\<lambda>c. c \<noteq> slash) src" "p \<noteq> []"
  then have "length p \<le> length src" using length_dropWhile_le [of "\<lambda>c. c \<noteq> slash" src] by simp
  then have "length (tl p) < length src" using a(3) by (cases p) simp_all
  then show "((tl p, if full' \<noteq> [] \<and> last full' \<noteq> slash then full' @ [slash] else full'), src, full)
      \<in> measure (\<lambda>(src, full). length src)"
    by simp
qed simp

declare path_loop.simps [simp del]

definition path_conv :: "string \<Rightarrow> string \<Rightarrow> (errno + string) option" where
  "path_conv wd cpath =
     (let path = strlcpy path_max cpath in
      if path_max \<le> length path then Some (Inl ENAMETOOLONG)
      else if path_max \<le> length wd + length path then Some (Inl ENAMETOOLONG)
      else map_option Inr
        (if path \<noteq> [] \<and> hd path = slash then path_loop (tl path) [slash]
         else path_loop path
           (strlcpy path_max wd @ (if 1 < length wd \<and> \<not> (path \<noteq> [] \<and> hd path = CHR ''.'') then [slash] else []))))"


section \<open>Mount points\<close>

text \<open>The loop of \<open>count_match\<close>: matched length and what is left of both strings.\<close>

fun match_len :: "string \<Rightarrow> string \<Rightarrow> nat \<times> string \<times> string" where
  "match_len (c # path) (d # root) =
     (if c \<noteq> d then (0, c # path, d # root)
      else (let (n, rest) = match_len path root in (Suc n, rest)))"
| "match_len path root = (0, path, root)"

definition count_match :: "string \<Rightarrow> string \<Rightarrow> nat" where
  "count_match path mount_root =
     (let (len, path', root') = match_len path mount_root in
      if root' \<noteq> [] then 0
      else if len = 1 \<and> hd path = slash then 1
      else if path' = [] \<or> hd path' = slash then len
      else 0)"

text \<open>The search of \<open>vfs_findroot\<close> over the mount list: the mount found so far and \<open>max_len\<close>.\<close>

fun find_mount :: "string \<Rightarrow> (string \<times> 'm) list \<Rightarrow> 'm option \<times> nat \<Rightarrow> 'm option \<times> nat" where
  "find_mount path [] best = best"
| "find_mount path ((m_path, tmp) # ms) (m, max_len) =
     (let len = count_match path m_path in
      find_mount path ms (if max_len < len then (Some tmp, len) else (m, max_len)))"

text \<open>\<open>vfs_findroot\<close>: the mount point and the rest of the path; \<open>None\<close> is the result -1.\<close>

definition vfs_findroot :: "(string \<times> 'm) list \<Rightarrow> string \<Rightarrow> ('m \<times> string) option" where
  "vfs_findroot mount_list path =
     (case find_mount path mount_list (None, 0) of
        (None, _) \<Rightarrow> None
      | (Some m, max_len) \<Rightarrow>
          (let root = drop max_len path in
           Some (m, if root \<noteq> [] \<and> hd root = slash then tl root else root)))"


section \<open>Helpers of rename\<close>

definition is_parent :: "string \<Rightarrow> string \<Rightarrow> bool" where
  "is_parent parent child \<longleftrightarrow>
     (let p_len = length parent in
      take p_len child = parent \<and> (parent \<noteq> [] \<and> last parent = slash \<or> p_len < length child \<and> child ! p_len = slash))"

definition has_trailing :: "string \<Rightarrow> char \<Rightarrow> bool" where
  "has_trailing path ch \<longleftrightarrow> path \<noteq> [] \<and> last path = ch"

definition strip_trailing :: "string \<Rightarrow> char \<Rightarrow> string" where
  "strip_trailing path ch = rev (dropWhile (\<lambda>c. c = ch) (rev path))"


section \<open>Canonical paths\<close>

text \<open>The reference semantics: a path is a list of names, \<open>resolve\<close> interprets one component.\<close>

fun split_slash :: "string \<Rightarrow> string list" where
  "split_slash [] = [[]]"
| "split_slash (c # s) = (if c = slash then [] # split_slash s
     else (case split_slash s of [] \<Rightarrow> [[c]] | n # ns \<Rightarrow> (c # n) # ns))"

definition resolve :: "string list \<Rightarrow> string \<Rightarrow> string list" where
  "resolve cs n = (if n = ''..'' then butlast cs else if n = ''.'' \<or> n = [] then cs else cs @ [n])"

definition render :: "string list \<Rightarrow> bool \<Rightarrow> string" where
  "render cs t = (if cs = [] then [slash] else concat (map (Cons slash) cs) @ (if t then [slash] else []))"

definition names_ok :: "string list \<Rightarrow> bool" where
  "names_ok cs \<longleftrightarrow> (\<forall>c\<in>set cs. c \<noteq> [] \<and> slash \<notin> set c)"


lemma split_slash_step:
  "split_slash src = takeWhile (\<lambda>c. c \<noteq> slash) src #
     (case dropWhile (\<lambda>c. c \<noteq> slash) src of [] \<Rightarrow> [] | c # s \<Rightarrow> split_slash s)"
  by (induction src) (auto split: list.splits)

lemma names_ok_butlast: "names_ok cs \<Longrightarrow> names_ok (butlast cs)"
  by (auto simp: names_ok_def dest: in_set_butlastD)

lemma names_ok_resolve: "\<lbrakk>names_ok cs; slash \<notin> set n\<rbrakk> \<Longrightarrow> names_ok (resolve cs n)"
  by (auto simp: resolve_def names_ok_butlast) (auto simp: names_ok_def)

lemma render_snoc: "render (cs @ [n]) False = render cs True @ n"
  by (auto simp: render_def)

lemma last_render: "names_ok cs \<Longrightarrow> last (render cs t) = slash \<longleftrightarrow> cs = [] \<or> t"
  by (cases cs rule: rev_cases) (auto simp: render_def names_ok_def last_append dest: last_in_set)

lemma render_nonempty [simp]: "render cs t \<noteq> []"
  by (auto simp: render_def)

lemma render_add_slash:
  "names_ok cs \<Longrightarrow> (if render cs t \<noteq> [] \<and> last (render cs t) \<noteq> slash then render cs t @ [slash] else render cs t) = render cs True"
  using last_render [of cs t] by (cases "cs = []"; cases t) (simp_all add: render_def)

lemma back_to_slash_skip:
  assumes "slash \<notin> set ys" "j \<le> length ys"
  shows "back_to_slash (xs @ slash # ys @ zs) (length xs + j) = Some (length xs)"
  using assms(2)
proof (induction j)
  case 0
  then show ?case
    by (cases xs) (auto simp: nth_append)
next
  case (Suc j)
  then have "(xs @ slash # ys @ zs) ! Suc (length xs + j) = ys ! j"
    by (simp add: nth_append)
  moreover have "ys ! j \<noteq> slash"
    using Suc.prems assms(1) by (metis Suc_le_lessD nth_mem)
  ultimately show ?case using Suc by simp
qed

lemma path_dotdot_render:
  assumes "names_ok cs"
  shows "path_dotdot (render cs t) = Some (render (butlast cs) (t \<and> cs = []))"
proof (cases cs rule: rev_cases)
  case Nil
  then show ?thesis by (simp add: path_dotdot_def render_def)
next
  case (snoc ds n)
  then have n: "n \<noteq> []" "slash \<notin> set n" "names_ok ds" using assms by (auto simp: names_ok_def)
  let ?pre = "concat (map (Cons slash) ds)" and ?post = "if t then [slash] else []"
  have r: "render cs t = ?pre @ slash # n @ ?post" by (simp add: snoc render_def)
  let ?j = "if t then length n else length n - 1"
  have "back_to_slash (render cs t) (length ?pre + ?j) = Some (length ?pre)"
    unfolding r using n(2) by (rule back_to_slash_skip) simp
  moreover have "length (render cs t) - 2 = length ?pre + ?j"
    using n by (cases n) (auto simp: r)
  moreover have "2 \<le> length (render cs t)" using n by (cases n) (auto simp: r)
  ultimately have "path_dotdot (render cs t) = Some (if length ?pre = 0 then take 1 (render cs t) else take (length ?pre) (render cs t))"
    by (simp add: path_dotdot_def)
  moreover have "length ?pre = 0 \<longleftrightarrow> ds = []" by (cases ds) auto
  ultimately show ?thesis by (auto simp: r snoc render_def)
qed

text \<open>One iteration on a buffer that ends in a slash, or whose next component is \<open>.\<close> or \<open>..\<close>.\<close>

lemma path_comp_render:
  assumes "names_ok cs" "slash \<notin> set n" "t \<or> cs = [] \<or> n \<in> {''.'', ''..''}"
  shows "\<exists>t'. (if n = ''..'' then path_dotdot (render cs t) else if n = ''.'' then Some (render cs t) else Some (render cs t @ n))
    = Some (render (resolve cs n) t')"
proof (cases "n = ''..'' \<or> n = ''.'' \<or> n = []")
  case True
  then show ?thesis using path_dotdot_render [OF assms(1), of t] by (auto simp: resolve_def)
next
  case False
  then have "render cs t = render cs True" using assms(3) by (auto simp: render_def)
  then show ?thesis using False render_snoc [of cs n] by (intro exI [of _ False]) (simp add: resolve_def)
qed

lemma path_loop_render:
  assumes "names_ok cs" "t \<or> cs = [] \<or> takeWhile (\<lambda>c. c \<noteq> slash) src \<in> {''.'', ''..''}"
  shows "\<exists>t'. path_loop src (render cs t) = Some (render (foldl resolve cs (split_slash src)) t')"
  using assms
proof (induction "length src" arbitrary: src cs t rule: less_induct)
  case less
  show ?case
  proof (cases "src = []")
    case True
    then show ?thesis by (auto simp: path_loop.simps [of "[]"] resolve_def)
  next
    case False
    let ?n = "takeWhile (\<lambda>c. c \<noteq> slash) src" and ?p = "dropWhile (\<lambda>c. c \<noteq> slash) src"
    have n: "slash \<notin> set ?n" by (auto dest: set_takeWhileD)
    obtain t1 where step: "(if ?n = ''..'' then path_dotdot (render cs t) else if ?n = ''.'' then Some (render cs t)
        else Some (render cs t @ ?n)) = Some (render (resolve cs ?n) t1)"
      using path_comp_render [OF less.prems(1) n less.prems(2)] by blast
    have ok: "names_ok (resolve cs ?n)" by (rule names_ok_resolve [OF less.prems(1) n])
    have loop: "path_loop src (render cs t) = (if ?p = [] then Some (render (resolve cs ?n) t1)
        else path_loop (tl ?p) (render (resolve cs ?n) True))"
      using False by (subst path_loop.simps) (simp only: Let_def step option.case render_add_slash [OF ok] if_False)
    show ?thesis
    proof (cases ?p)
      case Nil
      have "split_slash src = [?n]" by (subst split_slash_step) (simp only: Nil list.case)
      then show ?thesis using loop Nil by auto
    next
      case (Cons c q)
      then have "split_slash src = ?n # split_slash q" by (subst split_slash_step) simp
      moreover have "length q < length src"
        using Cons length_dropWhile_le [of "\<lambda>c. c \<noteq> slash" src] by simp
      then obtain t' where "path_loop q (render (resolve cs ?n) True)
          = Some (render (foldl resolve (resolve cs ?n) (split_slash q)) t')"
        using less.hyps ok by blast
      ultimately show ?thesis using loop Cons by (intro exI [of _ t']) simp
    qed
  qed
qed


lemma length_render: "names_ok cs \<Longrightarrow> 1 < length (render cs False) \<longleftrightarrow> cs \<noteq> []"
  by (cases cs) (auto simp: render_def names_ok_def)

lemma hd_takeWhile_dot:
  "\<lbrakk>path \<noteq> []; takeWhile (\<lambda>c. c \<noteq> slash) path \<in> {''.'', ''..''}\<rbrakk> \<Longrightarrow> hd path = CHR ''.''"
  by (cases path) (auto split: if_splits)

lemma path_loop_length: "path_loop src full = Some r \<Longrightarrow> length r \<le> length full + length src"
proof (induction src full rule: path_loop.induct)
  case (1 src full)
  show ?case
  proof (cases "src = []")
    case True
    then show ?thesis using 1 by (simp add: path_loop.simps [of "[]"])
  next
    case False
    let ?n = "takeWhile (\<lambda>c. c \<noteq> slash) src" and ?p = "dropWhile (\<lambda>c. c \<noteq> slash) src"
    have len: "length ?n + length ?p = length src"
      by (metis length_append takeWhile_dropWhile_id)
    obtain f where f: "(if ?n = ''..'' then path_dotdot full else if ?n = ''.'' then Some full else Some (full @ ?n)) = Some f"
      using "1.prems" False by (subst (asm) path_loop.simps) (auto simp: Let_def split: option.splits)
    then have flen: "length f \<le> length full + length ?n"
      by (auto simp: path_dotdot_def split: if_splits option.splits)
    show ?thesis
    proof (cases "?p = []")
      case True
      then show ?thesis
        using "1.prems" False f flen len by (subst (asm) path_loop.simps) (simp add: Let_def)
    next
      case nonempty: False
      have "path_loop (tl ?p) (if f \<noteq> [] \<and> last f \<noteq> slash then f @ [slash] else f) = Some r"
        using "1.prems" False f nonempty by (subst (asm) path_loop.simps) (simp only: Let_def option.case if_False)
      then have "length r \<le> Suc (length f) + length (tl ?p)"
        using "1.IH" [OF False refl refl _ nonempty] f by (fastforce split: if_splits)
      then show ?thesis using flen len nonempty by (cases ?p) auto
    qed
  qed
qed

lemma path_loop_name:
  assumes "slash \<notin> set n" "n \<notin> {''.'', ''..''}"
  shows "path_loop n full = Some (full @ n)"
proof -
  have "takeWhile (\<lambda>c. c \<noteq> slash) n = n" "dropWhile (\<lambda>c. c \<noteq> slash) n = []"
    using assms(1) by (auto simp: takeWhile_eq_all_conv)
  then show ?thesis
    using assms(2) by (subst path_loop.simps) (simp only: Let_def option.case insert_iff empty_iff if_True if_False simp_thms if_cancel split: if_split, simp)
qed


section \<open>What the path functions guarantee\<close>

text \<open>C6: \<open>path_conv\<close> resolves a path against the working directory: for a canonical working directory
and a path whose first component is not a name that begins with a dot, it never reads before its buffer
and returns the canonical path of the names obtained by interpreting the components one after the
other (\<open>..\<close> drops the last name and stays at the root, \<open>.\<close> and empty components change nothing),
possibly followed by one slash. An absolute path starts from the root.\<close>

theorem path_conv_resolves:
  assumes "names_ok ws" "length (render ws False) + length path < path_max"
    and "path = [] \<or> hd path \<noteq> CHR ''.'' \<or> takeWhile (\<lambda>c. c \<noteq> slash) path \<in> {''.'', ''..''}"
  shows "\<exists>t. path_conv (render ws False) path =
     Some (Inr (render (foldl resolve (if path \<noteq> [] \<and> hd path = slash then [] else ws) (split_slash path)) t))"
proof (cases "path \<noteq> [] \<and> hd path = slash")
  case True
  then obtain p where p: "path = slash # p" by (cases path) auto
  obtain t where "path_loop p (render [] False) = Some (render (foldl resolve [] (split_slash p)) t)"
    using path_loop_render [of "[]" False p] by (auto simp: names_ok_def)
  then show ?thesis
    using assms(2) p by (auto simp: path_conv_def strlcpy_def render_def [of "[]"] resolve_def)
next
  case False
  let ?dot = "path \<noteq> [] \<and> hd path = CHR ''.''"
  have "render ws False @ (if 1 < length (render ws False) \<and> \<not> ?dot then [slash] else []) = render ws (\<not> ?dot)"
    using length_render [OF assms(1)] by (auto simp: render_def)
  moreover obtain t where "path_loop path (render ws (\<not> ?dot)) = Some (render (foldl resolve ws (split_slash path)) t)"
    using path_loop_render [OF assms(1), of "\<not> ?dot" path] assms(3) by auto
  ultimately show ?thesis
    using assms(2) False by (intro exI [of _ t]) (auto simp: path_conv_def strlcpy_def Let_def)
qed

theorem path_conv_resolves_witness:
  "\<exists>t. path_conv ''/usr/lib'' ''../bin/./sh'' = Some (Inr (render [''usr'', ''bin'', ''sh''] t))"
  using path_conv_resolves [of "[''usr'', ''lib'']" "''../bin/./sh''"]
  by (simp add: render_def [of "[_, _]"] names_ok_def path_max_def resolve_def)

text \<open>C35: \<open>path_conv\<close> never writes more than \<open>PATH_MAX\<close> characters, and it can write that many:
the terminating zero of such a result lies one byte behind a buffer of \<open>PATH_MAX\<close> bytes. The length
check leaves out the slash that is inserted between the working directory and the path.\<close>

theorem path_conv_length:
  "(\<forall>wd path full. path_conv wd path = Some (Inr full) \<longrightarrow> length full \<le> path_max) \<and>
   (\<exists>wd path full. path_conv wd path = Some (Inr full) \<and> length full = path_max)"
proof
  show "\<forall>wd path full. path_conv wd path = Some (Inr full) \<longrightarrow> length full \<le> path_max"
  proof (intro allI impI)
    fix wd path full
    assume "path_conv wd path = Some (Inr full)"
    then show "length full \<le> path_max"
      by (auto simp: path_conv_def Let_def strlcpy_def split: if_splits dest!: path_loop_length)
  qed
  define n where "n = (4093 :: nat)"
  have "2 < n" by (simp add: n_def)
  then have "path_loop (replicate n (CHR ''b'')) ''/a/'' = Some (''/a/'' @ replicate n (CHR ''b''))"
    by (intro path_loop_name) (auto dest!: arg_cong [of _ _ length])
  moreover have "hd (replicate n (CHR ''b'')) = CHR ''b''" "n \<noteq> 0" "n + 3 = path_max"
    using \<open>2 < n\<close> by (simp_all add: n_def path_max_def hd_replicate)
  ultimately have "path_conv ''/a'' (replicate n (CHR ''b'')) = Some (Inr (''/a/'' @ replicate n (CHR ''b'')))"
    by (simp add: path_conv_def strlcpy_def Let_def)
  then show "\<exists>wd path full. path_conv wd path = Some (Inr full) \<and> length full = path_max"
    using \<open>n + 3 = path_max\<close> by (intro exI conjI) (assumption, simp)
qed

theorem path_conv_length_witness:
  "path_conv ''/a'' ''b'' = Some (Inr ''/a/b'') \<and> length ''/a/b'' \<le> path_max"
  using path_conv_length path_loop_name [of "''b''" "''/a/''"] by (simp add: path_conv_def strlcpy_def path_max_def)

text \<open>C36: A relative path that is one hidden file's name is glued to the last component of the
working directory: no slash is inserted, because only the first character is tested.\<close>

theorem path_conv_hidden_name:
  assumes "slash \<notin> set n" "n \<notin> {[], ''.''}" "length wd + length n < 4000"
  shows "path_conv wd (CHR ''.'' # n) = Some (Inr (wd @ CHR ''.'' # n))"
  using path_loop_name [of "CHR ''.'' # n" wd] assms
  by (auto simp: path_conv_def strlcpy_def path_max_def Let_def)

theorem path_conv_hidden_name_witness: "path_conv ''/home'' ''.profile'' = Some (Inr ''/home.profile'')"
  using path_conv_hidden_name [of "''profile''" "''/home''"] by simp

text \<open>A mount point covers the paths at and below it.\<close>

definition covers :: "string \<Rightarrow> string \<Rightarrow> bool" where
  "covers root path \<longleftrightarrow> root \<noteq> [] \<and> take (length root) path = root \<and>
     (root = [slash] \<or> length path = length root \<or> path ! length root = slash)"

lemma match_len_eq:
  "match_len path root = (n, path', root') \<Longrightarrow>
     path = take n root @ path' \<and> root = take n root @ root' \<and> n \<le> length root \<and> (root' = [] \<or> path' = [] \<or> hd path' \<noteq> hd root')"
  by (induction path root arbitrary: n path' root' rule: match_len.induct)
     (auto simp: Let_def split: if_splits prod.splits)

lemma count_match_covers: "count_match path root = (if covers root path then length root else 0)"
proof -
  obtain n p r where m: "match_len path root = (n, p, r)" by (metis prod_cases3)
  note eq = match_len_eq [OF m]
  show ?thesis
  proof (cases "r = []")
    case True
    then have "root = take n root" "n \<le> length root" "path = take n root @ p" using eq by auto
    then have "n = length root" "path = root @ p" by (metis length_take min.absorb2, simp)
    then show ?thesis
      using True m by (cases p; cases root) (auto simp: count_match_def covers_def nth_append)
  next
    case False
    have "take (length root) path \<noteq> root"
    proof
      assume a: "take (length root) path = root"
      obtain q where "path = root @ q" using a by (metis append_take_drop_id)
      then have "p = r @ q" using eq by (metis append.assoc same_append_eq)
      then show False using eq False by (cases r) auto
    qed
    then show ?thesis using False m by (simp add: count_match_def covers_def)
  qed
qed

lemma find_mount_best:
  "find_mount path ms (m, k) = (m', k') \<Longrightarrow>
     k \<le> k' \<and> (\<forall>(r, x)\<in>set ms. count_match path r \<le> k') \<and>
     (k' = k \<and> m' = m \<or> k < k' \<and> (\<exists>r x. (r, x) \<in> set ms \<and> m' = Some x \<and> k' = count_match path r))"
proof (induction ms arbitrary: m k)
  case (Cons a ms)
  obtain r x where a: "a = (r, x)" by fastforce
  let ?len = "count_match path r"
  show ?case
  proof (cases "k < ?len")
    case True
    then have "find_mount path ms (Some x, ?len) = (m', k')" using Cons.prems a by simp
    from Cons.IH [OF this] show ?thesis using True a by auto
  next
    case False
    then have "find_mount path ms (m, k) = (m', k')" using Cons.prems a by simp
    from Cons.IH [OF this] show ?thesis using False a by auto
  qed
qed simp

lemma vfs_findroot_in:
  assumes "vfs_findroot ms path = Some (m, rest)"
  shows "\<exists>r. (r, m) \<in> set ms"
proof -
  obtain mo k where f: "find_mount path ms (None, 0) = (mo, k)" by fastforce
  then show ?thesis
    using find_mount_best [OF f] assms by (auto simp: vfs_findroot_def Let_def split: option.splits)
qed

text \<open>C20: \<open>vfs_findroot\<close> finds the mount with the longest mount point that covers the path, and the rest of
the path below it; it fails exactly when no mount point covers the path.\<close>

theorem vfs_findroot_longest:
  "case vfs_findroot ms path of
     None \<Rightarrow> \<forall>(r, m)\<in>set ms. \<not> covers r path
   | Some (m, rest) \<Rightarrow> (\<exists>r. (r, m) \<in> set ms \<and> covers r path \<and> (\<forall>(r', m')\<in>set ms. covers r' path \<longrightarrow> length r' \<le> length r) \<and>
       (path = r @ rest \<or> path = r @ slash # rest))"
proof -
  obtain mo k where f: "find_mount path ms (None, 0) = (mo, k)" by fastforce
  note best = find_mount_best [OF f]
  show ?thesis
  proof (cases mo)
    case None
    then have "k = 0" using best by auto
    then show ?thesis
      using best None f by (fastforce simp: vfs_findroot_def count_match_covers covers_def)
  next
    case (Some m)
    then obtain r where r: "(r, m) \<in> set ms" "k = count_match path r" "0 < k" using best by auto
    then have c: "covers r path" "k = length r" by (auto simp: count_match_covers split: if_splits)
    then have "path = r @ drop k path" by (metis append_take_drop_id covers_def)
    moreover have "\<forall>(r', m')\<in>set ms. covers r' path \<longrightarrow> length r' \<le> length r"
      using best c(2) by (fastforce simp: count_match_covers)
    ultimately show ?thesis
      using f Some r(1) c by (cases "drop k path") (auto simp: vfs_findroot_def Let_def)
  qed
qed

theorem vfs_findroot_longest_witness:
  "vfs_findroot [(''/'', 0::nat), (''/dev'', 1)] ''/dev/null'' = Some (1, ''null'') \<and>
   (\<exists>r. (r, 1) \<in> set [(''/'', 0::nat), (''/dev'', 1)] \<and> covers r ''/dev/null'')"
  using vfs_findroot_longest [of "[(''/'', 0::nat), (''/dev'', 1)]" "''/dev/null''"]
  by (simp add: vfs_findroot_def count_match_def)

lemma concat_slash_prefix:
  assumes "names_ok ps" "names_ok cs" "concat (map (Cons slash) cs) = concat (map (Cons slash) ps) @ slash # rest"
  shows "\<exists>ds. ds \<noteq> [] \<and> cs = ps @ ds"
  using assms
proof (induction ps arbitrary: cs)
  case Nil
  then show ?case by (cases cs) auto
next
  case (Cons p ps)
  then obtain c cs' where cs: "cs = c # cs'" by (cases cs) auto
  have tw: "takeWhile (\<lambda>x. x \<noteq> slash) (n @ concat (map (Cons slash) ns) @ zs) = n"
    if "slash \<notin> set n" "ns \<noteq> [] \<or> zs = [] \<or> hd zs = slash" for n ns zs
    using that by (cases ns; cases zs) (auto simp: takeWhile_append)
  have eq: "c @ concat (map (Cons slash) cs') = p @ concat (map (Cons slash) ps) @ slash # rest"
    using Cons.prems(3) cs by simp
  have "slash \<notin> set c" "slash \<notin> set p" using Cons.prems(1,2) cs by (auto simp: names_ok_def)
  then have "c = p"
    using arg_cong [OF eq, of "takeWhile (\<lambda>x. x \<noteq> slash)"] tw [of c cs' "[]"] tw [of p ps "slash # rest"] by simp
  then show ?case
    using Cons.IH [of cs'] Cons.prems eq cs by (auto simp: names_ok_def)
qed

text \<open>For paths without trailing slashes \<open>is_parent\<close> holds exactly when the child lies strictly below
the parent.\<close>

theorem is_parent_below:
  assumes "names_ok ps" "names_ok cs"
  shows "is_parent (render ps False) (render cs False) \<longleftrightarrow>
     (ps = [] \<or> (\<exists>ds. ds \<noteq> [] \<and> cs = ps @ ds))"
proof (cases "ps = []")
  case True
  then show ?thesis by (cases cs) (auto simp: is_parent_def render_def)
next
  case False
  let ?p = "concat (map (Cons slash) ps)"
  have p: "render ps False = ?p" "last ?p \<noteq> slash" "?p \<noteq> []"
    using False last_render [OF assms(1), of False] by (auto simp: render_def)
  have "is_parent ?p child \<longleftrightarrow> (\<exists>rest. child = ?p @ slash # rest)" for child
    using p(2,3) by (auto simp: is_parent_def Let_def nth_append) (metis append_take_drop_id Cons_nth_drop_Suc)
  moreover have "(\<exists>rest. render cs False = ?p @ slash # rest) \<longleftrightarrow> (\<exists>ds. ds \<noteq> [] \<and> cs = ps @ ds)"
  proof
    assume "\<exists>rest. render cs False = ?p @ slash # rest"
    then obtain rest where rest: "render cs False = ?p @ slash # rest" by blast
    then have "cs \<noteq> []" using False by (cases ps) (auto simp: render_def)
    then show "\<exists>ds. ds \<noteq> [] \<and> cs = ps @ ds"
      using rest concat_slash_prefix [OF assms, of rest] by (simp add: render_def)
  next
    assume "\<exists>ds. ds \<noteq> [] \<and> cs = ps @ ds"
    then obtain d ds where "cs = ps @ d # ds" by (metis neq_Nil_conv)
    then show "\<exists>rest. render cs False = ?p @ slash # rest" by (auto simp: render_def)
  qed
  ultimately show ?thesis using p(1) False by simp
qed

theorem is_parent_below_witness: "is_parent ''/a'' ''/a/b'' \<and> \<not> is_parent ''/a'' ''/ab''"
  using is_parent_below [of "[''a'']" "[''a'', ''b'']"] is_parent_below [of "[''a'']" "[''ab'']"]
  by (simp add: render_def names_ok_def)

end
