(* ===== verification/Uio.thy ===== *)
theory Uio
  imports Prelude
begin

text \<open>
  Scatter/gather transfers, \<^verbatim>\<open>fs/vfs/subr_uio.cc\<close>. Memory is a function from addresses to bytes; a byte
  that was never written since its allocation is \<open>None\<close>. \<open>uiomove\<close> copies between a kernel buffer and
  the memory ranges of an \<open>iovec\<close> array. A copy outside the kernel buffer, past the end of the array or
  of a negative length is the result \<open>None\<close>.
\<close>

section \<open>Definitions\<close>

type_synonym byte = "u8 option"

type_synonym mem = "nat \<Rightarrow> byte"

record iovec =
  iov_base :: nat
  iov_len :: nat

datatype uio_rw = UIO_READ | UIO_WRITE

record uio =
  uio_iov :: "iovec list"
  uio_offset :: int
  uio_resid :: int
  uio_rw :: uio_rw

text \<open>The conversion of an integer to \<open>int\<close>, and to \<open>size_t\<close>.\<close>

definition c_int :: "int \<Rightarrow> int" where
  "c_int x = (x + 2 ^ 31) mod 2 ^ 32 - 2 ^ 31"

definition size_t :: "int \<Rightarrow> int" where
  "size_t x = x mod 2 ^ 64"

definition mem_read :: "mem \<Rightarrow> nat \<Rightarrow> nat \<Rightarrow> byte list" where
  "mem_read mem a n = map mem [a ..< a + n]"

definition mem_write :: "mem \<Rightarrow> nat \<Rightarrow> byte list \<Rightarrow> mem" where
  "mem_write mem a bs = (\<lambda>x. if a \<le> x \<and> x < a + length bs then bs ! (x - a) else mem x)"

text \<open>\<open>memcpy\<close> into the buffer \<open>cp\<close> at \<open>pos\<close>.\<close>

definition overwrite :: "byte list \<Rightarrow> nat \<Rightarrow> byte list \<Rightarrow> byte list" where
  "overwrite cp pos bs = take pos cp @ bs @ drop (pos + length bs) cp"

text \<open>\<open>uiomove (cp + pos, n, uio)\<close>.\<close>

function uiomove :: "byte list \<Rightarrow> nat \<Rightarrow> int \<Rightarrow> uio \<Rightarrow> mem \<Rightarrow> (byte list \<times> uio \<times> mem) option" where
  "uiomove cp pos n uio mem =
     (if 0 < n \<and> uio_resid uio \<noteq> 0 then
        (case uio_iov uio of
           [] \<Rightarrow> None
         | iov # iovs \<Rightarrow>
             if c_int (int (iov_len iov)) = 0 then uiomove cp pos n (uio\<lparr>uio_iov := iovs\<rparr>) mem
             else
               let cnt = min n (c_int (int (iov_len iov))) in
               if cnt < 0 \<or> int (length cp) < int pos + cnt then None
               else
                 let bytes = (if uio_rw uio = UIO_READ then take (nat cnt) (drop pos cp) else mem_read mem (iov_base iov) (nat cnt));
                     uio' = uio\<lparr>uio_iov := iov\<lparr>iov_base := iov_base iov + nat cnt, iov_len := iov_len iov - nat cnt\<rparr> # iovs,
                                uio_resid := uio_resid uio - cnt, uio_offset := uio_offset uio + cnt\<rparr>
                 in if uio_rw uio = UIO_READ then uiomove cp (pos + nat cnt) (n - cnt) uio' (mem_write mem (iov_base iov) bytes)
                    else uiomove (overwrite cp pos bytes) (pos + nat cnt) (n - cnt) uio' mem)
      else Some (cp, uio, mem))"
  by auto
termination
  by (relation "measure (\<lambda>(cp, pos, n, uio, mem). nat n + length (uio_iov uio))") auto

declare uiomove.simps [simp del]


section \<open>What a transfer does\<close>

text \<open>
  A request as the system calls build it: the residual count is the sum of the lengths, and no
  single length exceeds \<open>INT_MAX\<close>.
\<close>

definition iov_total :: "iovec list \<Rightarrow> nat" where
  "iov_total iovs = sum_list (map iov_len iovs)"

definition uio_ok :: "uio \<Rightarrow> bool" where
  "uio_ok uio \<longleftrightarrow> uio_resid uio = int (iov_total (uio_iov uio)) \<and> (\<forall>i\<in>set (uio_iov uio). iov_len i < 2 ^ 31)"

text \<open>The bytes of the memory ranges, in order.\<close>

definition gather :: "mem \<Rightarrow> iovec list \<Rightarrow> byte list" where
  "gather mem iovs = concat (map (\<lambda>i. mem_read mem (iov_base i) (iov_len i)) iovs)"

definition iov_range :: "iovec \<Rightarrow> nat set" where
  "iov_range i = {iov_base i ..< iov_base i + iov_len i}"

fun iov_disjoint :: "iovec list \<Rightarrow> bool" where
  "iov_disjoint [] = True"
| "iov_disjoint (i # is) \<longleftrightarrow> (\<forall>j\<in>set is. iov_range i \<inter> iov_range j = {}) \<and> iov_disjoint is"

lemma c_int_small: "n < 2 ^ 31 \<Longrightarrow> c_int (int n) = int n"
  by (simp add: c_int_def)

lemma length_mem_read [simp]: "length (mem_read mem a n) = n"
  by (simp add: mem_read_def)

lemma length_gather [simp]: "length (gather mem iovs) = iov_total iovs"
  by (induction iovs) (simp_all add: gather_def iov_total_def)

lemma gather_Cons: "gather mem (i # is) = mem_read mem (iov_base i) (iov_len i) @ gather mem is"
  by (simp add: gather_def)

lemma iov_total_Cons: "iov_total (i # is) = iov_len i + iov_total is"
  by (simp add: iov_total_def)

lemma mem_read_split: "k \<le> n \<Longrightarrow> mem_read mem a n = mem_read mem a k @ mem_read mem (a + k) (n - k)"
proof -
  assume "k \<le> n"
  then have "[a ..< a + n] = [a ..< a + k] @ [a + k ..< a + k + (n - k)]"
    using upt_add_eq_append [of a "a + k" "n - k"] by simp
  then show ?thesis by (simp add: mem_read_def)
qed

lemma mem_read_other: "{a ..< a + n} \<inter> {b ..< b + length bs} = {} \<Longrightarrow> mem_read (mem_write mem b bs) a n = mem_read mem a n"
  unfolding mem_read_def mem_write_def by (rule map_cong) (auto dest: IntI [of _ "{a ..< a + n}"])

lemma mem_read_write: "length bs = n \<Longrightarrow> mem_read (mem_write mem a bs) a n = bs"
  unfolding mem_read_def mem_write_def by (rule nth_equalityI) auto

lemma length_overwrite: "pos + length bs \<le> length cp \<Longrightarrow> length (overwrite cp pos bs) = length cp"
  by (simp add: overwrite_def)

lemma overwrite_overwrite:
  "pos + length bs + length cs \<le> length cp \<Longrightarrow> overwrite (overwrite cp pos bs) (pos + length bs) cs = overwrite cp pos (bs @ cs)"
  by (simp add: overwrite_def ac_simps)

lemma iov_disjoint_shrink:
  "\<lbrakk>iov_disjoint (i # is); k \<le> iov_len i\<rbrakk> \<Longrightarrow>
   iov_disjoint (i\<lparr>iov_base := iov_base i + k, iov_len := iov_len i - k\<rparr> # is)"
  by (fastforce simp: iov_range_def)

lemma uio_ok_Cons:
  "\<lbrakk>uio_ok uio; uio_iov uio = i # is; k \<le> iov_len i; r = uio_resid uio - int k\<rbrakk> \<Longrightarrow>
   uio_ok (uio\<lparr>uio_iov := i\<lparr>iov_base := iov_base i + k, iov_len := iov_len i - k\<rparr> # is, uio_resid := r, uio_offset := off\<rparr>)"
  by (auto simp: uio_ok_def iov_total_def)

lemma uiomove_stop: "n \<le> 0 \<or> uio_resid uio = 0 \<Longrightarrow> uiomove cp pos n uio mem = Some (cp, uio, mem)"
  by (subst uiomove.simps) auto

lemma uiomove_skip:
  "\<lbrakk>0 < n; uio_resid uio \<noteq> 0; uio_iov uio = i # is; iov_len i = 0\<rbrakk> \<Longrightarrow>
   uiomove cp pos n uio mem = uiomove cp pos n (uio\<lparr>uio_iov := is\<rparr>) mem"
  by (subst uiomove.simps) (simp add: c_int_def)

lemma uiomove_copy:
  assumes "0 < n" "uio_resid uio \<noteq> 0" "uio_iov uio = i # is" "0 < iov_len i" "iov_len i < 2 ^ 31"
    "k = min (nat n) (iov_len i)" "pos + k \<le> length cp"
  shows "uiomove cp pos n uio mem =
    (let uio' = uio\<lparr>uio_iov := i\<lparr>iov_base := iov_base i + k, iov_len := iov_len i - k\<rparr> # is,
                    uio_resid := uio_resid uio - int k, uio_offset := uio_offset uio + int k\<rparr>
     in if uio_rw uio = UIO_READ then uiomove cp (pos + k) (n - int k) uio' (mem_write mem (iov_base i) (take k (drop pos cp)))
        else uiomove (overwrite cp pos (mem_read mem (iov_base i) k)) (pos + k) (n - int k) uio' mem)"
proof -
  have "min n (c_int (int (iov_len i))) = int k" using assms by (simp add: c_int_small)
  moreover have "c_int (int (iov_len i)) \<noteq> 0" using assms by (simp add: c_int_small)
  ultimately show ?thesis using assms by (subst uiomove.simps) (simp add: Let_def)
qed

lemma take_gather:
  assumes "k \<le> iov_len i"
  shows "gather mem (i # is) = mem_read mem (iov_base i) k @ gather mem (i\<lparr>iov_base := iov_base i + k, iov_len := iov_len i - k\<rparr> # is)"
  using mem_read_split [OF assms, of mem "iov_base i"] by (simp add: gather_Cons)

text \<open>
  The number of bytes that one round copies leaves a smaller problem: \<open>n - k\<close> bytes and a residual
  count smaller by \<open>k\<close>.
\<close>

lemma moved_split: "\<lbrakk>0 < n; int k \<le> n; int k \<le> r\<rbrakk> \<Longrightarrow> nat (min n r) = k + nat (min (n - int k) (r - int k))"
  by linarith

lemma uiomove_write_bytes:
  assumes "uio_ok uio" "uio_rw uio = UIO_WRITE" "0 \<le> n" "pos + nat (min n (uio_resid uio)) \<le> length cp"
  shows "\<exists>uio'. uiomove cp pos n uio mem = Some (overwrite cp pos (take (nat (min n (uio_resid uio))) (gather mem (uio_iov uio))), uio', mem) \<and>
     uio_ok uio' \<and> uio_resid uio' = uio_resid uio - min n (uio_resid uio) \<and> uio_offset uio' = uio_offset uio + min n (uio_resid uio)"
  using assms
proof (induction "nat n + length (uio_iov uio)" arbitrary: cp pos n uio rule: less_induct)
  case less
  note ok = less.prems(1)
  show ?case
  proof (cases "0 < n \<and> uio_resid uio \<noteq> 0")
    case False
    moreover have "0 \<le> uio_resid uio" using ok by (simp add: uio_ok_def)
    ultimately have "min n (uio_resid uio) = 0" using less.prems(3) by auto
    then show ?thesis using False ok uiomove_stop [of n uio cp pos mem] by (auto simp: overwrite_def)
  next
    case True
    then obtain i "is" where i: "uio_iov uio = i # is" using ok by (cases "uio_iov uio") (auto simp: uio_ok_def iov_total_def)
    show ?thesis
    proof (cases "iov_len i = 0")
      case zero: True
      have "uio_ok (uio\<lparr>uio_iov := is\<rparr>)" using ok i zero by (auto simp: uio_ok_def iov_total_def)
      then show ?thesis
        using less.hyps [of n "uio\<lparr>uio_iov := is\<rparr>" pos cp] less.prems i zero True
        by (simp add: uiomove_skip gather_Cons mem_read_def)
    next
      case False
      define k where "k = min (nat n) (iov_len i)"
      define m where "m = nat (min (n - int k) (uio_resid uio - int k))"
      define u where "u = uio\<lparr>uio_iov := i\<lparr>iov_base := iov_base i + k, iov_len := iov_len i - k\<rparr> # is,
                    uio_resid := uio_resid uio - int k, uio_offset := uio_offset uio + int k\<rparr>"
      define cp' where "cp' = overwrite cp pos (mem_read mem (iov_base i) k)"
      have k: "k \<le> iov_len i" "int k \<le> n" "0 < k" using True False by (auto simp: k_def)
      have small: "iov_len i < 2 ^ 31" "int k \<le> uio_resid uio" using ok i k(1) by (auto simp: uio_ok_def iov_total_def)
      have nm: "nat (min n (uio_resid uio)) = k + m" unfolding m_def by (rule moved_split) (use k small True in auto)
      have len: "pos + k + m \<le> length cp" using less.prems(4) nm by simp
      have cp': "length cp' = length cp" using len by (simp add: cp'_def length_overwrite)
      have step: "uiomove cp pos n uio mem = uiomove cp' (pos + k) (n - int k) u mem"
        using uiomove_copy [OF _ _ i _ small(1) k_def, of pos cp mem] True False len less.prems(2) by (simp add: Let_def u_def cp'_def)
      have u: "uio_ok u" unfolding u_def by (rule uio_ok_Cons [OF ok i k(1) refl])
      have u_simps: "uio_rw u = UIO_WRITE" "uio_resid u = uio_resid uio - int k" "uio_offset u = uio_offset uio + int k"
        "uio_iov u = i\<lparr>iov_base := iov_base i + k, iov_len := iov_len i - k\<rparr> # is" using less.prems(2) by (simp_all add: u_def)
      have "nat (n - int k) + length (uio_iov u) < nat n + length (uio_iov uio)" using k True by (simp add: u_simps i)
      then obtain uio' where uio': "uiomove cp' (pos + k) (n - int k) u mem = Some (overwrite cp' (pos + k) (take m (gather mem (uio_iov u))), uio', mem)"
          "uio_ok uio'" "uio_resid uio' = uio_resid u - min (n - int k) (uio_resid u)"
          "uio_offset uio' = uio_offset u + min (n - int k) (uio_resid u)"
        using less.hyps [of "n - int k" u "pos + k" cp'] u u_simps(1,2) k(2) len cp' by (auto simp: m_def)
      have "m \<le> nat (uio_resid u)" unfolding m_def u_simps by (rule nat_mono) simp
      then have "m \<le> iov_total (uio_iov u)" using u by (simp add: uio_ok_def)
      then have "overwrite cp' (pos + k) (take m (gather mem (uio_iov u))) = overwrite cp pos (mem_read mem (iov_base i) k @ take m (gather mem (uio_iov u)))"
        using overwrite_overwrite [of pos "mem_read mem (iov_base i) k" "take m (gather mem (uio_iov u))" cp] len by (simp add: cp'_def)
      also have "mem_read mem (iov_base i) k @ take m (gather mem (uio_iov u)) = take (k + m) (gather mem (uio_iov uio))"
        using take_gather [OF k(1), of mem "is"] i u_simps(4) by simp
      finally show ?thesis using uio' step small k unfolding nm u_simps by (auto simp: min_def)
    qed
  qed
qed

text \<open>Reading changes only the ranges of the request, and they hold the transferred bytes in order.\<close>

lemma uiomove_read_bytes:
  assumes "uio_ok uio" "uio_rw uio = UIO_READ" "iov_disjoint (uio_iov uio)" "0 \<le> n" "pos + nat (min n (uio_resid uio)) \<le> length cp"
  shows "\<exists>uio' mem'. uiomove cp pos n uio mem = Some (cp, uio', mem') \<and>
     gather mem' (uio_iov uio) = take (nat (min n (uio_resid uio))) (drop pos cp) @ drop (nat (min n (uio_resid uio))) (gather mem (uio_iov uio)) \<and>
     (\<forall>x. x \<notin> \<Union> (iov_range ` set (uio_iov uio)) \<longrightarrow> mem' x = mem x) \<and>
     uio_ok uio' \<and> uio_resid uio' = uio_resid uio - min n (uio_resid uio) \<and> uio_offset uio' = uio_offset uio + min n (uio_resid uio)"
  using assms
proof (induction "nat n + length (uio_iov uio)" arbitrary: pos n uio mem rule: less_induct)
  case less
  note ok = less.prems(1)
  show ?case
  proof (cases "0 < n \<and> uio_resid uio \<noteq> 0")
    case False
    moreover have "0 \<le> uio_resid uio" using ok by (simp add: uio_ok_def)
    ultimately have "min n (uio_resid uio) = 0" using less.prems(4) by auto
    then show ?thesis using False ok uiomove_stop [of n uio cp pos mem] by auto
  next
    case True
    then obtain i "is" where i: "uio_iov uio = i # is" using ok by (cases "uio_iov uio") (auto simp: uio_ok_def iov_total_def)
    show ?thesis
    proof (cases "iov_len i = 0")
      case zero: True
      have "uio_ok (uio\<lparr>uio_iov := is\<rparr>)" using ok i zero by (auto simp: uio_ok_def iov_total_def)
      then show ?thesis
        using less.hyps [of n "uio\<lparr>uio_iov := is\<rparr>" pos mem] less.prems i zero True
        by (simp add: uiomove_skip gather_Cons mem_read_def iov_range_def)
    next
      case False
      define k where "k = min (nat n) (iov_len i)"
      define m where "m = nat (min (n - int k) (uio_resid uio - int k))"
      define u where "u = uio\<lparr>uio_iov := i\<lparr>iov_base := iov_base i + k, iov_len := iov_len i - k\<rparr> # is,
                    uio_resid := uio_resid uio - int k, uio_offset := uio_offset uio + int k\<rparr>"
      define bs where "bs = take k (drop pos cp)"
      define mem1 where "mem1 = mem_write mem (iov_base i) bs"
      have k: "k \<le> iov_len i" "int k \<le> n" "0 < k" using True False by (auto simp: k_def)
      have small: "iov_len i < 2 ^ 31" "int k \<le> uio_resid uio" using ok i k(1) by (auto simp: uio_ok_def iov_total_def)
      have nm: "nat (min n (uio_resid uio)) = k + m" unfolding m_def by (rule moved_split) (use k small True in auto)
      have len: "pos + k + m \<le> length cp" using less.prems(5) nm by simp
      have bs: "length bs = k" using len by (simp add: bs_def)
      have step: "uiomove cp pos n uio mem = uiomove cp (pos + k) (n - int k) u mem1"
        using uiomove_copy [OF _ _ i _ small(1) k_def, of pos cp mem] True False len less.prems(2) by (simp add: Let_def u_def mem1_def bs_def)
      have u: "uio_ok u" unfolding u_def by (rule uio_ok_Cons [OF ok i k(1) refl])
      have u_simps: "uio_rw u = UIO_READ" "uio_resid u = uio_resid uio - int k" "uio_offset u = uio_offset uio + int k"
        "uio_iov u = i\<lparr>iov_base := iov_base i + k, iov_len := iov_len i - k\<rparr> # is" using less.prems(2) by (simp_all add: u_def)
      have dis: "iov_disjoint (uio_iov u)" unfolding u_simps using less.prems(3) i by (intro iov_disjoint_shrink k(1)) simp
      have smaller: "nat (n - int k) + length (uio_iov u) < nat n + length (uio_iov uio)" using k True by (simp add: u_simps i)
      have m: "m = nat (min (n - int k) (uio_resid u))" by (simp add: m_def u_simps)
      obtain uio' mem' where uio': "uiomove cp (pos + k) (n - int k) u mem1 = Some (cp, uio', mem')"
          "gather mem' (uio_iov u) = take m (drop (pos + k) cp) @ drop m (gather mem1 (uio_iov u))"
          "\<forall>x. x \<notin> \<Union> (iov_range ` set (uio_iov u)) \<longrightarrow> mem' x = mem1 x"
          "uio_ok uio'" "uio_resid uio' = uio_resid u - min (n - int k) (uio_resid u)"
          "uio_offset uio' = uio_offset u + min (n - int k) (uio_resid u)"
        using less.hyps [OF smaller u u_simps(1) dis, of "pos + k" mem1] k(2) len unfolding m by auto
      have outside: "mem_read mem' (iov_base i) k = mem_read mem1 (iov_base i) k"
      proof -
        have "x \<notin> \<Union> (iov_range ` set (uio_iov u))" if "x \<in> {iov_base i ..< iov_base i + k}" for x
          using that less.prems(3) k(1) unfolding u_simps i by (fastforce simp: iov_range_def)
        then show ?thesis using uio'(3) unfolding mem_read_def by (intro map_cong) auto
      qed
      have rest: "gather mem1 (uio_iov u) = drop k (gather mem (uio_iov uio))"
      proof -
        have "gather mem1 (uio_iov u) = gather mem (uio_iov u)"
        proof -
          have "mem_read mem1 (iov_base j) (iov_len j) = mem_read mem (iov_base j) (iov_len j)" if "j \<in> set (uio_iov u)" for j
            unfolding mem1_def by (rule mem_read_other)
              (use that less.prems(3) k(1) bs in \<open>fastforce simp: u_simps i iov_range_def\<close>)
          then show ?thesis unfolding gather_def by (intro arg_cong [where f = concat] map_cong refl)
        qed
        then show ?thesis using take_gather [OF k(1), of mem "is"] i u_simps(4) by simp
      qed
      have "gather mem' (uio_iov uio) = bs @ gather mem' (uio_iov u)"
        using take_gather [OF k(1), of mem' "is"] outside bs i u_simps(4) by (simp add: mem1_def mem_read_write)
      also have "\<dots> = take (k + m) (drop pos cp) @ drop (k + m) (gather mem (uio_iov uio))"
        unfolding uio'(2) rest bs_def by (simp add: take_add ac_simps)
      finally have "gather mem' (uio_iov uio) = \<dots>" .
      moreover have "mem' x = mem x" if "x \<notin> \<Union> (iov_range ` set (uio_iov uio))" for x
      proof -
        have "x \<notin> iov_range i" using that i by simp
        moreover have "x \<notin> \<Union> (iov_range ` set (uio_iov u))" using that k(1) i unfolding u_simps by (auto simp: iov_range_def)
        ultimately show ?thesis using uio'(3) k(1) bs by (auto simp: mem1_def mem_write_def iov_range_def)
      qed
      ultimately show ?thesis using uio' step small k unfolding nm u_simps by (auto simp: min_def)
    qed
  qed
qed

text \<open>C25: A write transfer of \<open>n\<close> bytes copies exactly the first \<open>min n uio_resid\<close> bytes of the scattered ranges, in order, to the
  buffer at \<open>pos\<close>, touches nothing else of the buffer or of memory, and moves the residual count and the offset by that many
  bytes; a request with overlapping or empty ranges is no exception.\<close>

theorem uiomove_write:
  assumes "uio_ok uio" "uio_rw uio = UIO_WRITE" "0 \<le> n" "pos + nat (min n (uio_resid uio)) \<le> length cp"
  shows "\<exists>uio'. uiomove cp pos n uio mem = Some (overwrite cp pos (take (nat (min n (uio_resid uio))) (gather mem (uio_iov uio))), uio', mem) \<and>
     uio_ok uio' \<and> uio_resid uio' = uio_resid uio - min n (uio_resid uio) \<and> uio_offset uio' = uio_offset uio + min n (uio_resid uio)"
  by (rule uiomove_write_bytes [OF assms])

definition demo_uio :: "uio_rw \<Rightarrow> uio" where
  "demo_uio rw = \<lparr>uio_iov = [\<lparr>iov_base = 100, iov_len = 2\<rparr>, \<lparr>iov_base = 7, iov_len = 0\<rparr>, \<lparr>iov_base = 200, iov_len = 3\<rparr>],
     uio_offset = 10, uio_resid = 5, uio_rw = rw\<rparr>"

lemma demo_uio_ok: "uio_ok (demo_uio rw)" "iov_disjoint (uio_iov (demo_uio rw))"
  by (simp_all add: demo_uio_def uio_ok_def iov_total_def iov_range_def)

theorem uiomove_write_witness:
  "\<exists>uio'. uiomove (replicate 6 None) 1 4 (demo_uio UIO_WRITE) (\<lambda>x. Some (of_nat x)) =
     Some ([None, Some 100, Some 101, Some 200, Some 201, None], uio', \<lambda>x. Some (of_nat x)) \<and> uio_resid uio' = 1 \<and> uio_offset uio' = 14"
  using uiomove_write [OF demo_uio_ok(1), of UIO_WRITE 4 1 "replicate 6 None" "\<lambda>x. Some (of_nat x)"]
  by (auto simp: demo_uio_def gather_def mem_read_def overwrite_def numeral_eq_Suc)

text \<open>C27: A read transfer into disjoint ranges leaves in them, in order, the first \<open>min n uio_resid\<close> bytes of the buffer followed by
  what the ranges held before, changes no other memory and not the buffer, and moves the residual count and the offset by that many bytes.\<close>

theorem uiomove_read:
  assumes "uio_ok uio" "uio_rw uio = UIO_READ" "iov_disjoint (uio_iov uio)" "0 \<le> n" "pos + nat (min n (uio_resid uio)) \<le> length cp"
  shows "\<exists>uio' mem'. uiomove cp pos n uio mem = Some (cp, uio', mem') \<and>
     gather mem' (uio_iov uio) = take (nat (min n (uio_resid uio))) (drop pos cp) @ drop (nat (min n (uio_resid uio))) (gather mem (uio_iov uio)) \<and>
     (\<forall>x. x \<notin> \<Union> (iov_range ` set (uio_iov uio)) \<longrightarrow> mem' x = mem x) \<and>
     uio_ok uio' \<and> uio_resid uio' = uio_resid uio - min n (uio_resid uio) \<and> uio_offset uio' = uio_offset uio + min n (uio_resid uio)"
  by (rule uiomove_read_bytes [OF assms])

theorem uiomove_read_witness:
  "\<exists>uio' mem'. uiomove [Some 1, Some 2, Some 3, Some 4, Some 5] 1 3 (demo_uio UIO_READ) (\<lambda>x. None) = Some ([Some 1, Some 2, Some 3, Some 4, Some 5], uio', mem') \<and>
     gather mem' (uio_iov (demo_uio UIO_READ)) = [Some 2, Some 3, Some 4, None, None] \<and> mem' 50 = None \<and> uio_resid uio' = 2"
  using uiomove_read [OF demo_uio_ok(1) _ demo_uio_ok(2), of UIO_READ 3 1 "[Some 1, Some 2, Some 3, Some 4, Some 5]" "\<lambda>x. None"]
  by (auto simp: demo_uio_def gather_def mem_read_def iov_range_def numeral_eq_Suc)

end
