(* ===== verification/Vfs_State.thy ===== *)
theory Vfs_State
  imports Path Uio
begin

text \<open>
  The state of the virtual file system and the primitives of \<^verbatim>\<open>fs/vfs/vfs_vnode.cc\<close> and
  \<^verbatim>\<open>fs/vfs/vfs_dentry.cc\<close>: reference counts, lock counts, the two hash tables, the lists of names
  and children. Every system call runs to completion here, so a lock is its count. Addresses are natural
  numbers and are not reused; the kernel's allocator does not return the null pointer (it aborts
  when memory is exhausted), so allocation always succeeds.

  A computation either returns a value and the new state, or ends in a \<open>fault\<close>: a failed \<open>ASSERT\<close>, a
  dereference of the null pointer, of a freed object, outside a buffer or of an uninitialised variable, a \<open>LIST_REMOVE\<close>
  of an object that is on no list, a recursion that does not end, or a fault inside the file system's
  own operations.
\<close>

section \<open>Data\<close>

datatype vtype = VNON | VREG | VDIR | VBLK | VCHR | VLNK | VSOCK | VFIFO | VBAD

datatype fault = Assertion | Null_pointer | Dangling_pointer | Out_of_bounds | Uninitialised | List_corrupted | Diverges | Fs_fault

record vnode =
  v_ino :: u64
  v_mount :: nat
  v_refcnt :: nat
  v_type :: vtype
  v_flags :: u32
  v_mode :: u32
  v_size :: int
  v_names :: "nat list"
  v_nrlocks :: nat
  v_data :: nat

record vattr =
  va_mask :: u32
  va_mode :: u32
  va_nlink :: nat
  va_uid :: nat
  va_gid :: nat
  va_fsid :: nat
  va_nodeid :: u64
  va_atime :: "int \<times> int"
  va_mtime :: "int \<times> int"
  va_ctime :: "int \<times> int"
  va_rdev :: nat
  va_size :: int

record stat_buf =
  st_ino :: u64
  st_size :: int
  st_mode :: u32
  st_nlink :: nat
  st_blksize :: int
  st_blocks :: int
  st_uid :: nat
  st_gid :: nat
  st_dev :: nat
  st_rdev :: nat
  st_atim :: "int \<times> int"
  st_mtim :: "int \<times> int"
  st_ctim :: "int \<times> int"

record dentry =
  d_refcnt :: nat
  d_path :: string
  d_vnode :: nat
  d_mount :: nat
  d_parent :: "nat option"
  d_children :: "nat list"

record mount =
  m_flags :: u32
  m_count :: int
  m_path :: string
  m_special :: string
  m_dev :: "nat option"
  m_root :: "nat option"
  m_covered :: "nat option"

datatype filetype = DTYPE_UNSPEC | DTYPE_VNODE | DTYPE_SOCKET

record dirent =
  d_type :: u8
  d_fileno :: int
  d_name :: string

record file_obj =
  f_flags :: u32
  f_count :: int
  f_offset :: int
  f_dentry :: "nat option"
  f_type :: filetype

record 'fs vfs =
  dentries :: "nat \<Rightarrow> dentry option"
  dentry_hash_table :: "nat list list"
  fake :: "nat list"
  vnodes :: "nat \<Rightarrow> vnode option"
  vnode_table :: "nat list list"
  mounts :: "nat \<Rightarrow> mount option"
  mount_list :: "nat list"
  files :: "nat \<Rightarrow> file_obj option"
  gfdt :: "nat \<Rightarrow> nat option"
  t_cwd :: string
  t_cwdfp :: "nat option"
  user :: mem
  next_ptr :: nat
  fs :: 'fs


section \<open>Computations\<close>

type_synonym ('a, 'fs) vm = "'fs vfs \<Rightarrow> fault + 'a \<times> 'fs vfs"

definition ret :: "'a \<Rightarrow> ('a, 'fs) vm" where
  "ret x s = Inr (x, s)"

definition fail :: "fault \<Rightarrow> ('a, 'fs) vm" where
  "fail e s = Inl e"

definition bnd :: "('a, 'fs) vm \<Rightarrow> ('a \<Rightarrow> ('b, 'fs) vm) \<Rightarrow> ('b, 'fs) vm" where
  "bnd f g s = (case f s of Inl e \<Rightarrow> Inl e | Inr (x, s') \<Rightarrow> g x s')"

lemma bnd_cong [fundef_cong]:
  "\<lbrakk>s = s'; f s' = f' s'; \<And>x s''. f' s' = Inr (x, s'') \<Longrightarrow> g x s'' = g' x s''\<rbrakk> \<Longrightarrow> bnd f g s = bnd f' g' s'"
  by (auto simp: bnd_def split: sum.splits)

definition look :: "('fs vfs \<Rightarrow> 'a) \<Rightarrow> ('a, 'fs) vm" where
  "look f s = Inr (f s, s)"

definition change :: "('fs vfs \<Rightarrow> 'fs vfs) \<Rightarrow> (unit, 'fs) vm" where
  "change f s = Inr ((), f s)"

definition ASSERT :: "bool \<Rightarrow> (unit, 'fs) vm" where
  "ASSERT b = (if b then ret () else fail Assertion)"

definition deref :: "('fs vfs \<Rightarrow> nat \<Rightarrow> 'a option) \<Rightarrow> nat \<Rightarrow> ('a, 'fs) vm" where
  "deref heap p s = (case heap s p of None \<Rightarrow> Inl Dangling_pointer | Some x \<Rightarrow> Inr (x, s))"

definition nonnull :: "nat option \<Rightarrow> (nat, 'fs) vm" where
  "nonnull p = (case p of None \<Rightarrow> fail Null_pointer | Some x \<Rightarrow> ret x)"

definition set_vnode :: "nat \<Rightarrow> vnode \<Rightarrow> (unit, 'fs) vm" where
  "set_vnode v vn = change (\<lambda>s. s\<lparr>vnodes := (vnodes s)(v \<mapsto> vn)\<rparr>)"

definition set_dentry :: "nat \<Rightarrow> dentry \<Rightarrow> (unit, 'fs) vm" where
  "set_dentry d de = change (\<lambda>s. s\<lparr>dentries := (dentries s)(d \<mapsto> de)\<rparr>)"

definition set_mount :: "nat \<Rightarrow> mount \<Rightarrow> (unit, 'fs) vm" where
  "set_mount m me = change (\<lambda>s. s\<lparr>mounts := (mounts s)(m \<mapsto> me)\<rparr>)"

definition new_ptr :: "(nat, 'fs) vm" where
  "new_ptr s = Inr (next_ptr s, s\<lparr>next_ptr := Suc (next_ptr s)\<rparr>)"


section \<open>Operations of a file system\<close>

text \<open>
  \<open>struct vnops\<close> and \<open>struct vfsops\<close>. An operation gets the vnodes it works on and returns an error
  number or 0 (\<open>None\<close>). Operations with an output parameter return a sum. An operation can look at the
  vnode it gets, so one record serves several mounted file systems. The \<open>file_\<close> fields are the virtual
  methods of the files that are not backed by a vnode (sockets, pipes, epoll), and the polling hook.
\<close>

record 'fs fsops =
  vop_open :: "nat \<Rightarrow> nat \<Rightarrow> (errno option, 'fs) vm"
  vop_close :: "nat \<Rightarrow> nat \<Rightarrow> (errno option, 'fs) vm"
  vop_read :: "nat \<Rightarrow> nat \<Rightarrow> uio \<Rightarrow> u32 \<Rightarrow> (errno option \<times> uio, 'fs) vm"
  vop_write :: "nat \<Rightarrow> uio \<Rightarrow> u32 \<Rightarrow> (errno option \<times> uio, 'fs) vm"
  vop_ioctl :: "nat \<Rightarrow> nat \<Rightarrow> u64 \<Rightarrow> nat \<Rightarrow> (errno option, 'fs) vm"
  vop_seek :: "nat \<Rightarrow> nat \<Rightarrow> int \<Rightarrow> int \<Rightarrow> (errno option, 'fs) vm"
  vop_fsync :: "nat \<Rightarrow> nat \<Rightarrow> (errno option, 'fs) vm"
  vop_readdir :: "nat \<Rightarrow> nat \<Rightarrow> (errno + dirent, 'fs) vm"
  vop_lookup :: "nat \<Rightarrow> string \<Rightarrow> (errno + nat, 'fs) vm"
  vop_create :: "nat \<Rightarrow> string \<Rightarrow> u32 \<Rightarrow> (errno option, 'fs) vm"
  vop_remove :: "nat \<Rightarrow> nat \<Rightarrow> string \<Rightarrow> (errno option, 'fs) vm"
  vop_rename :: "nat \<Rightarrow> nat \<Rightarrow> string \<Rightarrow> nat \<Rightarrow> nat option \<Rightarrow> string \<Rightarrow> (errno option, 'fs) vm"
  vop_mkdir :: "nat \<Rightarrow> string \<Rightarrow> u32 \<Rightarrow> (errno option, 'fs) vm"
  vop_rmdir :: "nat \<Rightarrow> nat \<Rightarrow> string \<Rightarrow> (errno option, 'fs) vm"
  vop_getattr :: "nat \<Rightarrow> vattr \<Rightarrow> (errno + vattr, 'fs) vm"
  vop_setattr :: "nat \<Rightarrow> vattr \<Rightarrow> (errno option, 'fs) vm"
  vop_inactive :: "nat \<Rightarrow> (errno option, 'fs) vm"
  vop_truncate :: "nat \<Rightarrow> int \<Rightarrow> (errno option, 'fs) vm"
  vop_link :: "nat \<Rightarrow> nat \<Rightarrow> string \<Rightarrow> (errno option, 'fs) vm"
  vop_fallocate :: "nat \<Rightarrow> int \<Rightarrow> int \<Rightarrow> int \<Rightarrow> (errno option, 'fs) vm"
  vop_readlink :: "nat \<Rightarrow> (errno + string, 'fs) vm"
  vop_symlink :: "nat \<Rightarrow> string \<Rightarrow> string \<Rightarrow> (errno option, 'fs) vm"
  vfs_vget :: "nat \<Rightarrow> nat \<Rightarrow> (errno option, 'fs) vm"
  vfs_mount :: "nat \<Rightarrow> string \<Rightarrow> u32 \<Rightarrow> nat \<Rightarrow> (errno option, 'fs) vm"
  vfs_unmount :: "nat \<Rightarrow> u32 \<Rightarrow> (errno option, 'fs) vm"
  vfs_sync :: "nat \<Rightarrow> (errno option, 'fs) vm"
  vfs_statfs :: "nat \<Rightarrow> (errno option, 'fs) vm"
  file_stop_polls :: "nat \<Rightarrow> (unit, 'fs) vm"
  file_read :: "nat \<Rightarrow> uio \<Rightarrow> u32 \<Rightarrow> (errno option \<times> uio, 'fs) vm"
  file_write :: "nat \<Rightarrow> uio \<Rightarrow> u32 \<Rightarrow> (errno option \<times> uio, 'fs) vm"
  file_ioctl :: "nat \<Rightarrow> u64 \<Rightarrow> nat \<Rightarrow> (errno option, 'fs) vm"
  file_stat :: "nat \<Rightarrow> (errno + stat_buf, 'fs) vm"
  file_close :: "nat \<Rightarrow> (errno option, 'fs) vm"


section \<open>Vnodes\<close>

definition VROOT :: u32 where "VROOT = 1"

definition MNT_RDONLY :: u32 where "MNT_RDONLY = 1"

definition VREAD :: u32 where "VREAD = 4"

definition VWRITE :: u32 where "VWRITE = 2"

definition VEXEC :: u32 where "VEXEC = 1"

definition vn_hash :: "nat \<Rightarrow> u64 \<Rightarrow> nat" where
  "vn_hash mp ino = unat ((ino XOR of_nat mp) AND 31)"

text \<open>The search of \<open>LIST_FOREACH\<close> in one bucket.\<close>

fun find_vnode :: "nat \<Rightarrow> u64 \<Rightarrow> nat list \<Rightarrow> (nat option, 'fs) vm" where
  "find_vnode mp ino [] = ret None"
| "find_vnode mp ino (vp # rest) =
     bnd (deref vnodes vp) (\<lambda>vn.
     if v_mount vn = mp \<and> v_ino vn = ino then ret (Some vp) else find_vnode mp ino rest)"

definition vn_lookup :: "nat \<Rightarrow> u64 \<Rightarrow> (nat option, 'fs) vm" where
  "vn_lookup mp ino =
     bnd (look (\<lambda>s. vnode_table s ! vn_hash mp ino)) (\<lambda>bucket.
     bnd (find_vnode mp ino bucket) (\<lambda>found.
     case found of
       None \<Rightarrow> ret None
     | Some vp \<Rightarrow>
         bnd (deref vnodes vp) (\<lambda>vn.
         bnd (set_vnode vp (vn\<lparr>v_refcnt := Suc (v_refcnt vn), v_nrlocks := Suc (v_nrlocks vn)\<rparr>)) (\<lambda>_.
         ret (Some vp)))))"

definition vn_lock :: "nat \<Rightarrow> (unit, 'fs) vm" where
  "vn_lock vp =
     bnd (deref vnodes vp) (\<lambda>vn.
     bnd (ASSERT (0 < v_refcnt vn)) (\<lambda>_.
     set_vnode vp (vn\<lparr>v_nrlocks := Suc (v_nrlocks vn)\<rparr>)))"

definition vn_unlock :: "nat \<Rightarrow> (unit, 'fs) vm" where
  "vn_unlock vp =
     bnd (deref vnodes vp) (\<lambda>vn.
     bnd (ASSERT (0 < v_refcnt vn)) (\<lambda>_.
     bnd (ASSERT (0 < v_nrlocks vn)) (\<lambda>_.
     set_vnode vp (vn\<lparr>v_nrlocks := v_nrlocks vn - 1\<rparr>))))"

definition vfs_busy :: "nat \<Rightarrow> (unit, 'fs) vm" where
  "vfs_busy mp = bnd (deref mounts mp) (\<lambda>me. set_mount mp (me\<lparr>m_count := m_count me + 1\<rparr>))"

definition vfs_unbusy :: "nat \<Rightarrow> (unit, 'fs) vm" where
  "vfs_unbusy mp = bnd (deref mounts mp) (\<lambda>me. set_mount mp (me\<lparr>m_count := m_count me - 1\<rparr>))"

text \<open>
  The result of \<open>vget\<close> is 1 and the vnode when it was cached, 0 and a new vnode, or the error of
  \<open>VFS_VGET\<close>, which is the argument \<open>vget_op\<close>, and the null pointer.
\<close>

datatype vget_result = Vget_cached nat | Vget_new nat | Vget_error errno

definition new_vnode :: "nat \<Rightarrow> u64 \<Rightarrow> vnode" where
  "new_vnode mp ino = \<lparr>v_ino = ino, v_mount = mp, v_refcnt = 1, v_type = VNON, v_flags = 0, v_mode = 0,
     v_size = 0, v_names = [], v_nrlocks = 0, v_data = 0\<rparr>"

definition vget :: "(nat \<Rightarrow> nat \<Rightarrow> (errno option, 'fs) vm) \<Rightarrow> nat \<Rightarrow> u64 \<Rightarrow> (vget_result, 'fs) vm" where
  "vget vget_op mp ino =
     bnd (vn_lookup mp ino) (\<lambda>found.
     case found of
       Some vp \<Rightarrow> ret (Vget_cached vp)
     | None \<Rightarrow>
         bnd new_ptr (\<lambda>vp.
         bnd (set_vnode vp (new_vnode mp ino)) (\<lambda>_.
         bnd (vget_op mp vp) (\<lambda>error.
         case error of
           Some e \<Rightarrow> bnd (change (\<lambda>s. s\<lparr>vnodes := (vnodes s)(vp := None)\<rparr>)) (\<lambda>_. ret (Vget_error e))
         | None \<Rightarrow>
             bnd (vfs_busy mp) (\<lambda>_.
             bnd (deref vnodes vp) (\<lambda>vn.
             bnd (set_vnode vp (vn\<lparr>v_nrlocks := Suc (v_nrlocks vn)\<rparr>)) (\<lambda>_.
             bnd (change (\<lambda>s. s\<lparr>vnode_table := (vnode_table s)[vn_hash mp ino := vp # vnode_table s ! vn_hash mp ino]\<rparr>)) (\<lambda>_.
             ret (Vget_new vp)))))))))"

text \<open>\<open>LIST_REMOVE (vp, v_link)\<close>.\<close>

definition vnode_table_remove :: "nat \<Rightarrow> (unit, 'fs) vm" where
  "vnode_table_remove vp =
     bnd (look vnode_table) (\<lambda>table.
     if vp \<in> set (concat table) then change (\<lambda>s. s\<lparr>vnode_table := map (removeAll vp) table\<rparr>)
     else fail List_corrupted)"

definition vput :: "'fs fsops \<Rightarrow> nat \<Rightarrow> (unit, 'fs) vm" where
  "vput ops vp =
     bnd (deref vnodes vp) (\<lambda>vn.
     bnd (ASSERT (0 < v_nrlocks vn)) (\<lambda>_.
     bnd (ASSERT (0 < v_refcnt vn)) (\<lambda>_.
     bnd (set_vnode vp (vn\<lparr>v_refcnt := v_refcnt vn - 1\<rparr>)) (\<lambda>_.
     if 0 < v_refcnt vn - 1 then vn_unlock vp
     else
       bnd (vnode_table_remove vp) (\<lambda>_.
       bnd (vop_inactive ops vp) (\<lambda>_.
       bnd (vfs_unbusy (v_mount vn)) (\<lambda>_.
       bnd (deref vnodes vp) (\<lambda>vn'.
       bnd (ASSERT (v_nrlocks vn' = 1)) (\<lambda>_.
       change (\<lambda>s. s\<lparr>vnodes := (vnodes s)(vp := None)\<rparr>))))))))))"

definition vref :: "nat \<Rightarrow> (unit, 'fs) vm" where
  "vref vp =
     bnd (deref vnodes vp) (\<lambda>vn.
     bnd (ASSERT (0 < v_refcnt vn)) (\<lambda>_.
     set_vnode vp (vn\<lparr>v_refcnt := Suc (v_refcnt vn)\<rparr>)))"

definition vrele :: "'fs fsops \<Rightarrow> nat \<Rightarrow> (unit, 'fs) vm" where
  "vrele ops vp =
     bnd (deref vnodes vp) (\<lambda>vn.
     bnd (ASSERT (0 < v_refcnt vn)) (\<lambda>_.
     bnd (set_vnode vp (vn\<lparr>v_refcnt := v_refcnt vn - 1\<rparr>)) (\<lambda>_.
     if 0 < v_refcnt vn - 1 then ret ()
     else
       bnd (vnode_table_remove vp) (\<lambda>_.
       bnd (vop_inactive ops vp) (\<lambda>_.
       bnd (vfs_unbusy (v_mount vn)) (\<lambda>_.
       change (\<lambda>s. s\<lparr>vnodes := (vnodes s)(vp := None)\<rparr>)))))))"

definition vn_access :: "nat \<Rightarrow> u32 \<Rightarrow> (errno option, 'fs) vm" where
  "vn_access vp flags =
     bnd (deref vnodes vp) (\<lambda>vn.
     if flags AND VEXEC \<noteq> 0 \<and> v_mode vn AND 0x49 = 0 then ret (Some EACCES)
     else if flags AND VREAD \<noteq> 0 \<and> v_mode vn AND 0x124 = 0 then ret (Some EACCES)
     else if flags AND VWRITE \<noteq> 0 then
       bnd (deref mounts (v_mount vn)) (\<lambda>me.
       if m_flags me AND MNT_RDONLY \<noteq> 0 then ret (Some EROFS)
       else if v_mode vn AND 0x92 = 0 then ret (Some EACCES)
       else ret None)
     else ret None)"

definition zero_vattr :: vattr where
  "zero_vattr = \<lparr>va_mask = 0, va_mode = 0, va_nlink = 0, va_uid = 0, va_gid = 0, va_fsid = 0, va_nodeid = 0,
     va_atime = (0, 0), va_mtime = (0, 0), va_ctime = (0, 0), va_rdev = 0, va_size = 0\<rparr>"

text \<open>The file type bits that \<open>vn_stat\<close> adds to the mode; \<open>None\<close> is its \<open>default\<close> case.\<close>

fun vtype_bits :: "vtype \<Rightarrow> u32 option" where
  "vtype_bits VREG = Some 0x8000"
| "vtype_bits VDIR = Some 0x4000"
| "vtype_bits VBLK = Some 0x6000"
| "vtype_bits VCHR = Some 0x2000"
| "vtype_bits VLNK = Some 0xA000"
| "vtype_bits VSOCK = Some 0xC000"
| "vtype_bits VFIFO = Some 0x1000"
| "vtype_bits _ = None"

definition vn_stat :: "'fs fsops \<Rightarrow> nat \<Rightarrow> (errno + stat_buf, 'fs) vm" where
  "vn_stat ops vp =
     bnd (vop_getattr ops vp zero_vattr) (\<lambda>r.
     case r of
       Inl error \<Rightarrow> ret (Inl error)
     | Inr vap \<Rightarrow>
         bnd (deref vnodes vp) (\<lambda>vn.
         case vtype_bits (v_type vn) of
           None \<Rightarrow> ret (Inl EBADF)
         | Some bits \<Rightarrow>
             ret (Inr \<lparr>st_ino = va_nodeid vap, st_size = va_size vap, st_mode = va_mode vap OR bits,
               st_nlink = va_nlink vap, st_blksize = 512, st_blocks = va_size vap div 512,
               st_uid = va_uid vap, st_gid = va_gid vap, st_dev = va_fsid vap,
               st_rdev = (if v_type vn = VCHR \<or> v_type vn = VBLK then va_rdev vap else 0),
               st_atim = va_atime vap, st_mtim = va_mtime vap, st_ctim = va_ctime vap\<rparr>)))"

definition UTIME_NOW :: int where "UTIME_NOW = 0x3fffffff"

definition UTIME_OMIT :: int where "UTIME_OMIT = 0x3ffffffe"

definition vn_setmode :: "'fs fsops \<Rightarrow> nat \<Rightarrow> u32 \<Rightarrow> (errno option, 'fs) vm" where
  "vn_setmode ops vp new_mode =
     bnd (vn_lock vp) (\<lambda>_.
     bnd (deref vnodes vp) (\<lambda>vn.
     bnd (set_vnode vp (vn\<lparr>v_mode := new_mode\<rparr>)) (\<lambda>_.
     bnd (vop_setattr ops vp (zero_vattr\<lparr>va_mode := new_mode, va_mask := 2\<rparr>)) (\<lambda>error.
     bnd (vn_unlock vp) (\<lambda>_.
     ret error)))))"

definition vn_settimes :: "'fs fsops \<Rightarrow> nat \<Rightarrow> (int \<times> int) \<times> (int \<times> int) \<Rightarrow> (errno option, 'fs) vm" where
  "vn_settimes ops vp ts =
     bnd (vn_lock vp) (\<lambda>_.
     bnd (vop_setattr ops vp (zero_vattr\<lparr>va_atime := fst ts, va_mtime := snd ts,
       va_mask := (if snd (fst ts) = UTIME_OMIT then 0 else 0x100) OR
                  (if snd (snd ts) = UTIME_OMIT then 0 else 0x200)\<rparr>)) (\<lambda>error.
     bnd (vn_unlock vp) (\<lambda>_.
     ret error)))"

definition vn_add_name :: "nat \<Rightarrow> nat \<Rightarrow> (unit, 'fs) vm" where
  "vn_add_name vp dp =
     bnd (vn_lock vp) (\<lambda>_.
     bnd (deref vnodes vp) (\<lambda>vn.
     bnd (set_vnode vp (vn\<lparr>v_names := dp # v_names vn\<rparr>)) (\<lambda>_.
     vn_unlock vp)))"

definition vn_del_name :: "nat \<Rightarrow> nat \<Rightarrow> (unit, 'fs) vm" where
  "vn_del_name vp dp =
     bnd (vn_lock vp) (\<lambda>_.
     bnd (deref vnodes vp) (\<lambda>vn.
     if dp \<in> set (v_names vn) then
       bnd (set_vnode vp (vn\<lparr>v_names := removeAll dp (v_names vn)\<rparr>)) (\<lambda>_.
       vn_unlock vp)
     else fail List_corrupted))"


section \<open>Directory entries\<close>

definition dentry_hash :: "nat \<Rightarrow> string \<Rightarrow> nat" where
  "dentry_hash mp path =
     (let val = foldl (\<lambda>val c. (push_bit 5 val + val) + signed (of_char c :: u8)) (0 :: u32) path
      in unat ((unsigned val XOR of_nat mp :: u64) AND 31))"

definition dref :: "nat \<Rightarrow> (unit, 'fs) vm" where
  "dref dp =
     bnd (deref dentries dp) (\<lambda>de.
     bnd (ASSERT (0 < d_refcnt de)) (\<lambda>_.
     set_dentry dp (de\<lparr>d_refcnt := Suc (d_refcnt de)\<rparr>)))"

text \<open>\<open>LIST_INSERT_HEAD\<close> into the list of children of \<open>parent_dp\<close>.\<close>

definition children_insert :: "nat \<Rightarrow> nat \<Rightarrow> (unit, 'fs) vm" where
  "children_insert parent_dp dp =
     bnd (deref dentries parent_dp) (\<lambda>pe.
     set_dentry parent_dp (pe\<lparr>d_children := dp # d_children pe\<rparr>))"

text \<open>\<open>LIST_REMOVE (dp, d_children_link)\<close>: \<open>dp\<close> is on the list of its parent.\<close>

definition children_remove :: "nat \<Rightarrow> nat \<Rightarrow> (unit, 'fs) vm" where
  "children_remove parent_dp dp =
     bnd (deref dentries parent_dp) (\<lambda>pe.
     if dp \<in> set (d_children pe) then set_dentry parent_dp (pe\<lparr>d_children := removeAll dp (d_children pe)\<rparr>)
     else fail List_corrupted)"

definition hash_insert :: "nat \<Rightarrow> nat \<Rightarrow> (unit, 'fs) vm" where
  "hash_insert b dp = change (\<lambda>s. s\<lparr>dentry_hash_table := (dentry_hash_table s)[b := dp # dentry_hash_table s ! b]\<rparr>)"

text \<open>\<open>LIST_REMOVE (dp, d_link)\<close>: \<open>dp\<close> is in a bucket or on the fake list.\<close>

definition hash_remove :: "nat \<Rightarrow> (unit, 'fs) vm" where
  "hash_remove dp =
     bnd (look (\<lambda>s. dp \<in> set (concat (dentry_hash_table s)) \<or> dp \<in> set (fake s))) (\<lambda>linked.
     if linked then change (\<lambda>s. s\<lparr>dentry_hash_table := map (removeAll dp) (dentry_hash_table s), fake := removeAll dp (fake s)\<rparr>)
     else fail List_corrupted)"

definition dentry_alloc :: "nat option \<Rightarrow> nat \<Rightarrow> string \<Rightarrow> (nat, 'fs) vm" where
  "dentry_alloc parent_dp vp path =
     bnd (deref vnodes vp) (\<lambda>vn.
     bnd new_ptr (\<lambda>dp.
     bnd (vref vp) (\<lambda>_.
     bnd (set_dentry dp \<lparr>d_refcnt = 1, d_path = path, d_vnode = vp, d_mount = v_mount vn, d_parent = parent_dp, d_children = []\<rparr>) (\<lambda>_.
     bnd (case parent_dp of None \<Rightarrow> ret () | Some p \<Rightarrow> bnd (dref p) (\<lambda>_. children_insert p dp)) (\<lambda>_.
     bnd (vn_add_name vp dp) (\<lambda>_.
     bnd (hash_insert (dentry_hash (v_mount vn) path) dp) (\<lambda>_.
     ret dp)))))))"

fun find_dentry :: "nat \<Rightarrow> string \<Rightarrow> nat list \<Rightarrow> (nat option, 'fs) vm" where
  "find_dentry mp path [] = ret None"
| "find_dentry mp path (dp # rest) =
     bnd (deref dentries dp) (\<lambda>de.
     if d_mount de = mp \<and> take path_max (d_path de) = take path_max path then ret (Some dp)
     else find_dentry mp path rest)"

definition dentry_lookup :: "nat \<Rightarrow> string \<Rightarrow> (nat option, 'fs) vm" where
  "dentry_lookup mp path =
     bnd (look (\<lambda>s. dentry_hash_table s ! dentry_hash mp path)) (\<lambda>bucket.
     bnd (find_dentry mp path bucket) (\<lambda>found.
     case found of
       None \<Rightarrow> ret None
     | Some dp \<Rightarrow>
         bnd (deref dentries dp) (\<lambda>de.
         bnd (set_dentry dp (de\<lparr>d_refcnt := Suc (d_refcnt de)\<rparr>)) (\<lambda>_.
         ret (Some dp)))))"

fun unlink_children :: "nat list \<Rightarrow> (unit, 'fs) vm" where
  "unlink_children [] = ret ()"
| "unlink_children (entry # rest) =
     bnd (deref dentries entry) (\<lambda>de.
     bnd (ASSERT (0 < d_refcnt de)) (\<lambda>_.
     bnd (hash_remove entry) (\<lambda>_.
     unlink_children rest)))"

definition dentry_children_remove :: "nat \<Rightarrow> (unit, 'fs) vm" where
  "dentry_children_remove dp = bnd (deref dentries dp) (\<lambda>de. unlink_children (d_children de))"

definition dentry_remove :: "nat \<Rightarrow> (unit, 'fs) vm" where
  "dentry_remove dp = bnd (hash_remove dp) (\<lambda>_. change (\<lambda>s. s\<lparr>fake := dp # fake s\<rparr>))"

text \<open>
  \<open>drele\<close>: \<open>drele_unlink\<close> takes the reference away and, with the last one, unlinks the entry from the
  hash table, from the names of its vnode and from its parent's children; then the parent is released;
  \<open>drele_free\<close> releases the vnode and frees the entry.
\<close>

definition drele_unlink :: "nat \<Rightarrow> (dentry option, 'fs) vm" where
  "drele_unlink dp =
     bnd (deref dentries dp) (\<lambda>de.
     bnd (ASSERT (0 < d_refcnt de)) (\<lambda>_.
     bnd (set_dentry dp (de\<lparr>d_refcnt := d_refcnt de - 1\<rparr>)) (\<lambda>_.
     if d_refcnt de - 1 \<noteq> 0 then ret None
     else
       bnd (hash_remove dp) (\<lambda>_.
       bnd (vn_del_name (d_vnode de) dp) (\<lambda>_.
       bnd (case d_parent de of None \<Rightarrow> ret () | Some p \<Rightarrow> children_remove p dp) (\<lambda>_.
       ret (Some de)))))))"

definition drele_free :: "'fs fsops \<Rightarrow> nat \<Rightarrow> dentry \<Rightarrow> (unit, 'fs) vm" where
  "drele_free ops dp de =
     bnd (vrele ops (d_vnode de)) (\<lambda>_.
     change (\<lambda>s. s\<lparr>dentries := (dentries s)(dp := None)\<rparr>))"

partial_function (option) drele_rec :: "'fs fsops \<Rightarrow> nat \<Rightarrow> 'fs vfs \<Rightarrow> (fault + unit \<times> 'fs vfs) option" where
  "drele_rec ops dp s =
     (case drele_unlink dp s of
        Inl e \<Rightarrow> Some (Inl e)
      | Inr r \<Rightarrow>
          (case fst r of
             None \<Rightarrow> Some (Inr ((), snd r))
           | Some de \<Rightarrow>
               Option.bind (case d_parent de of None \<Rightarrow> Some (Inr ((), snd r)) | Some p \<Rightarrow> drele_rec ops p (snd r))
                 (\<lambda>r'. Some (case r' of Inl e \<Rightarrow> Inl e | Inr (_, s') \<Rightarrow> drele_free ops dp de s'))))"

definition drele :: "'fs fsops \<Rightarrow> nat \<Rightarrow> (unit, 'fs) vm" where
  "drele ops dp s = (case drele_rec ops dp s of None \<Rightarrow> Inl Diverges | Some r \<Rightarrow> r)"

definition dentry_move :: "'fs fsops \<Rightarrow> nat \<Rightarrow> nat option \<Rightarrow> string \<Rightarrow> (unit, 'fs) vm" where
  "dentry_move ops dp parent_dp path =
     bnd (deref dentries dp) (\<lambda>de.
     bnd (case d_parent de of None \<Rightarrow> ret () | Some old \<Rightarrow> children_remove old dp) (\<lambda>_.
     bnd (case parent_dp of None \<Rightarrow> ret () | Some p \<Rightarrow> bnd (dref p) (\<lambda>_. children_insert p dp)) (\<lambda>_.
     bnd (dentry_children_remove dp) (\<lambda>_.
     bnd (hash_remove dp) (\<lambda>_.
     bnd (deref dentries dp) (\<lambda>de'.
     bnd (set_dentry dp (de'\<lparr>d_path := path, d_parent := parent_dp\<rparr>)) (\<lambda>_.
     bnd (hash_insert (dentry_hash (d_mount de) path) dp) (\<lambda>_.
     case d_parent de of None \<Rightarrow> ret () | Some old \<Rightarrow> drele ops old))))))))"

end
