(* ===== verification/Vfs_Refs.thy ===== *)
theory Vfs_Refs
  imports Vfs_State
begin

text \<open>
  The reference discipline of the virtual file system. \<open>refs_ok R Z D V L s\<close> says that every reference
  count and lock count in \<open>s\<close> is exact: \<open>D\<close> is the multiset of references to directory entries
  held from outside the entries themselves (by mounts, open files and running system calls), each with the
  vnode of its entry; \<open>V\<close> the references to vnodes held other than through entries; \<open>L\<close> the vnode
  locks held; \<open>Z\<close> the entries whose last reference is gone but which are not yet freed. Each primitive
  has a rule that says how it changes \<open>D\<close>, \<open>V\<close> and \<open>L\<close> and that it does not fault.
\<close>

section \<open>Weakest preconditions\<close>

text \<open>
  \<open>wp f Q s\<close>: from \<open>s\<close>, \<open>f\<close> returns and \<open>Q\<close> holds of the result. Three faults are not excluded here:
  one raised inside the file system's own operations, the null pointer that \<open>namei\<close> stores when a
  path consists of nothing but slashes, and the read before the start of the buffer when a relative
  symbolic link is followed in the root directory.
\<close>

definition excused :: "fault \<Rightarrow> bool" where
  "excused e \<longleftrightarrow> e = Null_pointer \<or> e = Out_of_bounds \<or> e = Fs_fault"

definition wp :: "('a, 'fs) vm \<Rightarrow> ('a \<Rightarrow> 'fs vfs \<Rightarrow> bool) \<Rightarrow> 'fs vfs \<Rightarrow> bool" where
  "wp f Q s = (case f s of Inl e \<Rightarrow> excused e | Inr (x, s') \<Rightarrow> Q x s')"

lemma wp_ret [simp]: "wp (ret x) Q = Q x"
  by (simp add: wp_def ret_def fun_eq_iff)

lemma wp_bnd [simp]: "wp (bnd f g) Q = wp f (\<lambda>x. wp (g x) Q)"
  by (auto simp: wp_def bnd_def fun_eq_iff split: sum.splits)

lemma wp_look [simp]: "wp (look f) Q = (\<lambda>s. Q (f s) s)"
  by (simp add: wp_def look_def fun_eq_iff)

lemma wp_change [simp]: "wp (change f) Q = (\<lambda>s. Q () (f s))"
  by (simp add: wp_def change_def fun_eq_iff)

lemma wp_ASSERT [simp]: "wp (ASSERT b) Q = (\<lambda>s. b \<and> Q () s)"
  by (simp add: wp_def ASSERT_def ret_def fail_def fun_eq_iff excused_def)

lemma wp_deref [simp]: "wp (deref h p) Q = (\<lambda>s. case h s p of None \<Rightarrow> False | Some x \<Rightarrow> Q x s)"
  by (simp add: wp_def deref_def fun_eq_iff excused_def split: option.splits)

lemma wp_fail [simp]: "wp (fail e) Q = (\<lambda>s. excused e)"
  by (simp add: wp_def fail_def fun_eq_iff)

lemma wp_nonnull [simp]: "wp (nonnull p) Q = (\<lambda>s. case p of None \<Rightarrow> True | Some x \<Rightarrow> Q x s)"
  by (simp add: nonnull_def fun_eq_iff excused_def split: option.splits)

lemma wp_set_vnode [simp]: "wp (set_vnode v vn) Q = (\<lambda>s. Q () (s\<lparr>vnodes := (vnodes s)(v \<mapsto> vn)\<rparr>))"
  by (simp add: set_vnode_def)

lemma wp_set_dentry [simp]: "wp (set_dentry d de) Q = (\<lambda>s. Q () (s\<lparr>dentries := (dentries s)(d \<mapsto> de)\<rparr>))"
  by (simp add: set_dentry_def)

lemma wp_set_mount [simp]: "wp (set_mount m me) Q = (\<lambda>s. Q () (s\<lparr>mounts := (mounts s)(m \<mapsto> me)\<rparr>))"
  by (simp add: set_mount_def)

lemma wp_new_ptr [simp]: "wp new_ptr Q = (\<lambda>s. Q (next_ptr s) (s\<lparr>next_ptr := Suc (next_ptr s)\<rparr>))"
  by (simp add: wp_def new_ptr_def fun_eq_iff)

lemma wp_mono: "\<lbrakk>wp f Q s; \<And>x s'. Q x s' \<Longrightarrow> R x s'\<rbrakk> \<Longrightarrow> wp f R s"
  by (auto simp: wp_def split: sum.splits)


section \<open>The invariant\<close>

definition ld :: "nat set \<Rightarrow> 'fs vfs \<Rightarrow> nat \<Rightarrow> dentry option" where
  "ld Z s d = (if d \<in> Z then None else dentries s d)"

definition dlinks :: "'fs vfs \<Rightarrow> nat list" where
  "dlinks s = concat (dentry_hash_table s) @ fake s"

definition dentries_ok :: "nat set \<Rightarrow> (nat \<times> nat) multiset \<Rightarrow> 'fs vfs \<Rightarrow> bool" where
  "dentries_ok Z D s \<longleftrightarrow> (\<forall>d de. ld Z s d = Some de \<longrightarrow>
     0 < d_refcnt de \<and> d_refcnt de = count (image_mset fst D) d + length (d_children de) \<and> distinct (d_children de) \<and>
     (\<forall>c\<in>set (d_children de). \<exists>ce. ld Z s c = Some ce \<and> d_parent ce = Some d) \<and>
     (\<forall>p. d_parent de = Some p \<longrightarrow> (\<exists>pe. ld Z s p = Some pe \<and> d \<in> set (d_children pe))) \<and>
     (\<exists>vn. vnodes s (d_vnode de) = Some vn \<and> d \<in> set (v_names vn) \<and> v_mount vn = d_mount de) \<and>
     d \<in> set (dlinks s))"

definition vnodes_ok :: "nat set \<Rightarrow> nat multiset \<Rightarrow> nat multiset \<Rightarrow> 'fs vfs \<Rightarrow> bool" where
  "vnodes_ok Z V L s \<longleftrightarrow> (\<forall>v vn. vnodes s v = Some vn \<longrightarrow>
     0 < v_refcnt vn \<and> v_refcnt vn = count V v + length (v_names vn) \<and> distinct (v_names vn) \<and> v_nrlocks vn = count L v \<and>
     (\<forall>d\<in>set (v_names vn). \<exists>de. ld Z s d = Some de \<and> d_vnode de = v) \<and>
     v_mount vn \<in> dom (mounts s) \<and> v \<in> set (concat (vnode_table s)))"

definition dtable_ok :: "nat set \<Rightarrow> 'fs vfs \<Rightarrow> bool" where
  "dtable_ok Z s \<longleftrightarrow> length (dentry_hash_table s) = 32 \<and> distinct (dlinks s) \<and> (\<forall>d\<in>set (dlinks s). ld Z s d \<noteq> None) \<and>
     (\<forall>i<32. \<forall>d\<in>set (dentry_hash_table s ! i). \<exists>de. ld Z s d = Some de \<and> dentry_hash (d_mount de) (d_path de) = i)"

definition vtable_ok :: "'fs vfs \<Rightarrow> bool" where
  "vtable_ok s \<longleftrightarrow> length (vnode_table s) = 32 \<and> distinct (concat (vnode_table s)) \<and>
     (\<forall>i<32. \<forall>v\<in>set (vnode_table s ! i). \<exists>vn. vnodes s v = Some vn \<and> vn_hash (v_mount vn) (v_ino vn) = i)"

text \<open>
  Every locked vnode is kept alive by a reference, and so are the entries \<open>R\<close>, among which are the roots
  of the mounted file systems.
\<close>

definition held :: "nat set \<Rightarrow> (nat \<times> nat) multiset \<Rightarrow> nat multiset \<Rightarrow> nat multiset \<Rightarrow> bool" where
  "held R D V L \<longleftrightarrow> (\<forall>l. l \<in># L \<longrightarrow> l \<in># V \<or> l \<in> snd ` set_mset D) \<and> R \<subseteq> fst ` set_mset D"

definition roots_ok :: "nat set \<Rightarrow> 'fs vfs \<Rightarrow> bool" where
  "roots_ok R s \<longleftrightarrow> (\<forall>m\<in>set (mount_list s). \<exists>me r. mounts s m = Some me \<and> m_root me = Some r \<and> r \<in> R)"

definition refs_ok :: "nat set \<Rightarrow> nat set \<Rightarrow> (nat \<times> nat) multiset \<Rightarrow> nat multiset \<Rightarrow> nat multiset \<Rightarrow> 'fs vfs \<Rightarrow> bool" where
  "refs_ok R Z D V L s \<longleftrightarrow> dentries_ok Z D s \<and> vnodes_ok Z V L s \<and> dtable_ok Z s \<and> vtable_ok s \<and> held R D V L \<and> roots_ok R s \<and>
     (\<forall>(d, v)\<in>#D. \<exists>de. ld Z s d = Some de \<and> d_vnode de = v) \<and> set_mset V \<subseteq> dom (vnodes s) \<and>
     (\<forall>p\<ge>next_ptr s. dentries s p = None \<and> vnodes s p = None)"

lemmas refs_ok_defs = refs_ok_def dentries_ok_def vnodes_ok_def dtable_ok_def vtable_ok_def held_def

lemma refs_ok_vnodeD:
  assumes "refs_ok R Z D V L s" "vnodes s v = Some vn"
  shows "0 < v_refcnt vn" "v_refcnt vn = count V v + length (v_names vn)" "distinct (v_names vn)"
    "v_nrlocks vn = count L v" "\<And>d. d \<in> set (v_names vn) \<Longrightarrow> \<exists>de. ld Z s d = Some de \<and> d_vnode de = v"
    "v_mount vn \<in> dom (mounts s)" "v \<in> set (concat (vnode_table s))"
  using assms unfolding refs_ok_def vnodes_ok_def by blast+

lemma refs_ok_dentryD:
  assumes "refs_ok R Z D V L s" "ld Z s d = Some de"
  shows "0 < d_refcnt de" "d_refcnt de = count (image_mset fst D) d + length (d_children de)" "distinct (d_children de)"
    "\<And>c. c \<in> set (d_children de) \<Longrightarrow> \<exists>ce. ld Z s c = Some ce \<and> d_parent ce = Some d"
    "\<And>p. d_parent de = Some p \<Longrightarrow> \<exists>pe. ld Z s p = Some pe \<and> d \<in> set (d_children pe)"
    "\<exists>vn. vnodes s (d_vnode de) = Some vn \<and> d \<in> set (v_names vn) \<and> v_mount vn = d_mount de" "d \<in> set (dlinks s)"
  using assms unfolding refs_ok_def dentries_ok_def by blast+

lemma refs_ok_dentry:
  assumes "refs_ok R Z D V L s" "(d, v) \<in># D"
  obtains de vn where "ld Z s d = Some de" "dentries s d = Some de" "d_vnode de = v" "0 < d_refcnt de" "vnodes s v = Some vn" "0 < v_refcnt vn"
proof -
  from assms obtain de where de: "ld Z s d = Some de" "d_vnode de = v"
    unfolding refs_ok_def by fast
  moreover from this assms(1) obtain vn where "vnodes s v = Some vn" "0 < d_refcnt de"
    unfolding refs_ok_def dentries_ok_def by blast
  moreover from this assms(1) have "0 < v_refcnt vn" unfolding refs_ok_def vnodes_ok_def by blast
  ultimately show thesis using that by (auto simp: ld_def split: if_splits)
qed

lemma refs_ok_vnode:
  assumes "refs_ok R Z D V L s" "v \<in># V"
  obtains vn where "vnodes s v = Some vn" "0 < v_refcnt vn"
proof -
  from assms obtain vn where vn: "vnodes s v = Some vn" unfolding refs_ok_def by blast
  moreover from this assms(1) have "0 < v_refcnt vn" unfolding refs_ok_def vnodes_ok_def by blast
  ultimately show thesis using that by blast
qed

lemma refs_ok_locked:
  assumes "refs_ok R Z D V L s" "v \<in># L"
  obtains vn where "vnodes s v = Some vn" "0 < v_refcnt vn" "v_nrlocks vn = count L v"
proof -
  have "v \<in># V \<or> (\<exists>d. (d, v) \<in># D)" using assms unfolding refs_ok_def held_def by fastforce
  then obtain vn where vn: "vnodes s v = Some vn" "0 < v_refcnt vn"
    using refs_ok_dentry [OF assms(1)] refs_ok_vnode [OF assms(1)] by metis
  moreover from this assms(1) have "v_nrlocks vn = count L v" unfolding refs_ok_def vnodes_ok_def by blast
  ultimately show thesis using that by blast
qed

subsection \<open>Changes that no count depends on\<close>

definition core :: "vnode \<Rightarrow> u64 \<times> nat \<times> nat \<times> nat list \<times> nat" where
  "core vn = (v_ino vn, v_mount vn, v_refcnt vn, v_names vn, v_nrlocks vn)"

definition fcore :: "file_obj \<Rightarrow> u32 \<times> int \<times> nat option \<times> filetype" where
  "fcore f = (f_flags f, f_count f, f_dentry f, f_type f)"

definition attr_eq :: "'fs vfs \<Rightarrow> 'fs vfs \<Rightarrow> bool" where
  "attr_eq s s' \<longleftrightarrow> dentries s' = dentries s \<and> dentry_hash_table s' = dentry_hash_table s \<and> fake s' = fake s \<and>
     vnode_table s' = vnode_table s \<and> mounts s' = mounts s \<and> mount_list s' = mount_list s \<and> next_ptr s' = next_ptr s \<and>
     (\<forall>v. map_option core (vnodes s' v) = map_option core (vnodes s v)) \<and>
     (\<forall>fp. map_option fcore (files s' fp) = map_option fcore (files s fp))"

lemma attr_eq_refl [simp]: "attr_eq s s"
  by (simp add: attr_eq_def)

lemma attr_eq_trans: "\<lbrakk>attr_eq s s'; attr_eq s' s''\<rbrakk> \<Longrightarrow> attr_eq s s''"
  by (auto simp: attr_eq_def)

lemma attr_eqD:
  assumes "attr_eq s s'" "vnodes s v = Some vn"
  obtains vn' where "vnodes s' v = Some vn'" "core vn' = core vn"
proof -
  have "map_option core (vnodes s' v) = Some (core vn)" using assms by (simp add: attr_eq_def)
  then show thesis using that by auto
qed

lemma attr_eq_sym: "attr_eq s s' \<Longrightarrow> attr_eq s' s"
  by (simp add: attr_eq_def)

lemma attr_eq_ld: "attr_eq s s' \<Longrightarrow> ld Z s' = ld Z s"
  by (auto simp: attr_eq_def ld_def)

lemma attr_eq_dlinks: "attr_eq s s' \<Longrightarrow> dlinks s' = dlinks s"
  by (simp add: attr_eq_def dlinks_def)

lemma refs_ok_attr_eq:
  assumes eq: "attr_eq s s'" and ok: "refs_ok R Z D V L s"
  shows "refs_ok R Z D V L s'"
proof -
  note ldeq = attr_eq_ld [OF eq] and dleq = attr_eq_dlinks [OF eq]
  have fwd: "\<exists>vn'. vnodes s' v = Some vn' \<and> core vn' = core vn" if "vnodes s v = Some vn" for v vn
    using attr_eqD [OF eq that] by blast
  have bwd: "\<exists>vn. vnodes s v = Some vn \<and> core vn' = core vn" if "vnodes s' v = Some vn'" for v vn'
    using attr_eqD [OF attr_eq_sym [OF eq] that] by metis
  have "dentries_ok Z D s'"
    unfolding dentries_ok_def ldeq dleq
  proof (intro allI impI)
    fix d de assume d: "ld Z s d = Some de"
    have old: "dentries_ok Z D s" using ok by (simp add: refs_ok_def)
    then obtain vn where "vnodes s (d_vnode de) = Some vn" "d \<in> set (v_names vn)" "v_mount vn = d_mount de"
      using d unfolding dentries_ok_def by blast
    then have "\<exists>vn. vnodes s' (d_vnode de) = Some vn \<and> d \<in> set (v_names vn) \<and> v_mount vn = d_mount de"
      using fwd [of "d_vnode de" vn] by (auto simp: core_def)
    then show "0 < d_refcnt de \<and> d_refcnt de = count (image_mset fst D) d + length (d_children de) \<and> distinct (d_children de) \<and>
       (\<forall>c\<in>set (d_children de). \<exists>ce. ld Z s c = Some ce \<and> d_parent ce = Some d) \<and>
       (\<forall>p. d_parent de = Some p \<longrightarrow> (\<exists>pe. ld Z s p = Some pe \<and> d \<in> set (d_children pe))) \<and>
       (\<exists>vn. vnodes s' (d_vnode de) = Some vn \<and> d \<in> set (v_names vn) \<and> v_mount vn = d_mount de) \<and> d \<in> set (dlinks s)"
      using old d unfolding dentries_ok_def by blast
  qed
  moreover have "vnodes_ok Z V L s'"
    unfolding vnodes_ok_def
  proof (intro allI impI)
    fix v vn' assume "vnodes s' v = Some vn'"
    then obtain vn where vn: "vnodes s v = Some vn" "core vn' = core vn" using bwd by blast
    have "mounts s' = mounts s" "vnode_table s' = vnode_table s" using eq by (simp_all add: attr_eq_def)
    then show "0 < v_refcnt vn' \<and> v_refcnt vn' = count V v + length (v_names vn') \<and> distinct (v_names vn') \<and>
        v_nrlocks vn' = count L v \<and> (\<forall>d\<in>set (v_names vn'). \<exists>de. ld Z s' d = Some de \<and> d_vnode de = v) \<and>
        v_mount vn' \<in> dom (mounts s') \<and> v \<in> set (concat (vnode_table s'))"
      using refs_ok_vnodeD [OF ok vn(1)] vn(2) unfolding ldeq core_def by simp
  qed
  moreover have "dtable_ok Z s'"
    using ok eq unfolding refs_ok_def dtable_ok_def ldeq dleq attr_eq_def by simp
  moreover have "vtable_ok s'"
    unfolding vtable_ok_def
  proof (intro conjI allI impI ballI)
    have table: "vnode_table s' = vnode_table s" using eq by (simp add: attr_eq_def)
    have old: "vtable_ok s" using ok by (simp add: refs_ok_def)
    then show "length (vnode_table s') = 32" "distinct (concat (vnode_table s'))"
      unfolding vtable_ok_def table by simp_all
    fix i v assume "i < (32::nat)" "v \<in> set (vnode_table s' ! i)"
    then obtain vn where "vnodes s v = Some vn" "vn_hash (v_mount vn) (v_ino vn) = i"
      using old unfolding vtable_ok_def table by blast
    then show "\<exists>vn. vnodes s' v = Some vn \<and> vn_hash (v_mount vn) (v_ino vn) = i"
      using fwd [of v vn] by (auto simp: core_def)
  qed
  moreover have "held R D V L" "roots_ok R s'" using ok eq unfolding refs_ok_def roots_ok_def attr_eq_def by simp_all
  moreover have "set_mset V \<subseteq> dom (vnodes s')"
    using ok fwd unfolding refs_ok_def by blast
  moreover have "\<forall>p\<ge>next_ptr s'. dentries s' p = None \<and> vnodes s' p = None"
  proof (intro allI impI)
    fix p assume "next_ptr s' \<le> p"
    then have "dentries s p = None" "vnodes s p = None" using ok eq unfolding refs_ok_def attr_eq_def by simp_all
    then show "dentries s' p = None \<and> vnodes s' p = None" using eq unfolding attr_eq_def by (metis map_option_is_None)
  qed
  ultimately show ?thesis using ok unfolding refs_ok_def roots_ok_def ldeq by simp
qed

text \<open>An operation that touches neither counts nor lists when the given vnodes exist.\<close>

definition keeps :: "nat list \<Rightarrow> ('a, 'fs) vm \<Rightarrow> bool" where
  "keeps vs f \<longleftrightarrow> (\<forall>s. set vs \<subseteq> dom (vnodes s) \<longrightarrow> wp f (\<lambda>_ s'. attr_eq s s') s)"

lemma keepsD: "\<lbrakk>keeps vs f; refs_ok R Z D V L s; set vs \<subseteq> dom (vnodes s); \<And>x s'. \<lbrakk>refs_ok R Z D V L s'; attr_eq s s'\<rbrakk> \<Longrightarrow> Q x s'\<rbrakk> \<Longrightarrow> wp f Q s"
  unfolding keeps_def by (metis (mono_tags, lifting) refs_ok_attr_eq wp_mono)


section \<open>Rules of the vnode primitives\<close>

text \<open>The shared part: a vnode whose counts change together with \<open>V\<close> and \<open>L\<close>.\<close>

lemma refs_ok_upd_vnode:
  assumes ok: "refs_ok R Z D V L s" and v: "vnodes s v = Some vn"
    and same: "v_ino vn' = v_ino vn" "v_mount vn' = v_mount vn" "v_names vn' = v_names vn"
    and new: "v_refcnt vn' = count V' v + length (v_names vn)" "0 < v_refcnt vn'" "v_nrlocks vn' = count L' v"
    and others: "\<And>u. u \<noteq> v \<Longrightarrow> count V' u = count V u \<and> count L' u = count L u"
    and held: "held R D V' L'"
  shows "refs_ok R Z D V' L' (s\<lparr>vnodes := (vnodes s)(v \<mapsto> vn')\<rparr>)" (is "refs_ok R Z D V' L' ?s")
proof -
  have ld: "ld Z ?s = ld Z s" "dlinks ?s = dlinks s" by (auto simp: ld_def dlinks_def)
  have "dentries_ok Z D ?s"
    unfolding dentries_ok_def ld
  proof (intro allI impI)
    fix d de assume d: "ld Z s d = Some de"
    have "\<exists>vn. vnodes ?s (d_vnode de) = Some vn \<and> d \<in> set (v_names vn) \<and> v_mount vn = d_mount de"
      using refs_ok_dentryD(6) [OF ok d] v same by auto
    then show "0 < d_refcnt de \<and> d_refcnt de = count (image_mset fst D) d + length (d_children de) \<and> distinct (d_children de) \<and>
       (\<forall>c\<in>set (d_children de). \<exists>ce. ld Z s c = Some ce \<and> d_parent ce = Some d) \<and>
       (\<forall>p. d_parent de = Some p \<longrightarrow> (\<exists>pe. ld Z s p = Some pe \<and> d \<in> set (d_children pe))) \<and>
       (\<exists>vn. vnodes ?s (d_vnode de) = Some vn \<and> d \<in> set (v_names vn) \<and> v_mount vn = d_mount de) \<and> d \<in> set (dlinks s)"
      using refs_ok_dentryD [OF ok d] by blast
  qed
  moreover have "vnodes_ok Z V' L' ?s"
    unfolding vnodes_ok_def ld
  proof (intro allI impI)
    fix u un assume u: "vnodes ?s u = Some un"
    show "0 < v_refcnt un \<and> v_refcnt un = count V' u + length (v_names un) \<and> distinct (v_names un) \<and> v_nrlocks un = count L' u \<and>
       (\<forall>d\<in>set (v_names un). \<exists>de. ld Z s d = Some de \<and> d_vnode de = u) \<and> v_mount un \<in> dom (mounts ?s) \<and> u \<in> set (concat (vnode_table ?s))"
    proof (cases "u = v")
      case True
      then show ?thesis using u new same refs_ok_vnodeD [OF ok v] by simp
    next
      case False
      then show ?thesis using u others [OF False] refs_ok_vnodeD [OF ok, of u un] by simp
    qed
  qed
  moreover have "dtable_ok Z ?s" using ok unfolding refs_ok_def dtable_ok_def ld by simp
  moreover have "vtable_ok ?s"
    unfolding vtable_ok_def
  proof (intro conjI allI impI ballI)
    have old: "vtable_ok s" using ok by (simp add: refs_ok_def)
    then show "length (vnode_table ?s) = 32" "distinct (concat (vnode_table ?s))" unfolding vtable_ok_def by simp_all
    fix i u assume "i < (32::nat)" "u \<in> set (vnode_table ?s ! i)"
    then obtain un where "vnodes s u = Some un" "vn_hash (v_mount un) (v_ino un) = i"
      using old unfolding vtable_ok_def by auto
    then show "\<exists>vn. vnodes ?s u = Some vn \<and> vn_hash (v_mount vn) (v_ino vn) = i" using v same by auto
  qed
  moreover have "held R D V' L'" using held .
  moreover have "set_mset V' \<subseteq> dom (vnodes ?s)"
  proof
    fix u assume "u \<in># V'"
    then have "u \<noteq> v \<Longrightarrow> u \<in># V" using others [of u] by (metis count_eq_zero_iff)
    then show "u \<in> dom (vnodes ?s)" using ok unfolding refs_ok_def by (cases "u = v") auto
  qed
  ultimately show ?thesis using ok v unfolding refs_ok_def roots_ok_def ld by auto
qed


lemma held_add_V: "held R D V L \<Longrightarrow> held R D (add_mset v V) L"
  by (auto simp: held_def)

lemma held_add_D: "held R D V L \<Longrightarrow> held R (add_mset x D) V L"
  unfolding held_def by auto

lemma held_sub_L: "held R D V (add_mset v L) \<Longrightarrow> held R D V L"
  by (auto simp: held_def)

lemma refs_ok_held: "refs_ok R Z D V L s \<Longrightarrow> held R D V L"
  by (simp add: refs_ok_def)

lemma refs_ok_live:
  assumes ok: "refs_ok R Z D V L s" and v: "v \<in># V \<or> v \<in> snd ` set_mset D"
  obtains vn where "vnodes s v = Some vn"
proof (cases "v \<in># V")
  case True
  then show thesis using refs_ok_vnode [OF ok] that by blast
next
  case False
  then obtain d where "(d, v) \<in># D" using v by auto
  then show thesis using refs_ok_dentry [OF ok] that by blast
qed

lemma vn_lock_rule:
  assumes ok: "refs_ok R Z D V L s" and v: "v \<in># V \<or> v \<in> snd ` set_mset D"
    and Q: "\<And>s'. \<lbrakk>refs_ok R Z D V (add_mset v L) s'; dentries s' = dentries s; files s' = files s; fs s' = fs s\<rbrakk> \<Longrightarrow> Q () s'"
  shows "wp (vn_lock v) Q s"
proof -
  obtain vn where vn: "vnodes s v = Some vn"
    by (rule refs_ok_live [OF ok v])
  have "held R D V (add_mset v L)"
    using refs_ok_held [OF ok] v unfolding held_def by auto
  then have "refs_ok R Z D V (add_mset v L) (s\<lparr>vnodes := (vnodes s)(v \<mapsto> vn\<lparr>v_nrlocks := Suc (v_nrlocks vn)\<rparr>)\<rparr>)"
    using refs_ok_vnodeD(1,2,4) [OF ok vn] by (intro refs_ok_upd_vnode [OF ok vn]) simp_all
  then show ?thesis using vn refs_ok_vnodeD(1) [OF ok vn] Q by (simp add: vn_lock_def)
qed

lemma vn_unlock_rule:
  assumes ok: "refs_ok R Z D V (add_mset v L) s"
    and Q: "\<And>s'. \<lbrakk>refs_ok R Z D V L s'; dentries s' = dentries s; files s' = files s; fs s' = fs s\<rbrakk> \<Longrightarrow> Q () s'"
  shows "wp (vn_unlock v) Q s"
proof -
  obtain vn where vn: "vnodes s v = Some vn" "0 < v_refcnt vn" "v_nrlocks vn = Suc (count L v)"
    using refs_ok_locked [OF ok, of v] by auto
  have "refs_ok R Z D V L (s\<lparr>vnodes := (vnodes s)(v \<mapsto> vn\<lparr>v_nrlocks := v_nrlocks vn - 1\<rparr>)\<rparr>)"
    using refs_ok_vnodeD(1,2,4) [OF ok vn(1)] vn held_sub_L [OF refs_ok_held [OF ok]]
    by (intro refs_ok_upd_vnode [OF ok vn(1)]) simp_all
  then show ?thesis using vn Q by (simp add: vn_unlock_def)
qed

lemma vref_rule:
  assumes ok: "refs_ok R Z D V L s" and vn: "vnodes s v = Some vn"
    and Q: "refs_ok R Z D (add_mset v V) L (s\<lparr>vnodes := (vnodes s)(v \<mapsto> vn\<lparr>v_refcnt := Suc (v_refcnt vn)\<rparr>)\<rparr>) \<Longrightarrow>
      Q () (s\<lparr>vnodes := (vnodes s)(v \<mapsto> vn\<lparr>v_refcnt := Suc (v_refcnt vn)\<rparr>)\<rparr>)"
  shows "wp (vref v) Q s"
proof -
  have "refs_ok R Z D (add_mset v V) L (s\<lparr>vnodes := (vnodes s)(v \<mapsto> vn\<lparr>v_refcnt := Suc (v_refcnt vn)\<rparr>)\<rparr>)"
    using refs_ok_vnodeD(1,2,4) [OF ok vn] held_add_V [OF refs_ok_held [OF ok]]
    by (intro refs_ok_upd_vnode [OF ok vn]) simp_all
  then show ?thesis using vn refs_ok_vnodeD(1) [OF ok vn] Q by (simp add: vref_def)
qed

lemma refs_ok_mount_count:
  assumes ok: "refs_ok R Z D V L s" and m: "mounts s m = Some me"
  shows "refs_ok R Z D V L (s\<lparr>mounts := (mounts s)(m \<mapsto> me\<lparr>m_count := c\<rparr>)\<rparr>)" (is "refs_ok _ _ _ _ _ ?s")
proof -
  have ld: "ld Z ?s = ld Z s" "dlinks ?s = dlinks s" by (auto simp: ld_def dlinks_def)
  have "roots_ok R ?s" using ok m unfolding refs_ok_def roots_ok_def by fastforce
  moreover have "dom (mounts ?s) = dom (mounts s)" using m by auto
  then have "vnodes_ok Z V L ?s = vnodes_ok Z V L s" unfolding vnodes_ok_def ld by simp
  moreover have "dentries_ok Z D ?s = dentries_ok Z D s" "dtable_ok Z ?s = dtable_ok Z s" "vtable_ok ?s = vtable_ok s"
    unfolding dentries_ok_def dtable_ok_def vtable_ok_def ld by simp_all
  ultimately show ?thesis using ok unfolding refs_ok_def roots_ok_def ld by simp
qed

lemma refs_ok_unused:
  assumes ok: "refs_ok R Z D (add_mset v V) L0 s" and vn: "vnodes s v = Some vn" "v_refcnt vn = 1" and held: "held R D V L"
  shows "v_names vn = []" "v \<notin># V" "v \<notin># L" "\<And>x w. (x, w) \<in># D \<Longrightarrow> w \<noteq> v"
    "\<And>d de. ld Z s d = Some de \<Longrightarrow> d_vnode de \<noteq> v"
proof -
  show names: "v_names vn = []" and V: "v \<notin># V"
    using refs_ok_vnodeD(2) [OF ok vn(1)] vn(2) by (auto simp: not_in_iff)
  show nod: "d_vnode de \<noteq> v" if "ld Z s d = Some de" for d de
    using refs_ok_dentryD(6) [OF ok that] vn(1) names by auto
  show D: "w \<noteq> v" if "(x, w) \<in># D" for x w
    using that ok nod unfolding refs_ok_def by fast
  show "v \<notin># L"
  proof
    assume "v \<in># L"
    then have "v \<in> snd ` set_mset D" using held V unfolding held_def by blast
    then show False using D by force
  qed
qed

lemma refs_ok_free_vnode:
  assumes ok: "refs_ok R Z D (add_mset v V) L0 s" and vn: "vnodes s v = Some vn" "v_refcnt vn = 1" and held: "held R D V L"
    and L0: "\<And>u. u \<noteq> v \<Longrightarrow> count L0 u = count L u"
  shows "refs_ok R Z D V L (s\<lparr>vnodes := (vnodes s)(v := None), vnode_table := map (removeAll v) (vnode_table s)\<rparr>)"
    (is "refs_ok R Z D V L ?s")
proof -
  note unused = refs_ok_unused [OF ok vn held]
  have ld: "ld Z ?s = ld Z s" "dlinks ?s = dlinks s" by (auto simp: ld_def dlinks_def)
  have "dentries_ok Z D ?s"
    unfolding dentries_ok_def ld
  proof (intro allI impI)
    fix d de assume d: "ld Z s d = Some de"
    then show "0 < d_refcnt de \<and> d_refcnt de = count (image_mset fst D) d + length (d_children de) \<and> distinct (d_children de) \<and>
       (\<forall>c\<in>set (d_children de). \<exists>ce. ld Z s c = Some ce \<and> d_parent ce = Some d) \<and>
       (\<forall>p. d_parent de = Some p \<longrightarrow> (\<exists>pe. ld Z s p = Some pe \<and> d \<in> set (d_children pe))) \<and>
       (\<exists>vn. vnodes ?s (d_vnode de) = Some vn \<and> d \<in> set (v_names vn) \<and> v_mount vn = d_mount de) \<and> d \<in> set (dlinks s)"
      using refs_ok_dentryD [OF ok d] unused(5) [OF d] by auto
  qed
  moreover have "vnodes_ok Z V L ?s"
    unfolding vnodes_ok_def ld
  proof (intro allI impI)
    fix u un assume "vnodes ?s u = Some un"
    then have u: "u \<noteq> v" "vnodes s u = Some un" by (auto split: if_splits)
    then show "0 < v_refcnt un \<and> v_refcnt un = count V u + length (v_names un) \<and> distinct (v_names un) \<and> v_nrlocks un = count L u \<and>
       (\<forall>d\<in>set (v_names un). \<exists>de. ld Z s d = Some de \<and> d_vnode de = u) \<and> v_mount un \<in> dom (mounts ?s) \<and> u \<in> set (concat (vnode_table ?s))"
      using refs_ok_vnodeD [OF ok u(2)] L0 [OF u(1)] by auto
  qed
  moreover have "dtable_ok Z ?s" using ok unfolding refs_ok_def dtable_ok_def ld by simp
  moreover have "vtable_ok ?s"
  proof -
    have old: "vtable_ok s" using ok by (simp add: refs_ok_def)
    have "concat (map (removeAll v) t) = removeAll v (concat t)" for t :: "nat list list"
      by (induction t) auto
    then show ?thesis using old unfolding vtable_ok_def by (auto simp: distinct_removeAll)
  qed
  moreover have "held R D V L" using held .
  moreover have "set_mset V \<subseteq> dom (vnodes ?s)" using ok unused(2) unfolding refs_ok_def by auto
  ultimately show ?thesis using ok unfolding refs_ok_def roots_ok_def ld by auto
qed

lemma count_add_other: "u \<noteq> v \<Longrightarrow> count (add_mset v V) u = count V u"
  by simp

text \<open>What happens when the last reference to a vnode is given up.\<close>

lemma vnode_free_rule:
  assumes inact: "keeps [v] (vop_inactive ops v)"
    and ok: "refs_ok R Z D (add_mset v V) L0 s" and vn: "vnodes s v = Some vn" "v_refcnt vn = 1" and held: "held R D V L"
    and L0: "\<And>u. u \<noteq> v \<Longrightarrow> count L0 u = count L u"
    and Q: "\<And>s' vn'. \<lbrakk>refs_ok R Z D V L (s'\<lparr>vnodes := (vnodes s')(v := None)\<rparr>); dentries s' = dentries s;
        vnodes s' v = Some vn'; v_nrlocks vn' = v_nrlocks vn\<rbrakk> \<Longrightarrow> Q () s'"
  shows "wp (bnd (vnode_table_remove v) (\<lambda>_. bnd (vop_inactive ops v) (\<lambda>_. vfs_unbusy (v_mount vn)))) Q
    (s\<lparr>vnodes := (vnodes s)(v \<mapsto> vn\<lparr>v_refcnt := v_refcnt vn - 1\<rparr>)\<rparr>)" (is "wp _ _ ?s1")
proof -
  let ?s2 = "?s1\<lparr>vnode_table := map (removeAll v) (vnode_table s)\<rparr>"
  let ?t = "s\<lparr>vnodes := (vnodes s)(v := None), vnode_table := map (removeAll v) (vnode_table s)\<rparr>"
  obtain me where me: "mounts s (v_mount vn) = Some me" using refs_ok_vnodeD(6) [OF ok vn(1)] by auto
  let ?mounts = "(mounts s)(v_mount vn \<mapsto> me\<lparr>m_count := m_count me - 1\<rparr>)"
  have t: "refs_ok R Z D V L (?t\<lparr>mounts := ?mounts\<rparr>)"
    using refs_ok_mount_count [OF refs_ok_free_vnode [OF ok vn held L0], of "v_mount vn" me] me by simp
  have "wp (vfs_unbusy (v_mount vn)) Q s3" if eq: "attr_eq ?s2 s3" for s3
  proof -
    have m3: "mounts s3 = mounts s" using eq by (simp add: attr_eq_def)
    let ?s4 = "s3\<lparr>mounts := ?mounts\<rparr>"
    obtain vn' where vn': "vnodes s3 v = Some vn'" "core vn' = core (vn\<lparr>v_refcnt := v_refcnt vn - 1\<rparr>)"
      using attr_eqD [OF eq, of v] by auto
    have "attr_eq (?t\<lparr>mounts := ?mounts\<rparr>) (?s4\<lparr>vnodes := (vnodes ?s4)(v := None)\<rparr>)"
      using eq unfolding attr_eq_def by simp
    then have "refs_ok R Z D V L (?s4\<lparr>vnodes := (vnodes ?s4)(v := None)\<rparr>)"
      using t by (rule refs_ok_attr_eq)
    moreover have "dentries ?s4 = dentries s" using eq by (simp add: attr_eq_def)
    ultimately have "Q () ?s4"
      using Q [of ?s4 vn'] vn' by (simp add: core_def)
    then show ?thesis using me m3 by (simp add: vfs_unbusy_def)
  qed
  moreover have "wp (vop_inactive ops v) (\<lambda>_. attr_eq ?s2) ?s2"
    using inact unfolding keeps_def by simp
  ultimately have "wp (vop_inactive ops v) (\<lambda>_. wp (vfs_unbusy (v_mount vn)) Q) ?s2"
    by (rule wp_mono [rotated])
  then show ?thesis
    using refs_ok_vnodeD(7) [OF ok vn(1)] by (simp add: vnode_table_remove_def)
qed

lemma vrele_rule:
  assumes inact: "keeps [v] (vop_inactive ops v)"
    and ok: "refs_ok R Z D (add_mset v V) L s" and held: "held R D V L"
    and Q: "\<And>s'. \<lbrakk>refs_ok R Z D V L s'; dentries s' = dentries s\<rbrakk> \<Longrightarrow> Q () s'"
  shows "wp (vrele ops v) Q s"
proof -
  obtain vn where vn: "vnodes s v = Some vn" "0 < v_refcnt vn" using refs_ok_vnode [OF ok, of v] by auto
  note cnt = refs_ok_vnodeD(2,4) [OF ok vn(1)]
  show ?thesis
  proof (cases "v_refcnt vn = 1")
    case False
    have "refs_ok R Z D V L (s\<lparr>vnodes := (vnodes s)(v \<mapsto> vn\<lparr>v_refcnt := v_refcnt vn - 1\<rparr>)\<rparr>)"
      using cnt vn(2) False held by (intro refs_ok_upd_vnode [OF ok vn(1)]) simp_all
    then show ?thesis using vn False Q by (simp add: vrele_def)
  next
    case True
    have "wp (bnd (vnode_table_remove v) (\<lambda>_. bnd (vop_inactive ops v) (\<lambda>_. vfs_unbusy (v_mount vn))))
        (\<lambda>_ s. Q () (s\<lparr>vnodes := (vnodes s)(v := None)\<rparr>)) (s\<lparr>vnodes := (vnodes s)(v \<mapsto> vn\<lparr>v_refcnt := v_refcnt vn - 1\<rparr>)\<rparr>)"
      using Q by (intro vnode_free_rule [OF inact ok vn(1) True held]) auto
    then show ?thesis using vn True by (simp add: vrele_def)
  qed
qed

lemma vput_rule:
  assumes inact: "keeps [v] (vop_inactive ops v)"
    and ok: "refs_ok R Z D (add_mset v V) (add_mset v L) s" and held: "held R D V L"
    and Q: "\<And>s'. \<lbrakk>refs_ok R Z D V L s'; dentries s' = dentries s\<rbrakk> \<Longrightarrow> Q () s'"
  shows "wp (vput ops v) Q s"
proof -
  obtain vn where vn: "vnodes s v = Some vn" "0 < v_refcnt vn" using refs_ok_vnode [OF ok, of v] by auto
  note cnt = refs_ok_vnodeD(2,4) [OF ok vn(1)]
  show ?thesis
  proof (cases "v_refcnt vn = 1")
    case False
    have "refs_ok R Z D V L (s\<lparr>vnodes := (vnodes s)(v \<mapsto> vn\<lparr>v_refcnt := v_refcnt vn - 1, v_nrlocks := v_nrlocks vn - 1\<rparr>)\<rparr>)"
      using cnt vn(2) False held by (intro refs_ok_upd_vnode [OF ok vn(1)]) simp_all
    then show ?thesis using vn False Q cnt by (simp add: vput_def vn_unlock_def)
  next
    case True
    have "v \<notin># L" by (rule refs_ok_unused(3) [OF ok vn(1) True held])
    then have locks: "v_nrlocks vn = 1" using cnt by (simp add: not_in_iff)
    have "wp (bnd (vnode_table_remove v) (\<lambda>_. bnd (vop_inactive ops v) (\<lambda>_. vfs_unbusy (v_mount vn))))
        (\<lambda>_ s. \<exists>vn'. vnodes s v = Some vn' \<and> v_nrlocks vn' = 1 \<and> Q () (s\<lparr>vnodes := (vnodes s)(v := None)\<rparr>))
        (s\<lparr>vnodes := (vnodes s)(v \<mapsto> vn\<lparr>v_refcnt := v_refcnt vn - 1\<rparr>)\<rparr>)"
      using Q locks by (intro vnode_free_rule [OF inact ok vn(1) True held]) auto
    then show ?thesis
      using vn True locks by (auto simp: vput_def elim!: wp_mono)
  qed
qed


lemma vn_hash_less: "vn_hash mp ino < 32"
  by (simp add: vn_hash_def unat_and_31)

lemma find_vnode_rule:
  assumes "\<And>v. v \<in> set xs \<Longrightarrow> vnodes s v \<noteq> None" "\<And>v. v \<in> set xs \<Longrightarrow> Q (Some v) s" "Q None s"
  shows "wp (find_vnode mp ino xs) Q s"
  using assms
proof (induction xs)
  case (Cons v xs)
  then obtain vn where "vnodes s v = Some vn" by fastforce
  then show ?case using Cons by auto
qed simp

lemma refs_ok_frame:
  assumes ok: "refs_ok R Z D V L s"
    and eq: "dentries s' = dentries s" "dentry_hash_table s' = dentry_hash_table s" "fake s' = fake s" "vnodes s' = vnodes s"
      "vnode_table s' = vnode_table s" "mounts s' = mounts s" "mount_list s' = mount_list s" "next_ptr s \<le> next_ptr s'"
  shows "refs_ok R Z D V L s'"
proof -
  have ld: "ld Z s' = ld Z s" "dlinks s' = dlinks s" using eq by (auto simp: ld_def dlinks_def)
  have "dentries_ok Z D s' = dentries_ok Z D s" "dtable_ok Z s' = dtable_ok Z s" "vtable_ok s' = vtable_ok s"
    "vnodes_ok Z V L s' = vnodes_ok Z V L s" "roots_ok R s' = roots_ok R s"
    unfolding dentries_ok_def vnodes_ok_def dtable_ok_def vtable_ok_def roots_ok_def ld eq by simp_all
  then show ?thesis using ok eq unfolding refs_ok_def ld by simp
qed

lemma vtable_live: "\<lbrakk>vtable_ok s; v \<in> set (concat (vnode_table s))\<rbrakk> \<Longrightarrow> \<exists>vn. vnodes s v = Some vn"
  unfolding vtable_ok_def in_concat_nth by metis

lemma refs_ok_new_vnode:
  assumes ok: "refs_ok R Z D V L s" and mp: "mp \<in> dom (mounts s)"
    and vn: "v_refcnt vn = 1" "v_names vn = []" "v_nrlocks vn = 1" "v_mount vn = mp"
    and h: "h = vn_hash mp (v_ino vn)"
  shows "refs_ok R Z D (add_mset (next_ptr s) V) (add_mset (next_ptr s) L)
    (s\<lparr>next_ptr := Suc (next_ptr s), vnodes := (vnodes s)(next_ptr s \<mapsto> vn),
       vnode_table := (vnode_table s)[h := next_ptr s # vnode_table s ! h]\<rparr>)"
    (is "refs_ok R Z D ?V ?L ?s")
proof -
  let ?v = "next_ptr s"
  have ld: "ld Z ?s = ld Z s" "dlinks ?s = dlinks s" by (auto simp: ld_def dlinks_def)
  have fresh: "vnodes s ?v = None" using ok by (simp add: refs_ok_def)
  then have V: "count V ?v = 0" using ok unfolding refs_ok_def by (auto simp: count_eq_zero_iff)
  have L: "count L ?v = 0"
    using refs_ok_locked [OF ok, of ?v] fresh by (auto simp: count_eq_zero_iff)
  have vt: "vtable_ok s" and h32: "h < 32" using ok vn_hash_less h by (simp_all add: refs_ok_def)
  then have len: "length (vnode_table s) = 32" by (simp add: vtable_ok_def)
  have notin: "?v \<notin> set (concat (vnode_table s))"
    using vtable_live [OF vt, of ?v] fresh by auto
  have table: "set (concat (vnode_table ?s)) = insert ?v (set (concat (vnode_table s)))"
    using set_concat_insert [of h "vnode_table s" ?v] h32 len by simp
  have "dentries_ok Z D ?s"
    unfolding dentries_ok_def ld
  proof (intro allI impI)
    fix d de assume d: "ld Z s d = Some de"
    have "\<exists>vn. vnodes ?s (d_vnode de) = Some vn \<and> d \<in> set (v_names vn) \<and> v_mount vn = d_mount de"
      using refs_ok_dentryD(6) [OF ok d] fresh by auto
    then show "0 < d_refcnt de \<and> d_refcnt de = count (image_mset fst D) d + length (d_children de) \<and> distinct (d_children de) \<and>
       (\<forall>c\<in>set (d_children de). \<exists>ce. ld Z s c = Some ce \<and> d_parent ce = Some d) \<and>
       (\<forall>p. d_parent de = Some p \<longrightarrow> (\<exists>pe. ld Z s p = Some pe \<and> d \<in> set (d_children pe))) \<and>
       (\<exists>vn. vnodes ?s (d_vnode de) = Some vn \<and> d \<in> set (v_names vn) \<and> v_mount vn = d_mount de) \<and> d \<in> set (dlinks s)"
      using refs_ok_dentryD [OF ok d] by blast
  qed
  moreover have "vnodes_ok Z ?V ?L ?s"
    unfolding vnodes_ok_def ld table
  proof (intro allI impI)
    fix u un assume u: "vnodes ?s u = Some un"
    show "0 < v_refcnt un \<and> v_refcnt un = count ?V u + length (v_names un) \<and> distinct (v_names un) \<and> v_nrlocks un = count ?L u \<and>
       (\<forall>d\<in>set (v_names un). \<exists>de. ld Z s d = Some de \<and> d_vnode de = u) \<and> v_mount un \<in> dom (mounts ?s) \<and>
       u \<in> insert ?v (set (concat (vnode_table s)))"
    proof (cases "u = ?v")
      case True
      then show ?thesis using u vn mp V L by simp
    next
      case False
      then show ?thesis using u refs_ok_vnodeD [OF ok, of u un] by simp
    qed
  qed
  moreover have "dtable_ok Z ?s" using ok unfolding refs_ok_def dtable_ok_def ld by simp
  moreover have "vtable_ok ?s"
    unfolding vtable_ok_def
  proof (intro conjI allI impI ballI)
    show "length (vnode_table ?s) = 32" using len by simp
    show "distinct (concat (vnode_table ?s))"
      using distinct_concat_insert [of h "vnode_table s" ?v] vt notin h32 len unfolding vtable_ok_def by simp
    fix i u assume i: "i < (32::nat)" and u: "u \<in> set (vnode_table ?s ! i)"
    show "\<exists>vn. vnodes ?s u = Some vn \<and> vn_hash (v_mount vn) (v_ino vn) = i"
    proof (cases "u = ?v")
      case True
      then have "i = h" using u i len notin by (cases "i = h") (auto simp: in_concat_nth simp del: set_concat)
      then show ?thesis using True vn h by auto
    next
      case False
      then have "u \<in> set (vnode_table s ! i)" using u i len h32 by (auto simp: nth_list_update split: if_splits)
      then show ?thesis using vt i False unfolding vtable_ok_def by auto
    qed
  qed
  moreover have "held R D ?V ?L" using refs_ok_held [OF ok] unfolding held_def by auto
  moreover have "set_mset ?V \<subseteq> dom (vnodes ?s)" using ok unfolding refs_ok_def by auto
  ultimately show ?thesis using ok unfolding refs_ok_def roots_ok_def ld by auto
qed


lemma vget_rule:
  assumes keep: "\<And>v. keeps [v] (vget_op mp v)"
    and ok: "refs_ok R Z D V L s" and mp: "mp \<in> dom (mounts s)"
    and cached: "\<And>v s'. \<lbrakk>refs_ok R Z D (add_mset v V) (add_mset v L) s'; dentries s' = dentries s\<rbrakk> \<Longrightarrow> Q (Vget_cached v) s'"
    and new: "\<And>v s'. \<lbrakk>refs_ok R Z D (add_mset v V) (add_mset v L) s'; dentries s' = dentries s\<rbrakk> \<Longrightarrow> Q (Vget_new v) s'"
    and error: "\<And>e s'. \<lbrakk>refs_ok R Z D V L s'; dentries s' = dentries s\<rbrakk> \<Longrightarrow> Q (Vget_error e) s'"
  shows "wp (vget vget_op mp ino) Q s"
proof -
  have vt: "vtable_ok s" using ok by (simp add: refs_ok_def)
  let ?h = "vn_hash mp ino" and ?v = "next_ptr s"
  have bucket: "v \<in> set (concat (vnode_table s))" if "v \<in> set (vnode_table s ! ?h)" for v
    using that vt vn_hash_less [of mp ino] unfolding in_concat_nth vtable_ok_def by auto
  have found: "wp (bnd (deref vnodes v) (\<lambda>vn. bnd (set_vnode v (vn\<lparr>v_refcnt := Suc (v_refcnt vn), v_nrlocks := Suc (v_nrlocks vn)\<rparr>))
      (\<lambda>_. ret (Vget_cached v)))) Q s" if inb: "v \<in> set (vnode_table s ! ?h)" for v
  proof -
    obtain vn where vn: "vnodes s v = Some vn" using vtable_live [OF vt bucket [OF inb]] by blast
    have "held R D (add_mset v V) (add_mset v L)" using refs_ok_held [OF ok] unfolding held_def by auto
    then have "refs_ok R Z D (add_mset v V) (add_mset v L)
        (s\<lparr>vnodes := (vnodes s)(v \<mapsto> vn\<lparr>v_refcnt := Suc (v_refcnt vn), v_nrlocks := Suc (v_nrlocks vn)\<rparr>)\<rparr>)"
      using refs_ok_vnodeD(1,2,4) [OF ok vn] by (intro refs_ok_upd_vnode [OF ok vn]) simp_all
    then show ?thesis using vn cached by simp
  qed
  let ?s1 = "s\<lparr>next_ptr := Suc ?v, vnodes := (vnodes s)(?v \<mapsto> new_vnode mp ino)\<rparr>"
  obtain me where me: "mounts s mp = Some me" using mp by blast
  let ?mounts = "(mounts s)(mp \<mapsto> me\<lparr>m_count := m_count me + 1\<rparr>)"
  have "wp (vget_op mp ?v) (\<lambda>_. attr_eq ?s1) ?s1"
    using keep unfolding keeps_def by simp
  moreover have "Q (Vget_error e) (s2\<lparr>vnodes := (vnodes s2)(?v := None)\<rparr>)" if "attr_eq ?s1 s2" for s2 e
  proof (rule error)
    have "attr_eq (s\<lparr>next_ptr := Suc ?v\<rparr>) (s2\<lparr>vnodes := (vnodes s2)(?v := None)\<rparr>)"
      using that ok unfolding attr_eq_def refs_ok_def by auto
    moreover have "refs_ok R Z D V L (s\<lparr>next_ptr := Suc ?v\<rparr>)" by (rule refs_ok_frame [OF ok]) simp_all
    ultimately show "refs_ok R Z D V L (s2\<lparr>vnodes := (vnodes s2)(?v := None)\<rparr>)" by (rule refs_ok_attr_eq)
    show "dentries (s2\<lparr>vnodes := (vnodes s2)(?v := None)\<rparr>) = dentries s" using that by (simp add: attr_eq_def)
  qed
  moreover have "\<exists>vn. vnodes s2 ?v = Some vn \<and> mounts s2 = mounts s \<and>
      Q (Vget_new ?v) (s2\<lparr>mounts := ?mounts, vnodes := (vnodes s2)(?v \<mapsto> vn\<lparr>v_nrlocks := Suc (v_nrlocks vn)\<rparr>),
        vnode_table := (vnode_table s2)[?h := ?v # vnode_table s2 ! ?h]\<rparr>)" if eq: "attr_eq ?s1 s2" for s2
  proof -
    obtain vn where vn: "vnodes s2 ?v = Some vn" "core vn = core (new_vnode mp ino)"
      using attr_eqD [OF eq, of ?v] by auto
    let ?new = "(new_vnode mp ino)\<lparr>v_nrlocks := 1\<rparr>"
    let ?t = "s\<lparr>next_ptr := Suc ?v, vnodes := (vnodes s)(?v \<mapsto> ?new), vnode_table := (vnode_table s)[?h := ?v # vnode_table s ! ?h]\<rparr>"
    have t: "refs_ok R Z D (add_mset ?v V) (add_mset ?v L) ?t"
      by (rule refs_ok_new_vnode [OF ok mp]) (simp_all add: new_vnode_def)
    have "refs_ok R Z D (add_mset ?v V) (add_mset ?v L) (?t\<lparr>mounts := ?mounts\<rparr>)"
      using refs_ok_mount_count [OF t, of mp me "m_count me + 1"] me by simp
    moreover have "attr_eq (?t\<lparr>mounts := ?mounts\<rparr>) (s2\<lparr>mounts := ?mounts,
        vnodes := (vnodes s2)(?v \<mapsto> vn\<lparr>v_nrlocks := Suc (v_nrlocks vn)\<rparr>),
        vnode_table := (vnode_table s2)[?h := ?v # vnode_table s2 ! ?h]\<rparr>)"
      using eq vn unfolding attr_eq_def by (auto simp: core_def new_vnode_def)
    ultimately have "refs_ok R Z D (add_mset ?v V) (add_mset ?v L) (s2\<lparr>mounts := ?mounts,
        vnodes := (vnodes s2)(?v \<mapsto> vn\<lparr>v_nrlocks := Suc (v_nrlocks vn)\<rparr>),
        vnode_table := (vnode_table s2)[?h := ?v # vnode_table s2 ! ?h]\<rparr>)"
      by (rule refs_ok_attr_eq [rotated])
    then show ?thesis using vn eq by (intro exI conjI new) (auto simp: attr_eq_def)
  qed
  ultimately have fresh: "wp (vget_op mp ?v) (\<lambda>error. wp (case error of
         Some e \<Rightarrow> bnd (change (\<lambda>s. s\<lparr>vnodes := (vnodes s)(?v := None)\<rparr>)) (\<lambda>_. ret (Vget_error e))
       | None \<Rightarrow>
           bnd (vfs_busy mp) (\<lambda>_.
           bnd (deref vnodes ?v) (\<lambda>vn.
           bnd (set_vnode ?v (vn\<lparr>v_nrlocks := Suc (v_nrlocks vn)\<rparr>)) (\<lambda>_.
           bnd (change (\<lambda>s. s\<lparr>vnode_table := (vnode_table s)[?h := ?v # vnode_table s ! ?h]\<rparr>)) (\<lambda>_.
           ret (Vget_new ?v)))))) Q) ?s1"
    using me by (elim wp_mono) (force simp: vfs_busy_def split: option.splits)
  show ?thesis
    unfolding vget_def vn_lookup_def wp_bnd wp_look
    using found fresh vtable_live [OF vt bucket] by (intro find_vnode_rule) auto
qed


section \<open>Rules of the directory entry primitives\<close>

lemma refs_ok_upd_dentry:
  assumes ok: "refs_ok R Z D V L s" and d: "ld Z s d = Some de"
    and n: "n = count (image_mset fst D') d + length (d_children de)" "0 < n"
    and others: "\<And>x. x \<noteq> d \<Longrightarrow> count (image_mset fst D') x = count (image_mset fst D) x"
    and members: "\<And>x w. (x, w) \<in># D' \<Longrightarrow> \<exists>xe. ld Z s x = Some xe \<and> d_vnode xe = w"
    and held: "held R D' V L"
  shows "refs_ok R Z D' V L (s\<lparr>dentries := (dentries s)(d \<mapsto> de\<lparr>d_refcnt := n\<rparr>)\<rparr>)" (is "refs_ok _ _ _ _ _ ?s")
proof -
  have dZ: "d \<notin> Z" using d by (auto simp: ld_def split: if_splits)
  have ld: "ld Z ?s = (ld Z s)(d \<mapsto> de\<lparr>d_refcnt := n\<rparr>)" and dl: "dlinks ?s = dlinks s"
    using dZ by (auto simp: ld_def dlinks_def)
  have fwd: "\<exists>xe'. ld Z ?s x = Some xe' \<and> d_children xe' = d_children xe \<and> d_parent xe' = d_parent xe \<and> d_vnode xe' = d_vnode xe
      \<and> d_mount xe' = d_mount xe \<and> d_path xe' = d_path xe" if "ld Z s x = Some xe" for x xe
    using that d unfolding ld by auto
  have "dentries_ok Z D' ?s"
    unfolding dentries_ok_def dl
  proof (intro allI impI)
    fix x xe' assume x': "ld Z ?s x = Some xe'"
    obtain xe where x: "ld Z s x = Some xe" "d_children xe' = d_children xe" "d_parent xe' = d_parent xe"
        "d_vnode xe' = d_vnode xe" "d_mount xe' = d_mount xe"
      using x' d unfolding ld by (cases "x = d") auto
    note old = refs_ok_dentryD [OF ok x(1)]
    have "0 < d_refcnt xe' \<and> d_refcnt xe' = count (image_mset fst D') x + length (d_children xe')"
    proof (cases "x = d")
      case True
      then have "d_refcnt xe' = n" "d_children xe' = d_children de" using x' unfolding ld by auto
      then show ?thesis using n True by metis
    next
      case False
      then show ?thesis using x' x(1) old(1,2) others [OF False] unfolding ld by simp
    qed
    moreover have "\<forall>c\<in>set (d_children xe'). \<exists>ce. ld Z ?s c = Some ce \<and> d_parent ce = Some x"
      using old(4) fwd x(2) by metis
    moreover have "\<forall>p. d_parent xe' = Some p \<longrightarrow> (\<exists>pe. ld Z ?s p = Some pe \<and> x \<in> set (d_children pe))"
      using old(5) fwd x(3) by metis
    moreover have "\<exists>vn. vnodes ?s (d_vnode xe') = Some vn \<and> x \<in> set (v_names vn) \<and> v_mount vn = d_mount xe'"
      "distinct (d_children xe')"
      using old(3,6) x by simp_all
    ultimately show "0 < d_refcnt xe' \<and> d_refcnt xe' = count (image_mset fst D') x + length (d_children xe') \<and> distinct (d_children xe') \<and>
       (\<forall>c\<in>set (d_children xe'). \<exists>ce. ld Z ?s c = Some ce \<and> d_parent ce = Some x) \<and>
       (\<forall>p. d_parent xe' = Some p \<longrightarrow> (\<exists>pe. ld Z ?s p = Some pe \<and> x \<in> set (d_children pe))) \<and>
       (\<exists>vn. vnodes ?s (d_vnode xe') = Some vn \<and> x \<in> set (v_names vn) \<and> v_mount vn = d_mount xe') \<and> x \<in> set (dlinks s)"
      using old(7) by blast
  qed
  moreover have "vnodes_ok Z V L ?s"
    unfolding vnodes_ok_def
  proof (intro allI impI)
    fix u un assume "vnodes ?s u = Some un"
    then have u: "vnodes s u = Some un" by simp
    note old = refs_ok_vnodeD [OF ok u]
    have "\<forall>x\<in>set (v_names un). \<exists>xe. ld Z ?s x = Some xe \<and> d_vnode xe = u"
      using old(5) fwd by metis
    then show "0 < v_refcnt un \<and> v_refcnt un = count V u + length (v_names un) \<and> distinct (v_names un) \<and> v_nrlocks un = count L u \<and>
       (\<forall>d\<in>set (v_names un). \<exists>de. ld Z ?s d = Some de \<and> d_vnode de = u) \<and> v_mount un \<in> dom (mounts ?s) \<and> u \<in> set (concat (vnode_table ?s))"
      using old by simp
  qed
  moreover have "dtable_ok Z ?s"
  proof -
    have old: "dtable_ok Z s" using ok by (simp add: refs_ok_def)
    have "\<exists>xe. ld Z ?s x = Some xe \<and> dentry_hash (d_mount xe) (d_path xe) = i"
      if "i < 32" "x \<in> set (dentry_hash_table s ! i)" for i x
      using old that fwd unfolding dtable_ok_def by metis
    moreover have "ld Z ?s x \<noteq> None" if "x \<in> set (dlinks s)" for x
      using old that unfolding ld dtable_ok_def by simp
    ultimately show ?thesis using old unfolding dtable_ok_def dl by simp
  qed
  moreover have "vtable_ok ?s" using ok unfolding refs_ok_def vtable_ok_def by simp
  moreover have "held R D' V L" using held .
  moreover have "\<forall>(x, w)\<in>#D'. \<exists>xe. ld Z ?s x = Some xe \<and> d_vnode xe = w"
    using members fwd by (clarify, metis)
  moreover have "\<forall>p\<ge>next_ptr ?s. dentries ?s p = None \<and> vnodes ?s p = None"
    using ok d dZ unfolding refs_ok_def ld_def by auto
  ultimately show ?thesis using ok unfolding refs_ok_def roots_ok_def by simp
qed

lemma refs_ok_members: "\<lbrakk>refs_ok R Z D V L s; (x, w) \<in># D\<rbrakk> \<Longrightarrow> \<exists>xe. ld Z s x = Some xe \<and> d_vnode xe = w"
  unfolding refs_ok_def by fast

lemma refs_ok_dref:
  assumes ok: "refs_ok R Z D V L s" and d: "ld Z s d = Some de"
  shows "refs_ok R Z (add_mset (d, d_vnode de) D) V L (s\<lparr>dentries := (dentries s)(d \<mapsto> de\<lparr>d_refcnt := Suc (d_refcnt de)\<rparr>)\<rparr>)"
  using refs_ok_dentryD(2) [OF ok d] d refs_ok_members [OF ok] held_add_D [OF refs_ok_held [OF ok]]
  by (intro refs_ok_upd_dentry [OF ok d]) auto

lemma dref_rule:
  assumes ok: "refs_ok R Z D V L s" and d: "(d, v) \<in># D"
    and Q: "\<And>s'. refs_ok R Z (add_mset (d, v) D) V L s' \<Longrightarrow> Q () s'"
  shows "wp (dref d) Q s"
proof -
  obtain de where de: "ld Z s d = Some de" "dentries s d = Some de" "d_vnode de = v" "0 < d_refcnt de"
    using refs_ok_dentry [OF ok d] by metis
  show ?thesis using refs_ok_dref [OF ok de(1)] de Q by (simp add: dref_def)
qed

lemma dentry_hash_less: "dentry_hash mp path < 32"
  by (simp add: dentry_hash_def Let_def unat_and_31)

text \<open>The search in a bucket finds an entry with the given mount and path if there is one.\<close>

definition cached :: "'fs vfs \<Rightarrow> nat \<Rightarrow> string \<Rightarrow> nat \<Rightarrow> bool" where
  "cached s mp path d \<longleftrightarrow> (\<exists>de. dentries s d = Some de \<and> d_mount de = mp \<and> take path_max (d_path de) = take path_max path)"

lemma find_dentry_rule:
  assumes "\<And>d. d \<in> set xs \<Longrightarrow> dentries s d \<noteq> None"
    "\<And>d. \<lbrakk>d \<in> set xs; cached s mp path d\<rbrakk> \<Longrightarrow> Q (Some d) s" "\<forall>d\<in>set xs. \<not> cached s mp path d \<Longrightarrow> Q None s"
  shows "wp (find_dentry mp path xs) Q s"
  using assms
proof (induction xs)
  case (Cons d xs)
  then obtain de where d: "dentries s d = Some de" by fastforce
  show ?case
  proof (cases "cached s mp path d")
    case True
    then show ?thesis using Cons.prems d by (auto simp: cached_def)
  next
    case False
    then have "wp (find_dentry mp path xs) Q s" using Cons by simp
    then show ?thesis using False d by (auto simp: cached_def)
  qed
qed simp

lemma dentry_lookup_rule:
  assumes ok: "refs_ok R Z D V L s"
    and found: "\<And>d v s'. \<lbrakk>refs_ok R Z (add_mset (d, v) D) V L s'; cached s' mp path d; dom (dentries s') = dom (dentries s); vnodes s' = vnodes s\<rbrakk> \<Longrightarrow> Q (Some d) s'"
    and none: "\<lbrakk>\<And>d. d \<in> set (dentry_hash_table s ! dentry_hash mp path) \<Longrightarrow> \<not> cached s mp path d\<rbrakk> \<Longrightarrow> Q None s"
  shows "wp (dentry_lookup mp path) Q s"
proof -
  let ?b = "dentry_hash_table s ! dentry_hash mp path"
  have live: "\<exists>de. ld Z s d = Some de" if "d \<in> set ?b" for d
    using that ok dentry_hash_less [of mp path] unfolding refs_ok_def dtable_ok_def by metis
  show ?thesis
    unfolding dentry_lookup_def wp_bnd wp_look
  proof (rule find_dentry_rule)
    fix d assume d: "d \<in> set ?b"
    show "dentries s d \<noteq> None" using live [OF d] by (auto simp: ld_def split: if_splits)
  next
    fix d assume d: "d \<in> set ?b" and c: "cached s mp path d"
    obtain de where de: "ld Z s d = Some de" using live [OF d] by blast
    then have de': "dentries s d = Some de" by (auto simp: ld_def split: if_splits)
    have "cached (s\<lparr>dentries := (dentries s)(d \<mapsto> de\<lparr>d_refcnt := Suc (d_refcnt de)\<rparr>)\<rparr>) mp path d"
      using c de' by (auto simp: cached_def)
    then have "Q (Some d) (s\<lparr>dentries := (dentries s)(d \<mapsto> de\<lparr>d_refcnt := Suc (d_refcnt de)\<rparr>)\<rparr>)"
      using de' by (intro found [OF refs_ok_dref [OF ok de]]) auto
    then show "wp (case Some d of None \<Rightarrow> ret None | Some dp \<Rightarrow> bnd (deref dentries dp) (\<lambda>de.
        bnd (set_dentry dp (de\<lparr>d_refcnt := Suc (d_refcnt de)\<rparr>)) (\<lambda>_. ret (Some dp)))) Q s"
      using de' by simp
  next
    assume "\<forall>d\<in>set ?b. \<not> cached s mp path d"
    then show "wp (case None of None \<Rightarrow> ret None | Some dp \<Rightarrow> bnd (deref dentries dp) (\<lambda>de.
        bnd (set_dentry dp (de\<lparr>d_refcnt := Suc (d_refcnt de)\<rparr>)) (\<lambda>_. ret (Some dp)))) Q s"
      using none by simp
  qed
qed


subsection \<open>Giving up the last reference to an entry\<close>

definition drop_name :: "nat \<Rightarrow> vnode \<Rightarrow> vnode" where
  "drop_name d vn = vn\<lparr>v_names := removeAll d (v_names vn)\<rparr>"

text \<open>The parent, whose count includes the entry, loses it from its list of children.\<close>

definition drop_child :: "nat \<Rightarrow> nat option \<Rightarrow> (nat \<Rightarrow> dentry option) \<Rightarrow> nat \<Rightarrow> dentry option" where
  "drop_child d p ds = (case p of None \<Rightarrow> ds
     | Some q \<Rightarrow> ds(q := map_option (\<lambda>pe. pe\<lparr>d_children := removeAll d (d_children pe)\<rparr>) (ds q)))"

definition parent_ref :: "'fs vfs \<Rightarrow> dentry \<Rightarrow> (nat \<times> nat) multiset" where
  "parent_ref s de = (case d_parent de of None \<Rightarrow> {#}
     | Some p \<Rightarrow> (case dentries s p of None \<Rightarrow> {#} | Some pe \<Rightarrow> {#(p, d_vnode pe)#}))"

lemma refs_ok_kill:
  assumes ok: "refs_ok R Z (add_mset (d, v) D) V L s" and de: "ld Z s d = Some de" "d_refcnt de = 1"
    and vn: "vnodes s v = Some vn" and held: "held R D V L"
  shows "refs_ok R (insert d Z) (D + parent_ref s de) (add_mset v V) L
    (s\<lparr>dentries := drop_child d (d_parent de) ((dentries s)(d \<mapsto> de\<lparr>d_refcnt := 0\<rparr>)),
       dentry_hash_table := map (removeAll d) (dentry_hash_table s), fake := removeAll d (fake s),
       vnodes := (vnodes s)(v \<mapsto> drop_name d vn)\<rparr>)" (is "refs_ok R ?Z ?D ?V L ?s")
proof -
  have dZ: "d \<notin> Z" and dd: "dentries s d = Some de" using de by (auto simp: ld_def split: if_splits)
  have v: "d_vnode de = v" using refs_ok_members [OF ok, of d v] de by auto
  note dD = refs_ok_dentryD [OF ok de(1)]
  have nochild: "d_children de = []" and cD: "count (image_mset fst D) d = 0" using dD(2) de(2) by auto
  have notD: "x \<noteq> d" if "(x, w) \<in># D" for x w
    using that cD by (auto simp: count_eq_zero_iff image_iff)
  have vname: "d \<in> set (v_names vn)" using dD(6) v vn by auto
  have pne: "p \<noteq> d" if "d_parent de = Some p" for p
    using dD(5) [OF that] de nochild by auto
  have parent: "\<exists>pe. ld Z s p = Some pe \<and> dentries s p = Some pe \<and> d \<in> set (d_children pe)" if "d_parent de = Some p" for p
    using dD(5) [OF that] by (auto simp: ld_def split: if_splits)
  have ldeq: "ld ?Z ?s x = (if x = d then None else if d_parent de = Some x
      then map_option (\<lambda>pe. pe\<lparr>d_children := removeAll d (d_children pe)\<rparr>) (ld Z s x) else ld Z s x)" for x
    using pne by (auto simp: ld_def drop_child_def split: option.splits)
  have dl: "set (dlinks ?s) = set (dlinks s) - {d}"
    unfolding dlinks_def by (auto simp: concat_removeAll)
  have fwd: "\<exists>xe'. ld ?Z ?s x = Some xe' \<and> d_parent xe' = d_parent xe \<and> d_vnode xe' = d_vnode xe \<and> d_mount xe' = d_mount xe
      \<and> d_path xe' = d_path xe \<and> set (d_children xe) - {d} \<subseteq> set (d_children xe')" if "ld Z s x = Some xe" "x \<noteq> d" for x xe
    using that unfolding ldeq by auto
  have pref: "count (image_mset fst (parent_ref s de)) x = (if d_parent de = Some x then 1 else 0)" for x
    using parent by (auto simp: parent_ref_def split: option.splits)
  have "dentries_ok ?Z ?D ?s"
    unfolding dentries_ok_def dl
  proof (intro allI impI)
    fix x xe' assume x': "ld ?Z ?s x = Some xe'"
    then have xd: "x \<noteq> d" unfolding ldeq by auto
    obtain xe where x: "ld Z s x = Some xe" "d_refcnt xe' = d_refcnt xe" "d_parent xe' = d_parent xe" "d_vnode xe' = d_vnode xe"
        "d_mount xe' = d_mount xe" "d_children xe' = (if d_parent de = Some x then removeAll d (d_children xe) else d_children xe)"
      using x' xd unfolding ldeq by (auto split: if_splits)
    note old = refs_ok_dentryD [OF ok x(1)]
    have "d_refcnt xe' = count (image_mset fst ?D) x + length (d_children xe')"
    proof (cases "d_parent de = Some x")
      case True
      then have "d \<in> set (d_children xe)" using parent [OF True] x(1) by auto
      then have "length (d_children xe) = Suc (length (removeAll d (d_children xe)))"
        using old(3) by (simp add: distinct_remove1_removeAll [symmetric] length_remove1)
          (metis Suc_pred length_pos_if_in_set)
      then show ?thesis using True x old(2) pref [of x] xd by simp
    next
      case False
      then show ?thesis using x old(2) pref [of x] xd by simp
    qed
    moreover have "\<forall>c\<in>set (d_children xe'). \<exists>ce. ld ?Z ?s c = Some ce \<and> d_parent ce = Some x"
    proof
      fix c assume c: "c \<in> set (d_children xe')"
      then obtain ce where ce: "ld Z s c = Some ce" "d_parent ce = Some x" using old(4) x(6) by (auto split: if_splits)
      moreover have "c \<noteq> d" using ce c de(1) x(6) by (auto split: if_splits)
      ultimately show "\<exists>ce. ld ?Z ?s c = Some ce \<and> d_parent ce = Some x" using fwd by metis
    qed
    moreover have "\<forall>p. d_parent xe' = Some p \<longrightarrow> (\<exists>pe. ld ?Z ?s p = Some pe \<and> x \<in> set (d_children pe))"
    proof (intro allI impI)
      fix p assume "d_parent xe' = Some p"
      then obtain pe where pe: "ld Z s p = Some pe" "x \<in> set (d_children pe)" using old(5) x(3) by auto
      moreover have "p \<noteq> d" using pe de(1) nochild by auto
      ultimately show "\<exists>pe. ld ?Z ?s p = Some pe \<and> x \<in> set (d_children pe)" using fwd [of p pe] xd by blast
    qed
    moreover have "\<exists>un. vnodes ?s (d_vnode xe') = Some un \<and> x \<in> set (v_names un) \<and> v_mount un = d_mount xe'"
      using old(6) x vn xd by (auto simp: drop_name_def)
    moreover have "distinct (d_children xe')" using old(3) x(6) by (simp add: distinct_removeAll)
    ultimately show "0 < d_refcnt xe' \<and> d_refcnt xe' = count (image_mset fst ?D) x + length (d_children xe') \<and> distinct (d_children xe') \<and>
       (\<forall>c\<in>set (d_children xe'). \<exists>ce. ld ?Z ?s c = Some ce \<and> d_parent ce = Some x) \<and>
       (\<forall>p. d_parent xe' = Some p \<longrightarrow> (\<exists>pe. ld ?Z ?s p = Some pe \<and> x \<in> set (d_children pe))) \<and>
       (\<exists>vn. vnodes ?s (d_vnode xe') = Some vn \<and> x \<in> set (v_names vn) \<and> v_mount vn = d_mount xe') \<and> x \<in> set (dlinks s) - {d}"
      using old(1,7) x(2) xd by simp
  qed
  moreover have "vnodes_ok ?Z ?V L ?s"
    unfolding vnodes_ok_def
  proof (intro allI impI)
    fix u un' assume u': "vnodes ?s u = Some un'"
    then obtain un where u: "vnodes s u = Some un" "un' = (if u = v then drop_name d un else un)"
      using vn by (auto split: if_splits)
    note old = refs_ok_vnodeD [OF ok u(1)]
    have names: "v_names un' = removeAll d (v_names un)"
    proof (cases "u = v")
      case False
      then have "d \<notin> set (v_names un)" using old(5) [of d] de(1) v by auto
      then show ?thesis using u(2) False by simp
    qed (use u in \<open>simp add: drop_name_def\<close>)
    have rest: "v_refcnt un' = v_refcnt un" "v_nrlocks un' = v_nrlocks un" "v_mount un' = v_mount un"
      using u(2) by (simp_all add: drop_name_def)
    have "v_refcnt un' = count ?V u + length (v_names un')"
    proof (cases "u = v")
      case True
      then have "length (v_names un) = Suc (length (removeAll d (v_names un)))"
        using old(3) vname vn u(1) by (simp add: distinct_remove1_removeAll [symmetric] length_remove1)
          (metis Suc_pred length_pos_if_in_set)
      then show ?thesis using True old(2) rest names by simp
    next
      case False
      then show ?thesis using u old(2) by simp
    qed
    moreover have "\<forall>x\<in>set (v_names un'). \<exists>xe. ld ?Z ?s x = Some xe \<and> d_vnode xe = u"
      using old(5) fwd unfolding names by (metis DiffE insertI1 set_removeAll)
    ultimately show "0 < v_refcnt un' \<and> v_refcnt un' = count ?V u + length (v_names un') \<and> distinct (v_names un') \<and> v_nrlocks un' = count L u \<and>
       (\<forall>d\<in>set (v_names un'). \<exists>de. ld ?Z ?s d = Some de \<and> d_vnode de = u) \<and> v_mount un' \<in> dom (mounts ?s) \<and> u \<in> set (concat (vnode_table ?s))"
      using old(1,3,4,6,7) rest names by (simp add: distinct_removeAll)
  qed
  moreover have "dtable_ok ?Z ?s"
  proof -
    have old: "dtable_ok Z s" using ok by (simp add: refs_ok_def)
    have "distinct (dlinks ?s)" using old unfolding dtable_ok_def dlinks_def by (auto simp: concat_removeAll distinct_removeAll)
    moreover have "\<forall>x\<in>set (dlinks ?s). ld ?Z ?s x \<noteq> None"
      using old fwd unfolding dtable_ok_def dl by (metis DiffE insertI1 not_None_eq)
    moreover have "\<exists>xe. ld ?Z ?s x = Some xe \<and> dentry_hash (d_mount xe) (d_path xe) = i"
      if "i < 32" "x \<in> set (removeAll d (dentry_hash_table s ! i))" for i x
    proof -
      have "x \<in> set (dentry_hash_table s ! i)" "x \<noteq> d" using \<open>x \<in> _\<close> by auto
      then obtain xe where "ld Z s x = Some xe" "dentry_hash (d_mount xe) (d_path xe) = i" "x \<noteq> d"
        using old \<open>i < 32\<close> unfolding dtable_ok_def by blast
      then show ?thesis using fwd [of x xe] by auto
    qed
    ultimately show ?thesis using old unfolding dtable_ok_def by simp
  qed
  moreover have "vtable_ok ?s"
    using ok vn unfolding refs_ok_def vtable_ok_def by (fastforce simp: drop_name_def)
  moreover have "held R ?D ?V L"
    using held unfolding held_def by auto
  moreover have "\<forall>(x, w)\<in>#?D. \<exists>xe. ld ?Z ?s x = Some xe \<and> d_vnode xe = w"
  proof (clarify)
    fix x w assume "(x, w) \<in># ?D"
    then consider "(x, w) \<in># D" | "(x, w) \<in># parent_ref s de" by auto
    then show "\<exists>xe. ld ?Z ?s x = Some xe \<and> d_vnode xe = w"
    proof cases
      case 1
      then show ?thesis using refs_ok_members [OF ok, of x w] notD fwd by (metis add_mset_add_single union_iff)
    next
      case 2
      then have p: "d_parent de = Some x" by (auto simp: parent_ref_def split: option.splits)
      then obtain pe where pe: "ld Z s x = Some pe" "dentries s x = Some pe" using parent by blast
      then have "w = d_vnode pe" using 2 p by (simp add: parent_ref_def)
      then show ?thesis using fwd [OF pe(1) pne [OF p]] by auto
    qed
  qed
  moreover have "set_mset ?V \<subseteq> dom (vnodes ?s)" using ok vn unfolding refs_ok_def by auto
  moreover have "\<forall>p\<ge>next_ptr ?s. dentries ?s p = None \<and> vnodes ?s p = None"
    using ok dd vn unfolding refs_ok_def drop_child_def by (auto split: option.splits)
  ultimately show ?thesis using ok unfolding refs_ok_def roots_ok_def by simp
qed


lemma refs_ok_free_zombie:
  assumes ok: "refs_ok R (insert d Z) D V L s" and d: "d \<notin> Z"
  shows "refs_ok R Z D V L (s\<lparr>dentries := (dentries s)(d := None)\<rparr>)" (is "refs_ok _ _ _ _ _ ?s")
proof -
  have ld: "ld Z ?s = ld (insert d Z) s" "dlinks ?s = dlinks s" using d by (auto simp: ld_def dlinks_def)
  have "dentries_ok Z D ?s = dentries_ok (insert d Z) D s" "dtable_ok Z ?s = dtable_ok (insert d Z) s" "vtable_ok ?s = vtable_ok s"
    "vnodes_ok Z V L ?s = vnodes_ok (insert d Z) V L s" "roots_ok R ?s = roots_ok R s"
    unfolding dentries_ok_def vnodes_ok_def dtable_ok_def vtable_ok_def roots_ok_def ld by simp_all
  then show ?thesis using ok unfolding refs_ok_def ld by simp
qed

lemma drele_unlink_ok:
  assumes ok: "refs_ok R Z (add_mset (d, v) D) V L s" and held: "held R D V L"
  shows "(\<exists>s'. drele_unlink d s = Inr (None, s') \<and> refs_ok R Z D V L s' \<and> (\<forall>z\<in>Z. dentries s' z = dentries s z)) \<or>
    (\<exists>de s'. drele_unlink d s = Inr (Some de, s') \<and> d \<notin> Z \<and> d \<in> dom (dentries s) \<and> d_vnode de = v \<and>
       refs_ok R (insert d Z) (D + parent_ref s de) (add_mset v V) L s' \<and> mounts s' = mounts s \<and> mount_list s' = mount_list s \<and>
       (\<forall>p. d_parent de = Some p \<longrightarrow> dentries s p \<noteq> None) \<and>
       dom (dentries s') = dom (dentries s) \<and> (\<forall>z\<in>Z. dentries s' z = dentries s z))"
proof -
  obtain de vn where de: "ld Z s d = Some de" "dentries s d = Some de" "d_vnode de = v" "0 < d_refcnt de"
    and vn: "vnodes s v = Some vn" "0 < v_refcnt vn"
    using refs_ok_dentry [OF ok, of d v] by auto
  note dD = refs_ok_dentryD [OF ok de(1)]
  have dZ: "d \<notin> Z" using de by (auto simp: ld_def)
  show ?thesis
  proof (cases "d_refcnt de = 1")
    case False
    let ?s = "s\<lparr>dentries := (dentries s)(d \<mapsto> de\<lparr>d_refcnt := d_refcnt de - 1\<rparr>)\<rparr>"
    have "refs_ok R Z D V L ?s"
      using dD(2) de(4) False held refs_ok_members [OF ok] by (intro refs_ok_upd_dentry [OF ok de(1)]) auto
    moreover have "drele_unlink d s = Inr (None, ?s)"
      using de False by (simp add: drele_unlink_def bnd_def deref_def ASSERT_def ret_def set_dentry_def change_def)
    ultimately show ?thesis using dZ by auto
  next
    case True
    let ?s = "s\<lparr>dentries := drop_child d (d_parent de) ((dentries s)(d \<mapsto> de\<lparr>d_refcnt := 0\<rparr>)),
       dentry_hash_table := map (removeAll d) (dentry_hash_table s), fake := removeAll d (fake s),
       vnodes := (vnodes s)(v \<mapsto> drop_name d vn)\<rparr>"
    have kill: "refs_ok R (insert d Z) (D + parent_ref s de) (add_mset v V) L ?s"
      by (rule refs_ok_kill [OF ok de(1) True vn(1) held])
    have linked: "d \<in> set (concat (dentry_hash_table s)) \<or> d \<in> set (fake s)" using dD(7) by (auto simp: dlinks_def)
    have name: "d \<in> set (v_names vn)" using dD(6) de(3) vn by auto
    have vn': "vn\<lparr>v_nrlocks := Suc (v_nrlocks vn), v_names := removeAll d (v_names vn), v_nrlocks := v_nrlocks vn\<rparr> = drop_name d vn"
      by (simp add: drop_name_def)
    have parent: "p \<noteq> d \<and> p \<notin> Z \<and> (\<exists>pe. dentries s p = Some pe \<and> d \<in> set (d_children pe))" if "d_parent de = Some p" for p
      using dD(5) [OF that] dD(2) True de by (auto simp: ld_def split: if_splits)
    have "drele_unlink d s = Inr (Some de, ?s)"
    proof (cases "d_parent de")
      case None
      then show ?thesis using de vn True linked name
        by (simp add: drele_unlink_def bnd_def deref_def ASSERT_def ret_def set_dentry_def change_def hash_remove_def look_def
            vn_del_name_def vn_lock_def vn_unlock_def set_vnode_def drop_child_def drop_name_def)
    next
      case (Some p)
      then obtain pe where "dentries s p = Some pe" "d \<in> set (d_children pe)" "p \<noteq> d" using parent by blast
      then show ?thesis using de vn True linked name Some
        by (simp add: drele_unlink_def bnd_def deref_def ASSERT_def ret_def set_dentry_def change_def hash_remove_def look_def
            vn_del_name_def vn_lock_def vn_unlock_def set_vnode_def drop_child_def drop_name_def children_remove_def)
    qed
    moreover have "dom (dentries ?s) = dom (dentries s)"
      using de(2) parent by (auto simp: drop_child_def split: option.splits if_splits)
    moreover have "\<forall>z\<in>Z. dentries ?s z = dentries s z"
      using dZ parent by (auto simp: drop_child_def split: option.splits)
    moreover have "\<forall>p. d_parent de = Some p \<longrightarrow> dentries s p \<noteq> None" using parent by fastforce
    ultimately show ?thesis using kill dZ de by auto
  qed
qed

lemma finite_dentries: "refs_ok R Z D V L s \<Longrightarrow> finite (dom (dentries s))"
proof (rule finite_subset)
  assume "refs_ok R Z D V L s"
  then show "dom (dentries s) \<subseteq> {..<next_ptr s}" unfolding refs_ok_def by (auto simp: not_le [symmetric])
qed simp

lemma drele_rec_ok:
  assumes inact: "\<And>v. keeps [v] (vop_inactive ops v)"
    and "refs_ok R Z (add_mset (d, v) D) V L s" "held R D V L"
  shows "\<exists>r. drele_rec ops d s = Some r \<and> (case r of Inl e \<Rightarrow> excused e
     | Inr (_, s') \<Rightarrow> refs_ok R Z D V L s' \<and> (\<forall>z\<in>Z. dentries s' z = dentries s z))"
  using assms(2,3)
proof (induction "card (dom (dentries s) - Z)" arbitrary: Z d v V s rule: less_induct)
  case less
  note ok = less.prems(1) and held = less.prems(2)
  from drele_unlink_ok [OF ok held]
  consider (more) s' where "drele_unlink d s = Inr (None, s')" "refs_ok R Z D V L s'" "\<forall>z\<in>Z. dentries s' z = dentries s z"
    | (last) de s1 where "drele_unlink d s = Inr (Some de, s1)" "d \<notin> Z" "d \<in> dom (dentries s)" "d_vnode de = v"
      "refs_ok R (insert d Z) (D + parent_ref s de) (add_mset v V) L s1" "mounts s1 = mounts s" "mount_list s1 = mount_list s"
      "\<forall>p. d_parent de = Some p \<longrightarrow> dentries s p \<noteq> None"
      "dom (dentries s1) = dom (dentries s)" "\<forall>z\<in>Z. dentries s1 z = dentries s z"
    by blast
  then show ?case
  proof cases
    case more
    then show ?thesis by (auto simp: drele_rec.simps [of ops d s])
  next
    case last
    let ?Z = "insert d Z"
    have held1: "held R D (add_mset v V) L" using held_add_V [OF held] .
    have parent: "\<exists>r. (case d_parent de of None \<Rightarrow> Some (Inr ((), s1)) | Some p \<Rightarrow> drele_rec ops p s1) = Some r \<and>
        (case r of Inl e \<Rightarrow> excused e
         | Inr (_, s2) \<Rightarrow> refs_ok R ?Z D (add_mset v V) L s2 \<and> (\<forall>z\<in>?Z. dentries s2 z = dentries s1 z))"
    proof (cases "d_parent de")
      case None
      then show ?thesis using last(5) by (simp add: parent_ref_def)
    next
      case (Some p)
      then obtain pe where "dentries s p = Some pe" using last(8) by auto
      then have "refs_ok R ?Z (add_mset (p, d_vnode pe) D) (add_mset v V) L s1"
        using last(5) Some by (simp add: parent_ref_def)
      moreover have "card (dom (dentries s1) - ?Z) < card (dom (dentries s) - Z)"
        using last(2,3,9) finite_dentries [OF ok] by (intro psubset_card_mono) auto
      ultimately show ?thesis using less.hyps held1 Some by simp
    qed
    then obtain r where r: "(case d_parent de of None \<Rightarrow> Some (Inr ((), s1)) | Some p \<Rightarrow> drele_rec ops p s1) = Some r"
      "case r of Inl e \<Rightarrow> excused e
         | Inr (_, s2) \<Rightarrow> refs_ok R ?Z D (add_mset v V) L s2 \<and> (\<forall>z\<in>?Z. dentries s2 z = dentries s1 z)" by blast
    have rec: "drele_rec ops d s = Some (case r of Inl e \<Rightarrow> Inl e | Inr (_, s') \<Rightarrow> drele_free ops d de s')"
      using last(1) r(1) by (subst drele_rec.simps) (simp only: sum.case fst_conv snd_conv option.case Option.bind.simps)
    show ?thesis
    proof (cases r)
      case (Inl e)
      then show ?thesis using rec r(2) by simp
    next
      case (Inr r2)
      then obtain s2 where s2: "r = Inr ((), s2)" by (cases r2) auto
      then have ok2: "refs_ok R ?Z D (add_mset v V) L s2" and z2: "\<forall>z\<in>?Z. dentries s2 z = dentries s1 z" using r(2) by auto
      have "wp (drele_free ops d de) (\<lambda>_ s'. refs_ok R Z D V L s' \<and> (\<forall>z\<in>Z. dentries s' z = dentries s z)) s2"
        unfolding drele_free_def wp_bnd last(4)
      proof (rule vrele_rule [OF inact ok2 held])
        fix s3 assume s3: "refs_ok R ?Z D V L s3" "dentries s3 = dentries s2"
        show "wp (change (\<lambda>s. s\<lparr>dentries := (dentries s)(d := None)\<rparr>))
            (\<lambda>_ s'. refs_ok R Z D V L s' \<and> (\<forall>z\<in>Z. dentries s' z = dentries s z)) s3"
          using refs_ok_free_zombie [OF s3(1) last(2)] s3(2) z2 last(2,10) by auto
      qed
      then show ?thesis using rec s2 by (auto simp: wp_def split: sum.splits)
    qed
  qed
qed

lemma drele_rule:
  assumes inact: "\<And>v. keeps [v] (vop_inactive ops v)"
    and ok: "refs_ok R {} (add_mset (d, v) D) V L s" and held: "held R D V L"
    and Q: "\<And>s'. refs_ok R {} D V L s' \<Longrightarrow> Q () s'"
  shows "wp (drele ops d) Q s"
proof -
  obtain r where "drele_rec ops d s = Some r" "case r of Inl e \<Rightarrow> excused e
      | Inr (_, s') \<Rightarrow> refs_ok R {} D V L s' \<and> (\<forall>z\<in>{}. dentries s' z = dentries s z)"
    using drele_rec_ok [OF inact ok held] by blast
  then show ?thesis using Q by (auto simp: wp_def drele_def split: sum.splits)
qed

end
