(* ===== verification/Vfs_Rules.thy ===== *)
theory Vfs_Rules
  imports Vfs_Refs
begin

text \<open>
  More rules of the reference discipline: creating an entry (\<open>dentry_alloc\<close>), taking it out of the name
  cache (\<open>dentry_remove\<close>), moving it (\<open>dentry_move\<close>).
\<close>

section \<open>New entries\<close>

definition new_child :: "nat \<Rightarrow> nat option \<Rightarrow> (nat \<Rightarrow> dentry option) \<Rightarrow> nat \<Rightarrow> dentry option" where
  "new_child d p ds = (case p of None \<Rightarrow> ds
     | Some q \<Rightarrow> ds(q := map_option (\<lambda>pe. pe\<lparr>d_refcnt := Suc (d_refcnt pe), d_children := d # d_children pe\<rparr>) (ds q)))"

definition new_dentry :: "string \<Rightarrow> nat \<Rightarrow> nat \<Rightarrow> nat option \<Rightarrow> dentry" where
  "new_dentry path vp mp parent = \<lparr>d_refcnt = 1, d_path = path, d_vnode = vp, d_mount = mp, d_parent = parent, d_children = []\<rparr>"

lemma refs_ok_alloc:
  assumes ok: "refs_ok R {} D V L s" and vn: "vnodes s v = Some vn"
    and parent: "\<And>p. parent = Some p \<Longrightarrow> dentries s p \<noteq> None"
    and h: "h = dentry_hash (v_mount vn) path"
  shows "refs_ok R {} (add_mset (next_ptr s, v) D) V L
    (s\<lparr>next_ptr := Suc (next_ptr s), dentries := new_child (next_ptr s) parent ((dentries s)(next_ptr s \<mapsto> new_dentry path v (v_mount vn) parent)),
       vnodes := (vnodes s)(v \<mapsto> vn\<lparr>v_refcnt := Suc (v_refcnt vn), v_names := next_ptr s # v_names vn\<rparr>),
       dentry_hash_table := (dentry_hash_table s)[h := next_ptr s # dentry_hash_table s ! h]\<rparr>)"
    (is "refs_ok R {} ?D V L ?s")
proof -
  let ?d = "next_ptr s" and ?vn = "vn\<lparr>v_refcnt := Suc (v_refcnt vn), v_names := next_ptr s # v_names vn\<rparr>"
  have fresh: "dentries s ?d = None" using ok by (simp add: refs_ok_def)
  have pne: "p \<noteq> ?d" if "parent = Some p" for p using parent [OF that] fresh by auto
  have ld0: "ld {} t = dentries t" for t :: "'a vfs" by (auto simp: ld_def)
  have dt: "dtable_ok {} s" and h32: "h < 32" using ok h dentry_hash_less by (simp_all add: refs_ok_def)
  then have len: "length (dentry_hash_table s) = 32" by (simp add: dtable_ok_def)
  have ds: "dentries ?s x = (if x = ?d then Some (new_dentry path v (v_mount vn) parent)
      else if parent = Some x then map_option (\<lambda>pe. pe\<lparr>d_refcnt := Suc (d_refcnt pe), d_children := ?d # d_children pe\<rparr>) (dentries s x)
      else dentries s x)" for x
    using pne by (auto simp: new_child_def split: option.splits)
  have dl: "set (dlinks ?s) = insert ?d (set (dlinks s))"
    using set_concat_insert [of h "dentry_hash_table s" ?d] h32 len by (auto simp: dlinks_def)
  have notin: "?d \<notin> set (dlinks s)" using dt fresh unfolding dtable_ok_def ld0 by auto
  have cD: "count (image_mset fst D) ?d = 0"
    using refs_ok_members [OF ok] fresh by (force simp: count_eq_zero_iff ld0)
  have fwd: "\<exists>xe'. dentries ?s x = Some xe' \<and> d_parent xe' = d_parent xe \<and> d_vnode xe' = d_vnode xe \<and> d_mount xe' = d_mount xe
      \<and> d_path xe' = d_path xe \<and> set (d_children xe) \<subseteq> set (d_children xe')" if "dentries s x = Some xe" for x xe
    using that fresh unfolding ds by auto
  have vfwd: "\<exists>un'. vnodes ?s u = Some un' \<and> v_mount un' = v_mount un \<and> v_ino un' = v_ino un \<and> set (v_names un) \<subseteq> set (v_names un')"
    if "vnodes s u = Some un" for u un
    using that vn by auto
  have "dentries_ok {} ?D ?s"
    unfolding dentries_ok_def dl ld0
  proof (intro allI impI)
    fix x xe' assume x': "dentries ?s x = Some xe'"
    show "0 < d_refcnt xe' \<and> d_refcnt xe' = count (image_mset fst ?D) x + length (d_children xe') \<and> distinct (d_children xe') \<and>
       (\<forall>c\<in>set (d_children xe'). \<exists>ce. dentries ?s c = Some ce \<and> d_parent ce = Some x) \<and>
       (\<forall>p. d_parent xe' = Some p \<longrightarrow> (\<exists>pe. dentries ?s p = Some pe \<and> x \<in> set (d_children pe))) \<and>
       (\<exists>vn. vnodes ?s (d_vnode xe') = Some vn \<and> x \<in> set (v_names vn) \<and> v_mount vn = d_mount xe') \<and> x \<in> insert ?d (set (dlinks s))"
    proof (cases "x = ?d")
      case True
      then have xe': "xe' = new_dentry path v (v_mount vn) parent" using x' ds by simp
      moreover have "\<exists>pe. dentries ?s p = Some pe \<and> ?d \<in> set (d_children pe)" if "parent = Some p" for p
        using parent [OF that] pne [OF that] that ds [of p] by auto
      ultimately show ?thesis using True cD vn by (auto simp: new_dentry_def)
    next
      case False
      obtain xe where x: "dentries s x = Some xe" "d_parent xe' = d_parent xe" "d_vnode xe' = d_vnode xe" "d_mount xe' = d_mount xe"
          "d_refcnt xe' = (if parent = Some x then Suc (d_refcnt xe) else d_refcnt xe)"
          "d_children xe' = (if parent = Some x then ?d # d_children xe else d_children xe)"
        using x' False unfolding ds by (auto split: if_splits)
      note old = refs_ok_dentryD [OF ok, of x xe, unfolded ld0, OF x(1)]
      have dnew: "?d \<notin> set (d_children xe)" using old(4) fresh by force
      have "\<forall>c\<in>set (d_children xe'). \<exists>ce. dentries ?s c = Some ce \<and> d_parent ce = Some x"
      proof
        fix c assume c: "c \<in> set (d_children xe')"
        show "\<exists>ce. dentries ?s c = Some ce \<and> d_parent ce = Some x"
        proof (cases "c = ?d")
          case True
          then have "parent = Some x" using c x(6) dnew by (auto split: if_splits)
          then show ?thesis using True ds [of ?d] by (simp add: new_dentry_def)
        next
          case False
          then obtain ce where "dentries s c = Some ce" "d_parent ce = Some x" using old(4) c x(6) by (auto split: if_splits)
          then show ?thesis using fwd [of c ce] by auto
        qed
      qed
      moreover have "\<forall>p. d_parent xe' = Some p \<longrightarrow> (\<exists>pe. dentries ?s p = Some pe \<and> x \<in> set (d_children pe))"
      proof (intro allI impI)
        fix p assume "d_parent xe' = Some p"
        then obtain pe where "dentries s p = Some pe" "x \<in> set (d_children pe)" using old(5) x(2) by auto
        then show "\<exists>pe. dentries ?s p = Some pe \<and> x \<in> set (d_children pe)" using fwd [of p pe] by blast
      qed
      moreover have "\<exists>un. vnodes ?s (d_vnode xe') = Some un \<and> x \<in> set (v_names un) \<and> v_mount un = d_mount xe'"
      proof -
        obtain un where "vnodes s (d_vnode xe) = Some un" "x \<in> set (v_names un)" "v_mount un = d_mount xe" using old(6) by blast
        then show ?thesis using vfwd [of "d_vnode xe" un] x(3,4) by (metis subsetD)
      qed
      moreover have "0 < d_refcnt xe' \<and> d_refcnt xe' = count (image_mset fst ?D) x + length (d_children xe') \<and> distinct (d_children xe')"
        using old(1,2,3) x(5,6) False dnew by auto
      ultimately show ?thesis using old(7) by blast
    qed
  qed
  moreover have "vnodes_ok {} V L ?s"
    unfolding vnodes_ok_def ld0
  proof (intro allI impI)
    fix u un' assume u': "vnodes ?s u = Some un'"
    then obtain un where u: "vnodes s u = Some un" "un' = (if u = v then ?vn else un)" using vn by (auto split: if_splits)
    note old = refs_ok_vnodeD [OF ok u(1), unfolded ld0]
    have dnew: "?d \<notin> set (v_names un)" using old(5) fresh by force
    have "\<forall>x\<in>set (v_names un'). \<exists>xe. dentries ?s x = Some xe \<and> d_vnode xe = u"
    proof
      fix x assume x: "x \<in> set (v_names un')"
      show "\<exists>xe. dentries ?s x = Some xe \<and> d_vnode xe = u"
      proof (cases "x = ?d")
        case True
        then have "u = v" using x u(2) dnew by (auto split: if_splits)
        then show ?thesis using True ds [of ?d] by (simp add: new_dentry_def)
      next
        case False
        then obtain xe where "dentries s x = Some xe" "d_vnode xe = u" using old(5) x u vn by (auto split: if_splits)
        then show ?thesis using fwd [of x xe] by auto
      qed
    qed
    then show "0 < v_refcnt un' \<and> v_refcnt un' = count V u + length (v_names un') \<and> distinct (v_names un') \<and> v_nrlocks un' = count L u \<and>
       (\<forall>d\<in>set (v_names un'). \<exists>de. dentries ?s d = Some de \<and> d_vnode de = u) \<and> v_mount un' \<in> dom (mounts ?s) \<and> u \<in> set (concat (vnode_table ?s))"
      using old(1,2,3,4,6,7) u vn dnew by (cases "u = v") simp_all
  qed
  moreover have "dtable_ok {} ?s"
    unfolding dtable_ok_def ld0
  proof (intro conjI allI impI ballI)
    show "length (dentry_hash_table ?s) = 32" using len by simp
    show "distinct (dlinks ?s)"
      using dt notin distinct_concat_insert [of h "dentry_hash_table s" ?d] set_concat_insert [of h "dentry_hash_table s" ?d] h32 len
      unfolding dtable_ok_def dlinks_def by (auto simp del: set_concat)
    show "dentries ?s x \<noteq> None" if "x \<in> set (dlinks ?s)" for x
    proof (cases "x = ?d")
      case False
      then have "x \<in> set (dlinks s)" using that dl by simp
      then obtain xe where "dentries s x = Some xe" using dt unfolding dtable_ok_def ld0 by blast
      then show ?thesis using fwd [of x xe] by auto
    qed (use ds [of ?d] in simp)
    fix i x assume i: "i < (32::nat)" and x: "x \<in> set (dentry_hash_table ?s ! i)"
    show "\<exists>xe. dentries ?s x = Some xe \<and> dentry_hash (d_mount xe) (d_path xe) = i"
    proof (cases "x = ?d")
      case True
      have "?d \<notin> set (dentry_hash_table s ! i)" using notin i len by (auto simp: dlinks_def in_concat_nth simp del: set_concat)
      then have "i = h" using x i len True by (cases "i = h") auto
      then show ?thesis using True h ds [of ?d] by (simp add: new_dentry_def)
    next
      case False
      then have "x \<in> set (dentry_hash_table s ! i)" using x i len h32 by (auto simp: nth_list_update split: if_splits)
      then obtain xe where "dentries s x = Some xe" "dentry_hash (d_mount xe) (d_path xe) = i"
        using dt i unfolding dtable_ok_def ld0 by blast
      then show ?thesis using fwd [of x xe] by auto
    qed
  qed
  moreover have "vtable_ok ?s"
    unfolding vtable_ok_def
  proof (intro conjI allI impI ballI)
    have old: "vtable_ok s" using ok by (simp add: refs_ok_def)
    then show "length (vnode_table ?s) = 32" "distinct (concat (vnode_table ?s))" unfolding vtable_ok_def by simp_all
    fix i u assume "i < (32::nat)" "u \<in> set (vnode_table ?s ! i)"
    then obtain un where "vnodes s u = Some un" "vn_hash (v_mount un) (v_ino un) = i" using old unfolding vtable_ok_def by auto
    then show "\<exists>vn. vnodes ?s u = Some vn \<and> vn_hash (v_mount vn) (v_ino vn) = i" using vfwd [of u un] by auto
  qed
  moreover have "held R ?D V L"
    using held_add_D [OF refs_ok_held [OF ok], of "(?d, v)"] .
  moreover have "\<forall>(x, w)\<in>#?D. \<exists>xe. ld {} ?s x = Some xe \<and> d_vnode xe = w"
  proof (clarify)
    fix x w assume x: "(x, w) \<in># ?D"
    show "\<exists>xe. ld {} ?s x = Some xe \<and> d_vnode xe = w"
    proof (cases "(x, w) \<in># D")
      case True
      then obtain xe where "dentries s x = Some xe" "d_vnode xe = w" using refs_ok_members [OF ok True] unfolding ld0 by blast
      then show ?thesis using fwd [of x xe] unfolding ld0 by auto
    next
      case False
      then show ?thesis using x ds [of ?d] unfolding ld0 by (auto simp: new_dentry_def)
    qed
  qed
  moreover have "set_mset V \<subseteq> dom (vnodes ?s)" using ok unfolding refs_ok_def by auto
  moreover have "\<forall>p\<ge>next_ptr ?s. dentries ?s p = None \<and> vnodes ?s p = None"
  proof (intro allI impI)
    fix p assume p: "next_ptr ?s \<le> p"
    then have "dentries s p = None" "vnodes s p = None" "p \<noteq> ?d" "p \<noteq> v" using ok vn unfolding refs_ok_def by auto
    then show "dentries ?s p = None \<and> vnodes ?s p = None" unfolding ds by simp
  qed
  ultimately show ?thesis using ok unfolding refs_ok_def roots_ok_def by simp
qed

lemma dentry_alloc_rule:
  assumes ok: "refs_ok R {} D V L s" and v: "v \<in># V \<or> v \<in> snd ` set_mset D"
    and parent: "\<And>p. parent = Some p \<Longrightarrow> p \<in> fst ` set_mset D"
    and Q: "\<And>d s'. refs_ok R {} (add_mset (d, v) D) V L s' \<Longrightarrow> Q d s'"
  shows "wp (dentry_alloc parent v path) Q s"
proof -
  obtain vn where vn: "vnodes s v = Some vn" by (rule refs_ok_live [OF ok v])
  let ?d = "next_ptr s"
  have fresh: "dentries s ?d = None" using ok by (simp add: refs_ok_def)
  have pe: "\<exists>pe. dentries s p = Some pe \<and> 0 < d_refcnt pe \<and> p \<noteq> ?d" if par: "parent = Some p" for p
  proof -
    obtain w where "(p, w) \<in># D" using parent [OF par] by auto
    then obtain pe where "dentries s p = Some pe" "0 < d_refcnt pe" using refs_ok_dentry [OF ok] by metis
    then show ?thesis using fresh by auto
  qed
  have "refs_ok R {} (add_mset (?d, v) D) V L
    (s\<lparr>next_ptr := Suc ?d, dentries := new_child ?d parent ((dentries s)(?d \<mapsto> new_dentry path v (v_mount vn) parent)),
       vnodes := (vnodes s)(v \<mapsto> vn\<lparr>v_refcnt := Suc (v_refcnt vn), v_names := ?d # v_names vn\<rparr>),
       dentry_hash_table := (dentry_hash_table s)[dentry_hash (v_mount vn) path := ?d # dentry_hash_table s ! dentry_hash (v_mount vn) path]\<rparr>)"
    using pe by (intro refs_ok_alloc [OF ok vn]) auto
  note Q' = Q [OF this]
  show ?thesis
  proof (cases parent)
    case None
    then show ?thesis using Q' vn refs_ok_vnodeD(1) [OF ok vn]
      by (simp add: dentry_alloc_def vref_def vn_add_name_def vn_lock_def vn_unlock_def hash_insert_def new_child_def new_dentry_def)
  next
    case (Some p)
    then obtain pe where "dentries s p = Some pe" "0 < d_refcnt pe" "p \<noteq> ?d" using pe by blast
    then show ?thesis using Q' vn refs_ok_vnodeD(1) [OF ok vn] Some
      by (simp add: dentry_alloc_def vref_def vn_add_name_def vn_lock_def vn_unlock_def hash_insert_def new_child_def new_dentry_def
          dref_def children_insert_def)
  qed
qed



section \<open>Leaving the name cache\<close>

lemma refs_ok_relink:
  assumes ok: "refs_ok R {} D V L s" and len: "length t = 32" and dist: "distinct (concat t @ f)"
    and sub: "set (concat t @ f) = set (dlinks s)" "\<And>i. i < 32 \<Longrightarrow> set (t ! i) \<subseteq> set (dentry_hash_table s ! i)"
  shows "refs_ok R {} D V L (s\<lparr>dentry_hash_table := t, fake := f\<rparr>)" (is "refs_ok _ _ _ _ _ ?s")
proof -
  have ld: "ld {} ?s = ld {} s" by (auto simp: ld_def)
  have dl: "set (dlinks ?s) = set (dlinks s)" using sub(1) by (simp add: dlinks_def)
  have "dentries_ok {} D ?s = dentries_ok {} D s" "vtable_ok ?s = vtable_ok s" "vnodes_ok {} V L ?s = vnodes_ok {} V L s"
    unfolding dentries_ok_def vnodes_ok_def vtable_ok_def ld dl by simp_all
  moreover have "dtable_ok {} ?s"
    unfolding dtable_ok_def ld dl
  proof (intro conjI allI impI)
    have old: "dtable_ok {} s" using ok by (simp add: refs_ok_def)
    show "length (dentry_hash_table ?s) = 32" using len by simp
    show "distinct (dlinks ?s)" using dist by (simp add: dlinks_def)
    show "\<forall>d\<in>set (dlinks s). ld {} s d \<noteq> None" using old by (simp add: dtable_ok_def)
    fix i assume "i < (32::nat)"
    then show "\<forall>d\<in>set (dentry_hash_table ?s ! i). \<exists>de. ld {} s d = Some de \<and> dentry_hash (d_mount de) (d_path de) = i"
      using old sub(2) [of i] unfolding dtable_ok_def by fastforce
  qed
  ultimately show ?thesis using ok unfolding refs_ok_def roots_ok_def ld by simp
qed

lemma dentry_remove_rule:
  assumes ok: "refs_ok R {} D V L s" and d: "(d, v) \<in># D"
    and Q: "\<And>s'. refs_ok R {} D V L s' \<Longrightarrow> Q () s'"
  shows "wp (dentry_remove d) Q s"
proof -
  let ?t = "map (removeAll d) (dentry_hash_table s)" and ?f = "d # removeAll d (fake s)"
  obtain de where "ld {} s d = Some de" using refs_ok_members [OF ok d] by blast
  then have linked: "d \<in> set (dlinks s)" by (rule refs_ok_dentryD(7) [OF ok])
  have old: "dtable_ok {} s" using ok by (simp add: refs_ok_def)
  have "refs_ok R {} D V L (s\<lparr>dentry_hash_table := ?t, fake := ?f\<rparr>)"
  proof (rule refs_ok_relink [OF ok])
    show "length ?t = 32" using old by (simp add: dtable_ok_def)
    show "distinct (concat ?t @ ?f)" using old unfolding dtable_ok_def dlinks_def by (auto simp: concat_removeAll distinct_removeAll)
    show "set (concat ?t @ ?f) = set (dlinks s)" using linked by (auto simp: dlinks_def concat_removeAll)
    show "set (?t ! i) \<subseteq> set (dentry_hash_table s ! i)" if "i < 32" for i using old that by (auto simp: dtable_ok_def)
  qed
  then show ?thesis using linked Q by (simp add: dentry_remove_def hash_remove_def dlinks_def)
qed

text \<open>An entry that was taken out of the cache is not found any more.\<close>

lemma dentry_remove_uncached:
  "dentry_remove d s = Inr ((), s') \<Longrightarrow> d \<notin> set (concat (dentry_hash_table s'))"
  by (auto simp: dentry_remove_def hash_remove_def bnd_def look_def change_def fail_def split: if_splits)


section \<open>Reading\<close>

lemma deref_vnode_rule:
  assumes "refs_ok R Z D V L s" "v \<in># V \<or> v \<in> snd ` set_mset D" "\<And>vn. vnodes s v = Some vn \<Longrightarrow> Q vn s"
  shows "wp (deref vnodes v) Q s"
proof -
  obtain vn where "vnodes s v = Some vn" by (rule refs_ok_live [OF assms(1,2)])
  then show ?thesis using assms(3) by simp
qed

lemma deref_dentry_rule:
  assumes "refs_ok R Z D V L s" "(d, v) \<in># D" "\<And>de. \<lbrakk>dentries s d = Some de; d_vnode de = v; d_mount de \<in> dom (mounts s)\<rbrakk> \<Longrightarrow> Q de s"
  shows "wp (deref dentries d) Q s"
proof -
  obtain de vn where de: "ld Z s d = Some de" "dentries s d = Some de" "d_vnode de = v" "vnodes s v = Some vn"
    using refs_ok_dentry [OF assms(1,2)] by metis
  moreover have "d_mount de \<in> dom (mounts s)"
    using refs_ok_dentryD(6) [OF assms(1) de(1)] refs_ok_vnodeD(6) [OF assms(1)] by force
  ultimately show ?thesis using assms(3) by simp
qed

lemma vn_access_rule:
  assumes ok: "refs_ok R Z D V L s" and v: "v \<in># V \<or> v \<in> snd ` set_mset D" and Q: "\<And>r. Q r s"
  shows "wp (vn_access v flags) Q s"
proof -
  obtain vn where vn: "vnodes s v = Some vn" by (rule refs_ok_live [OF ok v])
  then obtain me where "mounts s (v_mount vn) = Some me" using refs_ok_vnodeD(6) [OF ok vn] by auto
  then show ?thesis using vn Q by (simp add: vn_access_def)
qed

end
