(* ===== verification/Vfs_Lookup.thy ===== *)
theory Vfs_Lookup
  imports Vfs_Rules
begin

text \<open>
  Name lookup, \<^verbatim>\<open>fs/vfs/vfs_lookup.cc\<close>: \<open>namei\<close>, \<open>namei_last_nofollow\<close>, \<open>lookup\<close> and the following of
  symbolic links. The locale \<open>fs_backend\<close> is the contract between the virtual file system and a file
  system's operations; under it every lookup keeps the reference discipline and returns exactly one
  reference to the entry it finds.
\<close>

section \<open>Definitions\<close>

text \<open>\<open>MAXSYMLINKS\<close> of \<^verbatim>\<open>sys/param.h\<close>.\<close>

definition maxsymlinks :: nat where
  "maxsymlinks = 20"

definition read_link :: "'fs fsops \<Rightarrow> nat \<Rightarrow> (errno + string, 'fs) vm" where
  "read_link ops vp =
     bnd (vn_lock vp) (\<lambda>_.
     bnd (vop_readlink ops vp) (\<lambda>r.
     bnd (vn_unlock vp) (\<lambda>_.
     ret (map_sum id (take path_max) r))))"

text \<open>\<open>find_root\<close> is \<open>vfs_findroot\<close> on the mount list of the state.\<close>

definition find_root :: "string \<Rightarrow> ((nat \<times> string) option, 'fs) vm" where
  "find_root path =
     bnd (look (\<lambda>s. (mounts s, mount_list s))) (\<lambda>(ms, l).
     if list_all (\<lambda>m. ms m \<noteq> None) l then ret (vfs_findroot (map (\<lambda>m. (m_path (the (ms m)), m)) l) path)
     else fail Dangling_pointer)"

text \<open>The new value of \<open>fp\<close>, given the contents \<open>lp\<close> of the link.\<close>

definition follow_path :: "string \<Rightarrow> string \<Rightarrow> string \<Rightarrow> string \<Rightarrow> nat \<Rightarrow> string option" where
  "follow_path lp node name fp mountpoint_len =
     (let p = drop (mountpoint_len + length node) fp;
          c = length node - length name - 1
      in if lp \<noteq> [] \<and> hd lp = slash then Some (strlcpy path_max (strlcat path_max lp p))
         else (case path_conv (take (mountpoint_len + c) fp) lp of
                 None \<Rightarrow> None
               | Some (Inl e) \<Rightarrow> Some (strlcat path_max fp (strlcpy path_max p))
               | Some (Inr full) \<Rightarrow> Some (strlcat path_max full (strlcpy path_max p))))"

definition namei_follow_link :: "'fs fsops \<Rightarrow> nat \<Rightarrow> string \<Rightarrow> string \<Rightarrow> string \<Rightarrow> nat \<Rightarrow> (errno + string, 'fs) vm" where
  "namei_follow_link ops dp node name fp mountpoint_len =
     bnd (deref dentries dp) (\<lambda>de.
     bnd (read_link ops (d_vnode de)) (\<lambda>r.
     case r of
       Inl error \<Rightarrow> ret (Inl error)
     | Inr lp \<Rightarrow> (case follow_path lp node name fp mountpoint_len of
         None \<Rightarrow> fail Out_of_bounds
       | Some fp' \<Rightarrow> ret (Inr fp'))))"

text \<open>
  How one pass of \<open>namei\<close> over the components ends: the value of \<open>dp\<close>, an error, or the new path when
  a symbolic link was followed.
\<close>

datatype walk = Walk_done "nat option" | Walk_error errno | Walk_link string

definition path_name :: "string \<Rightarrow> string" where
  "path_name p = take path_max (takeWhile (\<lambda>c. c \<noteq> slash) p)"

lemma path_progress:
  assumes "dropWhile (\<lambda>c. c = slash) p \<noteq> []"
  shows "length (drop (length (path_name (dropWhile (\<lambda>c. c = slash) p))) (dropWhile (\<lambda>c. c = slash) p)) < length p"
proof -
  let ?q = "dropWhile (\<lambda>c. c = slash) p"
  have "hd ?q \<noteq> slash" using hd_dropWhile [OF assms] .
  then have "0 < length (path_name ?q)" using assms by (cases ?q) (auto simp: path_name_def path_max_def)
  moreover have "length ?q \<le> length p" by (rule length_dropWhile_le)
  moreover have "0 < length ?q" using assms by blast
  ultimately show ?thesis unfolding length_drop by linarith
qed

text \<open>One component: the entry for \<open>name\<close> in the directory \<open>ddp\<close>, from the cache or from the file system.\<close>

definition walk_component :: "'fs fsops \<Rightarrow> nat \<Rightarrow> nat \<Rightarrow> string \<Rightarrow> string \<Rightarrow> (errno + nat, 'fs) vm" where
  "walk_component ops mp ddp node name =
     bnd (deref dentries ddp) (\<lambda>dde.
     bnd (vn_lock (d_vnode dde)) (\<lambda>_.
     bnd (dentry_lookup mp node) (\<lambda>found.
     case found of
       Some dp \<Rightarrow>
         bnd (vn_unlock (d_vnode dde)) (\<lambda>_.
         bnd (drele ops ddp) (\<lambda>_.
         ret (Inr dp)))
     | None \<Rightarrow>
         bnd (vop_lookup ops (d_vnode dde) name) (\<lambda>r.
         case r of
           Inl error \<Rightarrow>
             bnd (vn_unlock (d_vnode dde)) (\<lambda>_.
             bnd (drele ops ddp) (\<lambda>_.
             ret (Inl error)))
         | Inr vp \<Rightarrow>
             bnd (dentry_alloc (Some ddp) vp node) (\<lambda>dp.
             bnd (vput ops vp) (\<lambda>_.
             bnd (vn_unlock (d_vnode dde)) (\<lambda>_.
             bnd (drele ops ddp) (\<lambda>_.
             ret (Inr dp)))))))))"

function namei_walk :: "'fs fsops \<Rightarrow> nat \<Rightarrow> string \<Rightarrow> nat \<Rightarrow> string \<Rightarrow> string \<Rightarrow> nat \<Rightarrow> nat option \<Rightarrow> (walk, 'fs) vm" where
  "namei_walk ops mp fp mountpoint_len node p ddp dp =
     (let q = dropWhile (\<lambda>c. c = slash) p in
      if q = [] then ret (Walk_done dp)
      else
        let name = path_name q;
            p' = drop (length name) q;
            node' = strlcat path_max (strlcat path_max node [slash]) name
        in bnd (walk_component ops mp ddp node' name) (\<lambda>r.
           case r of
             Inl error \<Rightarrow> ret (Walk_error error)
           | Inr dp' \<Rightarrow>
               bnd (deref dentries dp') (\<lambda>de.
               bnd (deref vnodes (d_vnode de)) (\<lambda>vn.
               if v_type vn = VLNK then
                 bnd (namei_follow_link ops dp' node' name fp mountpoint_len) (\<lambda>r.
                 bnd (drele ops dp') (\<lambda>_.
                 case r of Inl error \<Rightarrow> ret (Walk_error error) | Inr fp' \<Rightarrow> ret (Walk_link fp')))
               else if p' \<noteq> [] \<and> hd p' = slash \<and> v_type vn \<noteq> VDIR then
                 bnd (drele ops dp') (\<lambda>_.
                 ret (Walk_error ENOTDIR))
               else namei_walk ops mp fp mountpoint_len node' p' dp' (Some dp')))))"
  by auto
termination
  by (relation "measure (\<lambda>(ops, mp, fp, ml, node, p, ddp, dp). length p)")
     (simp_all only: wf_measure in_measure prod.case path_progress not_False_eq_True)

declare namei_walk.simps [simp del]

text \<open>The outer loop of \<open>namei\<close>; the first argument is the number of links that may still be followed.\<close>

fun namei_loop :: "'fs fsops \<Rightarrow> nat \<Rightarrow> string \<Rightarrow> (errno + nat option, 'fs) vm" where
  "namei_loop ops 0 fp = ret (Inl ELOOP)"
| "namei_loop ops (Suc n) fp =
     bnd (find_root fp) (\<lambda>root.
     case root of
       None \<Rightarrow> ret (Inl ENOTDIR)
     | Some (mp, p) \<Rightarrow>
         bnd (dentry_lookup mp (strlcat path_max [slash] p)) (\<lambda>found.
         case found of
           Some dp \<Rightarrow> ret (Inr (Some dp))
         | None \<Rightarrow>
             bnd (deref mounts mp) (\<lambda>me.
             case m_root me of
               None \<Rightarrow> fail Assertion
             | Some ddp \<Rightarrow>
                 bnd (dref ddp) (\<lambda>_.
                 bnd (namei_walk ops mp fp (length fp - length p - 1) [] p ddp None) (\<lambda>w.
                 case w of
                   Walk_done dp \<Rightarrow> ret (Inr dp)
                 | Walk_error error \<Rightarrow> ret (Inl error)
                 | Walk_link fp' \<Rightarrow> namei_loop ops n fp')))))"

definition namei :: "'fs fsops \<Rightarrow> string \<Rightarrow> (errno + nat option, 'fs) vm" where
  "namei ops path = namei_loop ops maxsymlinks (strlcpy path_max path)"

definition namei_last_nofollow :: "'fs fsops \<Rightarrow> string \<Rightarrow> nat \<Rightarrow> (errno + nat, 'fs) vm" where
  "namei_last_nofollow ops path ddp =
     (if \<not> (path \<noteq> [] \<and> hd path = slash) then ret (Inl ENOTDIR)
      else
        let name = after_last path in
        bnd (find_root path) (\<lambda>root.
        case root of
          None \<Rightarrow> ret (Inl ENOTDIR)
        | Some (mp, p) \<Rightarrow>
            let node = strlcat path_max [slash] p;
                node = (if 1 < length node \<and> last node = slash then butlast node else node)
            in bnd (deref dentries ddp) (\<lambda>dde.
               bnd (vn_lock (d_vnode dde)) (\<lambda>_.
               bnd (dentry_lookup mp node) (\<lambda>found.
               case found of
                 Some dp \<Rightarrow> bnd (vn_unlock (d_vnode dde)) (\<lambda>_. ret (Inr dp))
               | None \<Rightarrow>
                   bnd (vop_lookup ops (d_vnode dde) name) (\<lambda>r.
                   case r of
                     Inl error \<Rightarrow> bnd (vn_unlock (d_vnode dde)) (\<lambda>_. ret (Inl error))
                   | Inr vp \<Rightarrow>
                       bnd (dentry_alloc (Some ddp) vp node) (\<lambda>dp.
                       bnd (vput ops vp) (\<lambda>_.
                       bnd (vn_unlock (d_vnode dde)) (\<lambda>_.
                       ret (Inr dp))))))))))"

text \<open>The result of \<open>lookup\<close> is the entry of the directory and the name in it.\<close>

definition lookup :: "'fs fsops \<Rightarrow> string \<Rightarrow> (errno + nat \<times> string, 'fs) vm" where
  "lookup ops path =
     (let buf = strlcpy path_max path in
      if buf = [] then ret (Inl ENOTDIR)
      else if slash \<notin> set buf then fail Null_pointer
      else
        bnd (namei ops (if before_last buf = [] then [slash] else before_last buf)) (\<lambda>r.
        case r of
          Inl error \<Rightarrow> ret (Inl error)
        | Inr dpp \<Rightarrow>
            bnd (nonnull dpp) (\<lambda>dp.
            bnd (deref dentries dp) (\<lambda>de.
            bnd (deref vnodes (d_vnode de)) (\<lambda>vn.
            if v_type vn \<noteq> VDIR then bnd (drele ops dp) (\<lambda>_. ret (Inl ENOTDIR))
            else ret (Inr (dp, after_last path)))))))"


section \<open>The contract of a file system\<close>

locale fs_backend =
  fixes ops :: "'fs fsops"
  assumes lookup_refs:
      "\<lbrakk>refs_ok R {} D V L s; v \<in># V \<or> v \<in> snd ` set_mset D\<rbrakk> \<Longrightarrow>
       wp (vop_lookup ops v name) (\<lambda>r s'. case r of Inl e \<Rightarrow> refs_ok R {} D V L s'
         | Inr vp \<Rightarrow> refs_ok R {} D (add_mset vp V) (add_mset vp L) s') s"
    and inactive_keeps: "keeps [v] (vop_inactive ops v)"
    and readlink_keeps: "keeps [v] (vop_readlink ops v)"
begin

lemmas drele_ok = drele_rule [OF inactive_keeps]

lemmas vput_ok = vput_rule [OF inactive_keeps]

lemma keeps_rule:
  assumes "keeps vs f" "refs_ok R Z D V L s" "\<And>v. v \<in> set vs \<Longrightarrow> v \<in># V \<or> v \<in> snd ` set_mset D"
    "\<And>x s'. refs_ok R Z D V L s' \<Longrightarrow> Q x s'"
  shows "wp f Q s"
proof (rule keepsD [OF assms(1,2)])
  show "set vs \<subseteq> dom (vnodes s)"
  proof
    fix v assume "v \<in> set vs"
    then have "v \<in># V \<or> v \<in> snd ` set_mset D" by (rule assms(3))
    then show "v \<in> dom (vnodes s)" by (rule refs_ok_live [OF assms(2)]) blast
  qed
qed (rule assms(4))

lemma lookup_rule:
  assumes "refs_ok R {} D V L s" "v \<in># V \<or> v \<in> snd ` set_mset D"
    "\<And>e s'. refs_ok R {} D V L s' \<Longrightarrow> Q (Inl e) s'"
    "\<And>vp s'. refs_ok R {} D (add_mset vp V) (add_mset vp L) s' \<Longrightarrow> Q (Inr vp) s'"
  shows "wp (vop_lookup ops v name) Q s"
  by (rule wp_mono [OF lookup_refs [OF assms(1,2)]]) (use assms(3,4) in \<open>auto split: sum.splits\<close>)

end

section \<open>Lookups keep the reference discipline\<close>

lemma find_root_rule:
  assumes ok: "refs_ok R Z D V L s" and none: "Q None s"
    and some: "\<And>mp p me r v. \<lbrakk>mounts s mp = Some me; m_root me = Some r; (r, v) \<in># D; r \<in> R\<rbrakk> \<Longrightarrow> Q (Some (mp, p)) s"
  shows "wp (find_root path) Q s"
proof -
  have roots: "\<exists>me r v. mounts s m = Some me \<and> m_root me = Some r \<and> (r, v) \<in># D \<and> r \<in> R" if "m \<in> set (mount_list s)" for m
  proof -
    obtain me r where me: "mounts s m = Some me" "m_root me = Some r" "r \<in> R"
      using ok \<open>m \<in> _\<close> unfolding refs_ok_def roots_ok_def by blast
    moreover have "r \<in> fst ` set_mset D" using me(3) refs_ok_held [OF ok] unfolding held_def by blast
    ultimately show ?thesis by auto
  qed
  have "list_all (\<lambda>m. mounts s m \<noteq> None) (mount_list s)" unfolding list_all_iff using roots by blast
  moreover have "Q (vfs_findroot (map (\<lambda>m. (m_path (the (mounts s m)), m)) (mount_list s)) path) s"
  proof (cases "vfs_findroot (map (\<lambda>m. (m_path (the (mounts s m)), m)) (mount_list s)) path")
    case None
    then show ?thesis using none by simp
  next
    case (Some x)
    then obtain mp p where x: "x = (mp, p)" by fastforce
    then have "mp \<in> set (mount_list s)" using vfs_findroot_in [OF Some [unfolded x]] by auto
    then obtain me r v where "mounts s mp = Some me" "m_root me = Some r" "(r, v) \<in># D" "r \<in> R" using roots by blast
    then have "Q (Some (mp, p)) s" by (rule some)
    then show ?thesis using Some x by simp
  qed
  ultimately show ?thesis by (simp add: find_root_def)
qed

lemma held_lock: "\<lbrakk>held R D V L; v \<in># V \<or> v \<in> snd ` set_mset D\<rbrakk> \<Longrightarrow> held R D V (add_mset v L)"
  by (auto simp: held_def)

text \<open>What holds when a walk over the components that started at the entry \<open>r\<close> ends. A walk over no component keeps the reference to \<open>r\<close> and returns no entry.\<close>

definition walk_post :: "nat \<Rightarrow> nat set \<Rightarrow> (nat \<times> nat) multiset \<Rightarrow> nat multiset \<Rightarrow> nat multiset \<Rightarrow> walk \<Rightarrow> 'fs vfs \<Rightarrow> bool" where
  "walk_post r R D V L w s = (case w of
     Walk_done None \<Rightarrow> \<exists>v. refs_ok R {} (add_mset (r, v) D) V L s
   | Walk_done (Some d) \<Rightarrow> \<exists>v. refs_ok R {} (add_mset (d, v) D) V L s
   | Walk_error e \<Rightarrow> refs_ok R {} D V L s
   | Walk_link fp \<Rightarrow> refs_ok R {} D V L s)"

context fs_backend
begin

lemma walk_component_rule:
  assumes ok: "refs_ok R {} (add_mset (ddp, dv) D) V L s" and held: "held R D V L"
    and err: "\<And>e s'. refs_ok R {} D V L s' \<Longrightarrow> Q (Inl e) s'"
    and found: "\<And>dp v s'. refs_ok R {} (add_mset (dp, v) D) V L s' \<Longrightarrow> Q (Inr dp) s'"
  shows "wp (walk_component ops mp ddp node name) Q s"
proof -
  let ?D = "add_mset (ddp, dv) D"
  have finish: "wp (vn_unlock dv) (\<lambda>_. wp (drele ops ddp) (\<lambda>_. Q (Inr dp))) s1"
    if "refs_ok R {} (add_mset (dp, v) ?D) V (add_mset dv L) s1" for dp v s1
  proof (rule vn_unlock_rule [OF that])
    fix s2 :: "'fs vfs" assume "refs_ok R {} (add_mset (dp, v) ?D) V L s2"
    then have "refs_ok R {} (add_mset (ddp, dv) (add_mset (dp, v) D)) V L s2" by (simp add: add_mset_commute)
    then show "wp (drele ops ddp) (\<lambda>_. Q (Inr dp)) s2"
      by (rule drele_ok) (auto intro: held held_add_D found)
  qed
  have fail: "wp (vn_unlock dv) (\<lambda>_. wp (drele ops ddp) (\<lambda>_. Q (Inl e))) s1"
    if "refs_ok R {} ?D V (add_mset dv L) s1" for e s1
    by (rule vn_unlock_rule [OF that], rule drele_ok) (auto intro: held err)
  have cached: "wp (vop_lookup ops dv name) (\<lambda>r. wp (case r of
           Inl error \<Rightarrow> bnd (vn_unlock dv) (\<lambda>_. bnd (drele ops ddp) (\<lambda>_. ret (Inl error)))
         | Inr vp \<Rightarrow> bnd (dentry_alloc (Some ddp) vp node) (\<lambda>dp. bnd (vput ops vp) (\<lambda>_.
             bnd (vn_unlock dv) (\<lambda>_. bnd (drele ops ddp) (\<lambda>_. ret (Inr dp)))))) Q) s1"
    if s1: "refs_ok R {} ?D V (add_mset dv L) s1" for s1
  proof (rule lookup_rule [OF s1])
    fix vp and s2 :: "'fs vfs" assume s2: "refs_ok R {} ?D (add_mset vp V) (add_mset vp (add_mset dv L)) s2"
    have "wp (dentry_alloc (Some ddp) vp node) (\<lambda>dp. wp (vput ops vp) (\<lambda>_. wp (vn_unlock dv) (\<lambda>_. wp (drele ops ddp) (\<lambda>_. Q (Inr dp))))) s2"
    proof (rule dentry_alloc_rule [OF s2])
      fix dp and s3 :: "'fs vfs" assume s3: "refs_ok R {} (add_mset (dp, vp) ?D) (add_mset vp V) (add_mset vp (add_mset dv L)) s3"
      have "held R (add_mset (dp, vp) ?D) V (add_mset dv L)"
        using held_lock [OF held_add_D [OF held_add_D [OF held]], of dv] by simp
      then show "wp (vput ops vp) (\<lambda>_. wp (vn_unlock dv) (\<lambda>_. wp (drele ops ddp) (\<lambda>_. Q (Inr dp)))) s3"
        using s3 finish by (intro vput_ok) auto
    qed auto
    then show "wp (case Inr vp of
           Inl error \<Rightarrow> bnd (vn_unlock dv) (\<lambda>_. bnd (drele ops ddp) (\<lambda>_. ret (Inl error)))
         | Inr vp \<Rightarrow> bnd (dentry_alloc (Some ddp) vp node) (\<lambda>dp. bnd (vput ops vp) (\<lambda>_.
             bnd (vn_unlock dv) (\<lambda>_. bnd (drele ops ddp) (\<lambda>_. ret (Inr dp)))))) Q s2" by simp
  qed (use fail in auto)
  show ?thesis
    unfolding walk_component_def wp_bnd
    apply (rule deref_dentry_rule [OF ok, of ddp dv], simp)
    subgoal premises de for de
      unfolding de(2)
      apply (rule vn_lock_rule [OF ok], simp)
      subgoal premises s1 for s1
        apply (rule dentry_lookup_rule [OF s1(1)])
        subgoal using finish by simp
        subgoal using cached [OF s1(1)] by simp
        done
      done
    done
qed

lemma read_link_rule:
  assumes ok: "refs_ok R {} D V L s" and v: "v \<in> snd ` set_mset D" and Q: "\<And>r s'. refs_ok R {} D V L s' \<Longrightarrow> Q r s'"
  shows "wp (read_link ops v) Q s"
  unfolding read_link_def wp_bnd
  apply (rule vn_lock_rule [OF ok], use v in simp)
  apply (rule keeps_rule [OF readlink_keeps], assumption, use v in simp)
  apply (rule vn_unlock_rule, assumption)
  apply (simp add: Q)
  done

lemma namei_follow_link_rule:
  assumes ok: "refs_ok R {} D V L s" and d: "(d, v) \<in># D" and Q: "\<And>r s'. refs_ok R {} D V L s' \<Longrightarrow> Q r s'"
  shows "wp (namei_follow_link ops d node name fp ml) Q s"
  unfolding namei_follow_link_def wp_bnd
  apply (rule deref_dentry_rule [OF ok d])
  apply (rule read_link_rule [OF ok])
  subgoal using d by force
  subgoal for de r s' by (cases r) (auto simp: Q excused_def split: option.splits)
  done

lemma namei_walk_rule:
  assumes "refs_ok R {} (add_mset (ddp, dv) D) V L s" "held R D V L" "dp = None \<and> ddp = root \<or> dp = Some ddp"
  shows "wp (namei_walk ops mp fp ml node p ddp dp) (walk_post root R D V L) s"
  using assms
proof (induction "length p" arbitrary: p node ddp dv dp s rule: less_induct)
  case less
  note ok = less.prems(1) and held = less.prems(2)
  let ?q = "dropWhile (\<lambda>c. c = slash) p"
  let ?name = "path_name ?q"
  let ?p' = "drop (length ?name) ?q"
  let ?node' = "strlcat path_max (strlcat path_max node [slash]) ?name"
  show ?case
  proof (cases "?q = []")
    case True
    have "walk_post root R D V L (Walk_done dp) s" using less.prems(3) ok by (auto simp only: walk_post_def walk.case option.case)
    then show ?thesis by (subst namei_walk.simps) (simp only: Let_def True refl if_True wp_ret)
  next
    case False
    have release: "wp (drele ops d) (\<lambda>_. walk_post root R D V L w) s2"
      if "refs_ok R {} (add_mset (d, v) D) V L s2" "\<And>dp. w \<noteq> Walk_done dp" for d v s2 w
      by (rule drele_ok [OF that(1) held]) (use that(2) in \<open>auto simp: walk_post_def split: walk.splits\<close>)
    have rest: "wp (bnd (deref dentries dp') (\<lambda>de.
               bnd (deref vnodes (d_vnode de)) (\<lambda>vn.
               if v_type vn = VLNK then
                 bnd (namei_follow_link ops dp' ?node' ?name fp ml) (\<lambda>r.
                 bnd (drele ops dp') (\<lambda>_.
                 case r of Inl error \<Rightarrow> ret (Walk_error error) | Inr fp' \<Rightarrow> ret (Walk_link fp')))
               else if ?p' \<noteq> [] \<and> hd ?p' = slash \<and> v_type vn \<noteq> VDIR then
                 bnd (drele ops dp') (\<lambda>_. ret (Walk_error ENOTDIR))
               else namei_walk ops mp fp ml ?node' ?p' dp' (Some dp')))) (walk_post root R D V L) s1"
      if s1: "refs_ok R {} (add_mset (dp', v) D) V L s1" for dp' v s1
    proof -
      have rec: "wp (namei_walk ops mp fp ml ?node' ?p' dp' (Some dp')) (walk_post root R D V L) s1"
        by (rule less.hyps [OF path_progress [OF False] s1 held]) simp
      have follow: "wp (namei_follow_link ops dp' ?node' ?name fp ml) (\<lambda>r. wp (drele ops dp') (\<lambda>_.
            wp (case r of Inl error \<Rightarrow> ret (Walk_error error) | Inr fp' \<Rightarrow> ret (Walk_link fp')) (walk_post root R D V L))) s1"
      proof (rule namei_follow_link_rule [OF s1, of dp' v])
        fix r :: "errno + string" and s2 :: "'fs vfs" assume s2: "refs_ok R {} (add_mset (dp', v) D) V L s2"
        show "wp (drele ops dp') (\<lambda>_. wp (case r of Inl error \<Rightarrow> ret (Walk_error error) | Inr fp' \<Rightarrow> ret (Walk_link fp')) (walk_post root R D V L)) s2"
          by (cases r) (use release [OF s2] in \<open>simp_all only: sum.case wp_ret walk.distinct not_False_eq_True\<close>)
      qed simp
      obtain de vn where de: "dentries s1 dp' = Some de" "d_vnode de = v" "vnodes s1 v = Some vn"
        by (rule refs_ok_dentry [OF s1, of dp' v]) auto
      have "wp (drele ops dp') (\<lambda>_. walk_post root R D V L (Walk_error ENOTDIR)) s1" by (rule release [OF s1]) simp
      then show ?thesis
        by (simp only: wp_bnd wp_deref de option.case wp_ret follow rec if_cancel split: if_split) simp
    qed
    show ?thesis
      apply (subst namei_walk.simps)
      apply (simp only: Let_def False if_False wp_bnd)
      apply (rule walk_component_rule [OF ok held])
      subgoal by (simp add: walk_post_def)
      subgoal by (simp only: sum.case) (rule rest)
      done
  qed
qed

lemma namei_loop_rule:
  assumes ok: "refs_ok R {} D V L s"
    and err: "\<And>e s'. refs_ok R {} D V L s' \<Longrightarrow> Q (Inl e) s'"
    and found: "\<And>d v s'. refs_ok R {} (add_mset (d, v) D) V L s' \<Longrightarrow> Q (Inr (Some d)) s'"
    and null: "\<And>d v s'. \<lbrakk>d \<in> R; refs_ok R {} (add_mset (d, v) D) V L s'\<rbrakk> \<Longrightarrow> Q (Inr None) s'"
  shows "wp (namei_loop ops n fp) Q s"
  using ok
proof (induction n arbitrary: fp s)
  case 0
  then show ?case using err by simp
next
  case (Suc n)
  note held = refs_ok_held [OF Suc.prems]
  show ?case
    unfolding namei_loop.simps wp_bnd
    apply (rule find_root_rule [OF Suc.prems])
    subgoal by (simp add: err [OF Suc.prems])
    subgoal premises m for mp p me r v
      apply (simp only: option.case prod.case wp_bnd)
      apply (rule dentry_lookup_rule [OF Suc.prems])
      subgoal using found by simp
      subgoal premises none
        using m apply simp
        apply (rule dref_rule [OF Suc.prems m(3)])
        apply (rule wp_mono [OF namei_walk_rule [OF _ held, where root = r]], assumption, simp)
        subgoal premises w for s1 w s2
          using w m(4) Suc.IH found err null by (auto simp: walk_post_def split: walk.splits option.splits)
        done
      done
    done
qed

lemma namei_rule:
  assumes ok: "refs_ok R {} D V L s"
    and err: "\<And>e s'. refs_ok R {} D V L s' \<Longrightarrow> Q (Inl e) s'"
    and found: "\<And>d v s'. refs_ok R {} (add_mset (d, v) D) V L s' \<Longrightarrow> Q (Inr (Some d)) s'"
    and null: "\<And>d v s'. \<lbrakk>d \<in> R; refs_ok R {} (add_mset (d, v) D) V L s'\<rbrakk> \<Longrightarrow> Q (Inr None) s'"
  shows "wp (namei ops path) Q s"
  unfolding namei_def by (rule namei_loop_rule [OF assms])

lemma namei_last_nofollow_rule:
  assumes ok: "refs_ok R {} D V L s" and ddp: "(ddp, dv) \<in># D"
    and err: "\<And>e s'. refs_ok R {} D V L s' \<Longrightarrow> Q (Inl e) s'"
    and found: "\<And>d v s'. refs_ok R {} (add_mset (d, v) D) V L s' \<Longrightarrow> Q (Inr d) s'"
  shows "wp (namei_last_nofollow ops path ddp) Q s"
proof -
  have dv: "dv \<in> snd ` set_mset D" using ddp by force
  note held = refs_ok_held [OF ok]
  have alloc: "wp (dentry_alloc (Some ddp) vp node) (\<lambda>dp. wp (vput ops vp) (\<lambda>_. wp (vn_unlock dv) (\<lambda>_. Q (Inr dp)))) s2"
    if s2: "refs_ok R {} D (add_mset vp V) (add_mset vp (add_mset dv L)) s2" for vp s2 node
  proof (rule dentry_alloc_rule [OF s2])
    fix dp and s3 :: "'fs vfs" assume s3: "refs_ok R {} (add_mset (dp, vp) D) (add_mset vp V) (add_mset vp (add_mset dv L)) s3"
    have "held R (add_mset (dp, vp) D) V (add_mset dv L)"
      using held_lock [OF held_add_D [OF held], of dv "(dp, vp)"] dv by simp
    then show "wp (vput ops vp) (\<lambda>_. wp (vn_unlock dv) (\<lambda>_. Q (Inr dp))) s3"
      by (rule vput_ok [OF s3]) (rule vn_unlock_rule, assumption, rule found)
  qed (use ddp in force)+
  show ?thesis
    unfolding namei_last_nofollow_def Let_def
    apply (cases "path \<noteq> [] \<and> hd path = slash")
     prefer 2
    subgoal using err [OF ok] by simp
    apply (simp only: simp_thms if_False wp_bnd)
    apply (rule find_root_rule [OF ok])
    subgoal by (simp add: err [OF ok])
    subgoal premises m for mp p me r v
      apply (simp only: option.case prod.case wp_bnd)
      apply (rule deref_dentry_rule [OF ok ddp])
      subgoal premises de for de
        unfolding de(2)
        apply (rule vn_lock_rule [OF ok], use dv in simp)
        apply (rule dentry_lookup_rule, assumption)
        subgoal apply (simp only: option.case wp_bnd wp_ret) apply (rule vn_unlock_rule, assumption) by (rule found)
        subgoal premises s1 for s1
          apply (simp only: option.case wp_bnd)
          apply (rule lookup_rule [OF s1(1)], use dv in simp)
          subgoal apply (simp only: sum.case wp_bnd wp_ret) apply (rule vn_unlock_rule, assumption) by (rule err)
          subgoal using alloc by (simp only: sum.case wp_bnd wp_ret)
          done
        done
      done
    done
qed

lemma lookup_path_rule:
  assumes ok: "refs_ok R {} D V L s"
    and err: "\<And>e s'. refs_ok R {} D V L s' \<Longrightarrow> Q (Inl e) s'"
    and found: "\<And>d v name s'. \<lbrakk>refs_ok R {} (add_mset (d, v) D) V L s'; \<exists>vn. vnodes s' v = Some vn \<and> v_type vn = VDIR\<rbrakk> \<Longrightarrow> Q (Inr (d, name)) s'"
  shows "wp (lookup ops path) Q s"
proof -
  note held = refs_ok_held [OF ok]
  have rest: "wp (bnd (deref dentries d) (\<lambda>de. bnd (deref vnodes (d_vnode de)) (\<lambda>vn.
      if v_type vn \<noteq> VDIR then bnd (drele ops d) (\<lambda>_. ret (Inl ENOTDIR)) else ret (Inr (d, after_last path))))) Q s1"
    if s1: "refs_ok R {} (add_mset (d, v) D) V L s1" for d v s1
  proof -
    obtain de vn where de: "dentries s1 d = Some de" "d_vnode de = v" "vnodes s1 v = Some vn"
      by (rule refs_ok_dentry [OF s1, of d v]) auto
    have "wp (drele ops d) (\<lambda>_. Q (Inl ENOTDIR)) s1" by (rule drele_ok [OF s1 held]) (rule err)
    then show ?thesis using de found [OF s1, of "after_last path"] by auto
  qed
  show ?thesis
    unfolding lookup_def Let_def
    apply (cases "strlcpy path_max path = []")
    subgoal using err [OF ok] by simp
    apply (cases "slash \<notin> set (strlcpy path_max path)")
    subgoal by (simp add: excused_def)
    apply (simp only: simp_thms if_False wp_bnd)
    apply (rule namei_rule [OF ok])
    subgoal using err by simp
    subgoal using rest by simp
    subgoal by simp
    done
qed

end

end
