(* ===== verification/Vfs_File.thy ===== *)
theory Vfs_File
  imports Vfs_Lookup
begin

text \<open>
  Open files: the descriptor table and the reference counts of \<^verbatim>\<open>fs/vfs/kern_descrip.cc\<close>, the methods of
  a file backed by a vnode of \<^verbatim>\<open>fs/vfs/vfs_fops.cc\<close>, and the system calls on an open file of
  \<^verbatim>\<open>fs/vfs/vfs_syscalls.cc\<close>. Every call runs to completion, so the atomic loops of \<open>fdrop\<close> and \<open>fhold_if_positive\<close>
  succeed in their first round, and \<open>rcu_dispose\<close> destroys the file at once.
\<close>

section \<open>Reference counts of files\<close>

definition set_file :: "nat \<Rightarrow> file_obj \<Rightarrow> (unit, 'fs) vm" where
  "set_file fp f = change (\<lambda>s. s\<lparr>files := (files s)(fp \<mapsto> f)\<rparr>)"

definition INT_MIN :: int where "INT_MIN = - (2 ^ 31)"

definition FDMAX :: nat where "FDMAX = 0x4000"

definition fhold :: "nat \<Rightarrow> (unit, 'fs) vm" where
  "fhold fp = bnd (deref files fp) (\<lambda>f. set_file fp (f\<lparr>f_count := f_count f + 1\<rparr>))"

definition fhold_if_positive :: "nat \<Rightarrow> (bool, 'fs) vm" where
  "fhold_if_positive fp =
     bnd (deref files fp) (\<lambda>f.
     if 0 < f_count f then bnd (set_file fp (f\<lparr>f_count := f_count f + 1\<rparr>)) (\<lambda>_. ret True)
     else ret False)"

text \<open>The destructor of a file releases the entry that \<open>f_dentry\<close> still holds.\<close>

definition delete_file :: "'fs fsops \<Rightarrow> nat \<Rightarrow> (unit, 'fs) vm" where
  "delete_file ops fp =
     bnd (deref files fp) (\<lambda>f.
     bnd (case f_dentry f of None \<Rightarrow> ret () | Some dp \<Rightarrow> drele ops dp) (\<lambda>_.
     change (\<lambda>s. s\<lparr>files := (files s)(fp := None)\<rparr>)))"

definition vfs_file_close :: "'fs fsops \<Rightarrow> nat \<Rightarrow> (errno option, 'fs) vm" where
  "vfs_file_close ops fp =
     bnd (deref files fp) (\<lambda>f.
     bnd (nonnull (f_dentry f)) (\<lambda>dp.
     bnd (deref dentries dp) (\<lambda>de.
     bnd (vn_lock (d_vnode de)) (\<lambda>_.
     bnd (vop_close ops (d_vnode de) fp) (\<lambda>error.
     bnd (vn_unlock (d_vnode de)) (\<lambda>_.
     case error of
       Some e \<Rightarrow> ret (Some e)
     | None \<Rightarrow>
         bnd (deref files fp) (\<lambda>f'.
         bnd (set_file fp (f'\<lparr>f_dentry := None\<rparr>)) (\<lambda>_.
         bnd (drele ops dp) (\<lambda>_.
         ret None)))))))))"

definition close_file :: "'fs fsops \<Rightarrow> nat \<Rightarrow> (errno option, 'fs) vm" where
  "close_file ops fp =
     bnd (deref files fp) (\<lambda>f.
     if f_type f = DTYPE_VNODE then vfs_file_close ops fp else file_close ops fp)"

text \<open>The result of \<open>fdrop\<close> tells whether the file was freed.\<close>

definition fdrop :: "'fs fsops \<Rightarrow> nat \<Rightarrow> (bool, 'fs) vm" where
  "fdrop ops fp =
     bnd (deref files fp) (\<lambda>f.
     let n = f_count f - 1 in
     if n \<noteq> 0 then bnd (set_file fp (f\<lparr>f_count := n\<rparr>)) (\<lambda>_. ret False)
     else
       bnd (set_file fp (f\<lparr>f_count := INT_MIN\<rparr>)) (\<lambda>_.
       bnd (file_stop_polls ops fp) (\<lambda>_.
       bnd (close_file ops fp) (\<lambda>_.
       bnd (delete_file ops fp) (\<lambda>_.
       ret True)))))"


section \<open>The descriptor table\<close>

text \<open>The first free descriptor from \<open>fd\<close> on.\<close>

function free_fd :: "(nat \<Rightarrow> nat option) \<Rightarrow> nat \<Rightarrow> nat option" where
  "free_fd table fd = (if FDMAX \<le> fd then None else if table fd \<noteq> None then free_fd table (Suc fd) else Some fd)"
  by auto
termination by (relation "measure (\<lambda>(table, fd). FDMAX - fd)") auto

declare free_fd.simps [simp del]

definition fdalloc_min :: "'fs fsops \<Rightarrow> nat \<Rightarrow> nat \<Rightarrow> (errno + nat, 'fs) vm" where
  "fdalloc_min ops fp min_fd =
     bnd (fhold fp) (\<lambda>_.
     bnd (look gfdt) (\<lambda>table.
     case free_fd table min_fd of
       Some fd \<Rightarrow> bnd (change (\<lambda>s. s\<lparr>gfdt := (gfdt s)(fd \<mapsto> fp)\<rparr>)) (\<lambda>_. ret (Inr fd))
     | None \<Rightarrow> bnd (fdrop ops fp) (\<lambda>_. ret (Inl EMFILE))))"

definition fdalloc :: "'fs fsops \<Rightarrow> nat \<Rightarrow> (errno + nat, 'fs) vm" where
  "fdalloc ops fp = fdalloc_min ops fp 0"

text \<open>\<open>fdclose\<close> indexes the table without checking its argument.\<close>

definition fdclose :: "'fs fsops \<Rightarrow> int \<Rightarrow> (errno option, 'fs) vm" where
  "fdclose ops fd =
     (if fd < 0 \<or> int FDMAX \<le> fd then fail Out_of_bounds
      else
        bnd (look (\<lambda>s. gfdt s (nat fd))) (\<lambda>entry.
        case entry of
          None \<Rightarrow> ret (Some EBADF)
        | Some fp \<Rightarrow>
            bnd (change (\<lambda>s. s\<lparr>gfdt := (gfdt s)(nat fd := None)\<rparr>)) (\<lambda>_.
            bnd (fdrop ops fp) (\<lambda>_.
            ret None))))"

definition fdset :: "'fs fsops \<Rightarrow> int \<Rightarrow> nat \<Rightarrow> (errno option, 'fs) vm" where
  "fdset ops fd fp =
     (if fd < 0 \<or> int FDMAX \<le> fd then ret (Some EBADF)
      else
        bnd (fhold fp) (\<lambda>_.
        bnd (look (\<lambda>s. gfdt s (nat fd))) (\<lambda>orig.
        bnd (change (\<lambda>s. s\<lparr>gfdt := (gfdt s)(nat fd \<mapsto> fp)\<rparr>)) (\<lambda>_.
        bnd (case orig of None \<Rightarrow> ret () | Some o' \<Rightarrow> bnd (fdrop ops o') (\<lambda>_. ret ())) (\<lambda>_.
        ret None)))))"

definition fget :: "int \<Rightarrow> (errno + nat, 'fs) vm" where
  "fget fd =
     (if fd < 0 \<or> int FDMAX \<le> fd then ret (Inl EBADF)
      else
        bnd (look (\<lambda>s. gfdt s (nat fd))) (\<lambda>entry.
        case entry of
          None \<Rightarrow> ret (Inl EBADF)
        | Some fp \<Rightarrow>
            bnd (fhold_if_positive fp) (\<lambda>ok.
            if ok then ret (Inr fp) else ret (Inl EBADF))))"


section \<open>Methods of a file backed by a vnode\<close>

definition FREAD :: u32 where "FREAD = 1"

definition FWRITE :: u32 where "FWRITE = 2"

definition O_APPEND :: u32 where "O_APPEND = 0x400"

definition O_DSYNC :: u32 where "O_DSYNC = 0x1000"

definition O_SYNC :: u32 where "O_SYNC = 0x101000"

definition IO_APPEND :: u32 where "IO_APPEND = 1"

definition IO_SYNC :: u32 where "IO_SYNC = 2"

definition FOF_OFFSET :: u32 where "FOF_OFFSET = 0x800"

definition vfs_file_read :: "'fs fsops \<Rightarrow> nat \<Rightarrow> uio \<Rightarrow> u32 \<Rightarrow> (errno option \<times> uio, 'fs) vm" where
  "vfs_file_read ops fp uio flags =
     bnd (deref files fp) (\<lambda>f.
     bnd (nonnull (f_dentry f)) (\<lambda>dp.
     bnd (deref dentries dp) (\<lambda>de.
     let bytes = uio_resid uio in
     bnd (vn_lock (d_vnode de)) (\<lambda>_.
     bnd (vop_read ops (d_vnode de) fp (if flags AND FOF_OFFSET = 0 then uio\<lparr>uio_offset := f_offset f\<rparr> else uio) 0) (\<lambda>(error, uio').
     bnd (if error = None \<and> flags AND FOF_OFFSET = 0 then
            bnd (deref files fp) (\<lambda>f'. set_file fp (f'\<lparr>f_offset := f_offset f' + (bytes - uio_resid uio')\<rparr>))
          else ret ()) (\<lambda>_.
     bnd (vn_unlock (d_vnode de)) (\<lambda>_.
     ret (error, uio'))))))))"

definition vfs_file_write :: "'fs fsops \<Rightarrow> nat \<Rightarrow> uio \<Rightarrow> u32 \<Rightarrow> (errno option \<times> uio, 'fs) vm" where
  "vfs_file_write ops fp uio flags =
     bnd (deref files fp) (\<lambda>f.
     bnd (nonnull (f_dentry f)) (\<lambda>dp.
     bnd (deref dentries dp) (\<lambda>de.
     let bytes = uio_resid uio in
     bnd (vn_lock (d_vnode de)) (\<lambda>_.
     let ioflags = (if f_flags f AND O_APPEND \<noteq> 0 then IO_APPEND else 0) OR
                   (if f_flags f AND (O_DSYNC OR O_SYNC) \<noteq> 0 then IO_SYNC else 0) in
     bnd (vop_write ops (d_vnode de) (if flags AND FOF_OFFSET = 0 then uio\<lparr>uio_offset := f_offset f\<rparr> else uio) ioflags) (\<lambda>(error, uio').
     bnd (if error = None \<and> flags AND FOF_OFFSET = 0 then
            bnd (deref files fp) (\<lambda>f'. set_file fp (f'\<lparr>f_offset := f_offset f' + (bytes - uio_resid uio')\<rparr>))
          else ret ()) (\<lambda>_.
     bnd (vn_unlock (d_vnode de)) (\<lambda>_.
     ret (error, uio'))))))))"

text \<open>
  The body shared by the calls that lock the vnode of an open file, run one operation and unlock it.
\<close>

definition with_file_vnode :: "nat \<Rightarrow> (nat \<Rightarrow> ('a, 'fs) vm) \<Rightarrow> ('a, 'fs) vm" where
  "with_file_vnode dp body =
     bnd (deref dentries dp) (\<lambda>de.
     bnd (vn_lock (d_vnode de)) (\<lambda>_.
     bnd (body (d_vnode de)) (\<lambda>r.
     bnd (vn_unlock (d_vnode de)) (\<lambda>_.
     ret r))))"

definition vfs_file_ioctl :: "'fs fsops \<Rightarrow> nat \<Rightarrow> u64 \<Rightarrow> nat \<Rightarrow> (errno option, 'fs) vm" where
  "vfs_file_ioctl ops fp com data =
     bnd (deref files fp) (\<lambda>f.
     bnd (nonnull (f_dentry f)) (\<lambda>dp.
     with_file_vnode dp (\<lambda>vp. vop_ioctl ops vp fp com data)))"

definition vfs_file_stat :: "'fs fsops \<Rightarrow> nat \<Rightarrow> (errno + stat_buf, 'fs) vm" where
  "vfs_file_stat ops fp =
     bnd (deref files fp) (\<lambda>f.
     bnd (nonnull (f_dentry f)) (\<lambda>dp.
     with_file_vnode dp (\<lambda>vp. vn_stat ops vp)))"


section \<open>System calls on an open file\<close>

definition IOSIZE_MAX :: int where "IOSIZE_MAX = 2 ^ 31 - 1"

text \<open>The loop that adds up the lengths; \<open>None\<close> when they exceed \<open>IOSIZE_MAX\<close>.\<close>

fun iov_bytes :: "int \<Rightarrow> iovec list \<Rightarrow> int option" where
  "iov_bytes bytes [] = Some bytes"
| "iov_bytes bytes (iov # iovs) =
     (if IOSIZE_MAX - bytes < int (iov_len iov) then None else iov_bytes (bytes + int (iov_len iov)) iovs)"

text \<open>\<open>sys_read\<close> and \<open>sys_write\<close> return the error and the number of bytes transferred.\<close>

definition sys_read :: "'fs fsops \<Rightarrow> nat \<Rightarrow> iovec list \<Rightarrow> int \<Rightarrow> (errno option \<times> int, 'fs) vm" where
  "sys_read ops fp iov offset =
     bnd (deref files fp) (\<lambda>f.
     if f_flags f AND FREAD = 0 then ret (Some EBADF, 0)
     else case iov_bytes 0 iov of
       None \<Rightarrow> ret (Some EINVAL, 0)
     | Some bytes \<Rightarrow>
         if bytes = 0 then ret (None, 0)
         else
           let uio = \<lparr>uio_iov = iov, uio_offset = offset, uio_resid = bytes, uio_rw = UIO_READ\<rparr>;
               flags = (if offset = -1 then 0 else FOF_OFFSET) in
           bnd (if f_type f = DTYPE_VNODE then vfs_file_read ops fp uio flags else file_read ops fp uio flags) (\<lambda>(error, uio').
           ret (error, bytes - uio_resid uio')))"

definition sys_write :: "'fs fsops \<Rightarrow> nat \<Rightarrow> iovec list \<Rightarrow> int \<Rightarrow> (errno option \<times> int, 'fs) vm" where
  "sys_write ops fp iov offset =
     bnd (deref files fp) (\<lambda>f.
     if f_flags f AND FWRITE = 0 then ret (Some EBADF, 0)
     else case iov_bytes 0 iov of
       None \<Rightarrow> ret (Some EINVAL, 0)
     | Some bytes \<Rightarrow>
         if bytes = 0 then ret (None, 0)
         else
           let uio = \<lparr>uio_iov = iov, uio_offset = offset, uio_resid = bytes, uio_rw = UIO_WRITE\<rparr>;
               flags = (if offset = -1 then 0 else FOF_OFFSET) in
           bnd (if f_type f = DTYPE_VNODE then vfs_file_write ops fp uio flags else file_write ops fp uio flags) (\<lambda>(error, uio').
           ret (error, bytes - uio_resid uio')))"

definition SEEK_SET :: int where "SEEK_SET = 0"

definition SEEK_CUR :: int where "SEEK_CUR = 1"

definition SEEK_END :: int where "SEEK_END = 2"

text \<open>Every \<open>type\<close> but \<open>SEEK_CUR\<close> and \<open>SEEK_END\<close> is taken for \<open>SEEK_SET\<close>.\<close>

definition sys_lseek :: "'fs fsops \<Rightarrow> nat \<Rightarrow> int \<Rightarrow> int \<Rightarrow> (errno + int, 'fs) vm" where
  "sys_lseek ops fp off type =
     bnd (deref files fp) (\<lambda>f.
     case f_dentry f of
       None \<Rightarrow> ret (Inl ESPIPE)
     | Some dp \<Rightarrow>
         with_file_vnode dp (\<lambda>vp.
         bnd (deref vnodes vp) (\<lambda>vn.
         let off' = (if type = SEEK_CUR then f_offset f + off else if type = SEEK_END then v_size vn + off else off) in
         if 0 \<le> off' then
           bnd (vop_seek ops vp fp (f_offset f) off') (\<lambda>error.
           case error of
             Some e \<Rightarrow> ret (Inl e)
           | None \<Rightarrow>
               bnd (deref files fp) (\<lambda>f'.
               bnd (set_file fp (f'\<lparr>f_offset := off'\<rparr>)) (\<lambda>_.
               ret (Inr off'))))
         else ret (Inl EINVAL))))"

definition sys_ioctl :: "'fs fsops \<Rightarrow> nat \<Rightarrow> u64 \<Rightarrow> nat \<Rightarrow> (errno option, 'fs) vm" where
  "sys_ioctl ops fp request buf =
     bnd (deref files fp) (\<lambda>f.
     if f_flags f AND (FREAD OR FWRITE) = 0 then ret (Some EBADF)
     else if f_type f = DTYPE_VNODE then vfs_file_ioctl ops fp request buf
     else file_ioctl ops fp request buf)"

definition sys_fsync :: "'fs fsops \<Rightarrow> nat \<Rightarrow> (errno option, 'fs) vm" where
  "sys_fsync ops fp =
     bnd (deref files fp) (\<lambda>f.
     case f_dentry f of
       None \<Rightarrow> ret (Some EINVAL)
     | Some dp \<Rightarrow> with_file_vnode dp (\<lambda>vp. vop_fsync ops vp fp))"

definition sys_fstat :: "'fs fsops \<Rightarrow> nat \<Rightarrow> (errno + stat_buf, 'fs) vm" where
  "sys_fstat ops fp =
     bnd (deref files fp) (\<lambda>f.
     if f_type f = DTYPE_VNODE then vfs_file_stat ops fp else file_stat ops fp)"

definition sys_readdir :: "'fs fsops \<Rightarrow> nat \<Rightarrow> (errno + dirent, 'fs) vm" where
  "sys_readdir ops fp =
     bnd (deref files fp) (\<lambda>f.
     case f_dentry f of
       None \<Rightarrow> ret (Inl ENOTDIR)
     | Some dp \<Rightarrow>
         with_file_vnode dp (\<lambda>dvp.
         bnd (deref vnodes dvp) (\<lambda>dvn.
         if v_type dvn \<noteq> VDIR then ret (Inl ENOTDIR)
         else vop_readdir ops dvp fp)))"

definition sys_seekdir :: "nat \<Rightarrow> int \<Rightarrow> (errno option, 'fs) vm" where
  "sys_seekdir fp loc =
     bnd (deref files fp) (\<lambda>f.
     case f_dentry f of
       None \<Rightarrow> ret (Some ENOTDIR)
     | Some dp \<Rightarrow>
         with_file_vnode dp (\<lambda>dvp.
         bnd (deref vnodes dvp) (\<lambda>dvn.
         if v_type dvn \<noteq> VDIR then ret (Some EBADF)
         else bnd (set_file fp (f\<lparr>f_offset := loc\<rparr>)) (\<lambda>_. ret None))))"

definition sys_rewinddir :: "nat \<Rightarrow> (errno option, 'fs) vm" where
  "sys_rewinddir fp =
     bnd (deref files fp) (\<lambda>f.
     case f_dentry f of
       None \<Rightarrow> ret (Some ENOTDIR)
     | Some dp \<Rightarrow>
         with_file_vnode dp (\<lambda>dvp.
         bnd (deref vnodes dvp) (\<lambda>dvn.
         if v_type dvn \<noteq> VDIR then ret (Some EBADF)
         else bnd (set_file fp (f\<lparr>f_offset := 0\<rparr>)) (\<lambda>_. ret None))))"

definition sys_telldir :: "nat \<Rightarrow> (errno + int, 'fs) vm" where
  "sys_telldir fp =
     bnd (deref files fp) (\<lambda>f.
     case f_dentry f of
       None \<Rightarrow> ret (Inl ENOTDIR)
     | Some dp \<Rightarrow>
         with_file_vnode dp (\<lambda>dvp.
         bnd (deref vnodes dvp) (\<lambda>dvn.
         if v_type dvn \<noteq> VDIR then ret (Inl EBADF)
         else ret (Inr (f_offset f)))))"

definition sys_fstatfs :: "'fs fsops \<Rightarrow> nat \<Rightarrow> (errno option, 'fs) vm" where
  "sys_fstatfs ops fp =
     bnd (deref files fp) (\<lambda>f.
     case f_dentry f of
       None \<Rightarrow> ret (Some EBADF)
     | Some dp \<Rightarrow>
         with_file_vnode dp (\<lambda>vp.
         bnd (deref vnodes vp) (\<lambda>vn.
         vfs_statfs ops (v_mount vn))))"

definition sys_ftruncate :: "'fs fsops \<Rightarrow> nat \<Rightarrow> int \<Rightarrow> (errno option, 'fs) vm" where
  "sys_ftruncate ops fp len =
     bnd (deref files fp) (\<lambda>f.
     case f_dentry f of
       None \<Rightarrow> ret (Some EBADF)
     | Some dp \<Rightarrow> with_file_vnode dp (\<lambda>vp. vop_truncate ops vp len))"

text \<open>\<open>sys_fchdir\<close> returns the new working directory.\<close>

definition sys_fchdir :: "nat \<Rightarrow> (errno + string, 'fs) vm" where
  "sys_fchdir fp =
     bnd (deref files fp) (\<lambda>f.
     case f_dentry f of
       None \<Rightarrow> ret (Inl EBADF)
     | Some dp \<Rightarrow>
         bnd (deref dentries dp) (\<lambda>de.
         with_file_vnode dp (\<lambda>dvp.
         bnd (deref vnodes dvp) (\<lambda>dvn.
         if v_type dvn \<noteq> VDIR then ret (Inl EBADF)
         else ret (Inr (strlcpy path_max (d_path de)))))))"

definition FALLOC_FL_KEEP_SIZE :: u32 where "FALLOC_FL_KEEP_SIZE = 1"

definition FALLOC_FL_PUNCH_HOLE :: u32 where "FALLOC_FL_PUNCH_HOLE = 2"

text \<open>Every file system of the model has a \<open>vop_fallocate\<close>.\<close>

definition sys_fallocate :: "'fs fsops \<Rightarrow> nat \<Rightarrow> u32 \<Rightarrow> int \<Rightarrow> int \<Rightarrow> (errno option, 'fs) vm" where
  "sys_fallocate ops fp mode offset len =
     bnd (deref files fp) (\<lambda>f.
     case f_dentry f of
       None \<Rightarrow> ret (Some EBADF)
     | Some dp \<Rightarrow>
         if f_flags f AND FWRITE = 0 then ret (Some EBADF)
         else if offset < 0 \<or> len \<le> 0 then ret (Some EINVAL)
         else if mode AND FALLOC_FL_PUNCH_HOLE \<noteq> 0 \<and> mode AND FALLOC_FL_KEEP_SIZE = 0 then ret (Some ENOTSUP)
         else
           with_file_vnode dp (\<lambda>vp.
           bnd (deref vnodes vp) (\<lambda>vn.
           if v_type vn \<noteq> VREG \<and> v_type vn \<noteq> VDIR then ret (Some ENODEV)
           else vop_fallocate ops vp (uint mode) offset len)))"


section \<open>What leaves open files alone\<close>

text \<open>
  \<open>frames f\<close>: when \<open>f\<close> returns, every file has the flags, the reference count, the entry and the type it had before.
\<close>

named_theorems frames_intros \<open>introduction rules for frames\<close>

definition fcores :: "'fs vfs \<Rightarrow> nat \<Rightarrow> (u32 \<times> int \<times> nat option \<times> filetype) option" where
  "fcores s fp = map_option fcore (files s fp)"

definition frames :: "('a, 'fs) vm \<Rightarrow> bool" where
  "frames f \<longleftrightarrow> (\<forall>s x s'. f s = Inr (x, s') \<longrightarrow> fcores s' = fcores s)"

lemma wp_frames: "\<lbrakk>wp f Q s; frames f; \<And>x s'. \<lbrakk>Q x s'; fcores s' = fcores s\<rbrakk> \<Longrightarrow> Q' x s'\<rbrakk> \<Longrightarrow> wp f Q' s"
  by (auto simp: wp_def frames_def split: sum.splits)

lemma fcoresE:
  assumes "fcores s' = fcores s" "files s fp = Some f"
  obtains f' where "files s' fp = Some f'" "fcore f' = fcore f"
proof -
  have "map_option fcore (files s' fp) = Some (fcore f)" using fun_cong [OF assms(1), of fp] assms(2) by (simp add: fcores_def)
  then show thesis using that by auto
qed

lemma attr_eq_fcores: "attr_eq s s' \<Longrightarrow> fcores s' = fcores s"
  by (auto simp: attr_eq_def fcores_def)

lemma fcores_files: "files s' = files s \<Longrightarrow> fcores s' = fcores s"
  by (simp add: fcores_def fun_eq_iff)

lemma frames_ret [frames_intros]: "frames (ret x)"
  by (simp add: frames_def ret_def)

lemma frames_fail [frames_intros]: "frames (fail e)"
  by (simp add: frames_def fail_def)

lemma frames_bnd [frames_intros]: "\<lbrakk>frames f; \<And>x. frames (g x)\<rbrakk> \<Longrightarrow> frames (bnd f g)"
  by (fastforce simp: frames_def bnd_def split: sum.splits)

lemma frames_look [frames_intros]: "frames (look f)"
  by (simp add: frames_def look_def)

lemma frames_ASSERT [frames_intros]: "frames (ASSERT b)"
  by (simp add: frames_def ASSERT_def ret_def fail_def)

lemma frames_deref [frames_intros]: "frames (deref h p)"
  by (auto simp: frames_def deref_def split: option.splits)

lemma frames_nonnull [frames_intros]: "frames (nonnull p)"
  by (auto simp: frames_def nonnull_def ret_def fail_def split: option.splits)

lemma frames_change: "(\<And>s. files (f s) = files s) \<Longrightarrow> frames (change f)"
  by (auto simp: frames_def change_def intro: fcores_files)

lemma frames_set_vnode [frames_intros]: "frames (set_vnode v vn)"
  unfolding set_vnode_def by (rule frames_change) simp

lemma frames_set_dentry [frames_intros]: "frames (set_dentry d de)"
  unfolding set_dentry_def by (rule frames_change) simp

lemma frames_set_mount [frames_intros]: "frames (set_mount m me)"
  unfolding set_mount_def by (rule frames_change) simp

lemma frames_if [frames_intros]: "\<lbrakk>frames f; frames g\<rbrakk> \<Longrightarrow> frames (if b then f else g)"
  by simp

lemma frames_option [frames_intros]: "\<lbrakk>frames f; \<And>x. frames (g x)\<rbrakk> \<Longrightarrow> frames (case y of None \<Rightarrow> f | Some x \<Rightarrow> g x)"
  by (cases y) simp_all

lemma frames_vn_lock [frames_intros]: "frames (vn_lock v)"
  unfolding vn_lock_def by (intro frames_intros)

lemma frames_vn_unlock [frames_intros]: "frames (vn_unlock v)"
  unfolding vn_unlock_def by (intro frames_intros)

lemma frames_drele_unlink [frames_intros]: "frames (drele_unlink dp)"
  unfolding drele_unlink_def hash_remove_def vn_del_name_def children_remove_def
  by (intro frames_intros frames_change) simp_all

lemma frames_drele_free [frames_intros]: "(\<And>v. frames (vop_inactive ops v)) \<Longrightarrow> frames (drele_free ops dp de)"
  unfolding drele_free_def vrele_def vnode_table_remove_def vfs_unbusy_def
  by (intro frames_intros frames_change) simp_all

lemma frames_drele_rec:
  assumes inact: "\<And>v. frames (vop_inactive ops v)" and ret: "drele_rec ops dp s = Some y"
  shows "case y of Inl e \<Rightarrow> True | Inr (_, s') \<Rightarrow> fcores s' = fcores s"
proof -
  let ?P = "\<lambda>ops' dp s y. ops' = ops \<longrightarrow> (case y of Inl e \<Rightarrow> True | Inr (_, s') \<Rightarrow> fcores s' = fcores s)"
  note free = frames_drele_free [OF inact, unfolded frames_def, rule_format]
  note unlink = frames_drele_unlink [unfolded frames_def, rule_format]
  have "?P ops dp s y"
  proof (rule drele_rec.raw_induct [of ?P, OF _ ret], intro impI)
    fix rec ops' dp s y
    assume IH: "\<And>ops' p s y. rec ops' p s = Some y \<Longrightarrow> ?P ops' p s y" and ops: "ops' = ops"
      and eq: "(case drele_unlink dp s of Inl e \<Rightarrow> Some (Inl e)
        | Inr r \<Rightarrow> (case fst r of None \<Rightarrow> Some (Inr ((), snd r))
          | Some de \<Rightarrow> Option.bind (case d_parent de of None \<Rightarrow> Some (Inr ((), snd r)) | Some p \<Rightarrow> rec ops' p (snd r))
              (\<lambda>r'. Some (case r' of Inl e \<Rightarrow> Inl e | Inr (_, s') \<Rightarrow> drele_free ops' dp de s')))) = Some y"
    show "case y of Inl e \<Rightarrow> True | Inr (_, s') \<Rightarrow> fcores s' = fcores s"
    proof (cases "drele_unlink dp s")
      case (Inl e)
      then show ?thesis using eq by auto
    next
      case (Inr r)
      obtain deo s1 where r: "r = (deo, s1)" by fastforce
      have s1: "fcores s1 = fcores s" using unlink Inr r by blast
      show ?thesis
      proof (cases deo)
        case None
        then show ?thesis using eq Inr r s1 by auto
      next
        case (Some de)
        obtain r' where r': "(case d_parent de of None \<Rightarrow> Some (Inr ((), s1)) | Some p \<Rightarrow> rec ops' p s1) = Some r'"
            "(case r' of Inl e \<Rightarrow> Inl e | Inr (_, s') \<Rightarrow> drele_free ops' dp de s') = y"
          using eq unfolding Inr r Some sum.case fst_conv snd_conv option.case bind_eq_Some_conv option.inject by blast
        have "case r' of Inl e \<Rightarrow> True | Inr (_, s') \<Rightarrow> fcores s' = fcores s1"
          using r'(1) IH [of ops' _ s1 r'] ops by (cases "d_parent de") auto
        then show ?thesis using r'(2) s1 free ops by (cases r') (auto split: sum.splits)
      qed
    qed
  qed
  then show ?thesis by simp
qed

lemma frames_drele [frames_intros]:
  assumes "\<And>v. frames (vop_inactive ops v)"
  shows "frames (drele ops dp)"
  unfolding frames_def drele_def using frames_drele_rec [OF assms] by (fastforce split: option.splits)

lemma refs_ok_files [simp]: "refs_ok R Z D V L (s\<lparr>files := g\<rparr>) = refs_ok R Z D V L s"
  by (auto elim!: refs_ok_frame)

lemma refs_ok_gfdt [simp]: "refs_ok R Z D V L (s\<lparr>gfdt := g\<rparr>) = refs_ok R Z D V L s"
  by (auto elim!: refs_ok_frame)

lemma refs_ok_user [simp]: "refs_ok R Z D V L (s\<lparr>user := g\<rparr>) = refs_ok R Z D V L s"
  by (auto elim!: refs_ok_frame)

lemma wp_set_file [simp]: "wp (set_file fp f) Q = (\<lambda>s. Q () (s\<lparr>files := (files s)(fp \<mapsto> f)\<rparr>))"
  by (simp add: set_file_def)

lemma fcores_set_file: "\<lbrakk>files s fp = Some f; fcore f' = fcore f\<rbrakk> \<Longrightarrow> fcores (s\<lparr>files := (files s)(fp \<mapsto> f')\<rparr>) = fcores s"
  by (auto simp: fcores_def)


section \<open>What leaves reference counts alone\<close>

text \<open>
  \<open>kp s0 f\<close>: from any state that differs from \<open>s0\<close> only in attributes and file system data, \<open>f\<close> ends in such a
  state. The rules follow the structure of the code.
\<close>

named_theorems kp_intros \<open>introduction rules for kp\<close>

definition kp :: "'fs vfs \<Rightarrow> ('a, 'fs) vm \<Rightarrow> bool" where
  "kp s0 f \<longleftrightarrow> (\<forall>s. attr_eq s0 s \<longrightarrow> wp f (\<lambda>_. attr_eq s0) s)"

lemma kp_keeps: "(\<And>s. set vs \<subseteq> dom (vnodes s) \<Longrightarrow> kp s f) \<Longrightarrow> keeps vs f"
  by (auto simp: keeps_def kp_def)

lemma kp_ret [kp_intros]: "kp s0 (ret x)"
  by (simp add: kp_def)

lemma kp_fail [kp_intros]: "kp s0 (fail Fs_fault)"
  by (simp add: kp_def excused_def)

lemma kp_bnd [kp_intros]: "\<lbrakk>kp s0 f; \<And>x. kp s0 (g x)\<rbrakk> \<Longrightarrow> kp s0 (bnd f g)"
  unfolding kp_def wp_bnd by (blast intro: wp_mono)

lemma kp_look [kp_intros]: "kp s0 (look f)"
  by (simp add: kp_def)

lemma kp_nonnull [kp_intros]: "kp s0 (nonnull p)"
  by (simp add: kp_def split: option.splits)

lemma kp_if [kp_intros]: "\<lbrakk>b \<Longrightarrow> kp s0 f; \<not> b \<Longrightarrow> kp s0 g\<rbrakk> \<Longrightarrow> kp s0 (if b then f else g)"
  by simp

lemma kp_option [kp_intros]: "\<lbrakk>kp s0 f; \<And>x. y = Some x \<Longrightarrow> kp s0 (g x)\<rbrakk> \<Longrightarrow> kp s0 (case y of None \<Rightarrow> f | Some x \<Rightarrow> g x)"
  by (cases y) simp_all

lemma kp_sum [kp_intros]: "\<lbrakk>\<And>x. kp s0 (f x); \<And>x. kp s0 (g x)\<rbrakk> \<Longrightarrow> kp s0 (case y of Inl x \<Rightarrow> f x | Inr x \<Rightarrow> g x)"
  by (cases y) simp_all

lemma kp_prod [kp_intros]: "(\<And>a b. kp s0 (f a b)) \<Longrightarrow> kp s0 (case y of (a, b) \<Rightarrow> f a b)"
  by (cases y) simp

lemma kp_let [kp_intros]: "(\<And>x. kp s0 (f x)) \<Longrightarrow> kp s0 (let x = y in f x)"
  by (simp add: Let_def)

text \<open>A vnode that exists in \<open>s0\<close> is read with the counts it has there, and written back with them.\<close>

lemma kp_deref_vnode:
  assumes "v \<in> dom (vnodes s0)" "\<And>vn. map_option core (vnodes s0 v) = Some (core vn) \<Longrightarrow> kp s0 (g vn)"
  shows "kp s0 (bnd (deref vnodes v) g)"
  unfolding kp_def
proof (intro allI impI)
  fix s assume s: "attr_eq s0 s"
  obtain v0 where v0: "vnodes s0 v = Some v0" using assms(1) by blast
  obtain vn where "vnodes s v = Some vn" "core vn = core v0" by (rule attr_eqD [OF s v0])
  then show "wp (bnd (deref vnodes v) g) (\<lambda>_. attr_eq s0) s" using assms(2) [of vn] s v0 by (simp add: kp_def)
qed

lemma kp_set_vnode:
  "\<lbrakk>map_option core (vnodes s0 v) = Some (core vn); core vn' = core vn\<rbrakk> \<Longrightarrow> kp s0 (set_vnode v vn')"
  by (auto simp: kp_def attr_eq_def)

lemma kp_set_file:
  "\<lbrakk>map_option fcore (files s0 fp) = Some (fcore f); fcore f' = fcore f\<rbrakk> \<Longrightarrow> kp s0 (set_file fp f')"
  by (auto simp: kp_def set_file_def attr_eq_def)

lemma kp_fs [kp_intros]: "kp s0 (change (\<lambda>s. s\<lparr>fs := f s\<rparr>))"
  by (auto simp: kp_def attr_eq_def)

lemma kp_user [kp_intros]: "kp s0 (change (\<lambda>s. s\<lparr>user := f s\<rparr>))"
  by (auto simp: kp_def attr_eq_def)

lemma attr_eq_dom: "attr_eq s s' \<Longrightarrow> dom (vnodes s') = dom (vnodes s)"
  by (auto simp: attr_eq_def) (metis map_option_is_None not_Some_eq)+

lemma keeps_kp: "\<lbrakk>keeps vs f; set vs \<subseteq> dom (vnodes s0)\<rbrakk> \<Longrightarrow> kp s0 f"
  unfolding kp_def keeps_def by (metis (mono_tags, lifting) attr_eq_dom attr_eq_trans wp_mono)


section \<open>The contract of a file system, continued\<close>

text \<open>
  What the calls on files and paths rely on besides \<open>fs_backend\<close>: an operation changes neither reference counts nor
  open files, and reading a directory brings its file closer to its end with every \<open>.\<close> and \<open>..\<close> returned.
\<close>

definition is_dots :: "string \<Rightarrow> bool" where
  "is_dots name \<longleftrightarrow> name = ''.'' \<or> name = ''..''"

locale fs_calls = fs_backend ops for ops :: "'fs fsops" +
  fixes dots_left :: "'fs \<Rightarrow> file_obj \<Rightarrow> nat"
  assumes inactive_frames: "frames (vop_inactive ops v)"
    and open_keeps: "keeps [v] (vop_open ops v fp)"
    and close_keeps: "keeps [v] (vop_close ops v fp)"
    and read_keeps: "keeps [v] (vop_read ops v fp uio flags)"
    and write_keeps: "keeps [v] (vop_write ops v uio flags)"
    and ioctl_keeps: "keeps [v] (vop_ioctl ops v fp com data)"
    and seek_keeps: "keeps [v] (vop_seek ops v fp old new)"
    and fsync_keeps: "keeps [v] (vop_fsync ops v fp)"
    and create_keeps: "keeps [v] (vop_create ops v name mode)"
    and remove_keeps: "keeps [v, w] (vop_remove ops v w name)"
    and rename_keeps: "keeps ([v, w, v'] @ (case w' of None \<Rightarrow> [] | Some x \<Rightarrow> [x])) (vop_rename ops v w name v' w' name')"
    and mkdir_keeps: "keeps [v] (vop_mkdir ops v name mode)"
    and rmdir_keeps: "keeps [v, w] (vop_rmdir ops v w name)"
    and getattr_keeps: "keeps [v] (vop_getattr ops v va)"
    and setattr_keeps: "keeps [v] (vop_setattr ops v va)"
    and truncate_keeps: "keeps [v] (vop_truncate ops v len)"
    and link_keeps: "keeps [v, w] (vop_link ops v w name)"
    and fallocate_keeps: "keeps [v] (vop_fallocate ops v fmode off len)"
    and symlink_keeps: "keeps [v] (vop_symlink ops v name target)"
    and statfs_keeps: "keeps [] (vfs_statfs ops mp)"
    and stop_polls_keeps: "keeps [] (file_stop_polls ops fp)"
    and file_read_keeps: "keeps [] (file_read ops fp uio flags)"
    and file_write_keeps: "keeps [] (file_write ops fp uio flags)"
    and file_ioctl_keeps: "keeps [] (file_ioctl ops fp com data)"
    and file_stat_keeps: "keeps [] (file_stat ops fp)"
    and file_close_keeps: "keeps [] (file_close ops fp)"
    and readdir_keeps: "\<lbrakk>v \<in> dom (vnodes s); files s fp = Some f\<rbrakk> \<Longrightarrow>
      wp (vop_readdir ops v fp) (\<lambda>r s'. attr_eq s s' \<and> (\<exists>f'. files s' fp = Some f' \<and>
        (case r of Inl e \<Rightarrow> e \<noteq> EACCES | Inr dir \<Rightarrow> is_dots (d_name dir) \<longrightarrow> dots_left (fs s') f' < dots_left (fs s) f))) s"
begin

lemmas frames_drele_ops = frames_drele [OF inactive_frames]

lemma keeps_frule:
  assumes "keeps vs f" "refs_ok R Z D V L s" "\<And>v. v \<in> set vs \<Longrightarrow> v \<in># V \<or> v \<in> snd ` set_mset D"
    "\<And>x s'. \<lbrakk>refs_ok R Z D V L s'; fcores s' = fcores s\<rbrakk> \<Longrightarrow> Q x s'"
  shows "wp f Q s"
proof (rule keepsD [OF assms(1,2)])
  show "set vs \<subseteq> dom (vnodes s)"
  proof
    fix v assume "v \<in> set vs"
    then have "v \<in># V \<or> v \<in> snd ` set_mset D" by (rule assms(3))
    then show "v \<in> dom (vnodes s)" by (rule refs_ok_live [OF assms(2)]) blast
  qed
qed (blast intro: assms(4) attr_eq_fcores)

lemma drele_frule:
  assumes "refs_ok R {} (add_mset (d, v) D) V L s" "held R D V L" "\<And>s'. \<lbrakk>refs_ok R {} D V L s'; fcores s' = fcores s\<rbrakk> \<Longrightarrow> Q () s'"
  shows "wp (drele ops d) Q s"
proof (rule wp_frames [OF _ frames_drele_ops])
  show "wp (drele ops d) (\<lambda>_ s'. refs_ok R {} D V L s') s" by (rule drele_ok [OF assms(1,2)])
qed (use assms(3) in simp)

end

text \<open>A file that may be used: it exists, and its entry is one of those referenced.\<close>

definition file_ok :: "(nat \<times> nat) multiset \<Rightarrow> 'fs vfs \<Rightarrow> nat \<Rightarrow> bool" where
  "file_ok D s fp \<longleftrightarrow> (\<exists>f. files s fp = Some f \<and> (f_type f = DTYPE_VNODE \<longrightarrow> f_dentry f \<noteq> None) \<and>
     (\<forall>d. f_dentry f = Some d \<longrightarrow> (\<exists>v. (d, v) \<in># D)))"

text \<open>The postcondition of a balanced call: all references are as before, all files too.\<close>

definition bal :: "nat set \<Rightarrow> (nat \<times> nat) multiset \<Rightarrow> nat multiset \<Rightarrow> nat multiset \<Rightarrow> 'fs vfs \<Rightarrow> 'a \<Rightarrow> 'fs vfs \<Rightarrow> bool" where
  "bal R D V L s0 x s \<longleftrightarrow> refs_ok R {} D V L s \<and> fcores s = fcores s0"

context fs_calls
begin

lemma with_file_vnode_rule:
  fixes s :: "'fs vfs"
  assumes ok: "refs_ok R {} D V L s" and dp: "(dp, v) \<in># D"
    and body: "\<And>s1. \<lbrakk>refs_ok R {} D V (add_mset v L) s1; files s1 = files s; fs s1 = fs s\<rbrakk> \<Longrightarrow>
      wp (body v) (\<lambda>r s2. refs_ok R {} D V (add_mset v L) s2 \<and> fcores s2 = fcores s) s1"
  shows "wp (with_file_vnode dp body) (bal R D V L s) s"
proof -
  have v: "v \<in># V \<or> v \<in> snd ` set_mset D" using dp by force
  show ?thesis
    unfolding with_file_vnode_def wp_bnd
    apply (rule deref_dentry_rule [OF ok dp])
    subgoal premises de for de
      unfolding de(2)
      apply (rule vn_lock_rule [OF ok v])
      apply (rule wp_mono [OF body], assumption, assumption, assumption)
      apply (erule conjE)
      apply (rule vn_unlock_rule, assumption)
      apply (simp add: bal_def fcores_def fun_eq_iff)
      done
    done
qed

lemma with_file_vnode_keeps:
  fixes s :: "'fs vfs"
  assumes ok: "refs_ok R {} D V L s" and dp: "(dp, v) \<in># D" and body: "keeps [v] (body v)"
  shows "wp (with_file_vnode dp body) (bal R D V L s) s"
proof (rule with_file_vnode_rule [OF ok dp])
  fix s1 :: "'fs vfs" assume "refs_ok R {} D V (add_mset v L) s1" "files s1 = files s"
  then show "wp (body v) (\<lambda>r s2. refs_ok R {} D V (add_mset v L) s2 \<and> fcores s2 = fcores s) s1"
    by (elim keeps_frule [OF body]) (use dp in \<open>force intro: fcores_files simp: fcores_def fun_eq_iff\<close>)+
qed

lemma file_okE:
  assumes "file_ok D s fp"
  obtains f where "files s fp = Some f" "f_dentry f = None" "f_type f \<noteq> DTYPE_VNODE"
  | f d v where "files s fp = Some f" "f_dentry f = Some d" "(d, v) \<in># D"
  using assms unfolding file_ok_def by (metis not_Some_eq)

lemma keeps_bal:
  assumes "keeps [] f" "refs_ok R {} D V L s"
  shows "wp f (bal R D V L s) s"
  by (rule keeps_frule [OF assms]) (simp_all add: bal_def)

lemma bal_ret: "refs_ok R {} D V L s \<Longrightarrow> wp (ret x) (bal R D V L s) s"
  by (simp add: bal_def)

lemma keeps_vn_stat: "keeps [v] (vn_stat ops v)"
  unfolding vn_stat_def
  by (intro kp_keeps kp_bnd [OF keeps_kp [OF getattr_keeps]] kp_deref_vnode kp_intros) simp_all

text \<open>Calls whose body is one operation on the locked vnode of the file.\<close>

lemma simple_file_calls:
  assumes ok: "refs_ok R {} D V L s" and fp: "file_ok D s fp"
  shows "wp (sys_ioctl ops fp com data) (bal R D V L s) s" "wp (sys_fsync ops fp) (bal R D V L s) s"
    "wp (sys_fstat ops fp) (bal R D V L s) s" "wp (sys_ftruncate ops fp len) (bal R D V L s) s"
  using fp
  by (cases rule: file_okE;
      auto simp: sys_ioctl_def sys_fsync_def sys_fstat_def sys_ftruncate_def vfs_file_ioctl_def vfs_file_stat_def
        intro!: bal_ret [OF ok, unfolded wp_ret] with_file_vnode_keeps [OF ok] ioctl_keeps fsync_keeps truncate_keeps keeps_vn_stat
          keeps_bal [OF file_ioctl_keeps ok] keeps_bal [OF file_stat_keeps ok])+

text \<open>Reading and writing: the operation on the locked vnode, then the new file offset.\<close>

lemma file_io_rule:
  fixes s :: "'fs vfs"
  assumes ok: "refs_ok R {} D V L s" and dp: "(dp, v) \<in># D" and oper: "keeps [v] oper" and f: "files s fp = Some f"
  shows "wp (vn_lock v) (\<lambda>_. wp oper (\<lambda>x. wp (bnd (if c x then bnd (deref files fp) (\<lambda>f'. set_file fp (f'\<lparr>f_offset := g x f'\<rparr>)) else ret ())
    (\<lambda>_. bnd (vn_unlock v) (\<lambda>_. ret (h x)))) (bal R D V L s))) s"
proof -
  have v: "v \<in># V \<or> v \<in> snd ` set_mset D" using dp by force
  have last: "wp (vn_unlock v) (\<lambda>_. bal R D V L s y) s2"
    if "refs_ok R {} D V (add_mset v L) s2" "fcores s2 = fcores s" for s2 :: "'fs vfs" and y :: 'c
    by (rule vn_unlock_rule [OF that(1)]) (use that(2) in \<open>simp add: bal_def fcores_def fun_eq_iff\<close>)
  show ?thesis
    apply (rule vn_lock_rule [OF ok v])
    apply (rule keeps_frule [OF oper], assumption, use v in simp)
    subgoal premises x for s1 x s2
    proof -
      have cores: "fcores s2 = fcores s" using x by (simp add: fcores_def fun_eq_iff)
      obtain f2 where f2: "files s2 fp = Some f2" by (rule fcoresE [OF cores f])
      have "fcores (s2\<lparr>files := (files s2)(fp \<mapsto> f2\<lparr>f_offset := g x f2\<rparr>)\<rparr>) = fcores s2"
        by (rule fcores_set_file [OF f2]) (simp add: fcore_def)
      then have upd: "fcores (s2\<lparr>files := (files s2)(fp \<mapsto> f2\<lparr>f_offset := g x f2\<rparr>)\<rparr>) = fcores s" using cores by simp
      show ?thesis using last [OF _ upd, of "h x"] last [OF _ cores, of "h x"] f2 x(5) by (cases "c x") simp_all
    qed
    done
qed

lemma read_write_calls:
  assumes ok: "refs_ok R {} D V L s" and fp: "file_ok D s fp"
  shows "wp (sys_read ops fp iov off) (bal R D V L s) s" "wp (sys_write ops fp iov off) (bal R D V L s) s"
proof -
  have special: "wp (bnd (file_read ops fp uio fl) (\<lambda>(error, uio'). ret (h error uio'))) (bal R D V L s) s"
    "wp (bnd (file_write ops fp uio fl) (\<lambda>(error, uio'). ret (h error uio'))) (bal R D V L s) s" for uio fl h
    unfolding wp_bnd by (rule keeps_frule [OF file_read_keeps ok] keeps_frule [OF file_write_keeps ok]; simp add: bal_def split: prod.splits)+
  have vnode: "wp (bnd (vfs_file_read ops fp uio fl) (\<lambda>(error, uio'). ret (h error uio'))) (bal R D V L s) s"
    "wp (bnd (vfs_file_write ops fp uio fl) (\<lambda>(error, uio'). ret (h error uio'))) (bal R D V L s) s"
    if f: "files s fp = Some f" "f_dentry f = Some d" "(d, v) \<in># D" for f d v uio fl h
  proof -
    obtain de where de: "dentries s d = Some de" "d_vnode de = v" by (rule refs_ok_dentry [OF ok f(3)])
    note unfolds = wp_bnd wp_deref wp_nonnull f(1,2) option.case Let_def de case_prod_unfold
    have "wp (vfs_file_read ops fp uio fl) (bal R D V L s) s"
      unfolding vfs_file_read_def unfolds by (rule file_io_rule [OF ok f(3) read_keeps f(1), unfolded wp_bnd])
    then show "wp (bnd (vfs_file_read ops fp uio fl) (\<lambda>(error, uio'). ret (h error uio'))) (bal R D V L s) s"
      unfolding wp_bnd by (rule wp_mono) (simp add: bal_def case_prod_unfold)
    have "wp (vfs_file_write ops fp uio fl) (bal R D V L s) s"
      unfolding vfs_file_write_def unfolds by (rule file_io_rule [OF ok f(3) write_keeps f(1), unfolded wp_bnd])
    then show "wp (bnd (vfs_file_write ops fp uio fl) (\<lambda>(error, uio'). ret (h error uio'))) (bal R D V L s) s"
      unfolding wp_bnd by (rule wp_mono) (simp add: bal_def case_prod_unfold)
  qed
  have "wp (sys_read ops fp iov off) (bal R D V L s) s \<and> wp (sys_write ops fp iov off) (bal R D V L s) s"
    using fp
  proof (cases rule: file_okE)
    case (1 f)
    then show ?thesis using ok
      by (auto simp: sys_read_def sys_write_def Let_def bal_def split: option.split intro: special [unfolded wp_bnd])
  next
    case (2 f d v)
    then show ?thesis using ok
      by (auto simp: sys_read_def sys_write_def Let_def bal_def split: option.split
        intro: vnode [OF 2, unfolded wp_bnd] special [unfolded wp_bnd])
  qed
  then show "wp (sys_read ops fp iov off) (bal R D V L s) s" "wp (sys_write ops fp iov off) (bal R D V L s) s" by simp_all
qed

text \<open>A body that may first read the vnode, and then either returns or runs an operation.\<close>

lemma locked_ret:
  assumes "refs_ok R {} D V (add_mset v L) s1" "fcores s1 = fcores s"
  shows "wp (ret x) (\<lambda>_ s2. refs_ok R {} D V (add_mset v L) s2 \<and> fcores s2 = fcores s) s1"
  using assms by simp

lemma locked_keeps:
  assumes s1: "refs_ok R {} D V (add_mset v L) s1" "fcores s1 = fcores s" and v: "v \<in># V \<or> v \<in> snd ` set_mset D"
    and f: "keeps vs f" "set vs \<subseteq> {v}"
  shows "wp f (\<lambda>_ s2. refs_ok R {} D V (add_mset v L) s2 \<and> fcores s2 = fcores s) s1"
  by (rule keeps_frule [OF f(1) s1(1)]) (use f(2) v s1(2) in auto)

lemma locked_deref:
  fixes s :: "'fs vfs"
  assumes s1: "refs_ok R {} D V (add_mset v L) s1" "fcores s1 = fcores s" and v: "v \<in># V \<or> v \<in> snd ` set_mset D"
    and g: "\<And>vn. vnodes s1 v = Some vn \<Longrightarrow> wp (g vn) (\<lambda>_ s2. refs_ok R {} D V (add_mset v L) s2 \<and> fcores s2 = fcores s) s1"
  shows "wp (bnd (deref vnodes v) g) (\<lambda>_ s2. refs_ok R {} D V (add_mset v L) s2 \<and> fcores s2 = fcores s) s1"
  unfolding wp_bnd by (rule deref_vnode_rule [OF s1(1) v]) (rule g)

lemma locked_offset:
  assumes "refs_ok R {} D V (add_mset v L) s1" "fcores s1 = fcores s" "files s1 fp = Some f" "fcore f' = fcore f"
  shows "wp (bnd (set_file fp f') (\<lambda>_. ret x)) (\<lambda>_ s2. refs_ok R {} D V (add_mset v L) s2 \<and> fcores s2 = fcores s) s1"
  using assms fcores_set_file [OF assms(3,4)] by simp

lemma lseek_call:
  assumes ok: "refs_ok R {} D V L s" and fp: "file_ok D s fp"
  shows "wp (sys_lseek ops fp off type) (bal R D V L s) s"
  using fp
proof (cases rule: file_okE)
  case (1 f)
  then show ?thesis using ok by (simp add: sys_lseek_def bal_def)
next
  case (2 f d v)
  have v: "v \<in># V \<or> v \<in> snd ` set_mset D" using 2 by force
  have "wp (vop_seek ops v fp old new) (\<lambda>error. wp (case error of Some e \<Rightarrow> ret (Inl e)
      | None \<Rightarrow> bnd (deref files fp) (\<lambda>f'. bnd (set_file fp (f'\<lparr>f_offset := new\<rparr>)) (\<lambda>_. ret (Inr new))))
      (\<lambda>_ s2. refs_ok R {} D V (add_mset v L) s2 \<and> fcores s2 = fcores s)) s1"
    if s1: "refs_ok R {} D V (add_mset v L) s1" "fcores s1 = fcores s" for s1 old new
  proof (rule keeps_frule [OF seek_keeps s1(1)])
    fix error and s2 :: "'fs vfs" assume s2: "refs_ok R {} D V (add_mset v L) s2" "fcores s2 = fcores s1"
    then have cores: "fcores s2 = fcores s" using s1 by simp
    obtain f2 where "files s2 fp = Some f2" by (rule fcoresE [OF cores 2(1)])
    then show "wp (case error of Some e \<Rightarrow> ret (Inl e)
      | None \<Rightarrow> bnd (deref files fp) (\<lambda>f'. bnd (set_file fp (f'\<lparr>f_offset := new\<rparr>)) (\<lambda>_. ret (Inr new))))
      (\<lambda>_ s2. refs_ok R {} D V (add_mset v L) s2 \<and> fcores s2 = fcores s) s2"
      using s2 cores locked_offset [OF s2(1) cores, of fp f2 "f2\<lparr>f_offset := new\<rparr>"] by (cases error) (simp_all add: fcore_def)
  qed (use v in simp)
  then show ?thesis
    unfolding sys_lseek_def wp_bnd wp_deref 2 option.case
    by (intro with_file_vnode_rule [OF ok 2(3)] locked_deref v)
       (auto simp: Let_def intro: locked_ret fcores_files)
qed

lemma directory_calls:
  assumes ok: "refs_ok R {} D V L s" and fp: "file_ok D s fp"
  shows "wp (sys_seekdir fp loc) (bal R D V L s) s" "wp (sys_rewinddir fp) (bal R D V L s) s"
    "wp (sys_telldir fp) (bal R D V L s) s" "wp (sys_fchdir fp) (bal R D V L s) s"
    "wp (sys_fstatfs ops fp) (bal R D V L s) s" "wp (sys_fallocate ops fp fmode loc len) (bal R D V L s) s"
proof -
  have "wp (sys_seekdir fp loc) (bal R D V L s) s \<and> wp (sys_rewinddir fp) (bal R D V L s) s \<and>
    wp (sys_telldir fp) (bal R D V L s) s \<and> wp (sys_fchdir fp) (bal R D V L s) s \<and>
    wp (sys_fstatfs ops fp) (bal R D V L s) s \<and> wp (sys_fallocate ops fp fmode loc len) (bal R D V L s) s"
    using fp
  proof (cases rule: file_okE)
    case (1 f)
    then show ?thesis using ok
      by (simp add: sys_seekdir_def sys_rewinddir_def sys_telldir_def sys_fchdir_def sys_fstatfs_def sys_fallocate_def bal_def)
  next
    case (2 f d v)
    have v: "v \<in># V \<or> v \<in> snd ` set_mset D" using 2 by force
    have offset: "wp (with_file_vnode d (\<lambda>dvp. bnd (deref vnodes dvp) (\<lambda>dvn. if v_type dvn \<noteq> VDIR then ret (Some EBADF)
        else bnd (set_file fp (f\<lparr>f_offset := n\<rparr>)) (\<lambda>_. ret None)))) (bal R D V L s) s" for n
      by (intro with_file_vnode_rule [OF ok 2(3)] locked_deref v)
         (use 2 in \<open>auto simp: fcore_def fcores_def fun_eq_iff\<close>)
    obtain de where de: "dentries s d = Some de" by (rule refs_ok_dentry [OF ok 2(3)])
    have "wp (sys_telldir fp) (bal R D V L s) s" "wp (sys_fchdir fp) (bal R D V L s) s"
      unfolding sys_telldir_def sys_fchdir_def wp_bnd wp_deref 2 option.case de
      by (intro with_file_vnode_rule [OF ok 2(3)] locked_deref v; auto intro: locked_ret fcores_files)+
    moreover have "wp (sys_fstatfs ops fp) (bal R D V L s) s"
      unfolding sys_fstatfs_def wp_bnd wp_deref 2 option.case
      by (intro with_file_vnode_rule [OF ok 2(3)] locked_deref v; auto intro: locked_keeps [OF _ _ v statfs_keeps] fcores_files)+
    moreover have "wp (sys_fallocate ops fp fmode loc len) (bal R D V L s) s"
    proof -
      have "wp (with_file_vnode d (\<lambda>vp. bnd (deref vnodes vp) (\<lambda>vn. if v_type vn \<noteq> VREG \<and> v_type vn \<noteq> VDIR then ret (Some ENODEV)
          else vop_fallocate ops vp (uint fmode) loc len))) (bal R D V L s) s"
        by (intro with_file_vnode_rule [OF ok 2(3)] locked_deref v)
           (auto intro: locked_ret locked_keeps [OF _ _ v fallocate_keeps] fcores_files)
      then show ?thesis unfolding sys_fallocate_def wp_bnd wp_deref 2 option.case using ok by (simp add: bal_def)
    qed
    ultimately show ?thesis using offset 2(1,2) by (simp add: sys_seekdir_def sys_rewinddir_def)
  qed
  then show "wp (sys_seekdir fp loc) (bal R D V L s) s" "wp (sys_rewinddir fp) (bal R D V L s) s"
    "wp (sys_telldir fp) (bal R D V L s) s" "wp (sys_fchdir fp) (bal R D V L s) s"
    "wp (sys_fstatfs ops fp) (bal R D V L s) s" "wp (sys_fallocate ops fp fmode loc len) (bal R D V L s) s" by simp_all
qed

subsection \<open>Reference counts of files\<close>

lemma close_file_rule:
  assumes ok: "refs_ok R {} (add_mset (d, v) D) V L s" and held: "held R D V L"
    and f: "files s fp = Some f" "f_type f = DTYPE_VNODE" "f_dentry f = Some d"
  shows "wp (close_file ops fp) (\<lambda>_. wp (delete_file ops fp) (\<lambda>_. refs_ok R {} D V L)) s"
proof -
  have v: "v \<in># V \<or> v \<in> snd ` set_mset (add_mset (d, v) D)" by simp
  have error: "wp (delete_file ops fp) (\<lambda>_. refs_ok R {} D V L) s1"
    if s1: "refs_ok R {} (add_mset (d, v) D) V L s1" "fcores s1 = fcores s" for s1
  proof -
    obtain f1 where f1: "files s1 fp = Some f1" "fcore f1 = fcore f" by (rule fcoresE [OF s1(2) f(1)])
    have "wp (drele ops d) (\<lambda>_ s'. refs_ok R {} D V L (s'\<lparr>files := (files s')(fp := None)\<rparr>)) s1"
      by (rule drele_ok [OF s1(1) held]) simp
    then show ?thesis using f1 f by (simp add: delete_file_def fcore_def)
  qed
  have fine: "wp (bnd (deref files fp) (\<lambda>f'. bnd (set_file fp (f'\<lparr>f_dentry := None\<rparr>)) (\<lambda>_. bnd (drele ops d) (\<lambda>_. ret (None :: errno option)))))
      (\<lambda>_. wp (delete_file ops fp) (\<lambda>_. refs_ok R {} D V L)) s1"
    if s1: "refs_ok R {} (add_mset (d, v) D) V L s1" "fcores s1 = fcores s" for s1
  proof -
    obtain f1 where f1: "files s1 fp = Some f1" "fcore f1 = fcore f" by (rule fcoresE [OF s1(2) f(1)])
    let ?s2 = "s1\<lparr>files := (files s1)(fp \<mapsto> f1\<lparr>f_dentry := None\<rparr>)\<rparr>"
    have "wp (drele ops d) (\<lambda>_. wp (delete_file ops fp) (\<lambda>_. refs_ok R {} D V L)) ?s2"
    proof (rule drele_frule [OF _ held])
      show "refs_ok R {} (add_mset (d, v) D) V L ?s2" using s1 by simp
      fix s3 :: "'fs vfs" assume s3: "refs_ok R {} D V L s3" "fcores s3 = fcores ?s2"
      have f2: "files ?s2 fp = Some (f1\<lparr>f_dentry := None\<rparr>)" by simp
      obtain f3 where f3: "files s3 fp = Some f3" "fcore f3 = fcore (f1\<lparr>f_dentry := None\<rparr>)" by (rule fcoresE [OF s3(2) f2])
      then have "f_dentry f3 = None" by (simp add: fcore_def)
      then show "wp (delete_file ops fp) (\<lambda>_. refs_ok R {} D V L) s3" using f3 s3 by (simp add: delete_file_def)
    qed
    then show ?thesis using f1 by simp
  qed
  have "wp (vfs_file_close ops fp) (\<lambda>_. wp (delete_file ops fp) (\<lambda>_. refs_ok R {} D V L)) s"
    unfolding vfs_file_close_def wp_bnd
    apply (simp only: wp_deref f option.case wp_nonnull)
    apply (rule deref_dentry_rule [OF ok, of d v, unfolded wp_deref], simp)
    subgoal premises de for de
      unfolding de(2)
      apply (rule vn_lock_rule [OF ok v])
      apply (rule keeps_frule [OF close_keeps], assumption, use v in simp)
      apply (rule vn_unlock_rule, assumption)
      subgoal premises x for s1 e s2 s3
      proof -
        have "fcores s3 = fcores s" using x by (simp add: fcores_def fun_eq_iff)
        then show ?thesis using error [of s3] fine [of s3] x by (cases e) (simp_all only: option.case wp_ret wp_bnd)
      qed
      done
    done
  then show ?thesis using f by (simp add: close_file_def)
qed

lemma fdrop_last:
  assumes ok: "refs_ok R {} (add_mset (d, v) D) V L s" and held: "held R D V L"
    and f: "files s fp = Some f" "f_type f = DTYPE_VNODE" "f_dentry f = Some d" "f_count f = 1"
    and Q: "\<And>s'. refs_ok R {} D V L s' \<Longrightarrow> Q True s'"
  shows "wp (fdrop ops fp) Q s"
proof -
  let ?f = "f\<lparr>f_count := INT_MIN\<rparr>" let ?s = "s\<lparr>files := (files s)(fp \<mapsto> ?f)\<rparr>"
  have f': "files ?s fp = Some ?f" by simp
  have "wp (file_stop_polls ops fp) (\<lambda>_. wp (close_file ops fp) (\<lambda>_. wp (delete_file ops fp) (\<lambda>_. Q True))) ?s"
  proof (rule keeps_frule [OF stop_polls_keeps])
    show "refs_ok R {} (add_mset (d, v) D) V L ?s" using ok by simp
    fix s1 :: "'fs vfs" assume s1: "refs_ok R {} (add_mset (d, v) D) V L s1" "fcores s1 = fcores ?s"
    obtain f1 where f1: "files s1 fp = Some f1" "fcore f1 = fcore ?f" by (rule fcoresE [OF s1(2) f'])
    have "wp (close_file ops fp) (\<lambda>_. wp (delete_file ops fp) (\<lambda>_. refs_ok R {} D V L)) s1"
      by (rule close_file_rule [OF s1(1) held f1(1)]) (use f f1(2) in \<open>simp_all add: fcore_def\<close>)
    then show "wp (close_file ops fp) (\<lambda>_. wp (delete_file ops fp) (\<lambda>_. Q True)) s1"
      by (elim wp_mono) (rule Q)
  qed simp
  then show ?thesis using f by (simp add: fdrop_def Let_def)
qed

lemma fdrop_shared:
  assumes "refs_ok R {} D V L s" "files s fp = Some f" "f_count f \<noteq> 1"
    "\<And>s'. \<lbrakk>refs_ok R {} D V L s'; s' = s\<lparr>files := (files s)(fp \<mapsto> f\<lparr>f_count := f_count f - 1\<rparr>)\<rparr>\<rbrakk> \<Longrightarrow> Q False s'"
  shows "wp (fdrop ops fp) Q s"
  using assms by (simp add: fdrop_def Let_def)

end

end
