(* ===== verification/Vfs_Syscalls.thy ===== *)
theory Vfs_Syscalls
  imports Vfs_File
begin

text \<open>
  The system calls that take a path, \<^verbatim>\<open>fs/vfs/vfs_syscalls.cc\<close>. A call returns the error number or 0
  (\<open>None\<close>); a call with an output parameter returns a sum. Paths are absolute, as \<open>task_conv\<close> produces
  them.
\<close>

section \<open>Opening files\<close>

definition O_ACCMODE :: u32 where "O_ACCMODE = 0x200003"

definition O_CREAT :: u32 where "O_CREAT = 0x40"

definition O_EXCL :: u32 where "O_EXCL = 0x80"

definition O_TRUNC :: u32 where "O_TRUNC = 0x200"

definition O_DIRECTORY :: u32 where "O_DIRECTORY = 0x10000"

definition O_NOFOLLOW :: u32 where "O_NOFOLLOW = 0x20000"

definition S_IFMT :: u32 where "S_IFMT = 0xF000"

definition S_IFREG :: u32 where "S_IFREG = 0x8000"

definition S_IFDIR :: u32 where "S_IFDIR = 0x4000"

definition S_IFIFO :: u32 where "S_IFIFO = 0x1000"

definition S_IFSOCK :: u32 where "S_IFSOCK = 0xC000"

definition fflags :: "u32 \<Rightarrow> u32" where
  "fflags oflags = ((oflags AND O_ACCMODE) + 1) OR (oflags AND NOT O_ACCMODE)"

text \<open>The pattern \<open>vn_lock (vp); ... vn_unlock (vp); drele (dp)\<close> of the handlers' exits.\<close>

definition unlock_drele :: "'fs fsops \<Rightarrow> nat \<Rightarrow> nat \<Rightarrow> 'a \<Rightarrow> ('a, 'fs) vm" where
  "unlock_drele ops vp dp r = bnd (vn_unlock vp) (\<lambda>_. bnd (drele ops dp) (\<lambda>_. ret r))"

definition open_no_follow_chk :: "'fs fsops \<Rightarrow> string \<Rightarrow> (errno option, 'fs) vm" where
  "open_no_follow_chk ops path =
     bnd (lookup ops path) (\<lambda>r.
     case r of
       Inl error \<Rightarrow> ret (Some error)
     | Inr (ddp, name) \<Rightarrow>
         bnd (namei_last_nofollow ops path ddp) (\<lambda>r.
         case r of
           Inl error \<Rightarrow> bnd (drele ops ddp) (\<lambda>_. ret (Some error))
         | Inr dp \<Rightarrow>
             bnd (deref dentries dp) (\<lambda>de.
             bnd (vn_lock (d_vnode de)) (\<lambda>_.
             bnd (deref vnodes (d_vnode de)) (\<lambda>vn.
             bnd (unlock_drele ops (d_vnode de) dp ()) (\<lambda>_.
             bnd (drele ops ddp) (\<lambda>_.
             ret (if v_type vn = VLNK then Some ELOOP else None))))))))"

text \<open>
  The end of \<open>sys_open\<close>, from \<open>vn_lock (vp)\<close> on. \<open>make_file\<close>, \<open>fhold\<close> and the end of the scope of the \<open>fileref\<close>
  leave the new file with one reference.
\<close>

definition new_file :: "u32 \<Rightarrow> nat \<Rightarrow> file_obj" where
  "new_file flags dp = \<lparr>f_flags = flags, f_count = 1, f_offset = 0, f_dentry = Some dp, f_type = DTYPE_VNODE\<rparr>"

definition open_file :: "'fs fsops \<Rightarrow> nat \<Rightarrow> nat \<Rightarrow> u32 \<Rightarrow> (errno + nat, 'fs) vm" where
  "open_file ops dp vp flags =
     bnd (vn_lock vp) (\<lambda>_.
     bnd (deref vnodes vp) (\<lambda>vn.
     bnd (if flags AND O_TRUNC = 0 then ret None
          else if flags AND FWRITE = 0 \<or> v_type vn = VDIR then ret (Some EINVAL)
          else vop_truncate ops vp 0) (\<lambda>error.
     case error of
       Some e \<Rightarrow> unlock_drele ops vp dp (Inl e)
     | None \<Rightarrow>
         bnd new_ptr (\<lambda>fp.
         bnd (set_file fp (new_file flags dp)) (\<lambda>_.
         bnd (vop_open ops vp fp) (\<lambda>error.
         case error of
           Some e \<Rightarrow>
             bnd (vn_unlock vp) (\<lambda>_.
             bnd (delete_file ops fp) (\<lambda>_.
             ret (Inl e)))
         | None \<Rightarrow> bnd (vn_unlock vp) (\<lambda>_. ret (Inr fp))))))))"

text \<open>The creation of a missing file: \<open>lookup\<close>, the access check, \<open>VOP_CREATE\<close> and the second \<open>namei\<close>.\<close>

definition open_create :: "'fs fsops \<Rightarrow> string \<Rightarrow> u32 \<Rightarrow> (errno + nat, 'fs) vm" where
  "open_create ops path mode =
     bnd (lookup ops path) (\<lambda>r.
     case r of
       Inl error \<Rightarrow> ret (Inl error)
     | Inr (ddp, filename) \<Rightarrow>
         bnd (deref dentries ddp) (\<lambda>dde.
         bnd (vn_lock (d_vnode dde)) (\<lambda>_.
         bnd (vn_access (d_vnode dde) VWRITE) (\<lambda>error.
         case error of
           Some e \<Rightarrow> unlock_drele ops (d_vnode dde) ddp (Inl e)
         | None \<Rightarrow>
             bnd (vop_create ops (d_vnode dde) filename (mode AND NOT S_IFMT OR S_IFREG)) (\<lambda>error.
             bnd (unlock_drele ops (d_vnode dde) ddp ()) (\<lambda>_.
             case error of
               Some e \<Rightarrow> ret (Inl e)
             | None \<Rightarrow>
                 bnd (namei ops path) (\<lambda>r.
                 case r of
                   Inl error \<Rightarrow> ret (Inl error)
                 | Inr dpp \<Rightarrow> bnd (nonnull dpp) (\<lambda>dp. ret (Inr dp)))))))))"

text \<open>The opening of an existing file: \<open>namei\<close> and the checks on the type.\<close>

definition open_existing :: "'fs fsops \<Rightarrow> string \<Rightarrow> u32 \<Rightarrow> (errno + nat, 'fs) vm" where
  "open_existing ops path flags =
     bnd (namei ops path) (\<lambda>r.
     case r of
       Inl error \<Rightarrow> ret (Inl error)
     | Inr dpp \<Rightarrow>
         bnd (nonnull dpp) (\<lambda>dp.
         bnd (deref dentries dp) (\<lambda>de.
         bnd (deref vnodes (d_vnode de)) (\<lambda>vn.
         bnd (if flags AND FWRITE \<noteq> 0 \<or> flags AND O_TRUNC \<noteq> 0 then
                bnd (vn_access (d_vnode de) VWRITE) (\<lambda>error.
                ret (if error = None \<and> v_type vn = VDIR then Some EISDIR else error))
              else ret None) (\<lambda>error.
         case error of
           Some e \<Rightarrow> bnd (drele ops dp) (\<lambda>_. ret (Inl e))
         | None \<Rightarrow>
             if flags AND O_DIRECTORY \<noteq> 0 \<and> v_type vn \<noteq> VDIR then bnd (drele ops dp) (\<lambda>_. ret (Inl ENOTDIR))
             else open_file ops dp (d_vnode de) flags)))))"

definition sys_open :: "'fs fsops \<Rightarrow> string \<Rightarrow> u32 \<Rightarrow> u32 \<Rightarrow> (errno + nat, 'fs) vm" where
  "sys_open ops path oflags mode =
     (let flags = fflags oflags in
      if flags AND O_CREAT \<noteq> 0 then
        bnd (namei ops path) (\<lambda>r.
        case r of
          Inl error \<Rightarrow>
            if error = ENOENT then
              bnd (open_create ops path mode) (\<lambda>r.
              case r of
                Inl error \<Rightarrow> ret (Inl error)
              | Inr dp \<Rightarrow>
                  bnd (deref dentries dp) (\<lambda>de.
                  open_file ops dp (d_vnode de) (flags AND NOT O_TRUNC AND NOT O_CREAT)))
            else ret (Inl error)
        | Inr dpp \<Rightarrow>
            bnd (nonnull dpp) (\<lambda>dp.
            if flags AND O_EXCL \<noteq> 0 then bnd (drele ops dp) (\<lambda>_. ret (Inl EEXIST))
            else bnd (deref dentries dp) (\<lambda>de. open_file ops dp (d_vnode de) (flags AND NOT O_CREAT))))
      else
        bnd (if flags AND O_NOFOLLOW \<noteq> 0 then open_no_follow_chk ops path else ret None) (\<lambda>error.
        case error of
          Some e \<Rightarrow> ret (Inl e)
        | None \<Rightarrow>
            open_existing ops path flags))"


section \<open>Directories\<close>

text \<open>
  The loop of \<open>check_dir_empty\<close>. \<open>name\<close> is the name that the last successful \<open>sys_readdir\<close> stored, which is compared also
  after \<open>EACCES\<close>; the result is the last error.
\<close>

partial_function (option) readdir_loop :: "'fs fsops \<Rightarrow> nat \<Rightarrow> string option \<Rightarrow> 'fs vfs \<Rightarrow> (fault + errno option \<times> 'fs vfs) option" where
  "readdir_loop ops fp name s =
     (case sys_readdir ops fp s of
        Inl e \<Rightarrow> Some (Inl e)
      | Inr r \<Rightarrow>
          (case fst r of
             Inl error \<Rightarrow>
               if error \<noteq> EACCES then Some (Inr (Some error, snd r))
               else (case name of
                       None \<Rightarrow> Some (Inl Uninitialised)
                     | Some n \<Rightarrow> if is_dots n then readdir_loop ops fp name (snd r) else Some (Inr (Some error, snd r)))
           | Inr dir \<Rightarrow> if is_dots (d_name dir) then readdir_loop ops fp (Some (d_name dir)) (snd r) else Some (Inr (None, snd r))))"

definition first_entry :: "'fs fsops \<Rightarrow> nat \<Rightarrow> (errno option, 'fs) vm" where
  "first_entry ops fp s = (case readdir_loop ops fp None s of None \<Rightarrow> Inl Diverges | Some r \<Rightarrow> r)"

definition check_dir_empty :: "'fs fsops \<Rightarrow> string \<Rightarrow> (errno option, 'fs) vm" where
  "check_dir_empty ops path =
     bnd (sys_open ops path 0 0) (\<lambda>r.
     case r of
       Inl error \<Rightarrow> ret (Some error)
     | Inr fp \<Rightarrow>
         bnd (first_entry ops fp) (\<lambda>error.
         bnd (fdrop ops fp) (\<lambda>_.
         ret (if error = Some ENOENT then None else if error = None then Some ENOTEMPTY else error))))"

text \<open>The end of \<open>sys_mkdir\<close> and \<open>sys_mknod\<close>: the parent directory, the access check and the creating operation.\<close>

definition create_in_parent :: "'fs fsops \<Rightarrow> string \<Rightarrow> (nat \<Rightarrow> string \<Rightarrow> (errno option, 'fs) vm) \<Rightarrow> (errno option, 'fs) vm" where
  "create_in_parent ops path create =
     bnd (lookup ops path) (\<lambda>r.
     case r of
       Inl error \<Rightarrow> ret (Some error)
     | Inr (ddp, name) \<Rightarrow>
         bnd (deref dentries ddp) (\<lambda>dde.
         bnd (vn_lock (d_vnode dde)) (\<lambda>_.
         bnd (vn_access (d_vnode dde) VWRITE) (\<lambda>error.
         bnd (case error of Some e \<Rightarrow> ret (Some e) | None \<Rightarrow> create (d_vnode dde) name) (\<lambda>error.
         unlock_drele ops (d_vnode dde) ddp error)))))"

definition sys_mkdir :: "'fs fsops \<Rightarrow> string \<Rightarrow> u32 \<Rightarrow> (errno option, 'fs) vm" where
  "sys_mkdir ops path mode =
     bnd (namei ops path) (\<lambda>r.
     case r of
       Inr dpp \<Rightarrow> bnd (nonnull dpp) (\<lambda>dp. bnd (drele ops dp) (\<lambda>_. ret (Some EEXIST)))
     | Inl _ \<Rightarrow> create_in_parent ops path (\<lambda>dvp name. vop_mkdir ops dvp name (mode AND NOT S_IFMT OR S_IFDIR)))"

definition sys_mknod :: "'fs fsops \<Rightarrow> string \<Rightarrow> u32 \<Rightarrow> (errno option, 'fs) vm" where
  "sys_mknod ops path mode =
     (if mode AND S_IFMT \<notin> {S_IFREG, S_IFDIR, S_IFIFO, S_IFSOCK} then ret (Some EINVAL)
      else
        bnd (namei ops path) (\<lambda>r.
        case r of
          Inr dpp \<Rightarrow> bnd (nonnull dpp) (\<lambda>dp. bnd (drele ops dp) (\<lambda>_. ret (Some EEXIST)))
        | Inl _ \<Rightarrow> create_in_parent ops path (\<lambda>dvp name.
            if mode AND S_IFMT = S_IFDIR then vop_mkdir ops dvp name mode else vop_create ops dvp name mode)))"

definition sys_rmdir :: "'fs fsops \<Rightarrow> string \<Rightarrow> (errno option, 'fs) vm" where
  "sys_rmdir ops path =
     bnd (check_dir_empty ops path) (\<lambda>error.
     case error of
       Some e \<Rightarrow> ret (Some e)
     | None \<Rightarrow>
         bnd (namei ops path) (\<lambda>r.
         case r of
           Inl error \<Rightarrow> ret (Some error)
         | Inr dpp \<Rightarrow>
             bnd (nonnull dpp) (\<lambda>dp.
             bnd (deref dentries dp) (\<lambda>de.
             let vp = d_vnode de in
             bnd (vn_lock vp) (\<lambda>_.
             bnd (vn_access vp VWRITE) (\<lambda>error.
             case error of
               Some e \<Rightarrow> unlock_drele ops vp dp (Some e)
             | None \<Rightarrow>
                 bnd (deref vnodes vp) (\<lambda>vn.
                 if v_type vn \<noteq> VDIR then unlock_drele ops vp dp (Some ENOTDIR)
                 else if v_flags vn AND VROOT \<noteq> 0 \<or> 2 \<le> v_refcnt vn then unlock_drele ops vp dp (Some EBUSY)
                 else
                   bnd (lookup ops path) (\<lambda>r.
                   case r of
                     Inl error \<Rightarrow> unlock_drele ops vp dp (Some error)
                   | Inr (ddp, name) \<Rightarrow>
                       bnd (deref dentries ddp) (\<lambda>dde.
                       bnd (vn_lock (d_vnode dde)) (\<lambda>_.
                       bnd (vop_rmdir ops (d_vnode dde) vp name) (\<lambda>error.
                       bnd (vn_unlock (d_vnode dde)) (\<lambda>_.
                       bnd (vn_unlock vp) (\<lambda>_.
                       bnd (dentry_remove dp) (\<lambda>_.
                       bnd (drele ops ddp) (\<lambda>_.
                       bnd (drele ops dp) (\<lambda>_.
                       ret error))))))))))))))))"


section \<open>Renaming\<close>

text \<open>Removing trailing slashes from a path other than the root; the flag tells whether there were any.\<close>

definition strip_slashes :: "string \<Rightarrow> string \<times> bool" where
  "strip_slashes path =
     (if has_trailing path slash \<and> length path \<noteq> 1 then (strip_trailing path slash, True) else (path, False))"

text \<open>The checks on the two names: \<open>Inl\<close> is the result of the call, \<open>Inr\<close> the last component of \<open>dest\<close>.\<close>

definition rename_names :: "string \<Rightarrow> string \<Rightarrow> errno option \<Rightarrow> errno option + string" where
  "rename_names src dest error =
     (let dest = (if dest \<noteq> [slash] then strip_trailing dest slash else dest);
          src = (if src \<noteq> [slash] then strip_trailing src slash else src)
      in if take path_max src = take path_max dest then Inl error
         else if is_parent src dest then Inl (Some EINVAL)
         else if slash \<notin> set dest then Inl (Some ENOTDIR)
         else Inr (after_last dest))"

text \<open>From the locking of the two directories to their unlocking; \<open>target\<close> is the existing destination.\<close>

definition rename_move :: "'fs fsops \<Rightarrow> nat \<Rightarrow> nat \<Rightarrow> nat \<Rightarrow> string \<Rightarrow> nat \<Rightarrow> (nat \<times> nat) option \<Rightarrow> string \<Rightarrow> (errno option, 'fs) vm" where
  "rename_move ops ddp1 dp1 vp1 sname ddp2 target dname =
     bnd (deref dentries ddp1) (\<lambda>dde1.
     bnd (vn_lock (d_vnode dde1)) (\<lambda>_.
     bnd (deref dentries ddp2) (\<lambda>dde2.
     bnd (vn_lock (d_vnode dde2)) (\<lambda>_.
     bnd (vn_access (d_vnode dde1) VWRITE) (\<lambda>error1.
     bnd (if error1 = None then vn_access (d_vnode dde2) VWRITE else ret error1) (\<lambda>error2.
     bnd (case error2 of
            Some e \<Rightarrow> ret (Some e)
          | None \<Rightarrow>
              bnd (deref vnodes (d_vnode dde1)) (\<lambda>dvn1.
              bnd (deref vnodes (d_vnode dde2)) (\<lambda>dvn2.
              if v_mount dvn1 \<noteq> v_mount dvn2 then ret (Some EXDEV)
              else
                bnd (vop_rename ops (d_vnode dde1) vp1 sname (d_vnode dde2) (map_option snd target) dname) (\<lambda>error.
                bnd (dentry_move ops dp1 (Some ddp2) dname) (\<lambda>_.
                bnd (case target of None \<Rightarrow> ret () | Some (dp2, vp2) \<Rightarrow> dentry_remove dp2) (\<lambda>_.
                ret error)))))) (\<lambda>error.
     bnd (vn_unlock (d_vnode dde2)) (\<lambda>_.
     bnd (vn_unlock (d_vnode dde1)) (\<lambda>_.
     ret error)))))))))"

text \<open>The checks on an existing destination.\<close>

definition rename_target_error :: "'fs fsops \<Rightarrow> vtype \<Rightarrow> vtype \<Rightarrow> bool \<Rightarrow> string \<Rightarrow> (errno option, 'fs) vm" where
  "rename_target_error ops type1 type2 ts dest =
     (if type2 \<noteq> VDIR \<and> type2 \<noteq> VLNK \<and> (type1 = VDIR \<or> ts) then ret (Some ENOTDIR)
      else if (type2 = VDIR \<or> type2 = VLNK) \<and> type1 \<noteq> VDIR \<and> type2 = VDIR then ret (Some EISDIR)
      else if type2 = VDIR then
        bnd (check_dir_empty ops dest) (\<lambda>error. ret (if error \<noteq> None then Some EEXIST else None))
      else ret None)"

text \<open>From \<open>lookup (dest)\<close> to the label \<open>err2\<close>, with the source entry \<open>dp1\<close> found and its vnode locked.\<close>

definition rename_to :: "'fs fsops \<Rightarrow> nat \<Rightarrow> nat \<Rightarrow> nat \<Rightarrow> string \<Rightarrow> string \<Rightarrow> string \<Rightarrow> bool \<Rightarrow> (errno option, 'fs) vm" where
  "rename_to ops ddp1 dp1 vp1 sname src dest ts =
     bnd (lookup ops dest) (\<lambda>r.
     case r of
       Inl error \<Rightarrow> ret (Some error)
     | Inr (ddp2, _) \<Rightarrow>
         bnd (namei_last_nofollow ops dest ddp2) (\<lambda>r.
         bnd (deref vnodes vp1) (\<lambda>vn1.
         bnd (case r of
                Inr dp2 \<Rightarrow>
                  bnd (deref dentries dp2) (\<lambda>de2.
                  let vp2 = d_vnode de2 in
                  bnd (vn_lock vp2) (\<lambda>_.
                  bnd (deref vnodes vp2) (\<lambda>vn2.
                  bnd (rename_target_error ops (v_type vn1) (v_type vn2) ts dest) (\<lambda>error.
                  bnd (case error of
                         Some e \<Rightarrow> ret (Some e)
                       | None \<Rightarrow> (case rename_names src dest None of
                           Inl error \<Rightarrow> ret error
                         | Inr dname \<Rightarrow> rename_move ops ddp1 dp1 vp1 sname ddp2 (Some (dp2, vp2)) dname)) (\<lambda>error.
                  unlock_drele ops vp2 dp2 error)))))
              | Inl error \<Rightarrow>
                  if error \<noteq> ENOENT then ret (Some error)
                  else if v_type vn1 \<noteq> VDIR \<and> ts then ret (Some ENOTDIR)
                  else (case rename_names src dest (Some ENOENT) of
                      Inl error \<Rightarrow> ret error
                    | Inr dname \<Rightarrow> rename_move ops ddp1 dp1 vp1 sname ddp2 None dname)) (\<lambda>error.
         bnd (drele ops ddp2) (\<lambda>_.
         ret error)))))"

definition sys_rename :: "'fs fsops \<Rightarrow> string \<Rightarrow> string \<Rightarrow> (errno option, 'fs) vm" where
  "sys_rename ops src dest =
     (let (src, ts) = strip_slashes src in
      bnd (lookup ops src) (\<lambda>r.
      case r of
        Inl error \<Rightarrow> ret (Some error)
      | Inr (ddp1, sname) \<Rightarrow>
          bnd (namei_last_nofollow ops src ddp1) (\<lambda>r.
          case r of
            Inl error \<Rightarrow> bnd (drele ops ddp1) (\<lambda>_. ret (Some error))
          | Inr dp1 \<Rightarrow>
              bnd (deref dentries dp1) (\<lambda>de1.
              let vp1 = d_vnode de1 in
              bnd (vn_lock vp1) (\<lambda>_.
              bnd (deref vnodes vp1) (\<lambda>vn1.
              bnd (if v_type vn1 \<noteq> VDIR \<and> ts then ret (Some ENOTDIR)
                   else let (dest, ts) = strip_slashes dest in rename_to ops ddp1 dp1 vp1 sname src dest ts) (\<lambda>error.
              bnd (unlock_drele ops vp1 dp1 ()) (\<lambda>_.
              bnd (drele ops ddp1) (\<lambda>_.
              ret error)))))))))"


section \<open>Links\<close>

definition task_conv :: "string \<Rightarrow> (errno + string, 'fs) vm" where
  "task_conv cpath =
     bnd (look t_cwd) (\<lambda>cwd.
     case path_conv cwd cpath of
       None \<Rightarrow> fail Out_of_bounds
     | Some r \<Rightarrow> ret r)"

definition sys_symlink :: "'fs fsops \<Rightarrow> string option \<Rightarrow> string option \<Rightarrow> (errno option, 'fs) vm" where
  "sys_symlink ops oldpath newpath =
     (case (oldpath, newpath) of
        (Some oldpath, Some newpath) \<Rightarrow>
          bnd (task_conv newpath) (\<lambda>r.
          case r of
            Inl error \<Rightarrow> ret (Some error)
          | Inr np \<Rightarrow>
              bnd (lookup ops np) (\<lambda>r.
              case r of
                Inl error \<Rightarrow> ret (Some ENOENT)
              | Inr (newdirdp, name) \<Rightarrow>
                  bnd (deref dentries newdirdp) (\<lambda>dde.
                  bnd (vn_lock (d_vnode dde)) (\<lambda>_.
                  bnd (namei_last_nofollow ops np newdirdp) (\<lambda>r.
                  bnd (case r of
                         Inr newdp \<Rightarrow> bnd (drele ops newdp) (\<lambda>_. ret (Some EEXIST))
                       | Inl _ \<Rightarrow>
                           bnd (vn_access (d_vnode dde) VWRITE) (\<lambda>error.
                           case error of
                             Some e \<Rightarrow> ret (Some e)
                           | None \<Rightarrow>
                               if path_max - 1 \<le> length oldpath then ret (Some ENAMETOOLONG)
                               else vop_symlink ops (d_vnode dde) name oldpath)) (\<lambda>error.
                  unlock_drele ops (d_vnode dde) newdirdp error))))))
      | _ \<Rightarrow> ret (Some EFAULT))"

text \<open>
  \<open>sys_link\<close> releases \<open>newdp\<close> on every path, also when nothing was stored in it; \<open>None\<close> is its uninitialised value.
\<close>

definition link_exit :: "'fs fsops \<Rightarrow> nat \<Rightarrow> nat \<Rightarrow> nat option \<Rightarrow> errno option \<Rightarrow> (errno option, 'fs) vm" where
  "link_exit ops vp olddp newdp error =
     bnd (unlock_drele ops vp olddp ()) (\<lambda>_.
     case newdp of
       None \<Rightarrow> fail Uninitialised
     | Some dp \<Rightarrow> bnd (drele ops dp) (\<lambda>_. ret error))"

definition sys_link :: "'fs fsops \<Rightarrow> string \<Rightarrow> string \<Rightarrow> (errno option, 'fs) vm" where
  "sys_link ops oldpath newpath =
     bnd (namei ops oldpath) (\<lambda>r.
     case r of
       Inl error \<Rightarrow> ret (Some error)
     | Inr dpp \<Rightarrow>
         bnd (nonnull dpp) (\<lambda>olddp.
         bnd (deref dentries olddp) (\<lambda>olde.
         let vp = d_vnode olde in
         bnd (vn_lock vp) (\<lambda>_.
         bnd (deref vnodes vp) (\<lambda>vn.
         if v_type vn = VDIR then link_exit ops vp olddp None (Some EPERM)
         else
           bnd (namei ops newpath) (\<lambda>r.
           case r of
             Inr newdpp \<Rightarrow> bnd (nonnull newdpp) (\<lambda>newdp. link_exit ops vp olddp (Some newdp) (Some EEXIST))
           | Inl _ \<Rightarrow>
               bnd (lookup ops newpath) (\<lambda>r.
               case r of
                 Inl error \<Rightarrow> link_exit ops vp olddp None (Some error)
               | Inr (newdirdp, name) \<Rightarrow>
                   bnd (deref dentries newdirdp) (\<lambda>dde.
                   bnd (vn_lock (d_vnode dde)) (\<lambda>_.
                   bnd (if d_mount olde \<noteq> d_mount dde then ret (None, Some EXDEV)
                        else
                          bnd (vn_access (d_vnode dde) VWRITE) (\<lambda>access.
                          if access \<noteq> None then ret (None, access)
                          else
                            bnd (dentry_alloc (Some newdirdp) vp newpath) (\<lambda>newdp.
                            bnd (vop_link ops (d_vnode dde) vp name) (\<lambda>error.
                            ret (Some newdp, error))))) (\<lambda>(newdp, error).
                   bnd (unlock_drele ops (d_vnode dde) newdirdp ()) (\<lambda>_.
                   link_exit ops vp olddp newdp error)))))))))))"

definition sys_unlink :: "'fs fsops \<Rightarrow> string \<Rightarrow> (errno option, 'fs) vm" where
  "sys_unlink ops path =
     bnd (lookup ops path) (\<lambda>r.
     case r of
       Inl error \<Rightarrow> ret (Some error)
     | Inr (ddp, name) \<Rightarrow>
         bnd (namei_last_nofollow ops path ddp) (\<lambda>r.
         case r of
           Inl error \<Rightarrow> bnd (drele ops ddp) (\<lambda>_. ret (Some error))
         | Inr dp \<Rightarrow>
             bnd (deref dentries dp) (\<lambda>de.
             let vp = d_vnode de in
             bnd (vn_lock vp) (\<lambda>_.
             bnd (deref vnodes vp) (\<lambda>vn.
             if v_type vn = VDIR then bnd (unlock_drele ops vp dp ()) (\<lambda>_. bnd (drele ops ddp) (\<lambda>_. ret (Some EISDIR)))
             else if v_flags vn AND VROOT \<noteq> 0 then bnd (unlock_drele ops vp dp ()) (\<lambda>_. bnd (drele ops ddp) (\<lambda>_. ret (Some EBUSY)))
             else
               bnd (deref dentries ddp) (\<lambda>dde.
               bnd (vn_lock (d_vnode dde)) (\<lambda>_.
               bnd (vn_access (d_vnode dde) VWRITE) (\<lambda>error.
               case error of
                 Some e \<Rightarrow>
                   bnd (vn_unlock (d_vnode dde)) (\<lambda>_.
                   bnd (unlock_drele ops vp dp ()) (\<lambda>_.
                   bnd (drele ops ddp) (\<lambda>_.
                   ret (Some e))))
               | None \<Rightarrow>
                   bnd (vop_remove ops (d_vnode dde) vp name) (\<lambda>error.
                   bnd (vn_unlock (d_vnode dde)) (\<lambda>_.
                   bnd (vn_unlock vp) (\<lambda>_.
                   bnd (dentry_remove dp) (\<lambda>_.
                   bnd (drele ops ddp) (\<lambda>_.
                   bnd (drele ops dp) (\<lambda>_.
                   ret error))))))))))))))"


section \<open>Attributes\<close>

definition sys_access :: "'fs fsops \<Rightarrow> string \<Rightarrow> u32 \<Rightarrow> (errno option, 'fs) vm" where
  "sys_access ops path mode =
     bnd (namei ops path) (\<lambda>r.
     case r of
       Inl error \<Rightarrow> ret (Some error)
     | Inr dpp \<Rightarrow>
         bnd (nonnull dpp) (\<lambda>dp.
         let flags = (if mode AND 4 \<noteq> 0 then VREAD else 0) OR (if mode AND 2 \<noteq> 0 then VWRITE else 0) OR
                     (if mode AND 1 \<noteq> 0 then VEXEC else 0) in
         bnd (deref dentries dp) (\<lambda>de.
         bnd (vn_access (d_vnode de) flags) (\<lambda>error.
         bnd (drele ops dp) (\<lambda>_.
         ret error)))))"

text \<open>
  \<open>namei\<close> of \<^verbatim>\<open>vfs.h\<close>: the null reference when the path does not exist, an exception for any other error. The
  reference is released at the end of the \<open>try\<close> block.
\<close>

definition sys_stat :: "'fs fsops \<Rightarrow> string \<Rightarrow> (errno + stat_buf, 'fs) vm" where
  "sys_stat ops path =
     bnd (namei ops path) (\<lambda>r.
     case r of
       Inl error \<Rightarrow> ret (Inl error)
     | Inr None \<Rightarrow> ret (Inl ENOENT)
     | Inr (Some dp) \<Rightarrow>
         bnd (deref dentries dp) (\<lambda>de.
         bnd (vn_stat ops (d_vnode de)) (\<lambda>r.
         bnd (drele ops dp) (\<lambda>_.
         ret r))))"

definition sys_lstat :: "'fs fsops \<Rightarrow> string \<Rightarrow> (errno + stat_buf, 'fs) vm" where
  "sys_lstat ops path =
     bnd (lookup ops path) (\<lambda>r.
     case r of
       Inl error \<Rightarrow> ret (Inl error)
     | Inr (ddp, name) \<Rightarrow>
         bnd (namei_last_nofollow ops path ddp) (\<lambda>r.
         case r of
           Inl error \<Rightarrow> bnd (drele ops ddp) (\<lambda>_. ret (Inl error))
         | Inr dp \<Rightarrow>
             bnd (deref dentries dp) (\<lambda>de.
             bnd (vn_stat ops (d_vnode de)) (\<lambda>r.
             bnd (drele ops dp) (\<lambda>_.
             bnd (drele ops ddp) (\<lambda>_.
             ret r))))))"

definition sys_statfs :: "'fs fsops \<Rightarrow> string \<Rightarrow> (errno option, 'fs) vm" where
  "sys_statfs ops path =
     bnd (namei ops path) (\<lambda>r.
     case r of
       Inl error \<Rightarrow> ret (Some error)
     | Inr None \<Rightarrow> ret (Some ENOENT)
     | Inr (Some dp) \<Rightarrow>
         bnd (deref dentries dp) (\<lambda>de.
         bnd (vfs_statfs ops (d_mount de)) (\<lambda>error.
         bnd (drele ops dp) (\<lambda>_.
         ret error))))"

definition sys_truncate :: "'fs fsops \<Rightarrow> string \<Rightarrow> int \<Rightarrow> (errno option, 'fs) vm" where
  "sys_truncate ops path len =
     bnd (namei ops path) (\<lambda>r.
     case r of
       Inl error \<Rightarrow> ret (Some error)
     | Inr dpp \<Rightarrow>
         bnd (nonnull dpp) (\<lambda>dp.
         bnd (deref dentries dp) (\<lambda>de.
         bnd (vn_lock (d_vnode de)) (\<lambda>_.
         bnd (vop_truncate ops (d_vnode de) len) (\<lambda>error.
         unlock_drele ops (d_vnode de) dp error)))))"

text \<open>\<open>VOP_READLINK\<close> moves the contents of the link, at most \<open>bufsize\<close> bytes, to the buffer; the result is their number.\<close>

definition char_bytes :: "string \<Rightarrow> byte list" where
  "char_bytes cs = map (\<lambda>c. Some (of_char c)) cs"

definition sys_readlink :: "'fs fsops \<Rightarrow> string \<Rightarrow> nat \<Rightarrow> nat \<Rightarrow> (errno + nat, 'fs) vm" where
  "sys_readlink ops path buf bufsize =
     bnd (lookup ops path) (\<lambda>r.
     case r of
       Inl error \<Rightarrow> ret (Inl error)
     | Inr (ddp, name) \<Rightarrow>
         bnd (namei_last_nofollow ops path ddp) (\<lambda>r.
         case r of
           Inl error \<Rightarrow> bnd (drele ops ddp) (\<lambda>_. ret (Inl error))
         | Inr dp \<Rightarrow>
             bnd (deref dentries dp) (\<lambda>de.
             bnd (deref vnodes (d_vnode de)) (\<lambda>vn.
             if v_type vn \<noteq> VLNK then bnd (drele ops dp) (\<lambda>_. bnd (drele ops ddp) (\<lambda>_. ret (Inl EINVAL)))
             else
               bnd (vn_lock (d_vnode de)) (\<lambda>_.
               bnd (vop_readlink ops (d_vnode de)) (\<lambda>r.
               bnd (case r of
                      Inl error \<Rightarrow> ret (Inl error)
                    | Inr lnk \<Rightarrow>
                        bnd (change (\<lambda>s. s\<lparr>user := mem_write (user s) buf (char_bytes (take bufsize lnk))\<rparr>)) (\<lambda>_.
                        ret (Inr (min bufsize (length lnk))))) (\<lambda>r.
               bnd (unlock_drele ops (d_vnode de) dp ()) (\<lambda>_.
               bnd (drele ops ddp) (\<lambda>_.
               ret r)))))))))"

type_synonym timespec = "int \<times> int"

definition is_timeval_valid :: "timespec \<Rightarrow> bool" where
  "is_timeval_valid t \<longleftrightarrow> 0 \<le> fst t \<and> 0 \<le> snd t \<and> snd t < 1000000"

text \<open>The time of \<open>clock_gettime\<close> is the argument \<open>now\<close>.\<close>

definition convert_timeval :: "timespec \<Rightarrow> timespec option \<Rightarrow> timespec" where
  "convert_timeval now from = (case from of Some t \<Rightarrow> (fst t, snd t * 1000) | None \<Rightarrow> now)"

definition AT_SYMLINK_NOFOLLOW :: u32 where "AT_SYMLINK_NOFOLLOW = 0x100"

definition sys_utimes :: "'fs fsops \<Rightarrow> timespec \<Rightarrow> string \<Rightarrow> (timespec \<times> timespec) option \<Rightarrow> u32 \<Rightarrow> (errno option, 'fs) vm" where
  "sys_utimes ops now path ts flags =
     (if (case ts of None \<Rightarrow> False | Some (t0, t1) \<Rightarrow> \<not> is_timeval_valid t0 \<or> \<not> is_timeval_valid t1) then ret (Some EINVAL)
      else
        bnd (if flags AND AT_SYMLINK_NOFOLLOW \<noteq> 0 then
               bnd (lookup ops path) (\<lambda>r.
               case r of
                 Inl error \<Rightarrow> ret (Inl error)
               | Inr (ddp, name) \<Rightarrow>
                   bnd (namei_last_nofollow ops path ddp) (\<lambda>r.
                   bnd (drele ops ddp) (\<lambda>_.
                   ret (map_sum id Some r))))
             else namei ops path) (\<lambda>r.
        case r of
          Inl error \<Rightarrow> ret (Some error)
        | Inr dpp \<Rightarrow>
            bnd (nonnull dpp) (\<lambda>dp.
            bnd (deref dentries dp) (\<lambda>de.
            bnd (deref mounts (d_mount de)) (\<lambda>me.
            bnd (if m_flags me AND MNT_RDONLY \<noteq> 0 then ret (Some EROFS)
                 else vn_settimes ops (d_vnode de)
                   (convert_timeval now (map_option fst ts), convert_timeval now (map_option snd ts))) (\<lambda>error.
            bnd (drele ops dp) (\<lambda>_.
            ret error)))))))"

definition is_timespec_valid :: "timespec \<Rightarrow> bool" where
  "is_timespec_valid t \<longleftrightarrow>
     0 \<le> fst t \<and> (0 \<le> snd t \<and> snd t \<le> 999999999 \<or> snd t = UTIME_NOW \<or> snd t = UTIME_OMIT)"

definition init_timespec :: "timespec \<Rightarrow> timespec option \<Rightarrow> timespec" where
  "init_timespec now ts = (case ts of None \<Rightarrow> now | Some t \<Rightarrow> if snd t = UTIME_NOW then now else t)"

fun vtype_num :: "vtype \<Rightarrow> u32" where
  "vtype_num VNON = 0"
| "vtype_num VREG = 1"
| "vtype_num VDIR = 2"
| "vtype_num VBLK = 3"
| "vtype_num VCHR = 4"
| "vtype_num VLNK = 5"
| "vtype_num VSOCK = 6"
| "vtype_num VFIFO = 7"
| "vtype_num VBAD = 8"

definition VAPPEND :: u32 where "VAPPEND = 8"

definition AT_FDCWD :: int where "AT_FDCWD = -100"

text \<open>The path that \<open>sys_utimensat\<close> hands to \<open>namei\<close>.\<close>

definition utimensat_path :: "'fs fsops \<Rightarrow> int \<Rightarrow> string option \<Rightarrow> (errno + string, 'fs) vm" where
  "utimensat_path ops dirfd pathname =
     (if (case pathname of Some p \<Rightarrow> p \<noteq> [] \<and> hd p = slash | None \<Rightarrow> False) then ret (Inr (the pathname))
      else if dirfd = AT_FDCWD then
        (case pathname of
           None \<Rightarrow> ret (Inl EFAULT)
         | Some p \<Rightarrow> bnd (look t_cwd) (\<lambda>cwd. ret (Inr (cwd @ [slash] @ p))))
      else
        bnd (fget dirfd) (\<lambda>r.
        case r of
          Inl _ \<Rightarrow> ret (Inl EBADF)
        | Inr fp \<Rightarrow>
            bnd (deref files fp) (\<lambda>f.
            bnd (case f_dentry f of
                   None \<Rightarrow> ret (Inl EBADF)
                 | Some dp \<Rightarrow>
                     bnd (deref dentries dp) (\<lambda>de.
                     bnd (deref vnodes (d_vnode de)) (\<lambda>vn.
                     if vtype_num (v_type vn) AND vtype_num VDIR = 0 then ret (Inl ENOTDIR)
                     else ret (Inr (case pathname of Some p \<Rightarrow> d_path de @ [slash] @ p | None \<Rightarrow> d_path de))))) (\<lambda>r.
            bnd (fdrop ops fp) (\<lambda>_.
            ret r)))))"

definition sys_utimensat :: "'fs fsops \<Rightarrow> timespec \<Rightarrow> int \<Rightarrow> string option \<Rightarrow> (timespec \<times> timespec) option \<Rightarrow> u32 \<Rightarrow> (errno option, 'fs) vm" where
  "sys_utimensat ops now dirfd pathname ts flags =
     (if pathname = Some [] then ret (Some ENOENT)
      else if flags \<noteq> 0 \<and> flags AND AT_SYMLINK_NOFOLLOW = 0 then ret (Some EINVAL)
      else if (case ts of None \<Rightarrow> False | Some (t0, t1) \<Rightarrow> \<not> is_timespec_valid t0 \<or> \<not> is_timespec_valid t1) then ret (Some EINVAL)
      else
        bnd (utimensat_path ops dirfd pathname) (\<lambda>r.
        case r of
          Inl error \<Rightarrow> ret (Some error)
        | Inr ap \<Rightarrow>
            bnd (namei ops ap) (\<lambda>r.
            case r of
              Inl error \<Rightarrow> ret (Some error)
            | Inr dpp \<Rightarrow>
                bnd (nonnull dpp) (\<lambda>dp.
                bnd (deref dentries dp) (\<lambda>de.
                bnd (deref mounts (d_mount de)) (\<lambda>me.
                if m_flags me AND MNT_RDONLY \<noteq> 0 then bnd (drele ops dp) (\<lambda>_. ret (Some EROFS))
                else
                  bnd (vn_access (d_vnode de) VWRITE) (\<lambda>error.
                  if error \<noteq> None then ret (Some EACCES)
                  else
                    bnd (deref vnodes (d_vnode de)) (\<lambda>vn.
                    if (case ts of
                          None \<Rightarrow> False
                        | Some (t0, t1) \<Rightarrow> (snd t0 \<noteq> UTIME_NOW \<or> snd t1 \<noteq> UTIME_NOW) \<and> (snd t0 \<noteq> UTIME_OMIT \<or> snd t1 \<noteq> UTIME_OMIT) \<and>
                            v_mode vn AND NOT VAPPEND = 0)
                    then ret (Some EPERM)
                    else
                      bnd (vn_settimes ops (d_vnode de)
                        (init_timespec now (map_option fst ts), init_timespec now (map_option snd ts))) (\<lambda>error.
                      bnd (drele ops dp) (\<lambda>_.
                      ret error))))))))))"

definition sys_futimens :: "'fs fsops \<Rightarrow> timespec \<Rightarrow> int \<Rightarrow> (timespec \<times> timespec) option \<Rightarrow> (errno option, 'fs) vm" where
  "sys_futimens ops now fd ts =
     bnd (fget fd) (\<lambda>r.
     case r of
       Inl _ \<Rightarrow> ret (Some EBADF)
     | Inr fp \<Rightarrow>
         bnd (deref files fp) (\<lambda>f.
         bnd (case f_dentry f of
                None \<Rightarrow> ret (Some EBADF)
              | Some dp \<Rightarrow> bnd (deref dentries dp) (\<lambda>de. sys_utimensat ops now AT_FDCWD (Some (d_path de)) ts 0)) (\<lambda>error.
         bnd (fdrop ops fp) (\<lambda>_.
         ret error))))"

definition sys_chmod :: "'fs fsops \<Rightarrow> string \<Rightarrow> u32 \<Rightarrow> (errno option, 'fs) vm" where
  "sys_chmod ops path mode =
     bnd (namei ops path) (\<lambda>r.
     case r of
       Inl error \<Rightarrow> ret (Some error)
     | Inr dpp \<Rightarrow>
         bnd (nonnull dpp) (\<lambda>dp.
         bnd (deref dentries dp) (\<lambda>de.
         bnd (deref mounts (d_mount de)) (\<lambda>me.
         bnd (if m_flags me AND MNT_RDONLY \<noteq> 0 then ret (Some EROFS) else vn_setmode ops (d_vnode de) mode) (\<lambda>error.
         bnd (drele ops dp) (\<lambda>_.
         ret error))))))"

definition sys_fchmod :: "'fs fsops \<Rightarrow> int \<Rightarrow> u32 \<Rightarrow> (errno option, 'fs) vm" where
  "sys_fchmod ops fd mode =
     bnd (fget fd) (\<lambda>r.
     case r of
       Inl _ \<Rightarrow> ret (Some EBADF)
     | Inr fp \<Rightarrow>
         bnd (deref files fp) (\<lambda>f.
         bnd (case f_dentry f of
                None \<Rightarrow> ret None
              | Some dp \<Rightarrow>
                  bnd (deref dentries dp) (\<lambda>de.
                  bnd (deref mounts (d_mount de)) (\<lambda>me.
                  if m_flags me AND MNT_RDONLY \<noteq> 0 then ret (Some EROFS) else vn_setmode ops (d_vnode de) mode))) (\<lambda>error.
         bnd (fdrop ops fp) (\<lambda>_.
         ret error))))"


section \<open>Calls on paths are balanced\<close>

context fs_calls
begin

lemma unlock_drele_rule:
  assumes "refs_ok R {} (add_mset (d, w) D) V (add_mset v L) s" "held R D V L" "\<And>s'. refs_ok R {} D V L s' \<Longrightarrow> Q r s'"
  shows "wp (unlock_drele ops v d r) Q s"
  unfolding unlock_drele_def wp_bnd
  apply (rule vn_unlock_rule [OF assms(1)])
  apply (rule drele_ok [OF _ assms(2)], assumption)
  apply (simp add: assms(3))
  done

lemma snd_member: "(d, v) \<in># D \<Longrightarrow> v \<in># V \<or> v \<in> snd ` set_mset D"
  by force

lemma open_file_rule:
  assumes ok: "refs_ok R {} (add_mset (d, v) D) V L s" and held: "held R D V L"
    and err: "\<And>e s'. refs_ok R {} D V L s' \<Longrightarrow> Q (Inl e) s'"
    and opened: "\<And>fp f s'. \<lbrakk>refs_ok R {} (add_mset (d, v) D) V L s'; files s' fp = Some f; fcore f = fcore (new_file flags d)\<rbrakk> \<Longrightarrow> Q (Inr fp) s'"
  shows "wp (open_file ops d v flags) Q s"
proof -
  let ?D = "add_mset (d, v) D"
  have v: "v \<in># V \<or> v \<in> snd ` set_mset ?D" by simp
  have make: "wp new_ptr (\<lambda>fp. wp (bnd (set_file fp (new_file flags d)) (\<lambda>_. bnd (vop_open ops v fp) (\<lambda>error. case error of
         None \<Rightarrow> bnd (vn_unlock v) (\<lambda>_. ret (Inr fp))
       | Some e \<Rightarrow> bnd (vn_unlock v) (\<lambda>_. bnd (delete_file ops fp) (\<lambda>_. ret (Inl e)))))) Q) s1"
    if s1: "refs_ok R {} ?D V (add_mset v L) s1" for s1
  proof -
    let ?fp = "next_ptr s1" and ?f = "new_file flags d"
    let ?s2 = "s1\<lparr>next_ptr := Suc ?fp, files := (files s1)(?fp \<mapsto> ?f)\<rparr>"
    have s2: "refs_ok R {} ?D V (add_mset v L) ?s2" by (rule refs_ok_frame [OF s1]) simp_all
    have f2: "files ?s2 ?fp = Some ?f" by simp
    have "wp (vop_open ops v ?fp) (\<lambda>error. wp (case error of None \<Rightarrow> bnd (vn_unlock v) (\<lambda>_. ret (Inr ?fp))
       | Some e \<Rightarrow> bnd (vn_unlock v) (\<lambda>_. bnd (delete_file ops ?fp) (\<lambda>_. ret (Inl e)))) Q) ?s2"
      apply (rule keeps_frule [OF open_keeps s2], use v in simp)
      subgoal premises x for error s3
      proof -
        obtain f3 where f3: "files s3 ?fp = Some f3" "fcore f3 = fcore ?f" by (rule fcoresE [OF x(2) f2])
        show ?thesis
        proof (cases error)
          case None
          have "wp (vn_unlock v) (\<lambda>_. Q (Inr ?fp)) s3"
            by (rule vn_unlock_rule [OF x(1)], rule opened [where f = f3]) (use f3 in simp_all)
          then show ?thesis using None by simp
        next
          case (Some e)
          have "wp (vn_unlock v) (\<lambda>_. wp (delete_file ops ?fp) (\<lambda>_. Q (Inl e))) s3"
          proof (rule vn_unlock_rule [OF x(1)])
            fix s4 :: "'fs vfs" assume s4: "refs_ok R {} ?D V L s4" "files s4 = files s3"
            have "wp (drele ops d) (\<lambda>_ s'. Q (Inl e) (s'\<lparr>files := (files s')(?fp := None)\<rparr>)) s4"
              by (rule drele_ok [OF s4(1) held], rule err) simp
            then show "wp (delete_file ops ?fp) (\<lambda>_. Q (Inl e)) s4"
              using s4 f3 by (simp add: delete_file_def fcore_def new_file_def)
          qed
          then show ?thesis using Some by simp
        qed
      qed
      done
    then show ?thesis by simp
  qed
  have fail: "wp (unlock_drele ops v d (Inl e)) Q s1" if "refs_ok R {} ?D V (add_mset v L) s1" for s1 e
    by (rule unlock_drele_rule [OF that held]) (rule err)
  have rest: "wp (case error of
       Some e \<Rightarrow> unlock_drele ops v d (Inl e)
     | None \<Rightarrow> bnd new_ptr (\<lambda>fp. bnd (set_file fp (new_file flags d)) (\<lambda>_. bnd (vop_open ops v fp) (\<lambda>error. case error of
         None \<Rightarrow> bnd (vn_unlock v) (\<lambda>_. ret (Inr fp))
       | Some e \<Rightarrow> bnd (vn_unlock v) (\<lambda>_. bnd (delete_file ops fp) (\<lambda>_. ret (Inl e))))))) Q s1"
    if "refs_ok R {} ?D V (add_mset v L) s1" for s1 error
    using make [OF that] fail [OF that] by (cases error) (simp_all only: option.case wp_bnd)
  show ?thesis
    unfolding open_file_def wp_bnd
    apply (rule vn_lock_rule [OF ok v])
    apply (rule deref_vnode_rule, assumption, rule v)
    subgoal premises x for s1 vn
      apply (cases "flags AND O_TRUNC = 0")
      subgoal by (simp only: refl if_True wp_ret) (rule rest [OF x(1)])
      apply (cases "flags AND FWRITE = 0 \<or> v_type vn = VDIR")
      subgoal by (simp only: if_True if_False wp_ret) (rule rest [OF x(1)])
      subgoal
        apply (simp only: if_False)
        apply (rule keeps_frule [OF truncate_keeps x(1)], use v in simp)
        by (rule rest)
      done
    done
qed

text \<open>The entry of a path's last component, with the references to it and to its directory.\<close>

lemma lookup_last_rule:
  assumes ok: "refs_ok R {} D V L s"
    and err1: "\<And>e s'. refs_ok R {} D V L s' \<Longrightarrow> wp (f1 e) Q s'"
    and err2: "\<And>ddp dv e s'. refs_ok R {} (add_mset (ddp, dv) D) V L s' \<Longrightarrow> wp (f2 ddp e) Q s'"
    and found: "\<And>ddp dv name dp v s'. refs_ok R {} (add_mset (dp, v) (add_mset (ddp, dv) D)) V L s' \<Longrightarrow> wp (g ddp name dp) Q s'"
  shows "wp (lookup ops path) (\<lambda>r. wp (case r of Inl e \<Rightarrow> f1 e | Inr (ddp, name) \<Rightarrow>
    bnd (namei_last_nofollow ops path ddp) (\<lambda>r. case r of Inl e \<Rightarrow> f2 ddp e | Inr dp \<Rightarrow> g ddp name dp)) Q) s"
  apply (rule lookup_path_rule [OF ok])
  subgoal by (simp only: sum.case) (rule err1)
  subgoal premises x for ddp dv name s1
    apply (simp only: sum.case prod.case wp_bnd)
    apply (rule namei_last_nofollow_rule [OF x(1), of ddp dv], simp)
    subgoal by (simp only: sum.case) (rule err2)
    subgoal by (simp only: sum.case) (rule found)
    done
  done

lemma drele_ret_rule:
  assumes "refs_ok R {} (add_mset (d, v) D) V L s" "held R D V L" "\<And>s'. refs_ok R {} D V L s' \<Longrightarrow> Q r s'"
  shows "wp (bnd (drele ops d) (\<lambda>_. ret r)) Q s"
  unfolding wp_bnd wp_ret by (rule drele_ok [OF assms])

lemma open_no_follow_chk_rule:
  assumes ok: "refs_ok R {} D V L s" and Q: "\<And>r s'. refs_ok R {} D V L s' \<Longrightarrow> Q r s'"
  shows "wp (open_no_follow_chk ops path) Q s"
proof -
  note held = refs_ok_held [OF ok]
  show ?thesis
    unfolding open_no_follow_chk_def wp_bnd
    apply (rule lookup_last_rule [OF ok])
    subgoal using Q by simp
    subgoal by (erule drele_ret_rule [OF _ held], rule Q)
    subgoal premises y for ddp dv name dp v s2
      unfolding wp_bnd
      apply (rule deref_dentry_rule [OF y(1), of dp v], simp)
      subgoal premises de for de
        unfolding de(2)
        apply (rule vn_lock_rule [OF y(1)], simp)
        apply (rule deref_vnode_rule, assumption, simp)
        apply (rule unlock_drele_rule, assumption, rule held_add_D [OF held])
        apply (rule drele_ok [OF _ held], assumption)
        by (simp add: Q)
      done
    done
qed

lemma open_create_rule:
  assumes ok: "refs_ok R {} D V L s"
    and err: "\<And>e s'. refs_ok R {} D V L s' \<Longrightarrow> Q (Inl e) s'"
    and found: "\<And>d v s'. refs_ok R {} (add_mset (d, v) D) V L s' \<Longrightarrow> Q (Inr d) s'"
  shows "wp (open_create ops path mode) Q s"
proof -
  note held = refs_ok_held [OF ok]
  show ?thesis
    unfolding open_create_def wp_bnd
    apply (rule lookup_path_rule [OF ok])
    subgoal using err by simp
    subgoal premises x for ddp dv name s1
      apply (simp only: sum.case prod.case wp_bnd)
      apply (rule deref_dentry_rule [OF x(1), of ddp dv], simp)
      subgoal premises de for de
        unfolding de(2)
        apply (rule vn_lock_rule [OF x(1)], simp)
        apply (rule vn_access_rule, assumption, simp)
        subgoal premises y for s2 error
          apply (cases error)
           prefer 2
          subgoal by (simp only: option.case) (rule unlock_drele_rule [OF y(1) held], rule err)
          apply (simp only: option.case wp_bnd)
          apply (rule keeps_frule [OF create_keeps y(1)], simp)
          apply (rule unlock_drele_rule [OF _ held], assumption)
          subgoal premises z for e s4 s5
            apply (cases e)
            subgoal
              apply (simp only: option.case wp_bnd)
              apply (rule namei_rule [OF z(4)])
              subgoal using err by simp
              subgoal using found by simp
              subgoal by simp
              done
            subgoal using err z by simp
            done
          done
        done
      done
    done
qed

lemma open_existing_rule:
  assumes ok: "refs_ok R {} D V L s"
    and err: "\<And>e s'. refs_ok R {} D V L s' \<Longrightarrow> Q (Inl e) s'"
    and opened: "\<And>fp f d v flags s'. \<lbrakk>refs_ok R {} (add_mset (d, v) D) V L s'; files s' fp = Some f; fcore f = fcore (new_file flags d)\<rbrakk> \<Longrightarrow> Q (Inr fp) s'"
  shows "wp (open_existing ops path flags) Q s"
proof -
  note held = refs_ok_held [OF ok]
  have check: "wp (if b then bnd (vn_access v VWRITE) (\<lambda>error. ret (h error)) else ret None) Q' s1"
    if "refs_ok R {} (add_mset (dp, v) D) V L s1" "\<And>error. Q' error s1" for dp v b h Q' s1
    using that(2) vn_access_rule [OF that(1), of v "\<lambda>error. Q' (h error)"] by (cases b) simp_all
  show ?thesis
    unfolding open_existing_def wp_bnd
    apply (rule namei_rule [OF ok])
    subgoal by (simp only: sum.case wp_ret) (rule err)
     prefer 2 subgoal by simp
    subgoal premises s1 for dp v s1
      apply (simp only: sum.case wp_bnd wp_nonnull option.case)
      apply (rule deref_dentry_rule [OF s1, of dp v], simp)
      subgoal premises de for de
        unfolding de(2)
        apply (rule deref_vnode_rule [OF s1], simp)
        apply (rule check [OF s1, unfolded wp_bnd])
        subgoal for vn error
          apply (cases error)
          subgoal
            apply (cases "flags AND O_DIRECTORY \<noteq> 0 \<and> v_type vn \<noteq> VDIR")
            subgoal by (simp only: option.case if_True simp_thms) (rule drele_ret_rule [OF s1 held], rule err)
            subgoal by (simp only: option.case if_False) (rule open_file_rule [OF s1 held]; (rule err opened; assumption))
            done
          subgoal by (simp only: option.case) (rule drele_ret_rule [OF s1 held], rule err)
          done
        done
      done
    done
qed

text \<open>\<open>sys_open\<close> returns a new file with one reference to its entry, or leaves all references as they were.\<close>

lemma sys_open_rule:
  assumes ok: "refs_ok R {} D V L s"
    and err: "\<And>e s'. refs_ok R {} D V L s' \<Longrightarrow> Q (Inl e) s'"
    and opened: "\<And>fp f d v flags s'. \<lbrakk>refs_ok R {} (add_mset (d, v) D) V L s'; files s' fp = Some f; fcore f = fcore (new_file flags d)\<rbrakk> \<Longrightarrow> Q (Inr fp) s'"
  shows "wp (sys_open ops path oflags mode) Q s"
proof -
  note held = refs_ok_held [OF ok]
  have open_dp: "wp (deref dentries dp) (\<lambda>de. wp (open_file ops dp (d_vnode de) flags) Q) s1"
    if s1: "refs_ok R {} (add_mset (dp, v) D) V L s1" for dp v s1 flags
  proof (rule deref_dentry_rule [OF s1, of dp v])
    fix de assume de: "d_vnode de = v"
    show "wp (open_file ops dp (d_vnode de) flags) Q s1"
      unfolding de by (rule open_file_rule [OF s1 held]; (rule err opened; assumption))
  qed simp
  show ?thesis
  proof (cases "fflags oflags AND O_CREAT \<noteq> 0")
    case True
    show ?thesis
      unfolding sys_open_def Let_def if_P [OF True] wp_bnd
      apply (rule namei_rule [OF ok])
      subgoal for error s1
        apply (cases "error = ENOENT")
        subgoal
          apply (simp only: sum.case if_True refl wp_bnd)
          apply (rule open_create_rule, assumption)
          subgoal by (simp only: sum.case wp_ret) (rule err)
          subgoal by (simp only: sum.case wp_bnd) (rule open_dp)
          done
        subgoal by (simp only: sum.case if_False wp_ret) (rule err)
        done
      subgoal for dp v s1
        apply (cases "fflags oflags AND O_EXCL \<noteq> 0")
        subgoal by (simp only: sum.case wp_bnd wp_nonnull option.case if_True simp_thms wp_ret) (erule drele_ok [OF _ held], rule err)
        subgoal by (simp only: sum.case wp_bnd wp_nonnull option.case if_False simp_thms) (rule open_dp)
        done
      subgoal by simp
      done
  next
    case False
    have rest: "wp (case error of Some e \<Rightarrow> ret (Inl e) | None \<Rightarrow> open_existing ops path (fflags oflags)) Q s1"
      if s1: "refs_ok R {} D V L s1" for error s1
    proof (cases error)
      case None
      show ?thesis unfolding None option.case by (rule open_existing_rule [OF s1]; (rule err opened; assumption))
    qed (simp add: err [OF s1])
    show ?thesis
      unfolding sys_open_def Let_def if_not_P [OF False] wp_bnd
      apply (cases "fflags oflags AND O_NOFOLLOW \<noteq> 0")
      subgoal by (simp only: if_True simp_thms) (rule open_no_follow_chk_rule [OF ok], rule rest)
      subgoal by (simp only: if_False simp_thms wp_ret) (rule rest [OF ok])
      done
  qed
qed

text \<open>
  The loop of \<open>check_dir_empty\<close> ends: as long as it goes on, \<open>dots_left\<close> decreases. \<open>EACCES\<close> does not occur under the contract.
\<close>

lemma sys_readdir_rule:
  assumes ok: "refs_ok R {} D V L s" and d: "(d, v) \<in># D" and f: "files s fp = Some f" "f_dentry f = Some d"
  shows "wp (sys_readdir ops fp) (\<lambda>r s'. refs_ok R {} D V L s' \<and> fcores s' = fcores s \<and>
    (case r of Inl e \<Rightarrow> e \<noteq> EACCES | Inr dir \<Rightarrow> is_dots (d_name dir) \<longrightarrow> dots_left (fs s') (the (files s' fp)) < dots_left (fs s) f)) s"
proof -
  have v: "v \<in># V \<or> v \<in> snd ` set_mset D" using d by force
  have main: "wp (vop_readdir ops v fp) (\<lambda>r s2. refs_ok R {} D V (add_mset v L) s2 \<and> fcores s2 = fcores s \<and>
      (case r of Inl e \<Rightarrow> e \<noteq> EACCES | Inr dir \<Rightarrow> is_dots (d_name dir) \<longrightarrow> dots_left (fs s2) (the (files s2 fp)) < dots_left (fs s) f)) s1"
    if s1: "refs_ok R {} D V (add_mset v L) s1" "files s1 = files s" "fs s1 = fs s" for s1
  proof -
    have "v \<in> dom (vnodes s1)" by (rule refs_ok_live [OF s1(1) v]) blast
    then have "wp (vop_readdir ops v fp) (\<lambda>r s'. attr_eq s1 s' \<and> (\<exists>f'. files s' fp = Some f' \<and>
        (case r of Inl e \<Rightarrow> e \<noteq> EACCES | Inr dir \<Rightarrow> is_dots (d_name dir) \<longrightarrow> dots_left (fs s') f' < dots_left (fs s1) f))) s1"
      using f(1) s1(2) by (intro readdir_keeps) simp_all
    then show ?thesis
    proof (rule wp_mono, elim conjE exE)
      fix r f' and s' :: "'fs vfs" assume a: "attr_eq s1 s'" "files s' fp = Some f'"
        "case r of Inl e \<Rightarrow> e \<noteq> EACCES | Inr dir \<Rightarrow> is_dots (d_name dir) \<longrightarrow> dots_left (fs s') f' < dots_left (fs s1) f"
      show "refs_ok R {} D V (add_mset v L) s' \<and> fcores s' = fcores s \<and>
        (case r of Inl e \<Rightarrow> e \<noteq> EACCES | Inr dir \<Rightarrow> is_dots (d_name dir) \<longrightarrow> dots_left (fs s') (the (files s' fp)) < dots_left (fs s) f)"
        using a s1 refs_ok_attr_eq [OF a(1) s1(1)] attr_eq_fcores [OF a(1)] fcores_files [OF s1(2)] by (simp split: sum.splits)
    qed
  qed
  show ?thesis
    unfolding sys_readdir_def with_file_vnode_def wp_bnd wp_deref f option.case
    apply (intro deref_dentry_rule [OF ok d, unfolded wp_deref])
    subgoal premises x for de
      unfolding x(2)
      apply (rule vn_lock_rule [OF ok v])
      apply (rule deref_vnode_rule [unfolded wp_deref], assumption, rule v)
      subgoal premises y for s1 vn
      proof -
        have unlock: "wp (vn_unlock v) (\<lambda>_ s'. refs_ok R {} D V L s' \<and> fcores s' = fcores s \<and>
            (case r of Inl e \<Rightarrow> e \<noteq> EACCES | Inr dir \<Rightarrow> is_dots (d_name dir) \<longrightarrow> dots_left (fs s') (the (files s' fp)) < dots_left (fs s) f)) s2"
          if "refs_ok R {} D V (add_mset v L) s2 \<and> fcores s2 = fcores s \<and>
            (case r of Inl e \<Rightarrow> e \<noteq> EACCES | Inr dir \<Rightarrow> is_dots (d_name dir) \<longrightarrow> dots_left (fs s2) (the (files s2 fp)) < dots_left (fs s) f)" for r s2
          using that by (elim conjE, intro vn_unlock_rule) (simp_all add: fcores_def fun_eq_iff split: sum.splits)
        show ?thesis
          apply (simp only: wp_ret)
          apply (cases "v_type vn = VDIR")
          subgoal by (simp only: simp_thms if_False) (rule wp_mono [OF main [OF y(1,3,4)]], rule unlock)
          subgoal by (simp only: simp_thms if_True wp_ret) (rule unlock, use y(1) fcores_files [OF y(3)] in simp)
          done
      qed
      done
    done
qed

lemma readdir_call:
  assumes ok: "refs_ok R {} D V L s" and fp: "file_ok D s fp"
  shows "wp (sys_readdir ops fp) (bal R D V L s) s"
  using fp
proof (cases rule: file_okE)
  case (1 f)
  then show ?thesis using ok by (simp add: sys_readdir_def bal_def)
next
  case (2 f d v)
  show ?thesis by (rule wp_mono [OF sys_readdir_rule [OF ok 2(3,1,2)]]) (simp add: bal_def)
qed

lemma readdir_loop_ok:
  assumes "refs_ok R {} D V L s" "(d, v) \<in># D" "files s fp = Some f" "f_dentry f = Some d"
  shows "\<exists>r. readdir_loop ops fp name s = Some r \<and>
    (case r of Inl e \<Rightarrow> excused e | Inr (_, s') \<Rightarrow> refs_ok R {} D V L s' \<and> fcores s' = fcores s)"
  using assms
proof (induction "dots_left (fs s) f" arbitrary: name s f rule: less_induct)
  case less
  note step = sys_readdir_rule [OF less.prems]
  show ?case
  proof (cases "sys_readdir ops fp s")
    case (Inl e)
    then show ?thesis using step by (subst readdir_loop.simps) (simp add: wp_def)
  next
    case (Inr x)
    obtain r s1 where x: "x = (r, s1)" by fastforce
    have s1: "refs_ok R {} D V L s1" "fcores s1 = fcores s" and
      r: "case r of Inl e \<Rightarrow> e \<noteq> EACCES | Inr dir \<Rightarrow> is_dots (d_name dir) \<longrightarrow> dots_left (fs s1) (the (files s1 fp)) < dots_left (fs s) f"
      using step Inr x by (simp_all add: wp_def)
    obtain f1 where f1: "files s1 fp = Some f1" "fcore f1 = fcore f" by (rule fcoresE [OF s1(2) less.prems(3)])
    then have d1: "f_dentry f1 = Some d" using less.prems(4) by (simp add: fcore_def)
    show ?thesis
    proof (cases r)
      case Inl
      then show ?thesis using Inr x r s1 by (subst readdir_loop.simps) simp
    next
      case dir: (Inr dir)
      show ?thesis
      proof (cases "is_dots (d_name dir)")
        case True
        then have "dots_left (fs s1) f1 < dots_left (fs s) f" using r dir f1 by simp
        note rec = less.hyps [OF this s1(1) less.prems(2) f1(1) d1, of "Some (d_name dir)", unfolded s1(2)]
        show ?thesis using Inr x dir True rec by (subst readdir_loop.simps) simp
      next
        case False
        then show ?thesis using Inr x dir s1 by (subst readdir_loop.simps) simp
      qed
    qed
  qed
qed

lemma first_entry_rule:
  assumes "refs_ok R {} D V L s" "(d, v) \<in># D" "files s fp = Some f" "f_dentry f = Some d"
    and Q: "\<And>e s'. \<lbrakk>refs_ok R {} D V L s'; fcores s' = fcores s\<rbrakk> \<Longrightarrow> Q e s'"
  shows "wp (first_entry ops fp) Q s"
proof -
  obtain r where "readdir_loop ops fp None s = Some r"
    "case r of Inl e \<Rightarrow> excused e | Inr (_, s') \<Rightarrow> refs_ok R {} D V L s' \<and> fcores s' = fcores s"
    using readdir_loop_ok [OF assms(1-4), of None] by blast
  then show ?thesis using Q by (auto simp: wp_def first_entry_def split: sum.splits)
qed

lemma check_dir_empty_rule:
  assumes ok: "refs_ok R {} D V L s" and Q: "\<And>e s'. refs_ok R {} D V L s' \<Longrightarrow> Q e s'"
  shows "wp (check_dir_empty ops path) Q s"
  unfolding check_dir_empty_def wp_bnd
  apply (rule sys_open_rule [OF ok])
  subgoal by (simp only: sum.case wp_ret) (rule Q)
  subgoal premises x for fp f d v flags s1
    apply (simp only: sum.case wp_bnd wp_ret)
    apply (rule first_entry_rule [OF x(1) _ x(2), of d v])
    subgoal by simp
    subgoal using x(3) by (simp add: fcore_def new_file_def)
    subgoal premises y for e s2
    proof -
      obtain f2 where f2: "files s2 fp = Some f2" "fcore f2 = fcore f" by (rule fcoresE [OF y(2) x(2)])
      show ?thesis
        by (rule fdrop_last [OF y(1) refs_ok_held [OF ok] f2(1)]) (use f2 x(3) Q in \<open>simp_all add: fcore_def new_file_def\<close>)
    qed
    done
  done

lemma create_in_parent_rule:
  assumes ok: "refs_ok R {} D V L s" and create: "\<And>v name. keeps [v] (create v name)" and Q: "\<And>e s'. refs_ok R {} D V L s' \<Longrightarrow> Q e s'"
  shows "wp (create_in_parent ops path create) Q s"
proof -
  note held = refs_ok_held [OF ok]
  show ?thesis
    unfolding create_in_parent_def wp_bnd
    apply (rule lookup_path_rule [OF ok])
    subgoal by (simp only: sum.case wp_ret) (rule Q)
    subgoal premises x for ddp dv name s1
      apply (simp only: sum.case prod.case wp_bnd)
      apply (rule deref_dentry_rule [OF x(1), of ddp dv], simp)
      subgoal premises de for de
        unfolding de(2)
        apply (rule vn_lock_rule [OF x(1)], simp)
        apply (rule vn_access_rule, assumption, simp)
        subgoal premises y for s2 error
          apply (cases error)
          subgoal
            apply (simp only: option.case)
            apply (rule keeps_frule [OF create y(1)], simp)
            apply (rule unlock_drele_rule [OF _ held], assumption)
            by (rule Q)
          subgoal
            apply (simp only: option.case wp_ret)
            apply (rule unlock_drele_rule [OF y(1) held])
            by (rule Q)
          done
        done
      done
    done
qed

text \<open>Calls that stop with \<open>EEXIST\<close> when the path exists, and go on otherwise.\<close>

lemma unless_exists_rule:
  assumes ok: "refs_ok R {} D V L s" and Q: "\<And>s'. refs_ok R {} D V L s' \<Longrightarrow> Q (Some EEXIST) s'"
    and f: "\<And>s'. refs_ok R {} D V L s' \<Longrightarrow> wp f Q s'"
  shows "wp (namei ops path) (\<lambda>r. wp (case r of Inl _ \<Rightarrow> f | Inr dpp \<Rightarrow> bnd (nonnull dpp) (\<lambda>dp. bnd (drele ops dp) (\<lambda>_. ret (Some EEXIST)))) Q) s"
  apply (rule namei_rule [OF ok])
  subgoal by (simp only: sum.case) (rule f)
  subgoal premises x for d v s1
    apply (simp only: sum.case wp_bnd wp_nonnull option.case wp_ret)
    by (rule drele_ok [OF x refs_ok_held [OF ok]], rule Q)
  subgoal by simp
  done

lemma mkdir_call:
  assumes ok: "refs_ok R {} D V L s"
  shows "wp (sys_mkdir ops path mode) (\<lambda>_. refs_ok R {} D V L) s"
  unfolding sys_mkdir_def wp_bnd
  by (rule unless_exists_rule [OF ok], assumption, rule create_in_parent_rule [OF _ mkdir_keeps])

lemma mknod_call:
  assumes ok: "refs_ok R {} D V L s"
  shows "wp (sys_mknod ops path mode) (\<lambda>_. refs_ok R {} D V L) s"
proof -
  have "keeps [v] (if mode AND S_IFMT = S_IFDIR then vop_mkdir ops v name mode else vop_create ops v name mode)" for v name
    using mkdir_keeps create_keeps by simp
  then have "wp (namei ops path) (\<lambda>r. wp (case r of
          Inl _ \<Rightarrow> create_in_parent ops path (\<lambda>dvp name.
            if mode AND S_IFMT = S_IFDIR then vop_mkdir ops dvp name mode else vop_create ops dvp name mode)
        | Inr dpp \<Rightarrow> bnd (nonnull dpp) (\<lambda>dp. bnd (drele ops dp) (\<lambda>_. ret (Some EEXIST)))) (\<lambda>_. refs_ok R {} D V L)) s"
    by (intro unless_exists_rule [OF ok]) (assumption | rule create_in_parent_rule)+
  then show ?thesis unfolding sys_mknod_def using ok by simp
qed

text \<open>Calls that look a path up with \<open>namei\<close>, use the entry and release it.\<close>

lemma namei_use_rule:
  assumes ok: "refs_ok R {} D V L s"
    and err: "\<And>e s'. refs_ok R {} D V L s' \<Longrightarrow> wp (f e) Q s'"
    and found: "\<And>d v de s'. \<lbrakk>refs_ok R {} (add_mset (d, v) D) V L s'; dentries s' d = Some de; d_vnode de = v; d_mount de \<in> dom (mounts s')\<rbrakk> \<Longrightarrow> wp (g d de) Q s'"
  shows "wp (namei ops path) (\<lambda>r. wp (case r of Inl e \<Rightarrow> f e | Inr dpp \<Rightarrow> bnd (nonnull dpp) (\<lambda>dp. bnd (deref dentries dp) (g dp))) Q) s"
  apply (rule namei_rule [OF ok])
  subgoal by (simp only: sum.case) (rule err)
  subgoal premises x for d v s1
    apply (simp only: sum.case wp_bnd wp_nonnull option.case)
    apply (rule deref_dentry_rule [OF x, of d v], simp)
    by (rule found [OF x])
  subgoal by simp
  done

lemma vn_setattr_rules:
  assumes ok: "refs_ok R {} D V L s" and v: "v \<in># V \<or> v \<in> snd ` set_mset D" and Q: "\<And>e s'. refs_ok R {} D V L s' \<Longrightarrow> Q e s'"
  shows "wp (vn_settimes ops v ts) Q s" "wp (vn_setmode ops v mode) Q s"
proof -
  show "wp (vn_settimes ops v ts) Q s"
    unfolding vn_settimes_def wp_bnd wp_ret
    apply (rule vn_lock_rule [OF ok v])
    apply (rule keeps_frule [OF setattr_keeps], assumption, use v in simp)
    by (rule vn_unlock_rule, assumption, rule Q)
  show "wp (vn_setmode ops v mode) Q s"
    unfolding vn_setmode_def wp_bnd wp_ret
    apply (rule vn_lock_rule [OF ok v])
    apply (rule deref_vnode_rule, assumption, rule v)
    subgoal premises x for s1 vn
      apply (simp only: wp_set_vnode)
      apply (rule keeps_frule [OF setattr_keeps, where R = R and Z = "{}" and D = D and V = V and L = "add_mset v L"])
      subgoal by (rule refs_ok_attr_eq [OF _ x(1)]) (use x(5) in \<open>auto simp: attr_eq_def core_def\<close>)
      subgoal using v by simp
      subgoal by (rule vn_unlock_rule, assumption, rule Q)
      done
    done
qed

lemma access_call:
  assumes ok: "refs_ok R {} D V L s"
  shows "wp (sys_access ops path mode) (\<lambda>_. refs_ok R {} D V L) s"
  unfolding sys_access_def wp_bnd Let_def
  apply (rule namei_use_rule [OF ok])
  subgoal by simp
  subgoal premises x for d v de s1
    unfolding wp_bnd x(3)
    apply (rule vn_access_rule [OF x(1)], simp)
    by (simp only: wp_ret) (rule drele_ok [OF x(1) refs_ok_held [OF ok]])
  done

lemma truncate_call:
  assumes ok: "refs_ok R {} D V L s"
  shows "wp (sys_truncate ops path len) (\<lambda>_. refs_ok R {} D V L) s"
  unfolding sys_truncate_def wp_bnd
  apply (rule namei_use_rule [OF ok])
  subgoal by simp
  subgoal premises x for d v de s1
    unfolding wp_bnd x(3)
    apply (rule vn_lock_rule [OF x(1)], simp)
    apply (rule keeps_frule [OF truncate_keeps], assumption, simp)
    by (rule unlock_drele_rule [OF _ refs_ok_held [OF ok]])
  done

lemma chmod_call:
  assumes ok: "refs_ok R {} D V L s"
  shows "wp (sys_chmod ops path mode) (\<lambda>_. refs_ok R {} D V L) s"
proof -
  have release: "wp (drele ops d) (\<lambda>_. refs_ok R {} D V L) s1" if "refs_ok R {} (add_mset (d, v) D) V L s1" for d v s1
    by (rule drele_ok [OF that refs_ok_held [OF ok]])
  show ?thesis
    unfolding sys_chmod_def wp_bnd
    apply (rule namei_use_rule [OF ok])
    subgoal by simp
    subgoal premises x for d v de s1
    proof -
      obtain me where "mounts s1 (d_mount de) = Some me" using x(4) by blast
      moreover have "wp (vn_setmode ops v mode) (\<lambda>_. wp (drele ops d) (\<lambda>_. refs_ok R {} D V L)) s1"
        by (rule vn_setattr_rules [OF x(1)], simp, rule release)
      ultimately show ?thesis using release [OF x(1)] x(3) by simp
    qed
    done
qed

lemma stat_release:
  assumes x: "refs_ok R {} (add_mset (d, v) D) V L s1" and held: "held R D V L"
  shows "wp (vn_stat ops v) (\<lambda>r. wp (drele ops d) (\<lambda>_. refs_ok R {} D V L)) s1"
  by (rule keeps_frule [OF keeps_vn_stat x], simp, rule drele_ok [OF _ held])

lemma stat_call:
  assumes ok: "refs_ok R {} D V L s"
  shows "wp (sys_stat ops path) (\<lambda>r s'. refs_ok R {} D V L s' \<or> r = Inl ENOENT \<and> (\<exists>d v. d \<in> R \<and> refs_ok R {} (add_mset (d, v) D) V L s')) s"
  unfolding sys_stat_def wp_bnd
  apply (rule namei_rule [OF ok])
  subgoal by simp
  subgoal premises x for d v s1
    apply (simp only: sum.case option.case wp_bnd wp_ret)
    apply (rule deref_dentry_rule [OF x, of d v], simp)
    subgoal premises de for de
      unfolding de(2) by (rule wp_mono [OF stat_release [OF x refs_ok_held [OF ok]]], erule wp_mono, simp)
    done
  subgoal by auto
  done

lemma lstat_call:
  assumes ok: "refs_ok R {} D V L s"
  shows "wp (sys_lstat ops path) (\<lambda>_. refs_ok R {} D V L) s"
proof -
  note held = refs_ok_held [OF ok]
  show ?thesis
    unfolding sys_lstat_def wp_bnd
    apply (rule lookup_last_rule [OF ok])
    subgoal by simp
    subgoal by (erule drele_ret_rule [OF _ held], assumption)
    subgoal premises y for ddp dv name dp v s2
      unfolding wp_bnd
      apply (rule deref_dentry_rule [OF y(1), of dp v], simp)
      subgoal premises de for de
        unfolding de(2) wp_ret
        apply (rule wp_mono [OF stat_release [OF y held_add_D [OF held]]])
        apply (erule wp_mono)
        by (rule drele_ok [OF _ held])
      done
    done
qed

text \<open>The end of \<open>sys_unlink\<close> and \<open>sys_rmdir\<close>.\<close>

lemma remove_exit:
  assumes ok: "refs_ok R {} (add_mset (ddp, dv) (add_mset (dp, v) D)) V (add_mset dv (add_mset v L)) s" and held: "held R D V L"
  shows "wp (vn_unlock dv) (\<lambda>_. wp (vn_unlock v) (\<lambda>_. wp (dentry_remove dp) (\<lambda>_. wp (drele ops ddp) (\<lambda>_. wp (drele ops dp) (\<lambda>_. refs_ok R {} D V L))))) s"
  apply (rule vn_unlock_rule [OF ok])
  apply (rule vn_unlock_rule, assumption)
  apply (rule dentry_remove_rule [where v = v], assumption, simp)
  apply (rule drele_ok [OF _ held_add_D [OF held]], assumption)
  by (rule drele_ok [OF _ held])

lemma unlink_call:
  assumes ok: "refs_ok R {} D V L s"
  shows "wp (sys_unlink ops path) (\<lambda>_. refs_ok R {} D V L) s"
proof -
  note held = refs_ok_held [OF ok]
  have release: "wp (unlock_drele ops v dp ()) (\<lambda>_. wp (bnd (drele ops ddp) (\<lambda>_. ret r)) (\<lambda>_. refs_ok R {} D V L)) s1"
    if "refs_ok R {} (add_mset (dp, v) (add_mset (ddp, dv) D)) V (add_mset v L) s1" for v dp ddp dv s1 and r :: "errno option"
    by (rule unlock_drele_rule [OF that held_add_D [OF held]], rule drele_ret_rule [OF _ held])
  show ?thesis
    unfolding sys_unlink_def wp_bnd
    apply (rule lookup_last_rule [OF ok])
    subgoal by simp
    subgoal by (erule drele_ret_rule [OF _ held], assumption)
    subgoal premises y for ddp dv name dp v s2
      unfolding wp_bnd Let_def
      apply (rule deref_dentry_rule [OF y(1), of dp v], simp)
      subgoal premises de for de
        unfolding de(2)
        apply (rule vn_lock_rule [OF y(1)], simp)
        apply (rule deref_vnode_rule, assumption, simp)
        subgoal premises x for s3 vn
          apply (cases "v_type vn = VDIR")
          subgoal by (simp only: if_True refl wp_bnd) (rule release [OF x(1), unfolded wp_bnd])
          apply (cases "v_flags vn AND VROOT \<noteq> 0")
          subgoal by (simp only: if_True if_False simp_thms wp_bnd) (rule release [OF x(1), unfolded wp_bnd])
          apply (simp only: if_False simp_thms wp_bnd)
          apply (rule deref_dentry_rule [OF x(1), of ddp dv], simp)
          subgoal premises dde for dde
            unfolding dde(4)
            apply (rule vn_lock_rule [OF x(1)], simp)
            apply (rule vn_access_rule, assumption, simp)
            subgoal premises z for s4 error
              apply (cases error)
              subgoal
                apply (simp only: option.case wp_bnd wp_ret)
                apply (rule keeps_frule [OF remove_keeps z(1)], auto)[1]
                by (simp only: add_mset_commute [of "(dp, v)"]) (rule remove_exit [OF _ held])
              subgoal
                apply (simp only: option.case wp_bnd wp_ret)
                apply (rule vn_unlock_rule [OF z(1)])
                by (rule release [unfolded wp_bnd wp_ret])
              done
            done
          done
        done
      done
    done
qed

lemma rmdir_call:
  assumes ok: "refs_ok R {} D V L s"
  shows "wp (sys_rmdir ops path) (\<lambda>_. refs_ok R {} D V L) s"
proof -
  note held = refs_ok_held [OF ok]
  have exit: "wp (unlock_drele ops v dp r) (\<lambda>_. refs_ok R {} D V L) s1"
    if "refs_ok R {} (add_mset (dp, v) D) V (add_mset v L) s1" for v dp s1 and r :: "errno option"
    by (rule unlock_drele_rule [OF that held])
  show ?thesis
    unfolding sys_rmdir_def wp_bnd Let_def
    apply (rule check_dir_empty_rule [OF ok])
    subgoal premises s1 for error s1
      apply (cases error)
       prefer 2
      subgoal using s1 by simp
      apply (simp only: option.case wp_bnd)
      apply (rule namei_use_rule [OF s1])
      subgoal by simp
      subgoal premises x for dp v de s2
        unfolding wp_bnd x(4)
        apply (rule vn_lock_rule [OF x(2)], simp)
        apply (rule vn_access_rule, assumption, simp)
        subgoal premises y for s3 e
          apply (cases e)
           prefer 2
          subgoal by (simp only: option.case) (rule exit [OF y(1)])
          apply (simp only: option.case wp_bnd)
          apply (rule deref_vnode_rule [OF y(1)], simp)
          subgoal for vn
            apply (cases "v_type vn \<noteq> VDIR")
            subgoal by (simp only: if_True simp_thms) (rule exit [OF y(1)])
            apply (cases "v_flags vn AND VROOT \<noteq> 0 \<or> 2 \<le> v_refcnt vn")
            subgoal by (simp only: if_True if_False simp_thms) (rule exit [OF y(1)])
            apply (simp only: if_False simp_thms wp_bnd)
            apply (rule lookup_path_rule [OF y(1)])
            subgoal by (simp only: sum.case) (rule exit)
            subgoal premises z for ddp dv name s4
              apply (simp only: sum.case prod.case wp_bnd wp_ret)
              apply (rule deref_dentry_rule [OF z(5), of ddp dv], simp)
              subgoal premises dde for dde
                unfolding dde(2)
                apply (rule vn_lock_rule [OF z(5)], simp)
                apply (rule keeps_frule [OF rmdir_keeps], assumption, force)
                by (rule remove_exit [OF _ held])
              done
            done
          done
        done
      done
    done
qed

lemma symlink_call:
  assumes ok: "refs_ok R {} D V L s"
  shows "wp (sys_symlink ops oldpath newpath) (\<lambda>_. refs_ok R {} D V L) s"
proof -
  note held = refs_ok_held [OF ok]
  have main: "wp (bnd (lookup ops np) (\<lambda>r. case r of
                Inl error \<Rightarrow> ret (Some ENOENT)
              | Inr (newdirdp, name) \<Rightarrow>
                  bnd (deref dentries newdirdp) (\<lambda>dde.
                  bnd (vn_lock (d_vnode dde)) (\<lambda>_.
                  bnd (namei_last_nofollow ops np newdirdp) (\<lambda>r.
                  bnd (case r of
                         Inr newdp \<Rightarrow> bnd (drele ops newdp) (\<lambda>_. ret (Some EEXIST))
                       | Inl _ \<Rightarrow>
                           bnd (vn_access (d_vnode dde) VWRITE) (\<lambda>error.
                           case error of
                             Some e \<Rightarrow> ret (Some e)
                           | None \<Rightarrow>
                               if path_max - 1 \<le> length old then ret (Some ENAMETOOLONG)
                               else vop_symlink ops (d_vnode dde) name old)) (\<lambda>error.
                  unlock_drele ops (d_vnode dde) newdirdp error)))))) (\<lambda>_. refs_ok R {} D V L) s" for np old
    unfolding wp_bnd
    apply (rule lookup_path_rule [OF ok])
    subgoal by simp
    subgoal premises x for ddp dv name s1
      apply (simp only: sum.case prod.case wp_bnd)
      apply (rule deref_dentry_rule [OF x(1), of ddp dv], simp)
      subgoal premises de for de
        unfolding de(2)
        apply (rule vn_lock_rule [OF x(1)], simp)
        subgoal premises s2 for s2
          apply (rule namei_last_nofollow_rule [OF s2(1), of ddp dv], simp)
          subgoal premises y for e s3
            apply (simp only: sum.case wp_bnd)
            apply (rule vn_access_rule [OF y], simp)
            subgoal for a
              apply (cases a)
               prefer 2
              subgoal by (simp only: option.case wp_ret) (rule unlock_drele_rule [OF y held])
              apply (cases "path_max - 1 \<le> length old")
              subgoal by (simp only: option.case if_True wp_ret) (rule unlock_drele_rule [OF y held])
              apply (simp only: option.case if_False)
              apply (rule keeps_frule [OF symlink_keeps y], simp)
              by (rule unlock_drele_rule [OF _ held])
            done
          subgoal premises y for d v s3
            apply (simp only: sum.case wp_bnd wp_ret)
            apply (rule drele_ok [OF y refs_ok_held [OF s2(1)]])
            by (rule unlock_drele_rule [OF _ held])
          done
        done
      done
    done
  show ?thesis
    using ok main by (auto simp: sys_symlink_def task_conv_def excused_def split: option.splits sum.splits)
qed

lemma statfs_call:
  assumes ok: "refs_ok R {} D V L s"
  shows "wp (sys_statfs ops path) (\<lambda>r s'. refs_ok R {} D V L s' \<or> r = Some ENOENT \<and> (\<exists>d v. d \<in> R \<and> refs_ok R {} (add_mset (d, v) D) V L s')) s"
  unfolding sys_statfs_def wp_bnd
  apply (rule namei_rule [OF ok])
  subgoal by simp
  subgoal premises x for d v s1
    apply (simp only: sum.case option.case wp_bnd wp_ret)
    apply (rule deref_dentry_rule [OF x, of d v], simp)
    apply (rule keeps_frule [OF statfs_keeps x], simp)
    by (rule drele_ok [OF _ refs_ok_held [OF ok]], assumption, rule disjI1)
  subgoal by auto
  done

lemma readlink_call:
  assumes ok: "refs_ok R {} D V L s"
  shows "wp (sys_readlink ops path buf n) (\<lambda>_. refs_ok R {} D V L) s"
proof -
  note held = refs_ok_held [OF ok]
  have exit: "wp (unlock_drele ops v dp ()) (\<lambda>_. wp (bnd (drele ops ddp) (\<lambda>_. ret r)) (\<lambda>_. refs_ok R {} D V L)) s1"
    if "refs_ok R {} (add_mset (dp, v) (add_mset (ddp, dv) D)) V (add_mset v L) s1" for v dp ddp dv s1 and r :: "errno + nat"
    by (rule unlock_drele_rule [OF that held_add_D [OF held]], rule drele_ret_rule [OF _ held])
  show ?thesis
    unfolding sys_readlink_def wp_bnd
    apply (rule lookup_last_rule [OF ok])
    subgoal by simp
    subgoal by (erule drele_ret_rule [OF _ held], assumption)
    subgoal premises y for ddp dv name dp v s2
      unfolding wp_bnd
      apply (rule deref_dentry_rule [OF y(1), of dp v], simp)
      subgoal premises de for de
        unfolding de(2)
        apply (rule deref_vnode_rule [OF y], simp)
        subgoal for vn
          apply (cases "v_type vn \<noteq> VLNK")
          subgoal
            apply (simp only: if_True simp_thms wp_bnd wp_ret)
            apply (rule drele_ok [OF y held_add_D [OF held]])
            by (rule drele_ok [OF _ held])
          apply (simp only: if_False simp_thms wp_bnd)
          apply (rule vn_lock_rule [OF y], simp)
          apply (rule keeps_frule [OF readlink_keeps], assumption, simp)
          subgoal premises z for s3 r s4
            apply (cases r)
            subgoal by (simp only: sum.case wp_ret) (rule exit [unfolded wp_bnd wp_ret], rule z)
            subgoal by (simp only: sum.case wp_bnd wp_change wp_ret) (rule exit [unfolded wp_bnd wp_ret], use z in simp)
            done
          done
        done
      done
    done
qed

text \<open>\<open>sys_utimes\<close>, with and without following the last link.\<close>

lemma utimes_call:
  assumes ok: "refs_ok R {} D V L s"
  shows "wp (sys_utimes ops now path ts flags) (\<lambda>_. refs_ok R {} D V L) s"
proof -
  note held = refs_ok_held [OF ok]
  have release: "wp (drele ops d) (\<lambda>_. refs_ok R {} D V L) s1" if "refs_ok R {} (add_mset (d, v) D) V L s1" for d v s1
    by (rule drele_ok [OF that held])
  have use: "wp (bnd (nonnull (Some d)) (\<lambda>dp. bnd (deref dentries dp) (\<lambda>de. bnd (deref mounts (d_mount de)) (\<lambda>me.
      bnd (if m_flags me AND MNT_RDONLY \<noteq> 0 then ret (Some EROFS) else vn_settimes ops (d_vnode de) t) (\<lambda>error.
      bnd (drele ops dp) (\<lambda>_. ret error)))))) (\<lambda>_. refs_ok R {} D V L) s1"
    if s1: "refs_ok R {} (add_mset (d, v) D) V L s1" for d v s1 t
    unfolding wp_bnd wp_nonnull option.case
    apply (rule deref_dentry_rule [OF s1, of d v], simp)
    subgoal premises de for de
    proof -
      obtain me where "mounts s1 (d_mount de) = Some me" using de(3) by blast
      moreover have "wp (vn_settimes ops v t) (\<lambda>_. wp (drele ops d) (\<lambda>_. refs_ok R {} D V L)) s1"
        by (rule vn_setattr_rules [OF s1], simp, rule release)
      ultimately show ?thesis using release [OF s1] de(2) by simp
    qed
    done
  have find: "wp (if b then bnd (lookup ops path) (\<lambda>r. case r of
                 Inl error \<Rightarrow> ret (Inl error)
               | Inr (ddp, name) \<Rightarrow> bnd (namei_last_nofollow ops path ddp) (\<lambda>r. bnd (drele ops ddp) (\<lambda>_. ret (map_sum id Some r))))
             else namei ops path) Q s"
    if Q: "\<And>e s'. refs_ok R {} D V L s' \<Longrightarrow> Q (Inl e) s'" "\<And>d v s'. refs_ok R {} (add_mset (d, v) D) V L s' \<Longrightarrow> Q (Inr (Some d)) s'"
      "\<And>s'. Q (Inr None) s'" for b Q
  proof (cases b)
    case True
    show ?thesis
      unfolding if_P [OF True] wp_bnd
      apply (rule lookup_path_rule [OF ok])
      subgoal using Q(1) by simp
      subgoal premises x for ddp dv name s1
        apply (simp only: sum.case prod.case wp_bnd wp_ret)
        apply (rule namei_last_nofollow_rule [OF x(1), of ddp dv], simp)
        subgoal by (rule drele_ok [OF _ held], assumption) (simp add: Q(1))
        subgoal premises y for d v s2
        proof -
          have "refs_ok R {} (add_mset (ddp, dv) (add_mset (d, v) D)) V L s2" using y by (simp add: add_mset_commute)
          then show ?thesis by (rule drele_ok [OF _ held_add_D [OF held]]) (simp add: Q(2))
        qed
        done
      done
  next
    case False
    show ?thesis unfolding if_not_P [OF False] by (rule namei_rule [OF ok]) (rule Q; assumption?)+
  qed
  have "wp (if flags AND AT_SYMLINK_NOFOLLOW \<noteq> 0 then bnd (lookup ops path) (\<lambda>r. case r of
                 Inl error \<Rightarrow> ret (Inl error)
               | Inr (ddp, name) \<Rightarrow> bnd (namei_last_nofollow ops path ddp) (\<lambda>r. bnd (drele ops ddp) (\<lambda>_. ret (map_sum id Some r))))
             else namei ops path) (\<lambda>r. wp (case r of
          Inl error \<Rightarrow> ret (Some error)
        | Inr dpp \<Rightarrow> bnd (nonnull dpp) (\<lambda>dp. bnd (deref dentries dp) (\<lambda>de. bnd (deref mounts (d_mount de)) (\<lambda>me.
            bnd (if m_flags me AND MNT_RDONLY \<noteq> 0 then ret (Some EROFS) else vn_settimes ops (d_vnode de) t) (\<lambda>error.
            bnd (drele ops dp) (\<lambda>_. ret error)))))) (\<lambda>_. refs_ok R {} D V L)) s" for t
    apply (rule find)
    subgoal by simp
    subgoal by (simp only: sum.case) (rule use)
    subgoal by simp
    done
  then show ?thesis unfolding sys_utimes_def using ok by (simp only: wp_bnd split: if_split) simp
qed

text \<open>\<open>sys_utimensat\<close> relative to the working directory: the two early returns keep the reference to the entry.\<close>

lemma utimensat_cwd_call:
  assumes ok: "refs_ok R {} D V L s"
  shows "wp (sys_utimensat ops now AT_FDCWD pathname ts flags)
    (\<lambda>r s'. refs_ok R {} D V L s' \<or> (r = Some EACCES \<or> r = Some EPERM) \<and> (\<exists>d v. refs_ok R {} (add_mset (d, v) D) V L s')) s" (is "wp _ ?Q s")
proof -
  define body where "body b t dp = bnd (deref dentries dp) (\<lambda>de. bnd (deref mounts (d_mount de)) (\<lambda>me.
      if m_flags me AND MNT_RDONLY \<noteq> 0 then bnd (drele ops dp) (\<lambda>_. ret (Some EROFS))
      else bnd (vn_access (d_vnode de) VWRITE) (\<lambda>error. if error \<noteq> None then ret (Some EACCES)
        else bnd (deref vnodes (d_vnode de)) (\<lambda>vn. if b vn then ret (Some EPERM)
          else bnd (vn_settimes ops (d_vnode de) t) (\<lambda>error. bnd (drele ops dp) (\<lambda>_. ret error))))))" for b t dp
  have release: "wp (drele ops d) (\<lambda>_. ?Q e) s1" if "refs_ok R {} (add_mset (d, v) D) V L s1" for d v s1 e
    by (rule drele_ok [OF that refs_ok_held [OF ok]]) (rule disjI1)
  have use: "wp (body b t d) ?Q s1" if s1: "refs_ok R {} (add_mset (d, v) D) V L s1" for d v s1 t b
    unfolding body_def wp_bnd
    apply (rule deref_dentry_rule [OF s1, of d v], simp)
    subgoal premises de for de
    proof -
      obtain me where me: "mounts s1 (d_mount de) = Some me" using de(3) by blast
      have "wp (vn_settimes ops v t) (\<lambda>e. wp (drele ops d) (\<lambda>_. ?Q e)) s1" by (rule vn_setattr_rules [OF s1], simp, rule release)
      then have "wp (deref vnodes v) (\<lambda>vn. wp (if b vn then ret (Some EPERM) else bnd (vn_settimes ops v t) (\<lambda>error. bnd (drele ops d) (\<lambda>_. ret error))) ?Q) s1"
        using s1 by (intro deref_vnode_rule [OF s1]) (auto simp: wp_bnd)
      then have "wp (vn_access v VWRITE) (\<lambda>error. wp (if error \<noteq> None then ret (Some EACCES)
          else bnd (deref vnodes v) (\<lambda>vn. if b vn then ret (Some EPERM) else bnd (vn_settimes ops v t) (\<lambda>error. bnd (drele ops d) (\<lambda>_. ret error)))) ?Q) s1"
        using s1 by (intro vn_access_rule [OF s1]) (auto simp: wp_bnd)
      then show ?thesis unfolding wp_deref me option.case de(2) using release [OF s1] by (simp only: wp_bnd wp_ret split: if_split) blast
    qed
    done
  have main: "wp (bnd (namei ops ap) (\<lambda>r. case r of Inl error \<Rightarrow> ret (Some error) | Inr dpp \<Rightarrow> bnd (nonnull dpp) (body b t))) ?Q s" for ap b t
    unfolding wp_bnd
    apply (rule namei_rule [OF ok])
    subgoal by simp
    subgoal by (simp only: sum.case wp_bnd wp_nonnull option.case) (rule use)
    subgoal by simp
    done
  have "wp (utimensat_path ops AT_FDCWD pathname) (\<lambda>r s'. s' = s) s"
    by (simp add: utimensat_path_def split: option.splits)
  then have path: "wp (utimensat_path ops AT_FDCWD pathname) (\<lambda>r. wp (case r of Inl error \<Rightarrow> ret (Some error)
      | Inr ap \<Rightarrow> bnd (namei ops ap) (\<lambda>r. case r of Inl error \<Rightarrow> ret (Some error) | Inr dpp \<Rightarrow> bnd (nonnull dpp) (body b t))) ?Q) s" for b t
    by (rule wp_mono) (use main ok in \<open>auto split: sum.splits\<close>)
  show ?thesis
    unfolding sys_utimensat_def body_def [symmetric] using ok path by (simp only: wp_bnd split: if_split) simp
qed

end

end
