(* ===== verification/Vfs_Mount.thy ===== *)
theory Vfs_Mount
  imports Vfs_Syscalls
begin

text \<open>
  Mounting, \<^verbatim>\<open>fs/vfs/vfs_mount.cc\<close>. The device layer is an argument: \<open>device_open\<close> says which device a name opens. Opening and
  closing a device changes no state of the virtual file system. The operations of the mounted file system are those of the record \<open>ops\<close>.
\<close>

section \<open>Definitions\<close>

definition FSMAXNAMES :: nat where "FSMAXNAMES = 16"

definition vfssw :: "string list" where
  "vfssw = [''ramfs'', ''devfs'', ''nfs'', ''procfs'', ''zfs'']"

definition fs_getfs :: "string \<Rightarrow> string option" where
  "fs_getfs name = find (\<lambda>vs_name. take FSMAXNAMES name = take FSMAXNAMES vs_name) vfssw"

text \<open>Is a mount on the list whose path is \<open>dir\<close> or whose device is \<open>device\<close>?\<close>

fun already_mounted :: "string \<Rightarrow> nat option \<Rightarrow> nat list \<Rightarrow> (bool, 'fs) vm" where
  "already_mounted dir device [] = ret False"
| "already_mounted dir device (mp # rest) =
     bnd (deref mounts mp) (\<lambda>me.
     if m_path me = dir \<or> device \<noteq> None \<and> m_dev me = device then ret True
     else already_mounted dir device rest)"

definition delete_mount :: "nat \<Rightarrow> (unit, 'fs) vm" where
  "delete_mount mp = change (\<lambda>s. s\<lparr>mounts := (mounts s)(mp := None)\<rparr>)"

definition S_IWUSR :: u32 where "S_IWUSR = 0x80"

text \<open>From the creation of the root vnode on: the labels \<open>err4\<close> and \<open>err3\<close> are the error exits.\<close>

definition mount_root :: "'fs fsops \<Rightarrow> nat \<Rightarrow> nat option \<Rightarrow> string \<Rightarrow> u32 \<Rightarrow> nat \<Rightarrow> (errno option, 'fs) vm" where
  "mount_root ops mp dp_covered dev flags data =
     (let err3 = (\<lambda>error. bnd (case dp_covered of None \<Rightarrow> ret () | Some dp \<Rightarrow> drele ops dp) (\<lambda>_.
                          bnd (delete_mount mp) (\<lambda>_.
                          ret (Some error)))) in
      bnd (vget (vfs_vget ops) mp 0) (\<lambda>r.
      case (case r of Vget_error _ \<Rightarrow> None | Vget_cached vp \<Rightarrow> Some vp | Vget_new vp \<Rightarrow> Some vp) of
        None \<Rightarrow> err3 ENOMEM
      | Some vp \<Rightarrow>
          bnd (deref vnodes vp) (\<lambda>vn.
          bnd (set_vnode vp (vn\<lparr>v_type := VDIR, v_flags := VROOT, v_mode := S_IFDIR OR 0x1C0\<rparr>)) (\<lambda>_.
          bnd (dentry_alloc None vp [slash]) (\<lambda>root.
          bnd (deref mounts mp) (\<lambda>me.
          bnd (set_mount mp (me\<lparr>m_root := Some root\<rparr>)) (\<lambda>_.
          bnd (vput ops vp) (\<lambda>_.
          bnd (vfs_mount ops mp dev flags data) (\<lambda>error.
          case error of
            Some e \<Rightarrow> bnd (drele ops root) (\<lambda>_. err3 e)
          | None \<Rightarrow>
              bnd (if flags AND MNT_RDONLY \<noteq> 0 then
                     bnd (deref vnodes vp) (\<lambda>vn. set_vnode vp (vn\<lparr>v_mode := v_mode vn AND NOT S_IWUSR\<rparr>))
                   else ret ()) (\<lambda>_.
              bnd (change (\<lambda>s. s\<lparr>mount_list := mount_list s @ [mp]\<rparr>)) (\<lambda>_.
              ret None)))))))))))"

definition sys_mount :: "'fs fsops \<Rightarrow> (string \<Rightarrow> nat option) \<Rightarrow> string option \<Rightarrow> string \<Rightarrow> string \<Rightarrow> u32 \<Rightarrow> nat \<Rightarrow> (errno option, 'fs) vm" where
  "sys_mount ops device_open dev dir fsname flags data =
     (if dir = [] then ret (Some ENOENT)
      else if fs_getfs fsname = None then ret (Some ENODEV)
      else
        let device = (case dev of None \<Rightarrow> None
                      | Some d \<Rightarrow> if take 5 d = ''/dev/'' then device_open (drop 5 d) else None) in
        bnd (look mount_list) (\<lambda>list.
        bnd (already_mounted dir device list) (\<lambda>busy.
        if busy then ret (Some EBUSY)
        else
          case dev of
            None \<Rightarrow> fail Null_pointer
          | Some d \<Rightarrow>
              bnd new_ptr (\<lambda>mp.
              bnd (set_mount mp \<lparr>m_flags = flags, m_count = 0, m_path = strlcpy path_max dir, m_special = strlcpy path_max d,
                m_dev = device, m_root = None, m_covered = None\<rparr>) (\<lambda>_.
              if dir = [slash] then mount_root ops mp None d flags data
              else
                bnd (namei ops dir) (\<lambda>r.
                case r of
                  Inl _ \<Rightarrow> bnd (delete_mount mp) (\<lambda>_. ret (Some ENOENT))
                | Inr dpp \<Rightarrow>
                    bnd (nonnull dpp) (\<lambda>dp.
                    bnd (deref dentries dp) (\<lambda>de.
                    bnd (deref vnodes (d_vnode de)) (\<lambda>vn.
                    if v_type vn \<noteq> VDIR then
                      bnd (drele ops dp) (\<lambda>_.
                      bnd (delete_mount mp) (\<lambda>_.
                      ret (Some ENOTDIR)))
                    else
                      bnd (deref mounts mp) (\<lambda>me.
                      bnd (set_mount mp (me\<lparr>m_covered := Some dp\<rparr>)) (\<lambda>_.
                      mount_root ops mp (Some dp) d flags data)))))))))))"

definition release_mp_dentries :: "'fs fsops \<Rightarrow> nat \<Rightarrow> (unit, 'fs) vm" where
  "release_mp_dentries ops mp =
     bnd (deref mounts mp) (\<lambda>me.
     bnd (case m_covered me of None \<Rightarrow> ret () | Some dp \<Rightarrow> drele ops dp) (\<lambda>_.
     bnd (nonnull (m_root me)) (\<lambda>root.
     drele ops root)))"

fun find_mount_path :: "string \<Rightarrow> nat list \<Rightarrow> (nat option, 'fs) vm" where
  "find_mount_path path [] = ret None"
| "find_mount_path path (mp # rest) =
     bnd (deref mounts mp) (\<lambda>me.
     if m_path me = path then ret (Some mp) else find_mount_path path rest)"

definition MNT_FORCE :: u32 where "MNT_FORCE = 1"

definition sys_umount2 :: "'fs fsops \<Rightarrow> string \<Rightarrow> u32 \<Rightarrow> (errno option, 'fs) vm" where
  "sys_umount2 ops path flags =
     (if path_max \<le> length path then ret (Some ENAMETOOLONG)
      else
        bnd (look mount_list) (\<lambda>list.
        bnd (find_mount_path path list) (\<lambda>found.
        case found of
          None \<Rightarrow> ret (Some EINVAL)
        | Some mp \<Rightarrow>
            bnd (deref mounts mp) (\<lambda>me.
            if m_covered me = None \<and> flags AND MNT_FORCE = 0 then ret (Some EINVAL)
            else
              bnd (vfs_unmount ops mp flags) (\<lambda>error.
              case error of
                Some e \<Rightarrow> ret (Some e)
              | None \<Rightarrow>
                  bnd (change (\<lambda>s. s\<lparr>mount_list := removeAll mp (mount_list s)\<rparr>)) (\<lambda>_.
                  bnd (delete_mount mp) (\<lambda>_.
                  ret None)))))))"

definition sys_umount :: "'fs fsops \<Rightarrow> string \<Rightarrow> (errno option, 'fs) vm" where
  "sys_umount ops path = sys_umount2 ops path 0"

text \<open>The loop of \<open>sys_pivot_root\<close> keeps the last mount with each of the two paths.\<close>

fun pivot_find :: "string \<Rightarrow> string \<Rightarrow> nat list \<Rightarrow> nat option \<times> nat option \<Rightarrow> (nat option \<times> nat option, 'fs) vm" where
  "pivot_find new_root put_old [] found = ret found"
| "pivot_find new_root put_old (mp # rest) found =
     bnd (deref mounts mp) (\<lambda>me.
     pivot_find new_root put_old rest
       (if m_path me = new_root then Some mp else fst found, if m_path me = put_old then Some mp else snd found))"

fun pivot_busy :: "nat \<Rightarrow> nat \<Rightarrow> string \<Rightarrow> nat list \<Rightarrow> (bool, 'fs) vm" where
  "pivot_busy newmp oldmp put_old [] = ret False"
| "pivot_busy newmp oldmp put_old (mp # rest) =
     (if mp = newmp \<or> mp = oldmp then pivot_busy newmp oldmp put_old rest
      else
        bnd (deref mounts mp) (\<lambda>me.
        if take (length put_old) (m_path me) = put_old then ret True else pivot_busy newmp oldmp put_old rest))"

definition sys_pivot_root :: "'fs fsops \<Rightarrow> string \<Rightarrow> string \<Rightarrow> (errno option, 'fs) vm" where
  "sys_pivot_root ops new_root put_old =
     bnd (look mount_list) (\<lambda>list.
     bnd (pivot_find new_root put_old list (None, None)) (\<lambda>found.
     case found of
       (Some newmp, Some oldmp) \<Rightarrow>
         if newmp = oldmp then ret (Some EINVAL)
         else
           bnd (pivot_busy newmp oldmp put_old list) (\<lambda>busy.
           if busy then ret (Some EBUSY)
           else
             bnd (vfs_unmount ops oldmp 0) (\<lambda>error.
             case error of
               Some e \<Rightarrow> ret (Some e)
             | None \<Rightarrow>
                 bnd (change (\<lambda>s. s\<lparr>mount_list := removeAll oldmp (mount_list s)\<rparr>)) (\<lambda>_.
                 bnd (deref mounts newmp) (\<lambda>me.
                 bnd (nonnull (m_root me)) (\<lambda>root.
                 bnd (deref dentries root) (\<lambda>rde.
                 bnd (deref vnodes (d_vnode rde)) (\<lambda>vn.
                 bnd (set_vnode (d_vnode rde) (vn\<lparr>v_mount := newmp\<rparr>)) (\<lambda>_.
                 bnd (case m_covered me of None \<Rightarrow> ret () | Some dp \<Rightarrow> drele ops dp) (\<lambda>_.
                 bnd (deref mounts newmp) (\<lambda>me.
                 bnd (set_mount newmp (me\<lparr>m_covered := None\<rparr>)) (\<lambda>_.
                 bnd (deref dentries root) (\<lambda>rde.
                 bnd (case d_parent rde of None \<Rightarrow> ret () | Some p \<Rightarrow> drele ops p) (\<lambda>_.
                 bnd (deref dentries root) (\<lambda>rde.
                 bnd (set_dentry root (rde\<lparr>d_parent := None\<rparr>)) (\<lambda>_.
                 bnd (deref mounts newmp) (\<lambda>me.
                 bnd (set_mount newmp (me\<lparr>m_path := [slash]\<rparr>)) (\<lambda>_.
                 ret None)))))))))))))))))
     | _ \<Rightarrow> ret (Some EINVAL)))"

end
