(* ===== verification/Ramfs.thy ===== *)
theory Ramfs
  imports Vfs_Mount Linked_List
begin

text \<open>
  The RAM file system, \<^verbatim>\<open>fs/ramfs/ramfs_vnops.cc\<close> and \<^verbatim>\<open>fs/ramfs/ramfs_vfsops.cc\<close>. Nodes live in a heap of their own and
  point to each other; a vnode's \<open>v_data\<close> is the address of its node, 0 being the null pointer. A dereference of a
  freed node or of the null pointer and a copy outside a buffer are the fault \<open>Fs_fault\<close>; so is a walk along a
  list of nodes that does not end within as many steps as nodes were ever allocated, which only a cyclic list
  can need. A byte of a buffer that was never written is \<open>None\<close>.
\<close>

section \<open>Definitions\<close>

record ramfs_node =
  rn_next :: "nat option"
  rn_child :: "nat option"
  rn_type :: vtype
  rn_name :: string
  rn_namelen :: nat
  rn_size :: int
  rn_buf :: "byte list option"
  rn_bufsize :: int

record ramfs =
  nodes :: "nat \<Rightarrow> ramfs_node option"
  brk :: nat
  inode_count :: u64

definition node :: "nat \<Rightarrow> (ramfs_node, ramfs) vm" where
  "node p = bnd (look (\<lambda>s. nodes (fs s) p)) (\<lambda>np. case np of None \<Rightarrow> fail Fs_fault | Some n \<Rightarrow> ret n)"

definition set_node :: "nat \<Rightarrow> ramfs_node \<Rightarrow> (unit, ramfs) vm" where
  "set_node p n = change (\<lambda>s. s\<lparr>fs := (fs s)\<lparr>nodes := (nodes (fs s))(p \<mapsto> n)\<rparr>\<rparr>)"

definition ramfs_allocate_node :: "string \<Rightarrow> vtype \<Rightarrow> (nat, ramfs) vm" where
  "ramfs_allocate_node name type =
     bnd (look (\<lambda>s. brk (fs s))) (\<lambda>np.
     bnd (change (\<lambda>s. s\<lparr>fs := (fs s)\<lparr>brk := Suc np\<rparr>\<rparr>)) (\<lambda>_.
     bnd (set_node np \<lparr>rn_next = None, rn_child = None, rn_type = type, rn_name = name, rn_namelen = length name,
       rn_size = 0, rn_buf = None, rn_bufsize = 0\<rparr>) (\<lambda>_.
     ret np)))"

definition ramfs_free_node :: "nat \<Rightarrow> (unit, ramfs) vm" where
  "ramfs_free_node np =
     bnd (node np) (\<lambda>_.
     change (\<lambda>s. s\<lparr>fs := (fs s)\<lparr>nodes := (nodes (fs s))(np := None)\<rparr>\<rparr>))"

text \<open>The loops over the children of a directory. The first argument bounds their length.\<close>

fun last_child :: "nat \<Rightarrow> (nat \<Rightarrow> ramfs_node option) \<Rightarrow> nat \<Rightarrow> nat option" where
  "last_child 0 heap prev = None"
| "last_child (Suc k) heap prev =
     (case heap prev of
        None \<Rightarrow> None
      | Some n \<Rightarrow> (case rn_next n of None \<Rightarrow> Some prev | Some p \<Rightarrow> last_child k heap p))"

fun find_prev :: "nat \<Rightarrow> (nat \<Rightarrow> ramfs_node option) \<Rightarrow> nat \<Rightarrow> nat \<Rightarrow> (errno + nat) option" where
  "find_prev 0 heap np prev = None"
| "find_prev (Suc k) heap np prev =
     (case heap prev of
        None \<Rightarrow> None
      | Some n \<Rightarrow>
          if rn_next n = Some np then Some (Inr prev)
          else (case rn_next n of None \<Rightarrow> Some (Inl ENOENT) | Some p \<Rightarrow> find_prev k heap np p))"

fun find_child :: "nat \<Rightarrow> (nat \<Rightarrow> ramfs_node option) \<Rightarrow> string \<Rightarrow> nat option \<Rightarrow> nat option option" where
  "find_child 0 heap name p = None"
| "find_child (Suc k) heap name None = Some None"
| "find_child (Suc k) heap name (Some np) =
     (case heap np of
        None \<Rightarrow> None
      | Some n \<Rightarrow> if rn_namelen n = length name \<and> rn_name n = name then Some (Some np) else find_child k heap name (rn_next n))"

fun nth_child :: "nat \<Rightarrow> (nat \<Rightarrow> ramfs_node option) \<Rightarrow> int \<Rightarrow> nat \<Rightarrow> nat option option" where
  "nth_child 0 heap i np = None"
| "nth_child (Suc k) heap i np =
     (if i = 0 then Some (Some np)
      else (case heap np of
              None \<Rightarrow> None
            | Some n \<Rightarrow> (case rn_next n of None \<Rightarrow> Some None | Some p \<Rightarrow> nth_child k heap (i - 1) p)))"

text \<open>Run one of these loops on the nodes of the state.\<close>

definition walk_nodes :: "(nat \<Rightarrow> (nat \<Rightarrow> ramfs_node option) \<Rightarrow> 'a option) \<Rightarrow> ('a, ramfs) vm" where
  "walk_nodes loop =
     bnd (look (\<lambda>s. loop (Suc (brk (fs s))) (nodes (fs s)))) (\<lambda>r.
     case r of None \<Rightarrow> fail Fs_fault | Some x \<Rightarrow> ret x)"

definition ramfs_add_node :: "nat \<Rightarrow> string \<Rightarrow> vtype \<Rightarrow> (nat, ramfs) vm" where
  "ramfs_add_node dnp name type =
     bnd (ramfs_allocate_node name type) (\<lambda>np.
     bnd (node dnp) (\<lambda>dn.
     bnd (case rn_child dn of
            None \<Rightarrow> set_node dnp (dn\<lparr>rn_child := Some np\<rparr>)
          | Some c \<Rightarrow>
              bnd (walk_nodes (\<lambda>k heap. last_child k heap c)) (\<lambda>prev.
              bnd (node prev) (\<lambda>pn.
              set_node prev (pn\<lparr>rn_next := Some np\<rparr>)))) (\<lambda>_.
     ret np)))"

definition ramfs_remove_node :: "nat \<Rightarrow> nat \<Rightarrow> (errno option, ramfs) vm" where
  "ramfs_remove_node dnp np =
     bnd (node dnp) (\<lambda>dn.
     case rn_child dn of
       None \<Rightarrow> ret (Some EBUSY)
     | Some c \<Rightarrow>
         if c = np then
           bnd (node np) (\<lambda>n.
           bnd (set_node dnp (dn\<lparr>rn_child := rn_next n\<rparr>)) (\<lambda>_.
           bnd (ramfs_free_node np) (\<lambda>_.
           ret None)))
         else
           bnd (walk_nodes (\<lambda>k heap. find_prev k heap np c)) (\<lambda>r.
           case r of
             Inl error \<Rightarrow> ret (Some error)
           | Inr prev \<Rightarrow>
               bnd (node prev) (\<lambda>pn.
               bnd (node np) (\<lambda>n.
               bnd (set_node prev (pn\<lparr>rn_next := rn_next n\<rparr>)) (\<lambda>_.
               bnd (ramfs_free_node np) (\<lambda>_.
               ret None))))))"

definition ramfs_rename_node :: "nat \<Rightarrow> string \<Rightarrow> (errno option, ramfs) vm" where
  "ramfs_rename_node np name =
     bnd (node np) (\<lambda>n.
     bnd (set_node np (n\<lparr>rn_name := (if length name \<le> rn_namelen n then strlcpy (rn_namelen n + 1) name else strlcpy (length name + 1) name),
       rn_namelen := length name\<rparr>)) (\<lambda>_.
     ret None))"

definition ramfs_vget :: "nat \<Rightarrow> nat \<Rightarrow> (errno option, ramfs) vm" where
  "ramfs_vget mp vp = ret None"

definition ALLPERMS :: u32 where "ALLPERMS = 0xFFF"

definition ramfs_lookup :: "nat \<Rightarrow> string \<Rightarrow> (errno + nat, ramfs) vm" where
  "ramfs_lookup dvp name =
     (if name = [] then ret (Inl ENOENT)
      else
        bnd (deref vnodes dvp) (\<lambda>dvn.
        bnd (node (v_data dvn)) (\<lambda>dn.
        bnd (walk_nodes (\<lambda>k heap. find_child k heap name (rn_child dn))) (\<lambda>found.
        case found of
          None \<Rightarrow> ret (Inl ENOENT)
        | Some np \<Rightarrow>
            bnd (look (\<lambda>s. inode_count (fs s))) (\<lambda>ino.
            bnd (change (\<lambda>s. s\<lparr>fs := (fs s)\<lparr>inode_count := ino + 1\<rparr>\<rparr>)) (\<lambda>_.
            bnd (vget ramfs_vget (v_mount dvn) ino) (\<lambda>r.
            case r of
              Vget_cached vp \<Rightarrow> ret (Inr vp)
            | Vget_error _ \<Rightarrow> ret (Inl ENOMEM)
            | Vget_new vp \<Rightarrow>
                bnd (node np) (\<lambda>n.
                bnd (deref vnodes vp) (\<lambda>vn.
                bnd (set_vnode vp (vn\<lparr>v_data := np, v_mode := ALLPERMS, v_type := rn_type n, v_size := rn_size n\<rparr>)) (\<lambda>_.
                ret (Inr vp)))))))))))"

definition ramfs_mkdir :: "nat \<Rightarrow> string \<Rightarrow> u32 \<Rightarrow> (errno option, ramfs) vm" where
  "ramfs_mkdir dvp name mode =
     (if mode AND 0xF000 \<noteq> 0x4000 then ret (Some EINVAL)
      else
        bnd (deref vnodes dvp) (\<lambda>dvn.
        bnd (ramfs_add_node (v_data dvn) name VDIR) (\<lambda>np.
        bnd (node np) (\<lambda>n.
        bnd (set_node np (n\<lparr>rn_size := 0\<rparr>)) (\<lambda>_.
        ret None)))))"

definition ramfs_remove :: "nat \<Rightarrow> nat \<Rightarrow> string \<Rightarrow> (errno option, ramfs) vm" where
  "ramfs_remove dvp vp name =
     bnd (deref vnodes dvp) (\<lambda>dvn.
     bnd (deref vnodes vp) (\<lambda>vn.
     ramfs_remove_node (v_data dvn) (v_data vn)))"

definition ramfs_rmdir :: "nat \<Rightarrow> nat \<Rightarrow> string \<Rightarrow> (errno option, ramfs) vm" where
  "ramfs_rmdir dvp vp name =
     bnd (deref vnodes dvp) (\<lambda>dvn.
     bnd (deref vnodes vp) (\<lambda>vn.
     ramfs_remove_node (v_data dvn) (v_data vn)))"

definition round_page :: "int \<Rightarrow> int" where
  "round_page x = (x + 4095) div 4096 * 4096"

text \<open>
  \<open>malloc (new_size)\<close> and, for a node that is not empty, the copy of \<open>v_size\<close> bytes from the old buffer; \<open>None\<close> is a
  copy outside one of the two.
\<close>

definition grow_buf :: "ramfs_node \<Rightarrow> int \<Rightarrow> int \<Rightarrow> byte list option" where
  "grow_buf n old_size new_size =
     (if rn_size n = 0 then Some (replicate (nat new_size) None)
      else if old_size = 0 then Some (replicate (nat new_size) None)
      else case rn_buf n of
        None \<Rightarrow> None
      | Some b \<Rightarrow>
          if 0 \<le> old_size \<and> old_size \<le> int (length b) \<and> old_size \<le> new_size
          then Some (take (nat old_size) b @ replicate (nat (new_size - old_size)) None)
          else None)"

definition ramfs_truncate :: "nat \<Rightarrow> int \<Rightarrow> (errno option, ramfs) vm" where
  "ramfs_truncate vp len =
     bnd (deref vnodes vp) (\<lambda>vn.
     bnd (node (v_data vn)) (\<lambda>n.
     bnd (if len = 0 then ret (if rn_buf n \<noteq> None then n\<lparr>rn_buf := None, rn_bufsize := 0\<rparr> else n)
          else if rn_bufsize n < size_t len then
            (let new_size = size_t (round_page len) in
             case grow_buf n (v_size vn) new_size of
               None \<Rightarrow> fail Fs_fault
             | Some buf \<Rightarrow> ret (n\<lparr>rn_buf := Some buf, rn_bufsize := new_size\<rparr>))
          else ret n) (\<lambda>n'.
     bnd (set_node (v_data vn) (n'\<lparr>rn_size := size_t len\<rparr>)) (\<lambda>_.
     bnd (set_vnode vp (vn\<lparr>v_size := len\<rparr>)) (\<lambda>_.
     ret None)))))"

definition ramfs_create :: "nat \<Rightarrow> string \<Rightarrow> u32 \<Rightarrow> (errno option, ramfs) vm" where
  "ramfs_create dvp name mode =
     (if mode AND 0xF000 \<noteq> 0x8000 then ret (Some EINVAL)
      else
        bnd (deref vnodes dvp) (\<lambda>dvn.
        bnd (ramfs_add_node (v_data dvn) name VREG) (\<lambda>np.
        ret None)))"

text \<open>\<open>uiomove\<close> on the buffer of a node at the given offset.\<close>

definition node_uiomove :: "nat \<Rightarrow> int \<Rightarrow> int \<Rightarrow> uio \<Rightarrow> (errno option \<times> uio, ramfs) vm" where
  "node_uiomove np off len uio =
     bnd (node np) (\<lambda>n.
     bnd (look user) (\<lambda>mem.
     case rn_buf n of
       None \<Rightarrow> fail Fs_fault
     | Some buf \<Rightarrow>
         (case uiomove buf (nat off) (c_int len) uio mem of
            None \<Rightarrow> fail Fs_fault
          | Some (buf', uio', mem') \<Rightarrow>
              bnd (set_node np (n\<lparr>rn_buf := Some buf'\<rparr>)) (\<lambda>_.
              bnd (change (\<lambda>s. s\<lparr>user := mem'\<rparr>)) (\<lambda>_.
              ret (None, uio'))))))"

definition ramfs_read :: "nat \<Rightarrow> nat \<Rightarrow> uio \<Rightarrow> u32 \<Rightarrow> (errno option \<times> uio, ramfs) vm" where
  "ramfs_read vp fp uio ioflag =
     bnd (deref vnodes vp) (\<lambda>vn.
     if v_type vn = VDIR then ret (Some EISDIR, uio)
     else if v_type vn \<noteq> VREG then ret (Some EINVAL, uio)
     else if uio_offset uio < 0 then ret (Some EINVAL, uio)
     else if uio_resid uio = 0 then ret (None, uio)
     else if v_size vn \<le> uio_offset uio then ret (None, uio)
     else node_uiomove (v_data vn) (uio_offset uio)
       (if v_size vn - uio_offset uio < uio_resid uio then v_size vn - uio_offset uio else uio_resid uio) uio)"

definition ramfs_write :: "nat \<Rightarrow> uio \<Rightarrow> u32 \<Rightarrow> (errno option \<times> uio, ramfs) vm" where
  "ramfs_write vp uio ioflag =
     bnd (deref vnodes vp) (\<lambda>vn.
     if v_type vn = VDIR then ret (Some EISDIR, uio)
     else if v_type vn \<noteq> VREG then ret (Some EINVAL, uio)
     else if uio_offset uio < 0 then ret (Some EINVAL, uio)
     else if uio_resid uio = 0 then ret (None, uio)
     else
       bnd (node (v_data vn)) (\<lambda>n.
       let uio = (if ioflag AND IO_APPEND \<noteq> 0 then uio\<lparr>uio_offset := rn_size n\<rparr> else uio);
           end_pos = uio_offset uio + uio_resid uio
       in bnd (if size_t (v_size vn) < size_t end_pos then
                 bnd (if rn_bufsize n < end_pos then
                        (let new_size = size_t (round_page end_pos) in
                         case grow_buf n (v_size vn) new_size of
                           None \<Rightarrow> fail Fs_fault
                         | Some buf \<Rightarrow> ret (n\<lparr>rn_buf := Some buf, rn_bufsize := new_size\<rparr>))
                      else ret n) (\<lambda>n'.
                 bnd (set_node (v_data vn) (n'\<lparr>rn_size := end_pos\<rparr>)) (\<lambda>_.
                 set_vnode vp (vn\<lparr>v_size := end_pos\<rparr>)))
               else ret ()) (\<lambda>_.
          node_uiomove (v_data vn) (uio_offset uio) (uio_resid uio) uio)))"

definition ramfs_rename :: "nat \<Rightarrow> nat \<Rightarrow> string \<Rightarrow> nat \<Rightarrow> nat option \<Rightarrow> string \<Rightarrow> (errno option, ramfs) vm" where
  "ramfs_rename dvp1 vp1 name1 dvp2 vp2 name2 =
     bnd (deref vnodes dvp1) (\<lambda>dvn1.
     bnd (deref vnodes vp1) (\<lambda>vn1.
     bnd (deref vnodes dvp2) (\<lambda>dvn2.
     bnd (case vp2 of
            None \<Rightarrow> ret None
          | Some v \<Rightarrow> bnd (deref vnodes v) (\<lambda>vn2. ramfs_remove_node (v_data dvn2) (v_data vn2))) (\<lambda>error.
     case error of
       Some e \<Rightarrow> ret (Some e)
     | None \<Rightarrow>
         if dvp1 = dvp2 then ramfs_rename_node (v_data vn1) name2
         else
           bnd (ramfs_add_node (v_data dvn2) name2 VREG) (\<lambda>np.
           bnd (if v_type vn1 = VREG then
                  bnd (node (v_data vn1)) (\<lambda>old_n.
                  bnd (node np) (\<lambda>n.
                  bnd (set_node np (n\<lparr>rn_buf := rn_buf old_n, rn_size := rn_size old_n, rn_bufsize := rn_bufsize old_n\<rparr>)) (\<lambda>_.
                  set_node (v_data vn1) (old_n\<lparr>rn_buf := None\<rparr>))))
                else ret ()) (\<lambda>_.
           bnd (ramfs_remove_node (v_data dvn1) (v_data vn1)) (\<lambda>_.
           ret None)))))))"

definition DT_DIR :: u8 where "DT_DIR = 4"

definition DT_REG :: u8 where "DT_REG = 8"

definition ramfs_readdir :: "nat \<Rightarrow> nat \<Rightarrow> (errno + dirent, ramfs) vm" where
  "ramfs_readdir vp fp =
     bnd (deref files fp) (\<lambda>f.
     bnd (if f_offset f = 0 then ret (Inr (DT_DIR, ''.''))
          else if f_offset f = 1 then ret (Inr (DT_DIR, ''..''))
          else
            bnd (deref vnodes vp) (\<lambda>vn.
            bnd (node (v_data vn)) (\<lambda>dn.
            case rn_child dn of
              None \<Rightarrow> ret (Inl ENOENT)
            | Some c \<Rightarrow>
                bnd (walk_nodes (\<lambda>k heap. nth_child k heap (f_offset f - 2) c)) (\<lambda>found.
                case found of
                  None \<Rightarrow> ret (Inl ENOENT)
                | Some np \<Rightarrow>
                    bnd (node np) (\<lambda>n.
                    ret (Inr (if rn_type n = VDIR then DT_DIR else DT_REG, strlcpy 256 (rn_name n)))))))) (\<lambda>r.
     case r of
       Inl error \<Rightarrow> ret (Inl error)
     | Inr (type, name) \<Rightarrow>
         bnd (set_file fp (f\<lparr>f_offset := f_offset f + 1\<rparr>)) (\<lambda>_.
         ret (Inr \<lparr>d_type = type, d_fileno = f_offset f, d_name = name\<rparr>))))"

definition ramfs_getattr :: "nat \<Rightarrow> vattr \<Rightarrow> (errno + vattr, ramfs) vm" where
  "ramfs_getattr vp attr =
     bnd (deref vnodes vp) (\<lambda>vn.
     ret (Inr (attr\<lparr>va_nodeid := v_ino vn, va_size := v_size vn\<rparr>)))"

definition ramfs_mount :: "nat \<Rightarrow> string \<Rightarrow> u32 \<Rightarrow> nat \<Rightarrow> (errno option, ramfs) vm" where
  "ramfs_mount mp dev flags data =
     bnd (ramfs_allocate_node [slash] VDIR) (\<lambda>np.
     bnd (deref mounts mp) (\<lambda>me.
     bnd (nonnull (m_root me)) (\<lambda>dp.
     bnd (deref dentries dp) (\<lambda>de.
     bnd (deref vnodes (d_vnode de)) (\<lambda>vn.
     bnd (set_vnode (d_vnode de) (vn\<lparr>v_data := np\<rparr>)) (\<lambda>_.
     ret None))))))"


text \<open>
  The operations of the file system: those that are \<open>vop_nullop\<close>, \<open>vop_eperm\<close>, \<open>vop_einval\<close> and \<open>vfs_nullop\<close> in the source
  return at once; \<open>ramfs_readlink\<close> transfers nothing. A file that is not backed by a vnode does not occur here. \<open>ramfs_vnops\<close> is
  the record without \<open>ramfs_unmount\<close>, which needs the release of entries.
\<close>

definition ramfs_vnops :: "ramfs fsops" where
  "ramfs_vnops = \<lparr>
     vop_open = (\<lambda>vp fp. ret None),
     vop_close = (\<lambda>vp fp. ret None),
     vop_read = ramfs_read,
     vop_write = ramfs_write,
     vop_ioctl = (\<lambda>vp fp com data. ret (Some EINVAL)),
     vop_seek = (\<lambda>vp fp old new. ret None),
     vop_fsync = (\<lambda>vp fp. ret None),
     vop_readdir = ramfs_readdir,
     vop_lookup = ramfs_lookup,
     vop_create = ramfs_create,
     vop_remove = ramfs_remove,
     vop_rename = ramfs_rename,
     vop_mkdir = ramfs_mkdir,
     vop_rmdir = ramfs_rmdir,
     vop_getattr = ramfs_getattr,
     vop_setattr = (\<lambda>vp va. ret (Some EPERM)),
     vop_inactive = (\<lambda>vp. ret None),
     vop_truncate = ramfs_truncate,
     vop_link = (\<lambda>dvp vp name. ret (Some EPERM)),
     vop_fallocate = (\<lambda>vp mode off len. ret None),
     vop_readlink = (\<lambda>vp. ret (Inr [])),
     vop_symlink = (\<lambda>dvp name target. ret None),
     vfs_vget = ramfs_vget,
     vfs_mount = ramfs_mount,
     vfs_unmount = (\<lambda>mp flags. ret None),
     vfs_sync = (\<lambda>mp. ret None),
     vfs_statfs = (\<lambda>mp. ret None),
     file_stop_polls = (\<lambda>fp. ret ()),
     file_read = (\<lambda>fp uio flags. fail Fs_fault),
     file_write = (\<lambda>fp uio flags. fail Fs_fault),
     file_ioctl = (\<lambda>fp com data. fail Fs_fault),
     file_stat = (\<lambda>fp. fail Fs_fault),
     file_close = (\<lambda>fp. fail Fs_fault)\<rparr>"

definition ramfs_unmount :: "nat \<Rightarrow> u32 \<Rightarrow> (errno option, ramfs) vm" where
  "ramfs_unmount mp flags = bnd (release_mp_dentries ramfs_vnops mp) (\<lambda>_. ret None)"

definition ramfs_ops :: "ramfs fsops" where
  "ramfs_ops = ramfs_vnops\<lparr>vfs_unmount := ramfs_unmount\<rparr>"


section \<open>Operations that keep the reference counts\<close>

lemma wp_node [simp]: "wp (node p) Q = (\<lambda>s. case nodes (fs s) p of None \<Rightarrow> True | Some n \<Rightarrow> Q n s)"
  by (auto simp: node_def excused_def fun_eq_iff split: option.splits)

lemma wp_set_node [simp]: "wp (set_node p n) Q = (\<lambda>s. Q () (s\<lparr>fs := (fs s)\<lparr>nodes := (nodes (fs s))(p \<mapsto> n)\<rparr>\<rparr>))"
  by (simp add: set_node_def)

lemma wp_walk_nodes [simp]:
  "wp (walk_nodes loop) Q = (\<lambda>s. case loop (Suc (brk (fs s))) (nodes (fs s)) of None \<Rightarrow> True | Some x \<Rightarrow> Q x s)"
  by (auto simp: walk_nodes_def excused_def fun_eq_iff split: option.splits)

lemma kp_node [kp_intros]: "kp s0 (node p)"
  unfolding node_def by (intro kp_intros)

lemma kp_set_node [kp_intros]: "kp s0 (set_node p n)"
  unfolding set_node_def by (intro kp_intros)

lemma kp_walk_nodes [kp_intros]: "kp s0 (walk_nodes loop)"
  unfolding walk_nodes_def by (intro kp_intros)

lemma kp_allocate_node [kp_intros]: "kp s0 (ramfs_allocate_node name type)"
  unfolding ramfs_allocate_node_def by (intro kp_intros)

lemma kp_free_node [kp_intros]: "kp s0 (ramfs_free_node np)"
  unfolding ramfs_free_node_def by (intro kp_intros)

lemma kp_add_node [kp_intros]: "kp s0 (ramfs_add_node dnp name type)"
  unfolding ramfs_add_node_def by (intro kp_intros)

lemma kp_remove_node [kp_intros]: "kp s0 (ramfs_remove_node dnp np)"
  unfolding ramfs_remove_node_def by (intro kp_intros)

lemma kp_rename_node [kp_intros]: "kp s0 (ramfs_rename_node np name)"
  unfolding ramfs_rename_node_def by (intro kp_intros)

lemma kp_node_uiomove [kp_intros]: "kp s0 (node_uiomove np off len uio)"
  unfolding node_uiomove_def by (intro kp_intros)

lemma keeps_mkdir: "keeps [v] (ramfs_mkdir v name mode)"
  unfolding ramfs_mkdir_def by (intro kp_keeps kp_if kp_deref_vnode kp_intros) simp

lemma keeps_create: "keeps [v] (ramfs_create v name mode)"
  unfolding ramfs_create_def by (intro kp_keeps kp_if kp_deref_vnode kp_intros) simp

lemma keeps_remove: "keeps [v, w] (ramfs_remove v w name)"
  unfolding ramfs_remove_def by (intro kp_keeps kp_deref_vnode kp_intros) simp_all

lemma keeps_rmdir: "keeps [v, w] (ramfs_rmdir v w name)"
  unfolding ramfs_rmdir_def by (intro kp_keeps kp_deref_vnode kp_intros) simp_all

lemma keeps_getattr: "keeps [v] (ramfs_getattr v va)"
  unfolding ramfs_getattr_def by (intro kp_keeps kp_deref_vnode kp_intros) simp

lemma keeps_truncate: "keeps [v] (ramfs_truncate v len)"
  unfolding ramfs_truncate_def
  by (intro kp_keeps kp_deref_vnode kp_intros kp_set_vnode) (simp_all add: core_def)

lemma keeps_read: "keeps [v] (ramfs_read v fp uio ioflag)"
  unfolding ramfs_read_def by (intro kp_keeps kp_deref_vnode kp_intros) simp

lemma keeps_write: "keeps [v] (ramfs_write v uio ioflag)"
  unfolding ramfs_write_def
  by (intro kp_keeps kp_deref_vnode kp_intros kp_set_vnode) (simp_all add: core_def)

lemma keeps_rename: "keeps ([v, w, v'] @ (case w' of None \<Rightarrow> [] | Some x \<Rightarrow> [x])) (ramfs_rename v w name v' w' name')"
  unfolding ramfs_rename_def by (intro kp_keeps kp_deref_vnode kp_option kp_intros) auto

text \<open>A lookup adds one locked reference to the vnode it returns.\<close>

lemma lookup_refs_ramfs:
  assumes ok: "refs_ok R {} D V L s" and v: "v \<in># V \<or> v \<in> snd ` set_mset D"
  shows "wp (ramfs_lookup v name) (\<lambda>r s'. case r of Inl e \<Rightarrow> refs_ok R {} D V L s'
     | Inr vp \<Rightarrow> refs_ok R {} D (add_mset vp V) (add_mset vp L) s') s"
proof (cases "name = []")
  case True
  then show ?thesis using ok by (simp add: ramfs_lookup_def)
next
  case False
  obtain vn where vn: "vnodes s v = Some vn" by (rule refs_ok_live [OF ok v])
  have mp: "v_mount vn \<in> dom (mounts s)" by (rule refs_ok_vnodeD(6) [OF ok vn])
  let ?Q = "\<lambda>r s'. case r of Inl e \<Rightarrow> refs_ok R {} D V L s' | Inr vp \<Rightarrow> refs_ok R {} D (add_mset vp V) (add_mset vp L) s'"
  have get: "wp (vget ramfs_vget (v_mount vn) ino) (\<lambda>r. wp (case r of
              Vget_cached vp \<Rightarrow> ret (Inr vp)
            | Vget_new vp \<Rightarrow>
                bnd (node np) (\<lambda>n.
                bnd (deref vnodes vp) (\<lambda>vn.
                bnd (set_vnode vp (vn\<lparr>v_data := np, v_mode := ALLPERMS, v_type := rn_type n, v_size := rn_size n\<rparr>)) (\<lambda>_.
                ret (Inr vp))))
            | Vget_error _ \<Rightarrow> ret (Inl ENOMEM)) ?Q) s1"
    if s1: "refs_ok R {} D V L s1" and mp1: "v_mount vn \<in> dom (mounts s1)" for s1 ino np
  proof (rule vget_rule [OF _ s1 mp1])
    show "keeps [u] (ramfs_vget (v_mount vn) u)" for u
      unfolding ramfs_vget_def by (intro kp_keeps kp_intros)
    fix vp and s2 :: "ramfs vfs" assume s2: "refs_ok R {} D (add_mset vp V) (add_mset vp L) s2"
    obtain vn2 where vn2: "vnodes s2 vp = Some vn2" by (rule refs_ok_live [OF s2, of vp]) simp_all
    have "refs_ok R {} D (add_mset vp V) (add_mset vp L)
        (s2\<lparr>vnodes := (vnodes s2)(vp \<mapsto> vn2\<lparr>v_data := np, v_mode := ALLPERMS, v_type := rn_type n, v_size := rn_size n\<rparr>)\<rparr>)" for n
      by (rule refs_ok_attr_eq [OF _ s2]) (use vn2 in \<open>auto simp: attr_eq_def core_def\<close>)
    then show "wp (case Vget_new vp of
              Vget_cached vp \<Rightarrow> ret (Inr vp)
            | Vget_new vp \<Rightarrow>
                bnd (node np) (\<lambda>n.
                bnd (deref vnodes vp) (\<lambda>vn.
                bnd (set_vnode vp (vn\<lparr>v_data := np, v_mode := ALLPERMS, v_type := rn_type n, v_size := rn_size n\<rparr>)) (\<lambda>_.
                ret (Inr vp))))
            | Vget_error _ \<Rightarrow> ret (Inl ENOMEM)) ?Q s2"
      using vn2 by (auto split: option.splits)
  qed simp_all
  have fs: "refs_ok R {} D V L (s\<lparr>fs := x\<rparr>)" for x by (rule refs_ok_frame [OF ok]) simp_all
  show ?thesis
    using False vn ok get [OF fs] mp
    by (auto simp: ramfs_lookup_def simp del: find_child.simps split: option.splits)
qed

lemma nth_child_bound: "nth_child k heap i p = Some (Some q) \<Longrightarrow> 0 \<le> i \<and> i < int k"
proof (induction k heap i p rule: nth_child.induct)
  case (2 k heap i np)
  show ?case
  proof (cases "i = 0")
    case False
    then obtain n p where "heap np = Some n" "rn_next n = Some p" "nth_child k heap (i - 1) p = Some (Some q)"
      using 2(2) by (auto split: option.splits)
    then have "0 \<le> i - 1 \<and> i - 1 < int k" by (rule 2(1) [OF False])
    then show ?thesis by simp
  qed simp
qed simp

text \<open>How many more entries a directory can have: no more than nodes were ever allocated.\<close>

definition ramfs_dots :: "ramfs \<Rightarrow> file_obj \<Rightarrow> nat" where
  "ramfs_dots r f = nat (int (brk r) + 3 - f_offset f)"

lemma readdir_ramfs:
  assumes v: "v \<in> dom (vnodes s)" and f: "files s fp = Some f"
  shows "wp (ramfs_readdir v fp) (\<lambda>r s'. attr_eq s s' \<and> (\<exists>f'. files s' fp = Some f' \<and>
    (case r of Inl e \<Rightarrow> e \<noteq> EACCES | Inr dir \<Rightarrow> is_dots (d_name dir) \<longrightarrow> ramfs_dots (fs s') f' < ramfs_dots (fs s) f))) s"
proof -
  obtain vn where vn: "vnodes s v = Some vn" using v by blast
  have eq: "attr_eq s (s\<lparr>files := (files s)(fp \<mapsto> f\<lparr>f_offset := off\<rparr>)\<rparr>)" for off
    using f by (auto simp: attr_eq_def fcore_def)
  have far: "0 \<le> off - 2 \<and> off - 2 < int (Suc (brk (fs s)))"
    if "nth_child (Suc (brk (fs s))) (nodes (fs s)) (off - 2) c = Some (Some q)" for off c q
    by (rule nth_child_bound [OF that])
  show ?thesis
    unfolding ramfs_readdir_def
    by (auto simp: f vn eq ramfs_dots_def simp del: nth_child.simps split: option.splits dest!: far)
qed

interpretation ramfs: fs_calls ramfs_ops ramfs_dots
proof unfold_locales
  show "\<lbrakk>refs_ok R {} D V L s; v \<in># V \<or> v \<in> snd ` set_mset D\<rbrakk> \<Longrightarrow>
     wp (vop_lookup ramfs_ops v name) (\<lambda>r s'. case r of Inl e \<Rightarrow> refs_ok R {} D V L s'
       | Inr vp \<Rightarrow> refs_ok R {} D (add_mset vp V) (add_mset vp L) s') s" for R D V L s v name
    by (simp add: ramfs_ops_def ramfs_vnops_def lookup_refs_ramfs)
qed (simp_all add: ramfs_ops_def ramfs_vnops_def keeps_mkdir keeps_create keeps_remove keeps_rmdir keeps_getattr keeps_truncate
  keeps_read keeps_write keeps_rename [simplified] readdir_ramfs frames_ret kp_keeps kp_ret kp_fail)

end
