(* ===== verification/Vfs_Demo.thy ===== *)
theory Vfs_Demo
  imports Ramfs
begin

text \<open>
  A small state of the file system layer: one RAM file system mounted at the root directory, with nothing but the entry, the
  vnode and the node of that directory. Later theories evaluate their theorems on it.
\<close>

text \<open>The state after \<open>sys_mount\<close> of a RAM file system at the root: mount 1, root entry 3, root vnode 2, root node 1.\<close>

definition demo_root_vnode :: vnode where
  "demo_root_vnode = \<lparr>v_ino = 0, v_mount = 1, v_refcnt = 1, v_type = VDIR, v_flags = VROOT, v_mode = 0x41C0, v_size = 0,
     v_names = [3], v_nrlocks = 0, v_data = 1\<rparr>"

definition demo_root_dentry :: dentry where
  "demo_root_dentry = \<lparr>d_refcnt = 1, d_path = ''/'', d_vnode = 2, d_mount = 1, d_parent = None, d_children = []\<rparr>"

definition demo_mount :: mount where
  "demo_mount = \<lparr>m_flags = 0, m_count = 1, m_path = ''/'', m_special = [], m_dev = None, m_root = Some 3, m_covered = None\<rparr>"

definition demo_root_node :: ramfs_node where
  "demo_root_node = \<lparr>rn_next = None, rn_child = None, rn_type = VDIR, rn_name = ''/'', rn_namelen = 1, rn_size = 0, rn_buf = None, rn_bufsize = 0\<rparr>"

definition demo :: "ramfs vfs" where
  "demo = \<lparr>dentries = [3 \<mapsto> demo_root_dentry], dentry_hash_table = (replicate 32 [])[dentry_hash 1 ''/'' := [3]], fake = [],
     vnodes = [2 \<mapsto> demo_root_vnode], vnode_table = (replicate 32 [])[vn_hash 1 0 := [2]], mounts = [1 \<mapsto> demo_mount], mount_list = [1],
     files = Map.empty, gfdt = Map.empty, t_cwd = ''/'', t_cwdfp = None, user = (\<lambda>_. None), next_ptr = 4,
     fs = \<lparr>nodes = [1 \<mapsto> demo_root_node], brk = 2, inode_count = 1\<rparr>\<rparr>"

lemma concat_one: "i < n \<Longrightarrow> concat ((replicate n [])[i := xs]) = xs"
proof (induction n arbitrary: i)
  case (Suc n)
  have "concat (replicate n ([] :: 'a list)) = []" by (induction n) auto
  then show ?case using Suc by (cases i) auto
qed simp

lemma demo_ok: "refs_ok {3} {} {#(3, 2)#} {#} {#} demo"
proof -
  note h = dentry_hash_less [of 1 "''/''"] vn_hash_less [of 1 0]
  have links: "dlinks demo = [3]" "concat (vnode_table demo) = [2]"
    using h by (simp_all add: demo_def dlinks_def concat_one)
  have "dentries_ok {} {#(3, 2)#} demo"
    unfolding dentries_ok_def links by (auto simp: demo_def ld_def demo_root_dentry_def demo_root_vnode_def split: if_splits)
  moreover have "vnodes_ok {} {#} {#} demo"
    unfolding vnodes_ok_def links by (auto simp: demo_def ld_def demo_root_dentry_def demo_root_vnode_def split: if_splits)
  moreover have "dtable_ok {} demo"
    using h unfolding dtable_ok_def links by (auto simp: demo_def ld_def demo_root_dentry_def nth_list_update split: if_splits)
  moreover have "vtable_ok demo"
    using h unfolding vtable_ok_def links by (auto simp: demo_def demo_root_vnode_def nth_list_update split: if_splits)
  moreover have "held {3} {#(3, 2)#} {#} {#}" by (simp add: held_def)
  moreover have "roots_ok {3} demo" by (simp add: roots_ok_def demo_def demo_mount_def)
  ultimately show ?thesis
    unfolding refs_ok_def by (simp add: ld_def) (simp add: demo_def demo_root_dentry_def)
qed

end
