(* ===== verification/Vfs_Quiet.thy ===== *)
theory Vfs_Quiet
  imports Ramfs
begin

text \<open>
  What the system calls leave alone: the descriptor table, the working directory and, unless a call works on an open file, the open files. The locale
  \<open>fs_quiet\<close> adds to the contract \<open>fs_calls\<close> that no operation of a file system touches them.
\<close>

section \<open>Quiet computations\<close>

definition kept :: "nat set \<Rightarrow> 'fs vfs \<Rightarrow> 'fs vfs \<Rightarrow> bool" where
  "kept F s s' \<longleftrightarrow> gfdt s' = gfdt s \<and> t_cwd s' = t_cwd s \<and> t_cwdfp s' = t_cwdfp s \<and> next_ptr s \<le> next_ptr s' \<and> (\<forall>p. p \<notin> F \<longrightarrow> fcores s' p = fcores s p)"

text \<open>The open files outside \<open>F\<close> are kept, but for their offsets.\<close>

definition quiet :: "nat set \<Rightarrow> ('a, 'fs) vm \<Rightarrow> bool" where
  "quiet F f \<longleftrightarrow> (\<forall>s x s'. f s = Inr (x, s') \<longrightarrow> kept F s s')"

named_theorems quiet_intros \<open>introduction rules for quiet\<close>

lemma kept_refl [simp]: "kept F s s"
  by (simp add: kept_def)

lemma kept_trans: "\<lbrakk>kept F s s'; kept F s' s''\<rbrakk> \<Longrightarrow> kept F s s''"
  by (auto simp: kept_def)

lemma kept_mono: "\<lbrakk>kept F s s'; F \<subseteq> G\<rbrakk> \<Longrightarrow> kept G s s'"
  unfolding kept_def by blast

lemma kept_fcores: "kept {} s s' \<Longrightarrow> fcores s' = fcores s"
  by (auto simp: kept_def)

lemma quietD: "\<lbrakk>quiet F f; f s = Inr (x, s')\<rbrakk> \<Longrightarrow> kept F s s'"
  by (simp add: quiet_def)

lemma quiet_mono: "quiet {} f \<Longrightarrow> quiet F f"
  unfolding quiet_def by (blast intro: kept_mono)

lemma wp_quiet: "\<lbrakk>wp f Q s; quiet F f; \<And>x s'. \<lbrakk>Q x s'; kept F s s'\<rbrakk> \<Longrightarrow> Q' x s'\<rbrakk> \<Longrightarrow> wp f Q' s"
  by (auto simp: wp_def quiet_def split: sum.splits)

lemma quiet_ret [quiet_intros]: "quiet F (ret x)"
  by (simp add: quiet_def ret_def)

lemma quiet_fail [quiet_intros]: "quiet F (fail e)"
  by (simp add: quiet_def fail_def)

lemma quiet_bnd [quiet_intros]: "\<lbrakk>quiet F f; \<And>x. quiet F (g x)\<rbrakk> \<Longrightarrow> quiet F (bnd f g)"
  unfolding quiet_def bnd_def by (auto split: sum.splits) (blast intro: kept_trans)

lemma quiet_look [quiet_intros]: "quiet F (look f)"
  by (simp add: quiet_def look_def)

lemma quiet_ASSERT [quiet_intros]: "quiet F (ASSERT p)"
  by (simp add: quiet_def ASSERT_def ret_def fail_def)

lemma quiet_deref [quiet_intros]: "quiet F (deref h p)"
  by (auto simp: quiet_def deref_def split: option.splits)

lemma quiet_nonnull [quiet_intros]: "quiet F (nonnull p)"
  by (auto simp: quiet_def nonnull_def ret_def fail_def split: option.splits)

lemma quiet_change: "(\<And>s. kept F s (f s)) \<Longrightarrow> quiet F (change f)"
  by (auto simp: quiet_def change_def)

lemma quiet_new_ptr [quiet_intros]: "quiet F new_ptr"
  by (auto simp: quiet_def new_ptr_def kept_def fcores_def)

lemma quiet_set_vnode [quiet_intros]: "quiet F (set_vnode v vn)"
  unfolding set_vnode_def by (rule quiet_change) (simp add: kept_def fcores_def fun_eq_iff)

lemma quiet_set_dentry [quiet_intros]: "quiet F (set_dentry d de)"
  unfolding set_dentry_def by (rule quiet_change) (simp add: kept_def fcores_def fun_eq_iff)

lemma quiet_set_mount [quiet_intros]: "quiet F (set_mount m me)"
  unfolding set_mount_def by (rule quiet_change) (simp add: kept_def fcores_def fun_eq_iff)

lemma quiet_set_file: "fp \<in> F \<Longrightarrow> quiet F (set_file fp f)"
  unfolding set_file_def by (rule quiet_change) (auto simp: kept_def fcores_def)

lemma quiet_tables [quiet_intros]:
  "quiet F (change (\<lambda>s. s\<lparr>vnodes := f1 s\<rparr>))" "quiet F (change (\<lambda>s. s\<lparr>vnode_table := f2 s\<rparr>))"
  "quiet F (change (\<lambda>s. s\<lparr>dentries := f3 s\<rparr>))" "quiet F (change (\<lambda>s. s\<lparr>dentry_hash_table := f4 s\<rparr>))"
  "quiet F (change (\<lambda>s. s\<lparr>dentry_hash_table := f5 s, fake := f6 s\<rparr>))" "quiet F (change (\<lambda>s. s\<lparr>fs := f7 s\<rparr>))" "quiet F (change (\<lambda>s. s\<lparr>fake := f9 s\<rparr>))" "quiet F (change (\<lambda>s. s\<lparr>user := f8 s\<rparr>))"
  by (rule quiet_change, simp add: kept_def fcores_def fun_eq_iff)+

lemma quiet_if [quiet_intros]: "\<lbrakk>quiet F f; quiet F g\<rbrakk> \<Longrightarrow> quiet F (if p then f else g)"
  by simp

lemma quiet_option [quiet_intros]: "\<lbrakk>quiet F f; \<And>x. quiet F (g x)\<rbrakk> \<Longrightarrow> quiet F (case y of None \<Rightarrow> f | Some x \<Rightarrow> g x)"
  by (cases y) simp_all

lemma quiet_sum [quiet_intros]: "\<lbrakk>\<And>x. quiet F (f x); \<And>x. quiet F (g x)\<rbrakk> \<Longrightarrow> quiet F (case y of Inl x \<Rightarrow> f x | Inr x \<Rightarrow> g x)"
  by (cases y) simp_all

lemma quiet_prod [quiet_intros]: "(\<And>x y. quiet F (f x y)) \<Longrightarrow> quiet F (case z of (x, y) \<Rightarrow> f x y)"
  by (cases z) simp

lemma quiet_let [quiet_intros]: "(\<And>x. quiet F (f x)) \<Longrightarrow> quiet F (let x = y in f x)"
  by (simp add: Let_def)

lemma quiet_vget_result [quiet_intros]:
  "\<lbrakk>\<And>x. quiet F (f x); \<And>x. quiet F (g x); \<And>x. quiet F (h x)\<rbrakk> \<Longrightarrow> quiet F (case y of Vget_cached x \<Rightarrow> f x | Vget_new x \<Rightarrow> g x | Vget_error x \<Rightarrow> h x)"
  by (cases y) simp_all

lemma quiet_walk [quiet_intros]:
  "\<lbrakk>\<And>x. quiet F (f x); \<And>x. quiet F (g x); \<And>x. quiet F (h x)\<rbrakk> \<Longrightarrow> quiet F (case y of Walk_done x \<Rightarrow> f x | Walk_error x \<Rightarrow> g x | Walk_link x \<Rightarrow> h x)"
  by (cases y) simp_all


section \<open>The primitives\<close>

lemma quiet_vn_lock [quiet_intros]: "quiet F (vn_lock v)"
  unfolding vn_lock_def by (intro quiet_intros)

lemma quiet_vn_unlock [quiet_intros]: "quiet F (vn_unlock v)"
  unfolding vn_unlock_def by (intro quiet_intros)

lemma quiet_vref [quiet_intros]: "quiet F (vref v)"
  unfolding vref_def by (intro quiet_intros)

lemma quiet_find_vnode [quiet_intros]: "quiet F (find_vnode mp ino l)"
  by (induction l) (auto intro!: quiet_intros)

lemma quiet_vn_lookup [quiet_intros]: "quiet F (vn_lookup mp ino)"
  unfolding vn_lookup_def by (intro quiet_intros)

lemma quiet_vfs_busy [quiet_intros]: "quiet F (vfs_busy mp)" "quiet F (vfs_unbusy mp)"
  unfolding vfs_busy_def vfs_unbusy_def by (intro quiet_intros)+

lemma quiet_vget: "(\<And>mp vp. quiet F (vget_op mp vp)) \<Longrightarrow> quiet F (vget vget_op mp ino)"
  unfolding vget_def by (intro quiet_intros)

lemma quiet_vnode_table_remove [quiet_intros]: "quiet F (vnode_table_remove v)"
  unfolding vnode_table_remove_def by (intro quiet_intros)

lemma quiet_vput: "(\<And>v. quiet F (vop_inactive ops v)) \<Longrightarrow> quiet F (vput ops v)"
  unfolding vput_def by (intro quiet_intros)

lemma quiet_vn_access [quiet_intros]: "quiet F (vn_access v flags)"
  unfolding vn_access_def by (intro quiet_intros)

lemma quiet_vn_names [quiet_intros]: "quiet F (vn_add_name v d)" "quiet F (vn_del_name v d)"
  unfolding vn_add_name_def vn_del_name_def by (intro quiet_intros)+

lemma quiet_dref [quiet_intros]: "quiet F (dref d)"
  unfolding dref_def by (intro quiet_intros)

lemma quiet_children [quiet_intros]: "quiet F (children_insert p d)" "quiet F (children_remove p d)"
  unfolding children_insert_def children_remove_def by (intro quiet_intros)+

lemma quiet_hash [quiet_intros]: "quiet F (hash_insert n d)" "quiet F (hash_remove d)"
  unfolding hash_insert_def hash_remove_def by (intro quiet_intros)+

lemma quiet_dentry_alloc [quiet_intros]: "quiet F (dentry_alloc p v path)"
  unfolding dentry_alloc_def by (intro quiet_intros)

lemma quiet_find_dentry [quiet_intros]: "quiet F (find_dentry mp path l)"
  by (induction l) (auto intro!: quiet_intros)

lemma quiet_dentry_lookup [quiet_intros]: "quiet F (dentry_lookup mp path)"
  unfolding dentry_lookup_def by (intro quiet_intros)

lemma quiet_drele_unlink [quiet_intros]: "quiet F (drele_unlink dp)"
  unfolding drele_unlink_def by (intro quiet_intros)

lemma quiet_drele_free: "(\<And>v. quiet F (vop_inactive ops v)) \<Longrightarrow> quiet F (drele_free ops dp de)"
  unfolding drele_free_def vrele_def by (intro quiet_intros)

lemma quiet_drele_rec:
  assumes inact: "\<And>v. quiet F (vop_inactive ops v)" and ret: "drele_rec ops dp s = Some y"
  shows "case y of Inl e \<Rightarrow> True | Inr (_, s') \<Rightarrow> kept F s s'"
proof -
  let ?P = "\<lambda>ops' dp s y. ops' = ops \<longrightarrow> (case y of Inl e \<Rightarrow> True | Inr (_, s') \<Rightarrow> kept F s s')"
  note free = quiet_drele_free [OF inact, unfolded quiet_def, rule_format]
  note unlink = quiet_drele_unlink [unfolded quiet_def, rule_format]
  have "?P ops dp s y"
  proof (rule drele_rec.raw_induct [of ?P, OF _ ret], intro impI)
    fix rec ops' dp s y
    assume IH: "\<And>ops' p s y. rec ops' p s = Some y \<Longrightarrow> ?P ops' p s y" and ops: "ops' = ops"
      and eq: "(case drele_unlink dp s of Inl e \<Rightarrow> Some (Inl e)
        | Inr r \<Rightarrow> (case fst r of None \<Rightarrow> Some (Inr ((), snd r))
          | Some de \<Rightarrow> Option.bind (case d_parent de of None \<Rightarrow> Some (Inr ((), snd r)) | Some p \<Rightarrow> rec ops' p (snd r))
              (\<lambda>r'. Some (case r' of Inl e \<Rightarrow> Inl e | Inr (_, s') \<Rightarrow> drele_free ops' dp de s')))) = Some y"
    show "case y of Inl e \<Rightarrow> True | Inr (_, s') \<Rightarrow> kept F s s'"
    proof (cases "drele_unlink dp s")
      case (Inl e)
      then show ?thesis using eq by auto
    next
      case (Inr r)
      obtain deo s1 where r: "r = (deo, s1)" by fastforce
      have s1: "kept F s s1" using unlink Inr r by blast
      show ?thesis
      proof (cases deo)
        case None
        then show ?thesis using eq Inr r s1 by auto
      next
        case (Some de)
        obtain r' where r': "(case d_parent de of None \<Rightarrow> Some (Inr ((), s1)) | Some p \<Rightarrow> rec ops' p s1) = Some r'"
            "(case r' of Inl e \<Rightarrow> Inl e | Inr (_, s') \<Rightarrow> drele_free ops' dp de s') = y"
          using eq unfolding Inr r Some sum.case fst_conv snd_conv option.case bind_eq_Some_conv option.inject by blast
        have "case r' of Inl e \<Rightarrow> True | Inr (_, s') \<Rightarrow> kept F s1 s'"
          using r'(1) IH [of ops' _ s1 r'] ops by (cases "d_parent de") auto
        then show ?thesis using r'(2) s1 free ops by (cases r') (auto split: sum.splits intro: kept_trans)
      qed
    qed
  qed
  then show ?thesis by simp
qed

lemma quiet_drele: "(\<And>v. quiet F (vop_inactive ops v)) \<Longrightarrow> quiet F (drele ops dp)"
  unfolding quiet_def [of F "drele ops dp"] drele_def using quiet_drele_rec [of F ops] by (fastforce split: option.splits)

lemma quiet_dentry_remove [quiet_intros]: "quiet F (dentry_remove dp)"
  unfolding dentry_remove_def by (intro quiet_intros)

lemma quiet_find_root [quiet_intros]: "quiet F (find_root path)"
  unfolding find_root_def by (intro quiet_intros)

lemma quiet_task_conv [quiet_intros]: "quiet F (task_conv path)"
  unfolding task_conv_def by (intro quiet_intros)

section \<open>The contract\<close>

locale fs_quiet = fs_calls ops dots_left for ops :: "'fs fsops" and dots_left :: "'fs \<Rightarrow> file_obj \<Rightarrow> nat" +
  assumes lookup_quiet: "quiet {} (vop_lookup ops v name)"
    and inactive_quiet: "quiet {} (vop_inactive ops v)"
    and readlink_quiet: "quiet {} (vop_readlink ops v)"
    and open_quiet: "quiet {} (vop_open ops v fp)"
    and close_quiet: "quiet {} (vop_close ops v fp)"
    and read_quiet: "quiet {} (vop_read ops v fp uio flags)"
    and write_quiet: "quiet {} (vop_write ops v uio flags)"
    and ioctl_quiet: "quiet {} (vop_ioctl ops v fp com data)"
    and seek_quiet: "quiet {} (vop_seek ops v fp old new)"
    and fsync_quiet: "quiet {} (vop_fsync ops v fp)"
    and readdir_quiet: "quiet {} (vop_readdir ops v fp)"
    and create_quiet: "quiet {} (vop_create ops v name mode)"
    and remove_quiet: "quiet {} (vop_remove ops v w name)"
    and mkdir_quiet: "quiet {} (vop_mkdir ops v name mode)"
    and rmdir_quiet: "quiet {} (vop_rmdir ops v w name)"
    and getattr_quiet: "quiet {} (vop_getattr ops v va)"
    and setattr_quiet: "quiet {} (vop_setattr ops v va)"
    and truncate_quiet: "quiet {} (vop_truncate ops v len)"
    and fallocate_quiet: "quiet {} (vop_fallocate ops v fmode off len)"
    and symlink_quiet: "quiet {} (vop_symlink ops v name target)"
    and statfs_quiet: "quiet {} (vfs_statfs ops mp)"
    and stop_polls_quiet: "quiet {} (file_stop_polls ops fp)"
    and file_read_quiet: "quiet {} (file_read ops fp uio flags)"
    and file_write_quiet: "quiet {} (file_write ops fp uio flags)"
    and file_ioctl_quiet: "quiet {} (file_ioctl ops fp com data)"
    and file_stat_quiet: "quiet {} (file_stat ops fp)"
    and file_close_quiet: "quiet {} (file_close ops fp)"
begin

lemmas ops_quiet [quiet_intros] =
  lookup_quiet [THEN quiet_mono] inactive_quiet [THEN quiet_mono] readlink_quiet [THEN quiet_mono] open_quiet [THEN quiet_mono]
  close_quiet [THEN quiet_mono] read_quiet [THEN quiet_mono] write_quiet [THEN quiet_mono] ioctl_quiet [THEN quiet_mono]
  seek_quiet [THEN quiet_mono] fsync_quiet [THEN quiet_mono] readdir_quiet [THEN quiet_mono] create_quiet [THEN quiet_mono] remove_quiet [THEN quiet_mono]
  mkdir_quiet [THEN quiet_mono] rmdir_quiet [THEN quiet_mono] getattr_quiet [THEN quiet_mono] setattr_quiet [THEN quiet_mono]
  truncate_quiet [THEN quiet_mono] fallocate_quiet [THEN quiet_mono] symlink_quiet [THEN quiet_mono] stop_polls_quiet [THEN quiet_mono]
  statfs_quiet [THEN quiet_mono]
  file_read_quiet [THEN quiet_mono] file_write_quiet [THEN quiet_mono] file_ioctl_quiet [THEN quiet_mono] file_stat_quiet [THEN quiet_mono]
  file_close_quiet [THEN quiet_mono]

lemmas drele_quiet [quiet_intros] = quiet_drele [OF inactive_quiet [THEN quiet_mono]]

lemmas vput_quiet [quiet_intros] = quiet_vput [OF inactive_quiet [THEN quiet_mono]]

text \<open>Lookups.\<close>

lemma read_link_quiet [quiet_intros]: "quiet F (read_link ops v)"
  unfolding read_link_def by (intro quiet_intros)

lemma namei_follow_link_quiet [quiet_intros]: "quiet F (namei_follow_link ops dp nd name fp ml)"
  unfolding namei_follow_link_def by (intro quiet_intros)

lemma walk_component_quiet [quiet_intros]: "quiet F (walk_component ops mp ddp nd name)"
  unfolding walk_component_def by (intro quiet_intros)

lemma namei_walk_quiet [quiet_intros]: "quiet F (namei_walk ops mp fp ml nd p ddp dp)"
proof (induction "length p" arbitrary: nd p ddp dp rule: less_induct)
  case less
  show ?case
  proof (cases "dropWhile (\<lambda>c. c = slash) p = []")
    case True
    then show ?thesis by (subst namei_walk.simps) (simp add: quiet_ret)
  next
    case False
    have rec: "quiet F (namei_walk ops mp fp ml nd' (drop (length (path_name (dropWhile (\<lambda>c. c = slash) p))) (dropWhile (\<lambda>c. c = slash) p)) ddp' dp')"
      for nd' ddp' dp' by (rule less.hyps) (rule path_progress [OF False])
    show ?thesis
      by (subst namei_walk.simps) (simp only: Let_def False if_False, intro quiet_intros rec)
  qed
qed

lemma namei_loop_quiet [quiet_intros]: "quiet F (namei_loop ops n fp)"
proof (induction n arbitrary: fp)
  case 0
  then show ?case by (simp add: quiet_ret)
next
  case (Suc n)
  show ?case unfolding namei_loop.simps by (intro quiet_intros Suc.IH)
qed

lemma namei_quiet [quiet_intros]: "quiet F (namei ops path)"
  unfolding namei_def by (intro quiet_intros)

lemma namei_last_nofollow_quiet [quiet_intros]: "quiet F (namei_last_nofollow ops path ddp)"
  unfolding namei_last_nofollow_def by (intro quiet_intros)

lemma lookup_path_quiet [quiet_intros]: "quiet F (lookup ops path)"
  unfolding lookup_def by (intro quiet_intros)

lemma unlock_drele_quiet [quiet_intros]: "quiet F (unlock_drele ops v d r)"
  unfolding unlock_drele_def by (intro quiet_intros)

lemma vn_attr_quiet [quiet_intros]: "quiet F (vn_stat ops v)" "quiet F (vn_setmode ops v mode)" "quiet F (vn_settimes ops v ts)"
  unfolding vn_stat_def vn_setmode_def vn_settimes_def by (intro quiet_intros)+

text \<open>System calls on paths.\<close>

lemma create_in_parent_quiet: "(\<And>v name. quiet F (create v name)) \<Longrightarrow> quiet F (create_in_parent ops path create)"
  unfolding create_in_parent_def by (intro quiet_intros)

lemma path_calls_quiet:
  "quiet {} (sys_mkdir ops path mode)" "quiet {} (sys_mknod ops path mode)" "quiet {} (sys_unlink ops path)" "quiet {} (sys_symlink ops old new)"
  "quiet {} (sys_access ops path mode)" "quiet {} (sys_lstat ops path)" "quiet {} (sys_truncate ops path len)" "quiet {} (sys_readlink ops path buf n)"
  "quiet {} (sys_utimes ops now path ts flags)" "quiet {} (sys_chmod ops path mode)"
  unfolding sys_mkdir_def sys_mknod_def sys_unlink_def sys_symlink_def sys_access_def sys_lstat_def sys_truncate_def sys_readlink_def sys_utimes_def sys_chmod_def
  by (intro quiet_intros create_in_parent_quiet)+

text \<open>System calls on an open file.\<close>

lemma with_file_vnode_quiet: "(\<And>v. quiet F (body v)) \<Longrightarrow> quiet F (with_file_vnode dp body)"
  unfolding with_file_vnode_def by (intro quiet_intros)

lemma file_calls_quiet:
  "quiet {fp} (sys_read ops fp iov off)" "quiet {fp} (sys_write ops fp iov off)" "quiet {fp} (sys_lseek ops fp off type)" "quiet {fp} (sys_ioctl ops fp com data)"
  "quiet {fp} (sys_fsync ops fp)" "quiet {fp} (sys_fstat ops fp)" "quiet F (sys_readdir ops fp)" "quiet {fp} (sys_seekdir fp loc)" "quiet {fp} (sys_telldir fp)"
  "quiet {fp} (sys_rewinddir fp)" "quiet {fp} (sys_fchdir fp)" "quiet {fp} (sys_ftruncate ops fp len)" "quiet {fp} (sys_fallocate ops fp fmode off len)"
  "quiet {fp} (sys_fstatfs ops fp)"
  unfolding sys_read_def sys_write_def sys_lseek_def sys_ioctl_def sys_fsync_def sys_fstat_def sys_readdir_def sys_seekdir_def sys_telldir_def sys_rewinddir_def
    sys_fchdir_def sys_ftruncate_def sys_fallocate_def sys_fstatfs_def vfs_file_read_def vfs_file_write_def vfs_file_ioctl_def vfs_file_stat_def
  by (intro quiet_intros with_file_vnode_quiet quiet_set_file singletonI)+

text \<open>The release of a file changes no other file.\<close>

lemma close_file_quiet: "quiet {fp} (close_file ops fp)"
  unfolding close_file_def vfs_file_close_def by (intro quiet_intros quiet_set_file singletonI)

lemma quiet_files: "quiet {fp} (change (\<lambda>s. s\<lparr>files := (files s)(fp := None)\<rparr>))"
  by (rule quiet_change) (auto simp: kept_def fcores_def)

lemma delete_file_quiet: "quiet {fp} (delete_file ops fp)"
  unfolding delete_file_def by (intro quiet_intros quiet_files)

lemma fdrop_quiet: "quiet {fp} (fdrop ops fp)"
  unfolding fdrop_def by (intro quiet_intros quiet_set_file close_file_quiet delete_file_quiet singletonI)

lemma delete_file_gone: "delete_file ops fp s = Inr (x, s') \<Longrightarrow> fcores s' fp = None"
  by (auto simp: delete_file_def bnd_def change_def fcores_def split: sum.splits)

lemma fdrop_effect:
  assumes "fdrop ops fp s = Inr (freed, s')" "files s fp = Some f"
  shows "kept {fp} s s'" "freed \<Longrightarrow> fcores s' fp = None" "freed \<longleftrightarrow> f_count f = 1"
proof -
  show "kept {fp} s s'" by (rule quietD [OF fdrop_quiet assms(1)])
  show "freed \<longleftrightarrow> f_count f = 1"
    using assms by (auto simp: fdrop_def bnd_def deref_def ret_def Let_def split: sum.splits if_splits)
  show "fcores s' fp = None" if freed
    using assms that
    by (auto simp: fdrop_def bnd_def deref_def ret_def Let_def split: sum.splits if_splits) (erule delete_file_gone)
qed

end


section \<open>Opening files\<close>

text \<open>Addresses from \<open>next_ptr\<close> on are free.\<close>

definition files_fresh :: "'fs vfs \<Rightarrow> bool" where
  "files_fresh s \<longleftrightarrow> (\<forall>p\<ge>next_ptr s. fcores s p = None)"

lemma files_fresh_kept: "\<lbrakk>files_fresh s; kept {} s s'\<rbrakk> \<Longrightarrow> files_fresh s'"
  by (auto simp: files_fresh_def kept_def)

definition opens_at :: "'fs vfs \<Rightarrow> errno + nat \<Rightarrow> 'fs vfs \<Rightarrow> bool" where
  "opens_at s r s' = (case r of Inl e \<Rightarrow> kept {} s s'
   | Inr fp \<Rightarrow> kept {fp} s s' \<and> next_ptr s \<le> fp \<and> fp < next_ptr s' \<and> (\<exists>flags dp. fcores s' fp = Some (fcore (new_file flags dp))))"

definition opens :: "(errno + nat, 'fs) vm \<Rightarrow> bool" where
  "opens f \<longleftrightarrow> (\<forall>s r s'. files_fresh s \<longrightarrow> f s = Inr (r, s') \<longrightarrow> opens_at s r s')"

lemma opens_bnd:
  assumes "quiet {} f" "\<And>x. opens (g x)"
  shows "opens (bnd f g)"
  unfolding opens_def
proof (intro allI impI)
  fix s r s' assume fresh: "files_fresh s" and eq: "bnd f g s = Inr (r, s')"
  then obtain x s1 where s1: "f s = Inr (x, s1)" "g x s1 = Inr (r, s')" by (auto simp: bnd_def split: sum.splits)
  have k: "kept {} s s1" by (rule quietD [OF assms(1) s1(1)])
  have "opens_at s1 r s'" using assms(2) s1(2) files_fresh_kept [OF fresh k] unfolding opens_def by blast
  then show "opens_at s r s'"
    using k kept_mono [OF k, of "{projr r}"] unfolding opens_at_def kept_def by (cases r) auto
qed

lemma opens_fails: "opens (ret (Inl e))" "opens (fail x)"
  by (auto simp: opens_def ret_def fail_def opens_at_def)

lemma opens_if: "\<lbrakk>opens f; opens g\<rbrakk> \<Longrightarrow> opens (if p then f else g)"
  by simp

lemma opens_option: "\<lbrakk>opens f; \<And>x. opens (g x)\<rbrakk> \<Longrightarrow> opens (case y of None \<Rightarrow> f | Some x \<Rightarrow> g x)"
  by (cases y) simp_all

lemma opens_sum: "\<lbrakk>\<And>x. opens (f x); \<And>x. opens (g x)\<rbrakk> \<Longrightarrow> opens (case y of Inl x \<Rightarrow> f x | Inr x \<Rightarrow> g x)"
  by (cases y) simp_all

lemmas opens_intros = opens_fails opens_if opens_option opens_sum opens_bnd

context fs_quiet
begin

lemma make_file_opens:
  "opens (bnd new_ptr (\<lambda>fp.
     bnd (set_file fp (new_file flags dp)) (\<lambda>_.
     bnd (vop_open ops vp fp) (\<lambda>error.
     case error of
       Some e \<Rightarrow> bnd (vn_unlock vp) (\<lambda>_. bnd (delete_file ops fp) (\<lambda>_. ret (Inl e)))
     | None \<Rightarrow> bnd (vn_unlock vp) (\<lambda>_. ret (Inr fp))))))" (is "opens (bnd new_ptr ?g)")
  unfolding opens_def
proof (intro allI impI)
  fix s :: "'fs vfs" and r s'
  let ?fp = "next_ptr s" and ?s = "s\<lparr>next_ptr := Suc (next_ptr s)\<rparr>"
  assume fresh: "files_fresh s" and eq: "bnd new_ptr ?g s = Inr (r, s')"
  have g: "?g ?fp ?s = Inr (r, s')" using eq by (simp add: bnd_def new_ptr_def)
  have "quiet {?fp} (?g ?fp)" by (intro quiet_intros quiet_set_file delete_file_quiet singletonI)
  then have k: "kept {?fp} ?s s'" using g by (rule quietD)
  then have k': "kept {?fp} s s'" "?fp < next_ptr s'" by (auto simp: kept_def fcores_def)
  have none: "fcores s ?fp = None" using fresh by (simp add: files_fresh_def)
  show "opens_at s r s'"
  proof (cases r)
    case (Inr fp)
    define s2 where "s2 = ?s\<lparr>files := (files ?s)(?fp \<mapsto> new_file flags dp)\<rparr>"
    have "set_file ?fp (new_file flags dp) ?s = Inr ((), s2)" by (simp add: set_file_def change_def s2_def)
    then have g2: "bnd (vop_open ops vp ?fp) (\<lambda>error. case error of
       Some e \<Rightarrow> bnd (vn_unlock vp) (\<lambda>_. bnd (delete_file ops ?fp) (\<lambda>_. ret (Inl e)))
     | None \<Rightarrow> bnd (vn_unlock vp) (\<lambda>_. ret (Inr ?fp))) s2 = Inr (r, s')" using g unfolding bnd_def [of "set_file ?fp (new_file flags dp)"] by simp
    then obtain s3 where s3: "vop_open ops vp ?fp s2 = Inr (None, s3)" "vn_unlock vp s3 = Inr ((), s')" "fp = ?fp"
      using Inr by (auto simp: bnd_def ret_def split: sum.splits option.splits)
    have "fcores s' ?fp = fcores s2 ?fp"
      using quietD [OF open_quiet s3(1)] quietD [OF quiet_vn_unlock s3(2), of "{}"] by (simp add: kept_def)
    then have "fcores s' ?fp = Some (fcore (new_file flags dp))" by (simp add: s2_def fcores_def)
    then show ?thesis using k' Inr s3(3) by (auto simp: opens_at_def)
  next
    case (Inl e)
    have "fcores s' ?fp = None" using g Inl by (auto simp: bnd_def ret_def split: sum.splits option.splits) (erule delete_file_gone)
    then have "kept {} s s'" using k'(1) none unfolding kept_def by (metis empty_iff singletonD)
    then show ?thesis using Inl by (simp add: opens_at_def)
  qed
qed

lemma open_file_opens: "opens (open_file ops dp vp flags)"
  unfolding open_file_def unlock_drele_def by (intro opens_intros make_file_opens quiet_intros)

lemma open_create_quiet [quiet_intros]: "quiet F (open_create ops path mode)"
  unfolding open_create_def by (intro quiet_intros)

lemma open_no_follow_chk_quiet [quiet_intros]: "quiet F (open_no_follow_chk ops path)"
  unfolding open_no_follow_chk_def by (intro quiet_intros)

lemma open_existing_opens: "opens (open_existing ops path flags)"
  unfolding open_existing_def by (intro opens_intros open_file_opens quiet_intros)

lemma sys_open_opens: "opens (sys_open ops path oflags mode)"
  unfolding sys_open_def Let_def by (intro opens_intros open_file_opens open_existing_opens quiet_intros)

text \<open>Looking into a directory: the file is opened, read and released again.\<close>

lemma readdir_loop_kept:
  assumes "readdir_loop ops fp name s = Some y"
  shows "case y of Inl e \<Rightarrow> True | Inr (_, s') \<Rightarrow> kept {} s s'"
proof -
  let ?P = "\<lambda>ops' fp' name s y. ops' = ops \<and> fp' = fp \<longrightarrow> (case y of Inl e \<Rightarrow> True | Inr (_, s') \<Rightarrow> kept {} s s')"
  have "?P ops fp name s y"
  proof (rule readdir_loop.raw_induct [of ?P, OF _ assms], intro impI)
    fix rec ops' fp' name s y
    assume IH: "\<And>ops' fp' name s y. rec ops' fp' name s = Some y \<Longrightarrow> ?P ops' fp' name s y" and same: "ops' = ops \<and> fp' = fp"
      and eq: "(case sys_readdir ops' fp' s of
        Inl e \<Rightarrow> Some (Inl e)
      | Inr r \<Rightarrow>
          (case fst r of
             Inl error \<Rightarrow>
               if error \<noteq> EACCES then Some (Inr (Some error, snd r))
               else (case name of
                       None \<Rightarrow> Some (Inl Uninitialised)
                     | Some n \<Rightarrow> if is_dots n then rec ops' fp' name (snd r) else Some (Inr (Some error, snd r)))
           | Inr dir \<Rightarrow> if is_dots (d_name dir) then rec ops' fp' (Some (d_name dir)) (snd r) else Some (Inr (None, snd r)))) = Some y"
    show "case y of Inl e \<Rightarrow> True | Inr (_, s') \<Rightarrow> kept {} s s'"
    proof (cases "sys_readdir ops fp s")
      case (Inl e)
      then show ?thesis using eq same by auto
    next
      case (Inr r)
      have k: "kept {} s (snd r)" using quietD [OF file_calls_quiet(7), of fp s "fst r" "snd r" "{}"] Inr by simp
      have rec: "case y of Inl e \<Rightarrow> True | Inr (_, s') \<Rightarrow> kept {} s s'" if "rec ops fp n (snd r) = Some y" for n
        using IH [OF that] k by (auto split: sum.splits intro: kept_trans)
      show ?thesis
        using eq same Inr k rec by (auto split: sum.splits if_splits option.splits)
    qed
  qed
  then show ?thesis by simp
qed

lemma first_entry_quiet: "quiet {} (first_entry ops fp)"
  unfolding quiet_def first_entry_def using readdir_loop_kept by (fastforce split: option.splits)

lemma check_dir_empty_restores:
  assumes fresh: "files_fresh s" and eq: "check_dir_empty ops path s = Inr (x, s')"
  shows "kept {} s s'"
proof -
  obtain r s1 where s1: "sys_open ops path 0 0 s = Inr (r, s1)" using eq by (auto simp: check_dir_empty_def bnd_def split: sum.splits)
  have at: "opens_at s r s1" using sys_open_opens fresh s1 unfolding opens_def by blast
  show ?thesis
  proof (cases r)
    case (Inl e)
    then have "s' = s1" using eq s1 by (auto simp: check_dir_empty_def bnd_def ret_def)
    then show ?thesis using at Inl by (simp add: opens_at_def)
  next
    case (Inr fp)
    obtain e s2 b where s2: "first_entry ops fp s1 = Inr (e, s2)" "fdrop ops fp s2 = Inr (b, s')"
      using eq s1 Inr by (auto simp: check_dir_empty_def bnd_def ret_def split: sum.splits)
    have k1: "kept {fp} s s1" "next_ptr s \<le> fp" using at Inr by (simp_all add: opens_at_def)
    have k2: "kept {} s1 s2" by (rule quietD [OF first_entry_quiet s2(1)])
    obtain flags dp where "fcores s1 fp = Some (fcore (new_file flags dp))" using at Inr by (auto simp: opens_at_def)
    then have "fcores s2 fp = Some (fcore (new_file flags dp))" using kept_fcores [OF k2] by simp
    then obtain f where f: "files s2 fp = Some f" "f_count f = 1" by (auto simp: fcores_def fcore_def new_file_def)
    note e = fdrop_effect [OF s2(2) f(1)]
    have "fcores s fp = None" using fresh k1(2) by (simp add: files_fresh_def)
    moreover have "kept {fp} s s'" using kept_trans [OF k1(1) kept_trans [OF kept_mono [OF k2] e(1)]] by simp
    ultimately show ?thesis using e(2,3) f(2) unfolding kept_def by (metis empty_iff singletonD)
  qed
qed

lemma sys_rmdir_restores:
  assumes fresh: "files_fresh s" and eq: "sys_rmdir ops path s = Inr (x, s')"
  shows "kept {} s s'"
proof -
  obtain error s1 where s1: "check_dir_empty ops path s = Inr (error, s1)" using eq by (auto simp: sys_rmdir_def bnd_def split: sum.splits)
  define rest where "rest error = (case error of Some e \<Rightarrow> ret (Some e) | None \<Rightarrow>
         bnd (namei ops path) (\<lambda>r.
         case r of
           Inl error \<Rightarrow> ret (Some error)
         | Inr dpp \<Rightarrow>
             bnd (nonnull dpp) (\<lambda>dp.
             bnd (deref dentries dp) (\<lambda>de.
             let vp = d_vnode de in
             bnd (vn_lock vp) (\<lambda>_.
             bnd (vn_access vp VWRITE) (\<lambda>error.
             case error of
               Some e \<Rightarrow> unlock_drele ops vp dp (Some e)
             | None \<Rightarrow>
                 bnd (deref vnodes vp) (\<lambda>vn.
                 if v_type vn \<noteq> VDIR then unlock_drele ops vp dp (Some ENOTDIR)
                 else if v_flags vn AND VROOT \<noteq> 0 \<or> 2 \<le> v_refcnt vn then unlock_drele ops vp dp (Some EBUSY)
                 else
                   bnd (lookup ops path) (\<lambda>r.
                   case r of
                     Inl error \<Rightarrow> unlock_drele ops vp dp (Some error)
                   | Inr (ddp, name) \<Rightarrow>
                       bnd (deref dentries ddp) (\<lambda>dde.
                       bnd (vn_lock (d_vnode dde)) (\<lambda>_.
                       bnd (vop_rmdir ops (d_vnode dde) vp name) (\<lambda>error.
                       bnd (vn_unlock (d_vnode dde)) (\<lambda>_.
                       bnd (vn_unlock vp) (\<lambda>_.
                       bnd (dentry_remove dp) (\<lambda>_.
                       bnd (drele ops ddp) (\<lambda>_.
                       bnd (drele ops dp) (\<lambda>_.
                       ret error))))))))))))))))" for error
  have e: "sys_rmdir ops path = bnd (check_dir_empty ops path) rest" by (simp add: sys_rmdir_def rest_def [abs_def])
  have "quiet {} (rest error)" unfolding rest_def by (intro quiet_intros)
  moreover have "rest error s1 = Inr (x, s')" using eq s1 unfolding e bnd_def by simp
  ultimately have "kept {} s1 s'" by (rule quietD)
  then show ?thesis by (rule kept_trans [OF check_dir_empty_restores [OF fresh s1]])
qed

end


section \<open>The RAM file system\<close>

lemma quiet_file_update:
  assumes "\<And>f. quiet {} (g f)"
  shows "quiet {} (bnd (deref files fp) (\<lambda>f. bnd (g f) (\<lambda>r. case r of
    Inl e \<Rightarrow> ret (Inl e)
  | Inr (x, y) \<Rightarrow> bnd (set_file fp (f\<lparr>f_offset := h f\<rparr>)) (\<lambda>_. ret (k f x y)))))"
  unfolding quiet_def
proof (intro allI impI)
  fix s z s'
  assume eq: "bnd (deref files fp) (\<lambda>f. bnd (g f) (\<lambda>r. case r of
    Inl e \<Rightarrow> ret (Inl e) | Inr (x, y) \<Rightarrow> bnd (set_file fp (f\<lparr>f_offset := h f\<rparr>)) (\<lambda>_. ret (k f x y)))) s = Inr (z, s')"
  then obtain f r s1 where f: "files s fp = Some f" "g f s = Inr (r, s1)"
    by (auto simp: bnd_def deref_def split: sum.splits option.splits)
  have kept: "kept {} s s1" by (rule quietD [OF assms f(2)])
  show "kept {} s s'"
  proof (cases r)
    case (Inl e)
    then show ?thesis using eq f kept by (auto simp: bnd_def deref_def ret_def)
  next
    case (Inr xy)
    have s': "s' = s1\<lparr>files := (files s1)(fp \<mapsto> f\<lparr>f_offset := h f\<rparr>)\<rparr>"
      using eq f Inr by (auto simp: bnd_def deref_def ret_def set_file_def change_def split: prod.splits)
    have "fcores s1 fp = Some (fcore f)" using kept_fcores [OF kept] f(1) by (simp add: fcores_def)
    then have "fcores s' = fcores s1" by (auto simp: s' fcores_def fcore_def fun_eq_iff)
    then show ?thesis using kept by (simp add: kept_def s')
  qed
qed

lemma quiet_node [quiet_intros]: "quiet F (node p)" "quiet F (set_node p n)" "quiet F (walk_nodes loop)"
  unfolding node_def set_node_def walk_nodes_def by (intro quiet_intros)+

lemma quiet_ramfs_nodes [quiet_intros]: "quiet F (ramfs_allocate_node name type)" "quiet F (ramfs_free_node np)"
  unfolding ramfs_allocate_node_def ramfs_free_node_def by (intro quiet_intros)+

lemma quiet_ramfs_tree [quiet_intros]: "quiet F (ramfs_add_node dnp name type)" "quiet F (ramfs_remove_node dnp np)" "quiet F (node_uiomove np off len uio)"
  unfolding ramfs_add_node_def ramfs_remove_node_def node_uiomove_def by (intro quiet_intros)+

lemma quiet_ramfs_ops:
  "quiet F (ramfs_lookup v name)" "quiet F (ramfs_mkdir v name mode)" "quiet F (ramfs_remove v w name)" "quiet F (ramfs_rmdir v w name)"
  "quiet F (ramfs_truncate v len)" "quiet F (ramfs_create v name mode)" "quiet F (ramfs_read v fp uio flags)" "quiet F (ramfs_write v uio flags)"
  "quiet F (ramfs_getattr v va)"
  unfolding ramfs_lookup_def ramfs_mkdir_def ramfs_remove_def ramfs_rmdir_def ramfs_truncate_def ramfs_create_def ramfs_read_def ramfs_write_def ramfs_getattr_def
    ramfs_vget_def
  by (intro quiet_intros quiet_vget)+

lemma quiet_ramfs_readdir: "quiet {} (ramfs_readdir v fp)"
  unfolding ramfs_readdir_def by (rule quiet_file_update) (intro quiet_intros)

interpretation ramfs_quiet: fs_quiet ramfs_ops ramfs_dots
  by unfold_locales (simp_all add: ramfs_ops_def ramfs_vnops_def quiet_ret quiet_fail quiet_ramfs_ops quiet_ramfs_readdir)

end
