(* ===== verification/Vfs_Balance.thy ===== *)
theory Vfs_Balance
  imports Vfs_Demo Vfs_Quiet
begin

text \<open>
  The reference discipline of whole system calls, on a mounted RAM file system: the lemmas of the locales \<open>fs_backend\<close> and
  \<open>fs_calls\<close> for the operations \<open>ramfs_ops\<close>.
\<close>

lemma wp_result: "\<lbrakk>wp f Q s; \<And>x s'. \<lbrakk>f s = Inr (x, s'); Q x s'\<rbrakk> \<Longrightarrow> P x s'\<rbrakk> \<Longrightarrow> wp f P s"
  by (auto simp: wp_def split: sum.splits)

section \<open>Properties\<close>



text \<open>C3: When \<open>sys_open\<close> fails, all references, open files (but for offsets), descriptors and the working directory are as before; a file that it created stays. Otherwise it
  returns a new file, which was none before, with a count of one and one new reference to its entry, and everything else of these is as before. Dropping the
  file frees it: the object is gone, the reference to the entry is given back, and all references, open files, descriptors and the working directory are as
  they were before the call.\<close>

theorem open_close_balanced:
  assumes "refs_ok R {} D V L s" "files_fresh s"
  shows "wp (sys_open ramfs_ops path flags mode) (\<lambda>r s'. case r of
      Inl e \<Rightarrow> refs_ok R {} D V L s' \<and> kept {} s s'
    | Inr fp \<Rightarrow> files s fp = None \<and> kept {fp} s s' \<and>
        (\<exists>f d v. refs_ok R {} (add_mset (d, v) D) V L s' \<and> files s' fp = Some f \<and> f_count f = 1 \<and> f_type f = DTYPE_VNODE \<and> f_dentry f = Some d) \<and>
        wp (fdrop ramfs_ops fp) (\<lambda>freed s''. freed \<and> refs_ok R {} D V L s'' \<and> files s'' fp = None \<and> kept {} s s'') s') s"
proof -
  have at: "opens_at s r s'" if "sys_open ramfs_ops path flags mode s = Inr (r, s')" for r s'
    using ramfs_quiet.sys_open_opens [of path flags mode] that assms(2) unfolding opens_def by blast
  have "wp (sys_open ramfs_ops path flags mode) (\<lambda>r s'. case r of
      Inl e \<Rightarrow> refs_ok R {} D V L s'
    | Inr fp \<Rightarrow> \<exists>f d v. refs_ok R {} (add_mset (d, v) D) V L s' \<and> files s' fp = Some f \<and> f_count f = 1 \<and> f_type f = DTYPE_VNODE \<and> f_dentry f = Some d) s"
    by (rule ramfs.sys_open_rule [OF assms(1)]) (auto simp: fcore_def new_file_def)
  then show ?thesis
  proof (rule wp_result, goal_cases)
    case (1 r s')
    show ?case
    proof (cases r)
      case (Inl e)
      then show ?thesis using 1 at [OF 1(1)] by (simp add: opens_at_def)
    next
      case (Inr fp)
      have o: "kept {fp} s s'" "next_ptr s \<le> fp" using at [OF 1(1)] Inr by (simp_all add: opens_at_def)
      then have none: "fcores s fp = None" using assms(2) by (simp add: files_fresh_def)
      obtain f d v where f: "refs_ok R {} (add_mset (d, v) D) V L s'" "files s' fp = Some f" "f_count f = 1" "f_type f = DTYPE_VNODE" "f_dentry f = Some d"
        using 1(2) Inr by auto
      have "wp (fdrop ramfs_ops fp) (\<lambda>freed s''. freed \<and> refs_ok R {} D V L s'') s'"
        by (rule ramfs.fdrop_last [OF f(1) refs_ok_held [OF assms(1)] f(2)]) (use f in simp_all)
      then have "wp (fdrop ramfs_ops fp) (\<lambda>freed s''. freed \<and> refs_ok R {} D V L s'' \<and> files s'' fp = None \<and> kept {} s s'') s'"
      proof (rule wp_result, goal_cases)
        case (1 freed s'')
        note e = ramfs_quiet.fdrop_effect [OF 1(1) f(2)]
        have "fcores s'' fp = None" using e(2) 1(2) by blast
        moreover have "kept {fp} s s''" by (rule kept_trans [OF o(1) e(1)])
        ultimately have "kept {} s s''" using none unfolding kept_def by (metis empty_iff singletonD)
        then show ?case using 1(2) \<open>fcores s'' fp = None\<close> by (simp add: fcores_def)
      qed
      then show ?thesis using Inr o none f by (auto simp: fcores_def)
    qed
  qed
qed

lemma demo_fresh: "files_fresh demo"
  by (simp add: files_fresh_def fcores_def demo_def)

theorem open_close_balanced_witness:
  "wp (sys_open ramfs_ops ''/f'' 0x42 0x1A4) (\<lambda>r s'. case r of
      Inl e \<Rightarrow> refs_ok {3} {} {#(3, 2)#} {#} {#} s' \<and> kept {} demo s'
    | Inr fp \<Rightarrow> files demo fp = None \<and> kept {fp} demo s' \<and>
        (\<exists>f d v. refs_ok {3} {} (add_mset (d, v) {#(3, 2)#}) {#} {#} s' \<and> files s' fp = Some f \<and> f_count f = 1 \<and> f_type f = DTYPE_VNODE \<and> f_dentry f = Some d) \<and>
        wp (fdrop ramfs_ops fp) (\<lambda>freed s''. freed \<and> refs_ok {3} {} {#(3, 2)#} {#} {#} s'' \<and> files s'' fp = None \<and> kept {} demo s'') s') demo"
  by (rule open_close_balanced [OF demo_ok demo_fresh])

text \<open>C4: \<open>read\<close>, \<open>write\<close>, \<open>lseek\<close>, \<open>ioctl\<close>, \<open>fsync\<close>, \<open>fstat\<close>, \<open>readdir\<close>, \<open>seekdir\<close>, \<open>rewinddir\<close>, \<open>telldir\<close>, \<open>fchdir\<close>, \<open>fstatfs\<close>, \<open>ftruncate\<close> and \<open>fallocate\<close> on an open file leave all
  references, locks and open files as they were (only offsets, attributes and contents change), on every path through them, and no assertion of the VFS
  layer fails. Faults in the nodes of the file system itself are not excluded. (\<open>futimens\<close>, which may keep a reference as \<open>utimensat\<close> does, and
  \<open>fchmod\<close> take a descriptor and are not among the calls.)\<close>

theorem file_calls_balanced:
  assumes "refs_ok R {} D V L s" "file_ok D s fp"
  shows "wp (sys_read ramfs_ops fp iov off) (bal R D V L s) s \<and> wp (sys_write ramfs_ops fp iov off) (bal R D V L s) s \<and>
    wp (sys_lseek ramfs_ops fp off type) (bal R D V L s) s \<and> wp (sys_ioctl ramfs_ops fp com data) (bal R D V L s) s \<and>
    wp (sys_fsync ramfs_ops fp) (bal R D V L s) s \<and> wp (sys_fstat ramfs_ops fp) (bal R D V L s) s \<and>
    wp (sys_readdir ramfs_ops fp) (bal R D V L s) s \<and>
    wp (sys_seekdir fp loc) (bal R D V L s) s \<and> wp (sys_rewinddir fp) (bal R D V L s) s \<and>
    wp (sys_telldir fp) (bal R D V L s) s \<and> wp (sys_fchdir fp) (bal R D V L s) s \<and> wp (sys_fstatfs ramfs_ops fp) (bal R D V L s) s \<and>
    wp (sys_ftruncate ramfs_ops fp len) (bal R D V L s) s \<and> wp (sys_fallocate ramfs_ops fp fmode off len) (bal R D V L s) s"
  by (intro conjI ramfs.read_write_calls ramfs.lseek_call ramfs.simple_file_calls ramfs.readdir_call ramfs.directory_calls assms)

definition demo_open :: "ramfs vfs" where
  "demo_open = demo\<lparr>files := [9 \<mapsto> new_file 3 3]\<rparr>"

lemma demo_open_ok: "refs_ok {3} {} {#(3, 2)#} {#} {#} demo_open" "file_ok {#(3, 2)#} demo_open 9"
  using demo_ok by (simp_all add: demo_open_def file_ok_def new_file_def)

theorem file_calls_balanced_witness:
  "wp (sys_lseek ramfs_ops 9 7 SEEK_SET) (bal {3} {#(3, 2)#} {#} {#} demo_open) demo_open \<and>
   wp (sys_rewinddir 9) (bal {3} {#(3, 2)#} {#} {#} demo_open) demo_open"
  using file_calls_balanced [OF demo_open_ok] by blast

text \<open>The path \<open>///\<close>: no entry is cached under that name and there is no component to look up, so that \<open>namei\<close> returns 0 with a null entry, and the
  reference it took to the root is never released.\<close>

lemma namei_slashes_leak:
  "namei ramfs_ops ''///'' demo = Inr (Inr None, demo\<lparr>dentries := [3 \<mapsto> demo_root_dentry\<lparr>d_refcnt := 2\<rparr>]\<rparr>)"
proof -
  have root: "find_root ''///'' demo = Inr (Some (1, ''/''), demo)"
    by (simp add: find_root_def bnd_def look_def ret_def demo_def demo_mount_def vfs_findroot_def Let_def count_match_def)
  have "dentry_hash_table demo ! dentry_hash 1 ''//'' \<in> {[], [3]}"
    using dentry_hash_less [of 1 "''//''"] dentry_hash_less [of 1 "''/''"]
    by (cases "dentry_hash 1 ''/'' = dentry_hash 1 ''//''") (simp_all add: demo_def)
  moreover have "find_dentry 1 ''//'' [3] demo = Inr (None, demo)"
    by (simp add: bnd_def deref_def ret_def demo_def demo_root_dentry_def path_max_def)
  ultimately have miss: "dentry_lookup 1 ''//'' demo = Inr (None, demo)"
    by (auto simp: dentry_lookup_def bnd_def look_def ret_def)
  have hold: "dref 3 demo = Inr ((), demo\<lparr>dentries := [3 \<mapsto> demo_root_dentry\<lparr>d_refcnt := 2\<rparr>]\<rparr>)"
    by (simp add: dref_def bnd_def deref_def ASSERT_def ret_def set_dentry_def change_def demo_def demo_root_dentry_def numeral_2_eq_2)
  have walk: "namei_walk ramfs_ops 1 ''///'' n [] ''/'' 3 None = ret (Walk_done None)" for n
    by (subst namei_walk.simps) simp
  have names: "strlcpy path_max ''///'' = ''///''" "strlcat path_max ''/'' ''/'' = ''//''"
    by (simp_all add: strlcpy_def strlcat_def path_max_def)
  have mount: "deref mounts 1 demo = Inr (demo_mount, demo)" "m_root demo_mount = Some 3" by (simp_all add: deref_def demo_def demo_mount_def)
  have "namei_loop ramfs_ops (Suc 19) ''///'' demo = Inr (Inr None, demo\<lparr>dentries := [3 \<mapsto> demo_root_dentry\<lparr>d_refcnt := 2\<rparr>]\<rparr>)"
    unfolding namei_loop.simps by (simp only: bnd_def root miss hold walk names mount ret_def sum.case prod.case option.case walk.case)
  then show ?thesis by (simp add: namei_def names maxsymlinks_def)
qed

text \<open>C5: \<open>namei\<close> keeps no lock. When it fails, no reference changes; when it returns an entry, there is exactly one new reference, to that entry. When it returns
  neither an error nor an entry, there is exactly one new reference, to the root of a mounted file system, which the caller cannot release.\<close>

theorem namei_one_reference:
  assumes "refs_ok R {} D V L s"
  shows "wp (namei ramfs_ops path) (\<lambda>r s'. case r of
      Inl e \<Rightarrow> refs_ok R {} D V L s'
    | Inr (Some d) \<Rightarrow> \<exists>v. refs_ok R {} (add_mset (d, v) D) V L s'
    | Inr None \<Rightarrow> \<exists>d v. d \<in> R \<and> refs_ok R {} (add_mset (d, v) D) V L s') s"
  by (rule ramfs.namei_rule [OF assms]) auto

theorem namei_one_reference_witness:
  "wp (namei ramfs_ops ''/'') (\<lambda>r s'. case r of
      Inl e \<Rightarrow> refs_ok {3} {} {#(3, 2)#} {#} {#} s'
    | Inr (Some d) \<Rightarrow> \<exists>v. refs_ok {3} {} (add_mset (d, v) {#(3, 2)#}) {#} {#} s'
    | Inr None \<Rightarrow> \<exists>d v. d \<in> {3} \<and> refs_ok {3} {} (add_mset (d, v) {#(3, 2)#}) {#} {#} s') demo \<and>
   (\<exists>v. refs_ok {3} {} {#(3, v), (3, 2)#} {#} {#} (demo\<lparr>dentries := [3 \<mapsto> demo_root_dentry\<lparr>d_refcnt := 2\<rparr>]\<rparr>))"
  using namei_one_reference [OF demo_ok, of "''/''"] namei_one_reference [OF demo_ok, of "''///''"]
  by (simp add: namei_slashes_leak wp_def)

text \<open>C11: The recursion of \<open>drele\<close> up the chain of parents ends, for every entry to which a reference is held.\<close>

theorem drele_terminates:
  assumes "refs_ok R {} (add_mset (d, v) D) V L s" "held R D V L"
  shows "\<exists>r. drele_rec ramfs_ops d s = Some r"
  using drele_rec_ok [OF ramfs.inactive_keeps assms] by blast

lemma demo_unmounted_ok: "refs_ok {} {} {#(3, 2)#} {#} {#} (demo\<lparr>mount_list := []\<rparr>)"
proof -
  let ?s = "demo\<lparr>mount_list := []\<rparr>"
  have "dentries_ok {} {#(3, 2)#} ?s = dentries_ok {} {#(3, 2)#} demo" "vnodes_ok {} {#} {#} ?s = vnodes_ok {} {#} {#} demo"
    "dtable_ok {} ?s = dtable_ok {} demo" "vtable_ok ?s = vtable_ok demo" "ld {} ?s = ld {} demo"
    by (simp_all add: dentries_ok_def vnodes_ok_def dtable_ok_def vtable_ok_def ld_def dlinks_def fun_eq_iff)
  then show ?thesis using demo_ok by (simp add: refs_ok_def roots_ok_def held_def)
qed

theorem drele_terminates_witness: "\<exists>r. drele_rec ramfs_ops 3 (demo\<lparr>mount_list := []\<rparr>) = Some r"
  by (rule drele_terminates [OF demo_unmounted_ok]) (simp add: held_def)

end
