(* ===== verification/Vfs_Api.thy ===== *)
theory Vfs_Api
  imports Vfs_Quiet
begin

text \<open>
  The calls a program makes, of \<open>fs/vfs/main.cc\<close>: each converts its path with \<open>task_conv\<close> or looks its descriptor up with \<open>fget\<close>, runs
  the system call of \<open>vfs_syscalls.cc\<close>, and drops what it held. A failed call returns \<open>Inl\<close> of the value stored in \<open>errno\<close>. The
  tracepoints of the calls are not modelled, nor is a call without a main task. The invariant \<open>api_inv\<close> counts the references to open files:
  those of the descriptor table, that of the working directory and those of calls in progress.
\<close>

section \<open>Descriptors and paths\<close>

definition apply_umask :: "u32 \<Rightarrow> u32 \<Rightarrow> u32" where
  "apply_umask global_umask mode = mode AND NOT global_umask"

text \<open>The descriptor is looked up, the call made on the file, and the reference dropped before the result is examined.\<close>

definition fd_call :: "'fs fsops \<Rightarrow> int \<Rightarrow> (nat \<Rightarrow> (errno + 'a, 'fs) vm) \<Rightarrow> (errno + 'a, 'fs) vm" where
  "fd_call ops fd call =
     bnd (fget fd) (\<lambda>r.
     case r of
       Inl error \<Rightarrow> ret (Inl error)
     | Inr fp \<Rightarrow>
         bnd (call fp) (\<lambda>result.
         bnd (fdrop ops fp) (\<lambda>_.
         ret result)))"

definition path_call :: "string \<Rightarrow> (string \<Rightarrow> (errno + 'a, 'fs) vm) \<Rightarrow> (errno + 'a, 'fs) vm" where
  "path_call pathname call =
     bnd (task_conv pathname) (\<lambda>r.
     case r of
       Inl error \<Rightarrow> ret (Inl error)
     | Inr path \<Rightarrow> call path)"

text \<open>The calls that accept a null path answer it with \<open>ENOENT\<close>.\<close>

definition path_call_null :: "string option \<Rightarrow> (string \<Rightarrow> (errno + 'a, 'fs) vm) \<Rightarrow> (errno + 'a, 'fs) vm" where
  "path_call_null pathname call = (case pathname of None \<Rightarrow> ret (Inl ENOENT) | Some p \<Rightarrow> path_call p call)"

text \<open>A status: no error is the result 0.\<close>

definition status :: "(errno option, 'fs) vm \<Rightarrow> (errno + int, 'fs) vm" where
  "status call = bnd call (\<lambda>error. ret (case error of None \<Rightarrow> Inr 0 | Some e \<Rightarrow> Inl e))"


section \<open>Opening and closing\<close>

definition api_open :: "'fs fsops \<Rightarrow> u32 \<Rightarrow> string \<Rightarrow> u32 \<Rightarrow> u32 \<Rightarrow> (errno + int, 'fs) vm" where
  "api_open ops global_umask pathname flags arg =
     (let mode = (if flags AND O_CREAT \<noteq> 0 then apply_umask global_umask arg else 0) in
      path_call pathname (\<lambda>path.
      bnd (sys_open ops path flags mode) (\<lambda>r.
      case r of
        Inl error \<Rightarrow> ret (Inl error)
      | Inr fp \<Rightarrow>
          bnd (fdalloc ops fp) (\<lambda>r.
          case r of
            Inl error \<Rightarrow> bnd (fdrop ops fp) (\<lambda>_. ret (Inl error))
          | Inr fd \<Rightarrow> bnd (fdrop ops fp) (\<lambda>_. ret (Inr (int fd)))))))"

text \<open>
  The calls relative to a directory: the path is put together from the mount point, the path of the directory within the mount, and the
  argument, and the call is made with the vnode of the directory locked.
\<close>

definition dir_path :: "mount \<Rightarrow> dentry \<Rightarrow> string \<Rightarrow> string" where
  "dir_path me de pathname =
     (let p = strlcpy path_max (m_path me);
          p = strlcat path_max p (d_path de);
          p = strlcat path_max p [slash]
      in strlcat path_max p pathname)"

definition at_call :: "'fs fsops \<Rightarrow> int \<Rightarrow> string \<Rightarrow> (string \<Rightarrow> (errno + 'a, 'fs) vm) \<Rightarrow> (errno + 'a, 'fs) vm" where
  "at_call ops dirfd pathname call =
     (if pathname \<noteq> [] \<and> hd pathname = slash \<or> dirfd = AT_FDCWD then call pathname
      else
        fd_call ops dirfd (\<lambda>fp.
        bnd (deref files fp) (\<lambda>f.
        bnd (nonnull (f_dentry f)) (\<lambda>dp.
        bnd (deref dentries dp) (\<lambda>de.
        bnd (vn_lock (d_vnode de)) (\<lambda>_.
        bnd (deref mounts (d_mount de)) (\<lambda>me.
        bnd (call (dir_path me de pathname)) (\<lambda>error.
        bnd (vn_unlock (d_vnode de)) (\<lambda>_.
        ret error)))))))))"

definition api_openat :: "'fs fsops \<Rightarrow> u32 \<Rightarrow> int \<Rightarrow> string \<Rightarrow> u32 \<Rightarrow> u32 \<Rightarrow> (errno + int, 'fs) vm" where
  "api_openat ops global_umask dirfd pathname flags arg =
     (let mode = (if flags AND O_CREAT \<noteq> 0 then apply_umask global_umask arg else 0) in
      at_call ops dirfd pathname (\<lambda>p. api_open ops global_umask p flags mode))"

definition O_WRONLY :: u32 where "O_WRONLY = 1"

definition api_creat :: "'fs fsops \<Rightarrow> u32 \<Rightarrow> string \<Rightarrow> u32 \<Rightarrow> (errno + int, 'fs) vm" where
  "api_creat ops global_umask pathname mode = api_open ops global_umask pathname (O_CREAT OR O_WRONLY OR O_TRUNC) mode"

definition api_close :: "'fs fsops \<Rightarrow> int \<Rightarrow> (errno + int, 'fs) vm" where
  "api_close ops fd = status (fdclose ops fd)"

text \<open>\<open>getcwd\<close>; \<open>malloc\<close> is the result of the allocation of a buffer.\<close>

definition api_getcwd :: "(nat \<Rightarrow> nat option) \<Rightarrow> nat option \<Rightarrow> nat \<Rightarrow> (errno + nat, 'fs) vm" where
  "api_getcwd malloc path n =
     bnd (look t_cwd) (\<lambda>cwd.
     let len = length cwd + 1;
         copy_to = (\<lambda>p m.
           if m < len then ret (Inl ERANGE)
           else bnd (change (\<lambda>s. s\<lparr>user := mem_write (user s) p (char_bytes cwd @ [Some 0])\<rparr>)) (\<lambda>_. ret (Inr p)))
     in case path of
          None \<Rightarrow>
            let m = (if n = 0 then len else n) in
            (case malloc m of None \<Rightarrow> ret (Inl ENOMEM) | Some p \<Rightarrow> copy_to p m)
        | Some p \<Rightarrow> if n = 0 then ret (Inl EINVAL) else copy_to p n)"

definition api_dup :: "'fs fsops \<Rightarrow> int \<Rightarrow> (errno + int, 'fs) vm" where
  "api_dup ops oldfd =
     bnd (fget oldfd) (\<lambda>r.
     case r of
       Inl error \<Rightarrow> ret (Inl error)
     | Inr fp \<Rightarrow>
         bnd (fdalloc ops fp) (\<lambda>r.
         case r of
           Inl error \<Rightarrow> bnd (fdrop ops fp) (\<lambda>_. ret (Inl error))
         | Inr newfd \<Rightarrow> bnd (fdrop ops fp) (\<lambda>_. ret (Inr (int newfd)))))"

definition O_CLOEXEC :: u32 where "O_CLOEXEC = 0x80000"

definition api_dup3 :: "'fs fsops \<Rightarrow> int \<Rightarrow> int \<Rightarrow> u32 \<Rightarrow> (errno + int, 'fs) vm" where
  "api_dup3 ops oldfd newfd flags =
     (if flags AND NOT O_CLOEXEC \<noteq> 0 then ret (Inl EINVAL)
      else if oldfd = newfd then ret (Inl EINVAL)
      else
        bnd (fget oldfd) (\<lambda>r.
        case r of
          Inl error \<Rightarrow> ret (Inl error)
        | Inr fp \<Rightarrow>
            bnd (fdset ops newfd fp) (\<lambda>error.
            case error of
              Some e \<Rightarrow> bnd (fdrop ops fp) (\<lambda>_. ret (Inl e))
            | None \<Rightarrow> bnd (fdrop ops fp) (\<lambda>_. ret (Inr newfd)))))"

definition api_dup2 :: "'fs fsops \<Rightarrow> int \<Rightarrow> int \<Rightarrow> (errno + int, 'fs) vm" where
  "api_dup2 ops oldfd newfd = (if oldfd = newfd then ret (Inr newfd) else api_dup3 ops oldfd newfd 0)"


section \<open>Calls on a descriptor\<close>

definition api_lseek :: "'fs fsops \<Rightarrow> int \<Rightarrow> int \<Rightarrow> int \<Rightarrow> (errno + int, 'fs) vm" where
  "api_lseek ops fd offset whence = fd_call ops fd (\<lambda>fp. sys_lseek ops fp offset whence)"

text \<open>\<open>EWOULDBLOCK\<close> is \<open>EAGAIN\<close>.\<close>

definition has_error :: "errno option \<Rightarrow> int \<Rightarrow> bool" where
  "has_error error bytes = (case error of
     None \<Rightarrow> False
   | Some e \<Rightarrow> bytes = 0 \<or> e \<noteq> EAGAIN \<and> e \<noteq> EINTR \<and> e \<noteq> ERESTART)"

definition transferred :: "errno option \<times> int \<Rightarrow> errno + int" where
  "transferred result = (case result of (error, bytes) \<Rightarrow> if has_error error bytes then Inl (the error) else Inr bytes)"

definition api_preadv :: "'fs fsops \<Rightarrow> int \<Rightarrow> iovec list \<Rightarrow> int \<Rightarrow> (errno + int, 'fs) vm" where
  "api_preadv ops fd iov offset = fd_call ops fd (\<lambda>fp. bnd (sys_read ops fp iov offset) (\<lambda>r. ret (transferred r)))"

definition api_pwritev :: "'fs fsops \<Rightarrow> int \<Rightarrow> iovec list \<Rightarrow> int \<Rightarrow> (errno + int, 'fs) vm" where
  "api_pwritev ops fd iov offset = fd_call ops fd (\<lambda>fp. bnd (sys_write ops fp iov offset) (\<lambda>r. ret (transferred r)))"

definition api_pread :: "'fs fsops \<Rightarrow> int \<Rightarrow> nat \<Rightarrow> nat \<Rightarrow> int \<Rightarrow> (errno + int, 'fs) vm" where
  "api_pread ops fd buf n offset =
     fd_call ops fd (\<lambda>fp. bnd (sys_read ops fp [\<lparr>iov_base = buf, iov_len = n\<rparr>] offset) (\<lambda>r. ret (transferred r)))"

definition api_pwrite :: "'fs fsops \<Rightarrow> int \<Rightarrow> nat \<Rightarrow> nat \<Rightarrow> int \<Rightarrow> (errno + int, 'fs) vm" where
  "api_pwrite ops fd buf n offset =
     fd_call ops fd (\<lambda>fp. bnd (sys_write ops fp [\<lparr>iov_base = buf, iov_len = n\<rparr>] offset) (\<lambda>r. ret (transferred r)))"

definition api_read :: "'fs fsops \<Rightarrow> int \<Rightarrow> nat \<Rightarrow> nat \<Rightarrow> (errno + int, 'fs) vm" where
  "api_read ops fd buf n = api_pread ops fd buf n (-1)"

definition api_write :: "'fs fsops \<Rightarrow> int \<Rightarrow> nat \<Rightarrow> nat \<Rightarrow> (errno + int, 'fs) vm" where
  "api_write ops fd buf n = api_pwrite ops fd buf n (-1)"

definition api_ioctl :: "'fs fsops \<Rightarrow> int \<Rightarrow> u64 \<Rightarrow> nat \<Rightarrow> (errno + int, 'fs) vm" where
  "api_ioctl ops fd request arg = fd_call ops fd (\<lambda>fp. status (sys_ioctl ops fp request arg))"

definition api_fsync :: "'fs fsops \<Rightarrow> int \<Rightarrow> (errno + int, 'fs) vm" where
  "api_fsync ops fd = fd_call ops fd (\<lambda>fp. status (sys_fsync ops fp))"

definition api_fstat :: "'fs fsops \<Rightarrow> int \<Rightarrow> (errno + stat_buf, 'fs) vm" where
  "api_fstat ops fd = fd_call ops fd (sys_fstat ops)"

definition api_fstatfs :: "'fs fsops \<Rightarrow> int \<Rightarrow> (errno + int, 'fs) vm" where
  "api_fstatfs ops fd = fd_call ops fd (\<lambda>fp. status (sys_fstatfs ops fp))"

definition api_ftruncate :: "'fs fsops \<Rightarrow> int \<Rightarrow> int \<Rightarrow> (errno + int, 'fs) vm" where
  "api_ftruncate ops fd len = fd_call ops fd (\<lambda>fp. status (sys_ftruncate ops fp len))"

definition api_fallocate :: "'fs fsops \<Rightarrow> int \<Rightarrow> u32 \<Rightarrow> int \<Rightarrow> int \<Rightarrow> (errno + int, 'fs) vm" where
  "api_fallocate ops fd mode offset len = fd_call ops fd (\<lambda>fp. status (sys_fallocate ops fp mode offset len))"


section \<open>Directory streams\<close>

text \<open>A \<open>DIR\<close> is its descriptor. \<open>readdir_r\<close> returns its result and the entry it points \<open>*result\<close> to.\<close>

definition api_opendir :: "'fs fsops \<Rightarrow> u32 \<Rightarrow> string \<Rightarrow> (errno + int, 'fs) vm" where
  "api_opendir ops global_umask path = api_open ops global_umask path 0 0"

definition api_fdopendir :: "'fs fsops \<Rightarrow> int \<Rightarrow> (errno + int, 'fs) vm" where
  "api_fdopendir ops fd =
     bnd (api_fstat ops fd) (\<lambda>r.
     ret (case r of
            Inl error \<Rightarrow> Inl error
          | Inr st \<Rightarrow> if st_mode st AND S_IFMT \<noteq> S_IFDIR then Inl ENOTDIR else Inr fd))"

definition api_closedir :: "'fs fsops \<Rightarrow> int \<Rightarrow> (errno + int, 'fs) vm" where
  "api_closedir ops dir = bnd (api_close ops dir) (\<lambda>_. ret (Inr 0))"

definition api_readdir_r :: "'fs fsops \<Rightarrow> int \<Rightarrow> (errno option \<times> dirent option, 'fs) vm" where
  "api_readdir_r ops dir =
     bnd (fd_call ops dir (sys_readdir ops)) (\<lambda>r.
     ret (case r of
            Inl error \<Rightarrow> (if error = ENOENT then None else Some error, None)
          | Inr entry \<Rightarrow> (None, Some entry)))"

definition api_readdir :: "'fs fsops \<Rightarrow> int \<Rightarrow> (errno + dirent option, 'fs) vm" where
  "api_readdir ops dir =
     bnd (api_readdir_r ops dir) (\<lambda>(error, result).
     ret (case error of Some e \<Rightarrow> Inl e | None \<Rightarrow> Inr result))"

definition api_rewinddir :: "'fs fsops \<Rightarrow> int \<Rightarrow> (unit, 'fs) vm" where
  "api_rewinddir ops dir = bnd (fd_call ops dir (\<lambda>fp. status (sys_rewinddir fp))) (\<lambda>_. ret ())"

definition api_telldir :: "'fs fsops \<Rightarrow> int \<Rightarrow> (errno + int, 'fs) vm" where
  "api_telldir ops dir = fd_call ops dir sys_telldir"

definition api_seekdir :: "'fs fsops \<Rightarrow> int \<Rightarrow> int \<Rightarrow> (unit, 'fs) vm" where
  "api_seekdir ops dir loc = bnd (fd_call ops dir (\<lambda>fp. status (sys_seekdir fp loc))) (\<lambda>_. ret ())"


section \<open>Calls on a path\<close>

definition api_mknod :: "'fs fsops \<Rightarrow> string \<Rightarrow> u32 \<Rightarrow> (errno + int, 'fs) vm" where
  "api_mknod ops pathname mode = path_call pathname (\<lambda>path. status (sys_mknod ops path mode))"

definition api_mkdir :: "'fs fsops \<Rightarrow> u32 \<Rightarrow> string \<Rightarrow> u32 \<Rightarrow> (errno + int, 'fs) vm" where
  "api_mkdir ops global_umask pathname mode = path_call pathname (\<lambda>path. status (sys_mkdir ops path (apply_umask global_umask mode)))"

definition api_rmdir :: "'fs fsops \<Rightarrow> string option \<Rightarrow> (errno + int, 'fs) vm" where
  "api_rmdir ops pathname = path_call_null pathname (\<lambda>path. status (sys_rmdir ops path))"

definition api_symlink :: "'fs fsops \<Rightarrow> string option \<Rightarrow> string option \<Rightarrow> (errno + int, 'fs) vm" where
  "api_symlink ops oldpath newpath =
     (if oldpath = None \<or> newpath = None then ret (Inl ENOENT) else status (sys_symlink ops oldpath newpath))"

definition api_unlink :: "'fs fsops \<Rightarrow> string option \<Rightarrow> (errno + int, 'fs) vm" where
  "api_unlink ops pathname = path_call_null pathname (\<lambda>path. status (sys_unlink ops path))"

definition api_stat :: "'fs fsops \<Rightarrow> string \<Rightarrow> (errno + stat_buf, 'fs) vm" where
  "api_stat ops pathname = path_call pathname (sys_stat ops)"

definition api_lstat :: "'fs fsops \<Rightarrow> string \<Rightarrow> (errno + stat_buf, 'fs) vm" where
  "api_lstat ops pathname = path_call pathname (sys_lstat ops)"

definition api_statfs :: "'fs fsops \<Rightarrow> string \<Rightarrow> (errno + int, 'fs) vm" where
  "api_statfs ops pathname = path_call pathname (\<lambda>path. status (sys_statfs ops path))"

definition AT_EMPTY_PATH :: u32 where "AT_EMPTY_PATH = 0x1000"

text \<open>\<open>UNIMPLEMENTED\<close> aborts.\<close>

definition api_fstatat :: "'fs fsops \<Rightarrow> int \<Rightarrow> string \<Rightarrow> u32 \<Rightarrow> (errno + stat_buf, 'fs) vm" where
  "api_fstatat ops dirfd pathname flags =
     (if flags AND AT_SYMLINK_NOFOLLOW \<noteq> 0 then fail Assertion
      else if pathname = [] \<and> dirfd \<noteq> AT_FDCWD \<and> flags AND AT_EMPTY_PATH \<noteq> 0 then api_fstat ops dirfd
      else at_call ops dirfd pathname (api_stat ops))"

definition api_access :: "'fs fsops \<Rightarrow> string \<Rightarrow> u32 \<Rightarrow> (errno + int, 'fs) vm" where
  "api_access ops pathname mode = path_call pathname (\<lambda>path. status (sys_access ops path mode))"

definition api_faccessat :: "'fs fsops \<Rightarrow> int \<Rightarrow> string \<Rightarrow> u32 \<Rightarrow> u32 \<Rightarrow> (errno + int, 'fs) vm" where
  "api_faccessat ops dirfd pathname mode flags =
     (if flags AND AT_SYMLINK_NOFOLLOW \<noteq> 0 then fail Assertion
      else at_call ops dirfd pathname (\<lambda>p. api_access ops p mode))"

definition api_truncate :: "'fs fsops \<Rightarrow> string option \<Rightarrow> int \<Rightarrow> (errno + int, 'fs) vm" where
  "api_truncate ops pathname len = path_call_null pathname (\<lambda>path. status (sys_truncate ops path len))"

definition ALLPERMS :: u32 where "ALLPERMS = 0xFFF"

definition api_chmod :: "'fs fsops \<Rightarrow> string option \<Rightarrow> u32 \<Rightarrow> (errno + int, 'fs) vm" where
  "api_chmod ops pathname mode = path_call_null pathname (\<lambda>path. status (sys_chmod ops path (mode AND ALLPERMS)))"

definition api_fchmod :: "'fs fsops \<Rightarrow> int \<Rightarrow> u32 \<Rightarrow> (errno + int, 'fs) vm" where
  "api_fchmod ops fd mode = status (sys_fchmod ops fd (mode AND ALLPERMS))"

text \<open>What \<open>errno\<close> is set to: an error, an error negated, or the result -1 of a call taken for an error.\<close>

datatype errno_value = Errno errno | Negated errno | Minus_one

definition api_readlink :: "'fs fsops \<Rightarrow> string option \<Rightarrow> nat \<Rightarrow> nat \<Rightarrow> (errno_value + nat, 'fs) vm" where
  "api_readlink ops pathname buf bufsize =
     (if bufsize = 0 then ret (Inl (Negated EINVAL))
      else
        bnd (path_call_null pathname (\<lambda>path. sys_readlink ops path buf bufsize)) (\<lambda>r.
        ret (case r of Inl error \<Rightarrow> Inl (Errno error) | Inr n \<Rightarrow> Inr n)))"

definition api_do_utimes :: "'fs fsops \<Rightarrow> timespec \<Rightarrow> string \<Rightarrow> (timespec \<times> timespec) option \<Rightarrow> u32 \<Rightarrow> (errno + int, 'fs) vm" where
  "api_do_utimes ops now pathname tv flags = path_call pathname (\<lambda>path. status (sys_utimes ops now path tv flags))"

definition api_utimes :: "'fs fsops \<Rightarrow> timespec \<Rightarrow> string \<Rightarrow> (timespec \<times> timespec) option \<Rightarrow> (errno + int, 'fs) vm" where
  "api_utimes ops now pathname tv = api_do_utimes ops now pathname tv 0"

definition api_lutimes :: "'fs fsops \<Rightarrow> timespec \<Rightarrow> string \<Rightarrow> (timespec \<times> timespec) option \<Rightarrow> (errno + int, 'fs) vm" where
  "api_lutimes ops now pathname tv = api_do_utimes ops now pathname tv AT_SYMLINK_NOFOLLOW"

definition api_utime :: "'fs fsops \<Rightarrow> timespec \<Rightarrow> string \<Rightarrow> (int \<times> int) option \<Rightarrow> (errno + int, 'fs) vm" where
  "api_utime ops now pathname t =
     api_utimes ops now pathname (Some (case t of
       None \<Rightarrow> ((fst now, 0), (fst now, 0))
     | Some (actime, modtime) \<Rightarrow> ((actime, 0), (modtime, 0))))"

definition api_futimesat :: "'fs fsops \<Rightarrow> timespec \<Rightarrow> int \<Rightarrow> string option \<Rightarrow> (timespec \<times> timespec) option \<Rightarrow> (errno_value + int, 'fs) vm" where
  "api_futimesat ops now dirfd pathname tv =
     (if (case pathname of None \<Rightarrow> False | Some p \<Rightarrow> p \<noteq> [] \<and> hd p = slash) \<or> dirfd = AT_FDCWD then
        (case pathname of
           None \<Rightarrow> fail Null_pointer
         | Some p \<Rightarrow> bnd (api_utimes ops now p tv) (\<lambda>r. ret (case r of Inl e \<Rightarrow> Inl (Errno e) | Inr n \<Rightarrow> Inr n)))
      else
        bnd (case pathname of
               None \<Rightarrow> ret None
             | Some _ \<Rightarrow>
                 bnd (api_fstat ops dirfd) (\<lambda>r.
                 ret (case r of
                        Inl error \<Rightarrow> Some error
                      | Inr st \<Rightarrow> if st_mode st AND S_IFMT \<noteq> S_IFDIR then Some ENOTDIR else None))) (\<lambda>error.
        case error of
          Some e \<Rightarrow> ret (Inl (Errno e))
        | None \<Rightarrow>
            bnd (fget dirfd) (\<lambda>r.
            case r of
              Inl error \<Rightarrow> ret (Inl (Errno error))
            | Inr fp \<Rightarrow>
                bnd (deref files fp) (\<lambda>f.
                bnd (nonnull (f_dentry f)) (\<lambda>dp.
                bnd (deref dentries dp) (\<lambda>de.
                bnd (api_utimes ops now (case pathname of Some p \<Rightarrow> d_path de @ [slash] @ p | None \<Rightarrow> d_path de) tv) (\<lambda>r.
                bnd (fdrop ops fp) (\<lambda>_.
                ret (case r of Inl _ \<Rightarrow> Inl Minus_one | Inr _ \<Rightarrow> Inr 0)))))))))"

definition api_utimensat :: "'fs fsops \<Rightarrow> timespec \<Rightarrow> int \<Rightarrow> string option \<Rightarrow> (timespec \<times> timespec) option \<Rightarrow> u32 \<Rightarrow> (errno + int, 'fs) vm" where
  "api_utimensat ops now dirfd pathname tv flags = status (sys_utimensat ops now dirfd pathname tv flags)"

definition api_futimens :: "'fs fsops \<Rightarrow> timespec \<Rightarrow> int \<Rightarrow> (timespec \<times> timespec) option \<Rightarrow> (errno + int, 'fs) vm" where
  "api_futimens ops now fd tv = status (sys_futimens ops now fd tv)"


section \<open>Links and renaming\<close>

definition api_link :: "'fs fsops \<Rightarrow> string option \<Rightarrow> string option \<Rightarrow> (errno + int, 'fs) vm" where
  "api_link ops oldpath newpath =
     (if oldpath = None \<or> newpath = None then ret (Inl ENOENT)
      else path_call (the oldpath) (\<lambda>path1. path_call (the newpath) (\<lambda>path2. status (sys_link ops path1 path2))))"

definition get_last_component :: "string \<Rightarrow> string" where
  "get_last_component path = rev (takeWhile (\<lambda>c. c \<noteq> slash) (dropWhile (\<lambda>c. c = slash) (rev path)))"

definition null_or_empty :: "string option \<Rightarrow> bool" where
  "null_or_empty str \<longleftrightarrow> str = None \<or> str = Some []"

text \<open>The last components are copied to buffers of \<open>PATH_MAX\<close> bytes without a check of their length.\<close>

definition api_rename :: "'fs fsops \<Rightarrow> string option \<Rightarrow> string option \<Rightarrow> (errno + int, 'fs) vm" where
  "api_rename ops oldpath newpath =
     (if null_or_empty oldpath \<or> null_or_empty newpath then ret (Inl ENOENT)
      else
        let src = get_last_component (the oldpath); dest = get_last_component (the newpath) in
        if path_max \<le> length src then fail Out_of_bounds
        else if is_dots src then ret (Inl EINVAL)
        else if path_max \<le> length dest then fail Out_of_bounds
        else if is_dots dest then ret (Inl EINVAL)
        else path_call (the oldpath) (\<lambda>src. path_call (the newpath) (\<lambda>dest. status (sys_rename ops src dest))))"


section \<open>The working directory\<close>

definition replace_cwd :: "'fs fsops \<Rightarrow> nat \<Rightarrow> ('a, 'fs) vm \<Rightarrow> ('a, 'fs) vm" where
  "replace_cwd ops new_cwdfp chdir_func =
     bnd (look t_cwdfp) (\<lambda>old.
     bnd chdir_func (\<lambda>error.
     bnd (change (\<lambda>s. s\<lparr>t_cwdfp := Some new_cwdfp\<rparr>)) (\<lambda>_.
     bnd (case old of None \<Rightarrow> ret () | Some fp \<Rightarrow> bnd (fdrop ops fp) (\<lambda>_. ret ())) (\<lambda>_.
     ret error))))"

definition api_chdir :: "'fs fsops \<Rightarrow> string option \<Rightarrow> (errno + int, 'fs) vm" where
  "api_chdir ops pathname =
     path_call_null pathname (\<lambda>path.
     bnd (sys_open ops path O_DIRECTORY 0) (\<lambda>r.
     case r of
       Inl error \<Rightarrow> ret (Inl error)
     | Inr fp \<Rightarrow>
         bnd (replace_cwd ops fp (change (\<lambda>s. s\<lparr>t_cwd := strlcpy path_max path\<rparr>))) (\<lambda>_.
         ret (Inr 0))))"

definition api_fchdir :: "'fs fsops \<Rightarrow> int \<Rightarrow> (errno + int, 'fs) vm" where
  "api_fchdir ops fd =
     bnd (fget fd) (\<lambda>r.
     case r of
       Inl error \<Rightarrow> ret (Inl error)
     | Inr fp \<Rightarrow>
         bnd (replace_cwd ops fp
           (bnd (sys_fchdir fp) (\<lambda>r.
            case r of
              Inl error \<Rightarrow> ret (Some error)
            | Inr cwd \<Rightarrow> bnd (change (\<lambda>s. s\<lparr>t_cwd := cwd\<rparr>)) (\<lambda>_. ret None)))) (\<lambda>error.
         case error of
           Some e \<Rightarrow> bnd (fdrop ops fp) (\<lambda>_. ret (Inl e))
         | None \<Rightarrow> ret (Inr 0)))"


section \<open>File control\<close>

definition oflags :: "u32 \<Rightarrow> u32" where
  "oflags flags = ((flags AND (FREAD OR FWRITE)) - 1) OR (flags AND NOT (FREAD OR FWRITE))"

definition FNONBLOCK :: u32 where "FNONBLOCK = 0x800"

definition FASYNC :: u32 where "FASYNC = 0x2000"

definition SETFL :: u32 where "SETFL = O_APPEND OR FASYNC OR 0x4000 OR 0x40000 OR FNONBLOCK"

definition FD_CLOEXEC :: u32 where "FD_CLOEXEC = 1"

datatype fcntl_cmd = F_DUPFD | F_GETFD | F_SETFD | F_GETFL | F_SETFL | F_GETLK | F_SETLK | F_OTHER

definition FIONBIO :: u64 where "FIONBIO = 0x5421"

definition FIOASYNC :: u64 where "FIOASYNC = 0x5452"

text \<open>\<open>tmp = fp->f_flags & bits; fp->ioctl (com, &tmp)\<close>, with the local variable at \<open>tmp\<close>.\<close>

definition sync_flag :: "'fs fsops \<Rightarrow> nat \<Rightarrow> u64 \<Rightarrow> nat \<Rightarrow> u32 \<Rightarrow> (errno option, 'fs) vm" where
  "sync_flag ops fp com tmp bits =
     bnd (deref files fp) (\<lambda>f.
     bnd (change (\<lambda>s. s\<lparr>user := mem_write (user s) tmp (map (\<lambda>i. Some (ucast (drop_bit (8 * i) (f_flags f AND bits)))) [0..<4])\<rparr>)) (\<lambda>_.
     if f_type f = DTYPE_VNODE then vfs_file_ioctl ops fp com tmp else file_ioctl ops fp com tmp))"

text \<open>The commands on the file; \<open>_fdalloc\<close> indexes the table from the argument on without checking it.\<close>

definition fcntl_cmds :: "'fs fsops \<Rightarrow> nat \<Rightarrow> nat \<Rightarrow> fcntl_cmd \<Rightarrow> u32 \<Rightarrow> (errno + int, 'fs) vm" where
  "fcntl_cmds ops tmp fp cmd arg =
     bnd (deref files fp) (\<lambda>f.
     case cmd of
       F_DUPFD \<Rightarrow>
         if sint arg < 0 then fail Out_of_bounds
         else bnd (fdalloc_min ops fp (nat (sint arg))) (\<lambda>r. ret (case r of Inl e \<Rightarrow> Inl e | Inr fd \<Rightarrow> Inr (int fd)))
     | F_GETFD \<Rightarrow> ret (Inr (if f_flags f AND O_CLOEXEC \<noteq> 0 then 1 else 0))
     | F_SETFD \<Rightarrow>
         bnd (set_file fp (f\<lparr>f_flags := (f_flags f AND NOT O_CLOEXEC) OR (if arg AND FD_CLOEXEC \<noteq> 0 then O_CLOEXEC else 0)\<rparr>)) (\<lambda>_.
         ret (Inr 0))
     | F_GETFL \<Rightarrow> ret (Inr (sint ((oflags (f_flags f) AND NOT O_CLOEXEC) OR 0x8000)))
     | F_SETFL \<Rightarrow>
         let flags = fflags ((oflags (f_flags f) AND NOT SETFL) OR (arg AND SETFL)) in
         bnd (set_file fp (f\<lparr>f_flags := flags\<rparr>)) (\<lambda>_.
         bnd (sync_flag ops fp FIONBIO tmp FNONBLOCK) (\<lambda>_.
         bnd (sync_flag ops fp FIOASYNC tmp FASYNC) (\<lambda>_.
         ret (Inr 0))))
     | F_GETLK \<Rightarrow> ret (Inr 0)
     | F_SETLK \<Rightarrow> ret (Inr 0)
     | F_OTHER \<Rightarrow> ret (Inl EINVAL))"

definition api_fcntl :: "'fs fsops \<Rightarrow> nat \<Rightarrow> int \<Rightarrow> fcntl_cmd \<Rightarrow> u32 \<Rightarrow> (errno + int, 'fs) vm" where
  "api_fcntl ops tmp fd cmd arg =
     bnd (fget fd) (\<lambda>r.
     case r of
       Inl error \<Rightarrow> ret (Inl error)
     | Inr fp \<Rightarrow>
         bnd (fcntl_cmds ops tmp fp cmd arg) (\<lambda>r.
         if cmd = F_DUPFD \<and> isl r then ret r
         else bnd (fdrop ops fp) (\<lambda>_. ret r)))"


section \<open>Programs\<close>

text \<open>A program is the sequence of the calls it makes; \<open>Umask\<close> replaces \<open>global_umask\<close>.\<close>

datatype api_call =
    Open string u32 u32 | Openat int string u32 u32 | Creat string u32 | Close int
  | Dup int | Dup2 int int | Dup3 int int u32 | Getcwd "nat \<Rightarrow> nat option" "nat option" nat
  | Lseek int int int | Read int nat nat | Write int nat nat | Pread int nat nat int | Pwrite int nat nat int
  | Preadv int "iovec list" int | Pwritev int "iovec list" int
  | Ioctl int u64 nat | Fsync int | Fstat int | Fstatfs int | Ftruncate int int | Fallocate int u32 int int
  | Opendir string | Fdopendir int | Closedir int | Readdir int | Rewinddir int | Telldir int | Seekdir int int
  | Mknod string u32 | Mkdir string u32 | Rmdir "string option" | Symlink "string option" "string option" | Unlink "string option"
  | Stat string | Lstat string | Statfs string | Fstatat int string u32 | Access string u32 | Faccessat int string u32 u32
  | Truncate "string option" int | Chmod "string option" u32 | Fchmod int u32 | Readlink "string option" nat nat
  | Utimes timespec string "(timespec \<times> timespec) option" | Lutimes timespec string "(timespec \<times> timespec) option"
  | Utime timespec string "(int \<times> int) option" | Futimesat timespec int "string option" "(timespec \<times> timespec) option"
  | Utimensat timespec int "string option" "(timespec \<times> timespec) option" u32 | Futimens timespec int "(timespec \<times> timespec) option"
  | Link "string option" "string option" | Rename "string option" "string option"
  | Chdir "string option" | Fchdir int | Fcntl nat int fcntl_cmd u32 | Umask u32

primrec api_exec :: "'fs fsops \<Rightarrow> u32 \<Rightarrow> api_call \<Rightarrow> (unit, 'fs) vm" where
  "api_exec ops um (Open path flags mode) = bnd (api_open ops um path flags mode) (\<lambda>_. ret ())"
| "api_exec ops um (Openat dirfd path flags mode) = bnd (api_openat ops um dirfd path flags mode) (\<lambda>_. ret ())"
| "api_exec ops um (Creat path mode) = bnd (api_creat ops um path mode) (\<lambda>_. ret ())"
| "api_exec ops um (Close fd) = bnd (api_close ops fd) (\<lambda>_. ret ())"
| "api_exec ops um (Dup fd) = bnd (api_dup ops fd) (\<lambda>_. ret ())"
| "api_exec ops um (Dup2 oldfd newfd) = bnd (api_dup2 ops oldfd newfd) (\<lambda>_. ret ())"
| "api_exec ops um (Dup3 oldfd newfd flags) = bnd (api_dup3 ops oldfd newfd flags) (\<lambda>_. ret ())"
| "api_exec ops um (Getcwd malloc path n) = bnd (api_getcwd malloc path n) (\<lambda>_. ret ())"
| "api_exec ops um (Lseek fd off whence) = bnd (api_lseek ops fd off whence) (\<lambda>_. ret ())"
| "api_exec ops um (Read fd buf n) = bnd (api_read ops fd buf n) (\<lambda>_. ret ())"
| "api_exec ops um (Write fd buf n) = bnd (api_write ops fd buf n) (\<lambda>_. ret ())"
| "api_exec ops um (Pread fd buf n off) = bnd (api_pread ops fd buf n off) (\<lambda>_. ret ())"
| "api_exec ops um (Pwrite fd buf n off) = bnd (api_pwrite ops fd buf n off) (\<lambda>_. ret ())"
| "api_exec ops um (Preadv fd iov off) = bnd (api_preadv ops fd iov off) (\<lambda>_. ret ())"
| "api_exec ops um (Pwritev fd iov off) = bnd (api_pwritev ops fd iov off) (\<lambda>_. ret ())"
| "api_exec ops um (Ioctl fd request arg) = bnd (api_ioctl ops fd request arg) (\<lambda>_. ret ())"
| "api_exec ops um (Fsync fd) = bnd (api_fsync ops fd) (\<lambda>_. ret ())"
| "api_exec ops um (Fstat fd) = bnd (api_fstat ops fd) (\<lambda>_. ret ())"
| "api_exec ops um (Fstatfs fd) = bnd (api_fstatfs ops fd) (\<lambda>_. ret ())"
| "api_exec ops um (Ftruncate fd len) = bnd (api_ftruncate ops fd len) (\<lambda>_. ret ())"
| "api_exec ops um (Fallocate fd mode off len) = bnd (api_fallocate ops fd mode off len) (\<lambda>_. ret ())"
| "api_exec ops um (Opendir path) = bnd (api_opendir ops um path) (\<lambda>_. ret ())"
| "api_exec ops um (Fdopendir fd) = bnd (api_fdopendir ops fd) (\<lambda>_. ret ())"
| "api_exec ops um (Closedir dir) = bnd (api_closedir ops dir) (\<lambda>_. ret ())"
| "api_exec ops um (Readdir dir) = bnd (api_readdir ops dir) (\<lambda>_. ret ())"
| "api_exec ops um (Rewinddir dir) = api_rewinddir ops dir"
| "api_exec ops um (Telldir dir) = bnd (api_telldir ops dir) (\<lambda>_. ret ())"
| "api_exec ops um (Seekdir dir loc) = api_seekdir ops dir loc"
| "api_exec ops um (Mknod path mode) = bnd (api_mknod ops path mode) (\<lambda>_. ret ())"
| "api_exec ops um (Mkdir path mode) = bnd (api_mkdir ops um path mode) (\<lambda>_. ret ())"
| "api_exec ops um (Rmdir path) = bnd (api_rmdir ops path) (\<lambda>_. ret ())"
| "api_exec ops um (Symlink oldpath newpath) = bnd (api_symlink ops oldpath newpath) (\<lambda>_. ret ())"
| "api_exec ops um (Unlink path) = bnd (api_unlink ops path) (\<lambda>_. ret ())"
| "api_exec ops um (Stat path) = bnd (api_stat ops path) (\<lambda>_. ret ())"
| "api_exec ops um (Lstat path) = bnd (api_lstat ops path) (\<lambda>_. ret ())"
| "api_exec ops um (Statfs path) = bnd (api_statfs ops path) (\<lambda>_. ret ())"
| "api_exec ops um (Fstatat dirfd path flags) = bnd (api_fstatat ops dirfd path flags) (\<lambda>_. ret ())"
| "api_exec ops um (Access path mode) = bnd (api_access ops path mode) (\<lambda>_. ret ())"
| "api_exec ops um (Faccessat dirfd path mode flags) = bnd (api_faccessat ops dirfd path mode flags) (\<lambda>_. ret ())"
| "api_exec ops um (Truncate path len) = bnd (api_truncate ops path len) (\<lambda>_. ret ())"
| "api_exec ops um (Chmod path mode) = bnd (api_chmod ops path mode) (\<lambda>_. ret ())"
| "api_exec ops um (Fchmod fd mode) = bnd (api_fchmod ops fd mode) (\<lambda>_. ret ())"
| "api_exec ops um (Readlink path buf n) = bnd (api_readlink ops path buf n) (\<lambda>_. ret ())"
| "api_exec ops um (Utimes now path tv) = bnd (api_utimes ops now path tv) (\<lambda>_. ret ())"
| "api_exec ops um (Lutimes now path tv) = bnd (api_lutimes ops now path tv) (\<lambda>_. ret ())"
| "api_exec ops um (Utime now path t) = bnd (api_utime ops now path t) (\<lambda>_. ret ())"
| "api_exec ops um (Futimesat now dirfd path tv) = bnd (api_futimesat ops now dirfd path tv) (\<lambda>_. ret ())"
| "api_exec ops um (Utimensat now dirfd path ts flags) = bnd (api_utimensat ops now dirfd path ts flags) (\<lambda>_. ret ())"
| "api_exec ops um (Futimens now fd ts) = bnd (api_futimens ops now fd ts) (\<lambda>_. ret ())"
| "api_exec ops um (Link oldpath newpath) = bnd (api_link ops oldpath newpath) (\<lambda>_. ret ())"
| "api_exec ops um (Rename oldpath newpath) = bnd (api_rename ops oldpath newpath) (\<lambda>_. ret ())"
| "api_exec ops um (Chdir path) = bnd (api_chdir ops path) (\<lambda>_. ret ())"
| "api_exec ops um (Fchdir fd) = bnd (api_fchdir ops fd) (\<lambda>_. ret ())"
| "api_exec ops um (Fcntl tmp fd cmd arg) = bnd (api_fcntl ops tmp fd cmd arg) (\<lambda>_. ret ())"
| "api_exec ops um (Umask newmask) = ret ()"

definition next_umask :: "u32 \<Rightarrow> api_call \<Rightarrow> u32" where
  "next_umask global_umask c = (case c of Umask newmask \<Rightarrow> newmask | _ \<Rightarrow> global_umask)"

primrec api_run :: "'fs fsops \<Rightarrow> u32 \<Rightarrow> api_call list \<Rightarrow> (unit, 'fs) vm" where
  "api_run ops um [] = ret ()"
| "api_run ops um (c # cs) = bnd (api_exec ops um c) (\<lambda>_. api_run ops (next_umask um c) cs)"

end
