(* ===== verification/Vfs_Api_Refs.thy ===== *)
theory Vfs_Api_Refs
  imports Vfs_Api
begin

text \<open>
  The references to open files, across whole programs: every open file is counted once for each descriptor that names it, once when it is the
  working directory, and once for each call that holds it, and it holds one reference to its entry.
\<close>

section \<open>The invariant\<close>

type_synonym fcore = "u32 \<times> int \<times> nat option \<times> filetype"

text \<open>
  \<open>e fp\<close> is the entry of the file at \<open>fp\<close> and its vnode, \<open>C\<close> the open files, \<open>T\<close> the descriptor table, and \<open>H\<close> the references not in the table.
\<close>

definition fds :: "(nat \<Rightarrow> nat option) \<Rightarrow> nat \<Rightarrow> nat set" where
  "fds T fp = {fd. T fd = Some fp}"

definition tab_ok :: "nat multiset \<Rightarrow> (nat \<Rightarrow> nat \<times> nat) \<Rightarrow> (nat \<Rightarrow> fcore option) \<Rightarrow> (nat \<Rightarrow> nat option) \<Rightarrow> bool" where
  "tab_ok H e C T \<longleftrightarrow> finite (dom C) \<and>
     (\<forall>fp fl n d ty. C fp = Some (fl, n, d, ty) \<longrightarrow>
        d = Some (fst (e fp)) \<and> ty = DTYPE_VNODE \<and> 0 < n \<and> n = int (card (fds T fp)) + int (count H fp)) \<and>
     (\<forall>fd fp. T fd = Some fp \<longrightarrow> fd < FDMAX \<and> C fp \<noteq> None) \<and> set_mset H \<subseteq> dom C"

definition cwd_ref :: "'fs vfs \<Rightarrow> nat multiset" where
  "cwd_ref s = (case t_cwdfp s of None \<Rightarrow> {#} | Some fp \<Rightarrow> {#fp#})"

text \<open>\<open>H\<close> are the files held by calls in progress, \<open>K\<close> those of them whose vnode is locked, with that vnode; \<open>D0\<close> are the references not of open files.\<close>

definition file_refs :: "(nat \<Rightarrow> nat \<times> nat) \<Rightarrow> (nat \<Rightarrow> fcore option) \<Rightarrow> (nat \<times> nat) multiset" where
  "file_refs e C = image_mset e (mset_set (dom C))"

definition api_inv_at :: "(nat \<Rightarrow> nat \<times> nat) \<Rightarrow> nat set \<Rightarrow> (nat \<times> nat) multiset \<Rightarrow> (nat \<times> nat) multiset \<Rightarrow> nat multiset \<Rightarrow> 'fs vfs \<Rightarrow> bool" where
  "api_inv_at e R D0 K H s \<longleftrightarrow> refs_ok R {} (D0 + file_refs e (fcores s)) {#} (image_mset snd K) s \<and>
     tab_ok (cwd_ref s + H) e (fcores s) (gfdt s) \<and> files_fresh s \<and> held R D0 {#} {#} \<and> image_mset fst K \<subseteq># H \<and>
     (\<forall>(fp, v)\<in>#K. snd (e fp) = v)"

definition api_inv :: "nat set \<Rightarrow> (nat \<times> nat) multiset \<Rightarrow> (nat \<times> nat) multiset \<Rightarrow> nat multiset \<Rightarrow> 'fs vfs \<Rightarrow> bool" where
  "api_inv R D0 K H s \<longleftrightarrow> (\<exists>e. api_inv_at e R D0 K H s)"


section \<open>The table of references\<close>

lemma tab_okI:
  assumes "finite (dom C)"
    "\<And>p fl n d ty. C p = Some (fl, n, d, ty) \<Longrightarrow> d = Some (fst (e p)) \<and> ty = DTYPE_VNODE \<and> 0 < n \<and> n = int (card (fds T p)) + int (count H p)"
    "\<And>fd p. T fd = Some p \<Longrightarrow> fd < FDMAX \<and> C p \<noteq> None" "\<And>p. p \<in># H \<Longrightarrow> C p \<noteq> None"
  shows "tab_ok H e C T"
  unfolding tab_ok_def using assms by blast

lemma tab_ok_core:
  assumes "tab_ok H e C T" "C p = Some (fl, n, d, ty)"
  shows "d = Some (fst (e p))" "ty = DTYPE_VNODE" "0 < n" "n = int (card (fds T p)) + int (count H p)"
  using assms unfolding tab_ok_def by blast+

lemma tab_ok_fd: "\<lbrakk>tab_ok H e C T; T fd = Some p\<rbrakk> \<Longrightarrow> fd < FDMAX \<and> C p \<noteq> None"
  unfolding tab_ok_def by blast

lemma tab_ok_held: "\<lbrakk>tab_ok H e C T; p \<in># H\<rbrakk> \<Longrightarrow> C p \<noteq> None"
  unfolding tab_ok_def by blast

lemma tab_ok_finite: "tab_ok H e C T \<Longrightarrow> finite (dom C)"
  unfolding tab_ok_def by blast

lemma finite_fds: "tab_ok H e C T \<Longrightarrow> finite (fds T fp)"
  by (rule finite_subset [of _ "{..<FDMAX}"]) (auto simp: fds_def dest: tab_ok_fd)

lemma tab_file:
  assumes ok: "tab_ok H e C T" and fp: "fp \<in># H \<or> T fd = Some fp"
  obtains fl n where "C fp = Some (fl, n, Some (fst (e fp)), DTYPE_VNODE)" "0 < n"
proof -
  have "C fp \<noteq> None" using tab_ok_held [OF ok] tab_ok_fd [OF ok] fp by blast
  then obtain fl n d ty where c: "C fp = Some (fl, n, d, ty)" by auto
  then show thesis using that tab_ok_core [OF ok c] by simp
qed

lemma tab_hold:
  assumes ok: "tab_ok H e C T" and c: "C fp = Some (fl, n, d, ty)"
  shows "tab_ok (add_mset fp H) e (C(fp \<mapsto> (fl, n + 1, d, ty))) T"
proof (rule tab_okI)
  show "d' = Some (fst (e p)) \<and> ty' = DTYPE_VNODE \<and> 0 < n' \<and> n' = int (card (fds T p)) + int (count (add_mset fp H) p)"
    if "(C(fp \<mapsto> (fl, n + 1, d, ty))) p = Some (fl', n', d', ty')" for p fl' n' d' ty'
    using that tab_ok_core [OF ok c] tab_ok_core [OF ok, of p fl' n' d' ty'] by (auto split: if_splits)
qed (use tab_ok_finite [OF ok] tab_ok_fd [OF ok] tab_ok_held [OF ok] in auto)

lemma tab_drop_shared:
  assumes ok: "tab_ok (add_mset fp H) e C T" and c: "C fp = Some (fl, n, d, ty)" and n: "n \<noteq> 1"
  shows "tab_ok H e (C(fp \<mapsto> (fl, n - 1, d, ty))) T"
proof (rule tab_okI)
  show "d' = Some (fst (e p)) \<and> ty' = DTYPE_VNODE \<and> 0 < n' \<and> n' = int (card (fds T p)) + int (count H p)"
    if "(C(fp \<mapsto> (fl, n - 1, d, ty))) p = Some (fl', n', d', ty')" for p fl' n' d' ty'
    using that n tab_ok_core [OF ok c] tab_ok_core [OF ok, of p fl' n' d' ty'] by (cases "p = fp") auto
qed (use tab_ok_finite [OF ok] tab_ok_fd [OF ok] tab_ok_held [OF ok] in auto)

lemma tab_drop_last:
  assumes ok: "tab_ok (add_mset fp H) e C T" and c: "C fp = Some (fl, 1, d, ty)"
  shows "tab_ok H e (C(fp := None)) T" "fp \<notin># H"
proof -
  have "card (fds T fp) = 0" "count H fp = 0" using tab_ok_core(4) [OF ok c] by auto
  then have gone: "fds T fp = {}" "fp \<notin># H" using finite_fds [OF ok, of fp] by (auto simp: not_in_iff)
  then show "fp \<notin># H" by simp
  show "tab_ok H e (C(fp := None)) T"
  proof (rule tab_okI)
    show "d' = Some (fst (e p)) \<and> ty' = DTYPE_VNODE \<and> 0 < n' \<and> n' = int (card (fds T p)) + int (count H p)"
      if "(C(fp := None)) p = Some (fl', n', d', ty')" for p fl' n' d' ty'
      using that tab_ok_core [OF ok, of p fl' n' d' ty'] by (cases "p = fp") auto
    show "fd < FDMAX \<and> (C(fp := None)) p \<noteq> None" if "T fd = Some p" for fd p
      using that gone(1) tab_ok_fd [OF ok that] by (auto simp: fds_def)
    show "(C(fp := None)) p \<noteq> None" if "p \<in># H" for p
      using that gone(2) tab_ok_held [OF ok, of p] by (cases "p = fp") auto
  qed (use tab_ok_finite [OF ok] in simp)
qed

lemma fds_update:
  "T fd = None \<Longrightarrow> fds (T(fd \<mapsto> fp)) p = (if p = fp then insert fd (fds T p) else fds T p)"
  "T fd = Some fp \<Longrightarrow> fds (T(fd := None)) p = (if p = fp then fds T p - {fd} else fds T p)"
  by (auto simp: fds_def)

lemma tab_install:
  assumes ok: "tab_ok (add_mset fp H) e C T" and fd: "T fd = None" "fd < FDMAX"
  shows "tab_ok H e C (T(fd \<mapsto> fp))"
proof (rule tab_okI)
  have new: "fd \<notin> fds T p" for p using fd(1) by (simp add: fds_def)
  show "d = Some (fst (e p)) \<and> ty = DTYPE_VNODE \<and> 0 < n \<and> n = int (card (fds (T(fd \<mapsto> fp)) p)) + int (count H p)"
    if "C p = Some (fl, n, d, ty)" for p fl n d ty
    using tab_ok_core [OF ok that] new finite_fds [OF ok] fd(1) by (cases "p = fp") (simp_all add: fds_update(1))
  show "fd' < FDMAX \<and> C p \<noteq> None" if "(T(fd \<mapsto> fp)) fd' = Some p" for fd' p
    using that fd(2) tab_ok_held [OF ok, of fp] tab_ok_fd [OF ok, of fd' p] by (cases "fd' = fd") auto
qed (use tab_ok_finite [OF ok] tab_ok_held [OF ok] in auto)

lemma tab_uninstall:
  assumes ok: "tab_ok H e C T" and fd: "T fd = Some fp"
  shows "tab_ok (add_mset fp H) e C (T(fd := None))"
proof (rule tab_okI)
  have "fd \<in> fds T fp" using fd by (simp add: fds_def)
  then have card: "card (fds T fp) = Suc (card (fds T fp - {fd}))" using card_Suc_Diff1 [OF finite_fds [OF ok], of fd fp] by simp
  show "d = Some (fst (e p)) \<and> ty = DTYPE_VNODE \<and> 0 < n \<and> n = int (card (fds (T(fd := None)) p)) + int (count (add_mset fp H) p)"
    if "C p = Some (fl, n, d, ty)" for p fl n d ty
    using tab_ok_core [OF ok that] card fd by (cases "p = fp") (simp_all add: fds_update(2) [of T fd fp])
  show "fd' < FDMAX \<and> C p \<noteq> None" if "(T(fd := None)) fd' = Some p" for fd' p
    using that tab_ok_fd [OF ok, of fd' p] by (auto split: if_splits)
  show "C p \<noteq> None" if "p \<in># add_mset fp H" for p
    using that tab_ok_held [OF ok, of p] tab_ok_fd [OF ok fd] by (cases "p = fp") auto
qed (use tab_ok_finite [OF ok] in simp)

lemma tab_new:
  assumes ok: "tab_ok H e C T" and c: "C fp = None"
  shows "tab_ok (add_mset fp H) (e(fp := (d, v))) (C(fp \<mapsto> (fl, 1, Some d, DTYPE_VNODE))) T"
proof (rule tab_okI)
  have "fds T fp = {}" using c tab_ok_fd [OF ok] by (force simp: fds_def)
  moreover have "count H fp = 0" using c tab_ok_held [OF ok] by (force simp: not_in_iff [symmetric])
  ultimately show "d' = Some (fst ((e(fp := (d, v))) p)) \<and> ty' = DTYPE_VNODE \<and> 0 < n' \<and>
      n' = int (card (fds T p)) + int (count (add_mset fp H) p)"
    if "(C(fp \<mapsto> (fl, 1, Some d, DTYPE_VNODE))) p = Some (fl', n', d', ty')" for p fl' n' d' ty'
    using that tab_ok_core [OF ok, of p fl' n' d' ty'] by (cases "p = fp") auto
qed (use tab_ok_finite [OF ok] tab_ok_fd [OF ok] tab_ok_held [OF ok] in auto)


lemma tab_flags:
  assumes ok: "tab_ok H e C T" and c: "C fp = Some (fl, n, d, ty)"
  shows "tab_ok H e (C(fp \<mapsto> (fl', n, d, ty))) T"
proof (rule tab_okI)
  show "d' = Some (fst (e p)) \<and> ty' = DTYPE_VNODE \<and> 0 < n' \<and> n' = int (card (fds T p)) + int (count H p)"
    if "(C(fp \<mapsto> (fl', n, d, ty))) p = Some (fl'', n', d', ty')" for p fl'' n' d' ty'
    using that tab_ok_core [OF ok c] tab_ok_core [OF ok, of p fl'' n' d' ty'] by (cases "p = fp") auto
qed (use tab_ok_finite [OF ok] tab_ok_fd [OF ok] tab_ok_held [OF ok] in auto)


section \<open>Computations that keep the invariant\<close>

lemma refs_ok_cwd [simp]:
  "refs_ok R Z D V L (s\<lparr>t_cwd := c\<rparr>) = refs_ok R Z D V L s" "refs_ok R Z D V L (s\<lparr>t_cwdfp := p\<rparr>) = refs_ok R Z D V L s"
  by (auto elim!: refs_ok_frame)

lemma file_refs_known: "\<lbrakk>finite (dom C); C fp \<noteq> None\<rbrakk> \<Longrightarrow> e fp \<in># file_refs e C"
  by (auto simp: file_refs_def)

lemma file_refs_dom: "dom C' = dom C \<Longrightarrow> file_refs e C' = file_refs e C"
  by (simp add: file_refs_def)

lemma file_refs_remove:
  assumes "finite (dom C)" "C fp \<noteq> None"
  shows "file_refs e C = add_mset (e fp) (file_refs e (C(fp := None)))"
proof -
  have "dom C = insert fp (dom C - {fp})" using assms(2) by auto
  then have "mset_set (dom C) = add_mset fp (mset_set (dom C - {fp}))"
    using assms(1) by (metis Diff_iff finite_Diff insertI1 mset_set.insert)
  then show ?thesis by (simp add: file_refs_def)
qed

lemma file_refs_new:
  assumes "finite (dom C)" "C fp = None"
  shows "file_refs (e(fp := dv)) (C(fp \<mapsto> c)) = add_mset dv (file_refs e C)"
proof -
  have "image_mset (e(fp := dv)) (mset_set (dom C)) = image_mset e (mset_set (dom C))"
    using assms by (intro image_mset_cong) auto
  then show ?thesis using assms unfolding file_refs_def by (simp add: domIff)
qed

text \<open>\<open>api_keeps G f\<close>: while the files of \<open>G\<close> are held, \<open>f\<close> keeps the invariant.\<close>

definition api_keeps :: "nat multiset \<Rightarrow> ('a, 'fs) vm \<Rightarrow> bool" where
  "api_keeps G f \<longleftrightarrow> (\<forall>R D0 K H s. G \<subseteq># H \<longrightarrow> api_inv R D0 K H s \<longrightarrow> wp f (\<lambda>_. api_inv R D0 K H) s)"

text \<open>\<open>api_drops G fp f\<close>: \<open>f\<close> gives up the reference to the file at \<open>fp\<close>.\<close>

definition api_drops :: "nat multiset \<Rightarrow> nat \<Rightarrow> ('a, 'fs) vm \<Rightarrow> bool" where
  "api_drops G fp f \<longleftrightarrow> (\<forall>R D0 K H s. G \<subseteq># H \<longrightarrow> image_mset fst K \<subseteq># H \<longrightarrow> api_inv R D0 K (add_mset fp H) s \<longrightarrow> wp f (\<lambda>_. api_inv R D0 K H) s)"

text \<open>\<open>acquires f\<close>: unless \<open>f\<close> fails, it returns a file with a reference for the caller.\<close>

definition acquires :: "('e + nat, 'fs) vm \<Rightarrow> bool" where
  "acquires f \<longleftrightarrow> (\<forall>R D0 K H s. api_inv R D0 K H s \<longrightarrow>
     wp f (\<lambda>r. case r of Inl _ \<Rightarrow> api_inv R D0 K H | Inr fp \<Rightarrow> api_inv R D0 K (add_mset fp H)) s)"

named_theorems api_intros \<open>introduction rules for api_keeps and api_drops\<close>

lemma api_keeps_mono: "api_keeps {#} f \<Longrightarrow> api_keeps G f"
  by (simp add: api_keeps_def)

lemma api_keeps_ret [api_intros]: "api_keeps G (ret x)"
  by (simp add: api_keeps_def)

lemma api_keeps_fail [api_intros]: "excused e \<Longrightarrow> api_keeps G (fail e)"
  by (simp add: api_keeps_def)

lemma api_keeps_look [api_intros]: "api_keeps G (look f)"
  by (simp add: api_keeps_def)

lemma api_keeps_bnd [api_intros]: "\<lbrakk>api_keeps G f; \<And>x. api_keeps G (g x)\<rbrakk> \<Longrightarrow> api_keeps G (bnd f g)"
  unfolding api_keeps_def wp_bnd by (blast intro: wp_mono)

lemma api_keeps_if [api_intros]: "\<lbrakk>p \<Longrightarrow> api_keeps G f; \<not> p \<Longrightarrow> api_keeps G g\<rbrakk> \<Longrightarrow> api_keeps G (if p then f else g)"
  by simp

lemma api_keeps_option [api_intros]: "\<lbrakk>api_keeps G f; \<And>x. api_keeps G (g x)\<rbrakk> \<Longrightarrow> api_keeps G (case y of None \<Rightarrow> f | Some x \<Rightarrow> g x)"
  by (cases y) simp_all

lemma api_keeps_sum [api_intros]: "\<lbrakk>\<And>x. api_keeps G (f x); \<And>x. api_keeps G (g x)\<rbrakk> \<Longrightarrow> api_keeps G (case y of Inl x \<Rightarrow> f x | Inr x \<Rightarrow> g x)"
  by (cases y) simp_all

lemma api_keeps_prod [api_intros]: "(\<And>x y. api_keeps G (f x y)) \<Longrightarrow> api_keeps G (case p of (x, y) \<Rightarrow> f x y)"
  by (cases p) simp

lemma api_drops_bnd: "\<lbrakk>api_keeps (add_mset fp G) f; \<And>x. api_drops G fp (g x)\<rbrakk> \<Longrightarrow> api_drops G fp (bnd f g)"
  unfolding api_keeps_def api_drops_def wp_bnd by (blast intro: wp_mono subset_mset.add_left_mono mset_subset_eq_add_mset_cancel [THEN iffD2])

lemma api_drops_then: "\<lbrakk>api_drops G fp f; \<And>x. api_keeps G (g x)\<rbrakk> \<Longrightarrow> api_drops G fp (bnd f g)"
  unfolding api_keeps_def api_drops_def wp_bnd by (blast intro: wp_mono)

lemma api_drops_sum [api_intros]: "\<lbrakk>\<And>x. api_drops G fp (f x); \<And>x. api_drops G fp (g x)\<rbrakk> \<Longrightarrow> api_drops G fp (case y of Inl x \<Rightarrow> f x | Inr x \<Rightarrow> g x)"
  by (cases y) simp_all

lemma api_drops_option [api_intros]: "\<lbrakk>api_drops G fp f; \<And>x. api_drops G fp (g x)\<rbrakk> \<Longrightarrow> api_drops G fp (case y of None \<Rightarrow> f | Some x \<Rightarrow> g x)"
  by (cases y) simp_all

lemma acquires_bnd:
  fixes f :: "('e + nat, 'fs) vm"
  assumes "acquires f" "\<And>e. api_keeps G (g (Inl e))" "\<And>fp. api_drops G fp (g (Inr fp))"
  shows "api_keeps G (bnd f g)"
  unfolding api_keeps_def wp_bnd
proof (intro allI impI)
  fix R D0 K H and s :: "'fs vfs" assume G: "G \<subseteq># H" and inv: "api_inv R D0 K H s"
  then have K: "image_mset fst K \<subseteq># H" by (auto simp: api_inv_def api_inv_at_def)
  show "wp f (\<lambda>x. wp (g x) (\<lambda>_. api_inv R D0 K H)) s"
    by (rule wp_mono [of f "\<lambda>r. case r of Inl _ \<Rightarrow> api_inv R D0 K H | Inr fp \<Rightarrow> api_inv R D0 K (add_mset fp H)"])
      (use assms G inv K in \<open>auto simp: acquires_def api_keeps_def api_drops_def split: sum.splits\<close>)
qed


text \<open>What changes neither the files nor the table.\<close>

lemma api_inv_kept:
  assumes "api_inv_at e R D0 K H s" "kept F s s'" "fcores s' = fcores s"
    "refs_ok R {} (D0 + file_refs e (fcores s)) {#} (image_mset snd K) s'"
  shows "api_inv_at e R D0 K H s'"
  using assms unfolding api_inv_at_def kept_def files_fresh_def cwd_ref_def by auto

lemma api_inv_file_ok:
  assumes "api_inv_at e R D0 K H s" "fp \<in># H"
  shows "file_ok (D0 + file_refs e (fcores s)) s fp"
proof -
  have tab: "tab_ok (cwd_ref s + H) e (fcores s) (gfdt s)" using assms(1) by (simp add: api_inv_at_def)
  obtain fl n where c: "fcores s fp = Some (fl, n, Some (fst (e fp)), DTYPE_VNODE)" by (rule tab_file [OF tab, of fp]) (use assms(2) in auto)
  then obtain f where f: "files s fp = Some f" "f_dentry f = Some (fst (e fp))" by (auto simp: fcores_def fcore_def)
  moreover have "(fst (e fp), snd (e fp)) \<in># file_refs e (fcores s)" using file_refs_known [OF tab_ok_finite [OF tab]] c by simp
  ultimately show ?thesis unfolding file_ok_def by (metis option.distinct(1) option.inject union_iff)
qed

lemma api_keepsI:
  fixes f :: "('a, 'fs) vm"
  assumes "\<And>R D L s. \<lbrakk>refs_ok R {} D {#} L s; \<And>fp. fp \<in># G \<Longrightarrow> file_ok D s fp\<rbrakk> \<Longrightarrow> wp f (bal R D {#} L s) s" "quiet F f"
  shows "api_keeps G f"
  unfolding api_keeps_def
proof (intro allI impI)
  fix R D0 K H and s :: "'fs vfs" assume G: "G \<subseteq># H" and "api_inv R D0 K H s"
  then obtain e where inv: "api_inv_at e R D0 K H s" by (auto simp: api_inv_def)
  let ?D = "D0 + file_refs e (fcores s)" and ?L = "image_mset snd K"
  have "refs_ok R {} ?D {#} ?L s" using inv by (simp add: api_inv_at_def)
  moreover have "file_ok ?D s fp" if "fp \<in># G" for fp using api_inv_file_ok [OF inv] that G by (meson mset_subset_eqD)
  ultimately have "wp f (bal R ?D {#} ?L s) s" using assms(1) by blast
  then show "wp f (\<lambda>_. api_inv R D0 K H) s"
    by (rule wp_quiet [OF _ assms(2)]) (use api_inv_kept [OF inv] in \<open>auto simp: bal_def api_inv_def\<close>)
qed

lemma api_keeps_path:
  fixes f :: "('a, 'fs) vm"
  assumes "\<And>R D L s. refs_ok R {} D {#} L s \<Longrightarrow> wp f (\<lambda>_. refs_ok R {} D {#} L) s" "quiet {} f"
  shows "api_keeps G f"
proof (rule api_keepsI [OF _ assms(2)])
  fix R D L and s :: "'fs vfs" assume "refs_ok R {} D {#} L s"
  then show "wp f (bal R D {#} L s) s"
    by (intro wp_quiet [OF assms(1) assms(2)]) (auto simp: bal_def dest: kept_fcores)
qed

lemma api_keeps_update:
  fixes u :: "'fs vfs \<Rightarrow> 'fs vfs"
  assumes "\<And>s. fcores (u s) = fcores s" "\<And>s. kept {} s (u s) \<or> kept {} s ((u s)\<lparr>t_cwd := t_cwd s\<rparr>)"
    "\<And>R D L s. refs_ok R {} D {#} L s \<Longrightarrow> refs_ok R {} D {#} L (u s)"
  shows "api_keeps G (change u)"
  unfolding api_keeps_def
proof (intro allI impI)
  fix R D0 K H and s :: "'fs vfs" assume "api_inv R D0 K H s"
  then obtain e where inv: "api_inv_at e R D0 K H s" by (auto simp: api_inv_def)
  have "gfdt (u s) = gfdt s" "t_cwdfp (u s) = t_cwdfp s" "next_ptr s \<le> next_ptr (u s)" using assms(2) [of s] by (auto simp: kept_def)
  then have "api_inv_at e R D0 K H (u s)" using inv assms(1,3) unfolding api_inv_at_def files_fresh_def cwd_ref_def by auto
  then show "wp (change u) (\<lambda>_. api_inv R D0 K H) s" by (auto simp: api_inv_def)
qed

lemma api_keeps_user [api_intros]: "api_keeps G (change (\<lambda>s. s\<lparr>user := m s\<rparr>))"
  by (rule api_keeps_update) (auto simp: fcores_def kept_def fun_eq_iff)

lemma api_keeps_cwd [api_intros]: "api_keeps G (change (\<lambda>s. s\<lparr>t_cwd := c\<rparr>))"
  by (rule api_keeps_update) (auto simp: fcores_def kept_def fun_eq_iff)

lemma api_keeps_task_conv [api_intros]: "api_keeps G (task_conv path)"
  unfolding task_conv_def by (intro api_intros) (simp add: excused_def)


section \<open>Holding and dropping files\<close>

lemma fcores_update: "fcores (s\<lparr>files := (files s)(fp \<mapsto> f)\<rparr>) = (fcores s)(fp \<mapsto> fcore f)"
  by (auto simp: fcores_def)

lemma api_inv_files:
  assumes inv: "api_inv_at e R D0 K H s" and f: "files s fp = Some f" and K: "image_mset fst K \<subseteq># H'"
    and tab: "tab_ok (cwd_ref s + H') e ((fcores s)(fp \<mapsto> fcore f')) (gfdt s)"
  shows "api_inv_at e R D0 K H' (s\<lparr>files := (files s)(fp \<mapsto> f')\<rparr>)"
proof -
  have "dom ((fcores s)(fp \<mapsto> fcore f')) = dom (fcores s)" using f by (auto simp: fcores_def)
  then have "file_refs e ((fcores s)(fp \<mapsto> fcore f')) = file_refs e (fcores s)" by (rule file_refs_dom)
  moreover have "files_fresh (s\<lparr>files := (files s)(fp \<mapsto> f')\<rparr>)"
    using inv f by (auto simp: api_inv_at_def files_fresh_def fcores_def)
  ultimately show ?thesis using inv K tab unfolding api_inv_at_def fcores_update by (simp add: cwd_ref_def)
qed

lemma submset_add: "A \<subseteq># H \<Longrightarrow> A \<subseteq># add_mset x H"
  by (metis add_mset_add_single mset_subset_eq_add_left subset_mset.order_trans)

lemma fhold_rule:
  assumes inv: "api_inv R D0 K H s" and f: "files s fp = Some f"
  shows "api_inv R D0 K (add_mset fp H) (s\<lparr>files := (files s)(fp \<mapsto> f\<lparr>f_count := f_count f + 1\<rparr>)\<rparr>)"
proof -
  obtain e where e: "api_inv_at e R D0 K H s" using inv by (auto simp: api_inv_def)
  have c: "fcores s fp = Some (f_flags f, f_count f, f_dentry f, f_type f)" using f by (simp add: fcores_def fcore_def)
  have tab: "tab_ok (cwd_ref s + H) e (fcores s) (gfdt s)" and "image_mset fst K \<subseteq># H" using e by (simp_all add: api_inv_at_def)
  then have "api_inv_at e R D0 K (add_mset fp H) (s\<lparr>files := (files s)(fp \<mapsto> f\<lparr>f_count := f_count f + 1\<rparr>)\<rparr>)"
    using tab_hold [OF tab c] by (intro api_inv_files [OF e f]) (auto simp: fcore_def intro: submset_add)
  then show ?thesis by (auto simp: api_inv_def)
qed

lemma api_inv_held_file:
  assumes "api_inv R D0 K H s" "fp \<in># H \<or> t_cwdfp s = Some fp \<or> gfdt s fd = Some fp"
  obtains f where "files s fp = Some f" "0 < f_count f"
proof -
  obtain e where "tab_ok (cwd_ref s + H) e (fcores s) (gfdt s)" using assms(1) by (auto simp: api_inv_def api_inv_at_def)
  moreover have "fp \<in># cwd_ref s + H \<or> gfdt s fd = Some fp" using assms(2) by (auto simp: cwd_ref_def)
  ultimately obtain fl n where "fcores s fp = Some (fl, n, Some (fst (e fp)), DTYPE_VNODE)" "0 < n" by (rule tab_file)
  then show thesis using that by (auto simp: fcores_def fcore_def)
qed

text \<open>Moving a reference between the table, the working directory and the caller.\<close>

lemma install_rule:
  assumes "api_inv R D0 K (add_mset fp H) s" "image_mset fst K \<subseteq># H" "gfdt s fd = None" "fd < FDMAX"
  shows "api_inv R D0 K H (s\<lparr>gfdt := (gfdt s)(fd \<mapsto> fp)\<rparr>)"
  using assms tab_install [of fp "cwd_ref s + H" _ "fcores s" "gfdt s" fd]
  unfolding api_inv_def api_inv_at_def files_fresh_def cwd_ref_def fcores_def by auto

lemma uninstall_rule:
  assumes "api_inv R D0 K H s" "gfdt s fd = Some fp"
  shows "api_inv R D0 K (add_mset fp H) (s\<lparr>gfdt := (gfdt s)(fd := None)\<rparr>)"
  using assms tab_uninstall [of "cwd_ref s + H" _ "fcores s" "gfdt s" fd fp]
  unfolding api_inv_def api_inv_at_def files_fresh_def cwd_ref_def fcores_def by (auto intro: submset_add)

lemma set_cwd_rule:
  assumes "api_inv R D0 K (add_mset fp H) s" "image_mset fst K \<subseteq># H"
  shows "api_inv R D0 K (cwd_ref s + H) (s\<lparr>t_cwdfp := Some fp\<rparr>)"
  using assms unfolding api_inv_def api_inv_at_def files_fresh_def cwd_ref_def fcores_def
  by (auto simp: ac_simps split: option.splits intro: subset_mset.order_trans)

lemma acquires_fget: "acquires (fget fd)"
  unfolding acquires_def
proof (intro allI impI)
  fix R D0 K H and s :: "'fs vfs" assume inv: "api_inv R D0 K H s"
  show "wp (fget fd) (\<lambda>r. case r of Inl _ \<Rightarrow> api_inv R D0 K H | Inr fp \<Rightarrow> api_inv R D0 K (add_mset fp H)) s"
  proof (cases "gfdt s (nat fd)")
    case None
    then show ?thesis using inv by (simp add: fget_def)
  next
    case (Some fp)
    obtain f where "files s fp = Some f" "0 < f_count f" by (rule api_inv_held_file [OF inv, of fp "nat fd"]) (use Some in simp)
    then show ?thesis using inv Some fhold_rule [OF inv] by (simp add: fget_def fhold_if_positive_def)
  qed
qed

lemma free_fd_Some: "free_fd table fd = Some fd' \<Longrightarrow> table fd' = None \<and> fd' < FDMAX"
  by (induction table fd rule: free_fd.induct) (metis free_fd.simps linorder_not_le option.distinct(1) option.inject)

context fs_quiet
begin

lemma fdrop_rule:
  assumes inv: "api_inv R D0 K (add_mset fp H) s" and K: "image_mset fst K \<subseteq># H"
  shows "wp (fdrop ops fp) (\<lambda>_. api_inv R D0 K H) s"
proof -
  obtain e where e: "api_inv_at e R D0 K (add_mset fp H) s" using inv by (auto simp: api_inv_def)
  then have tab: "tab_ok (add_mset fp (cwd_ref s + H)) e (fcores s) (gfdt s)" and fresh: "files_fresh s" and D0: "held R D0 {#} {#}"
    and refs: "refs_ok R {} (D0 + file_refs e (fcores s)) {#} (image_mset snd K) s" and locked: "\<forall>(fp, v)\<in>#K. snd (e fp) = v"
    by (simp_all add: api_inv_at_def)
  obtain fl n where c: "fcores s fp = Some (fl, n, Some (fst (e fp)), DTYPE_VNODE)" by (rule tab_file [OF tab, of fp]) auto
  then obtain f where f: "files s fp = Some f" "fcore f = (fl, n, Some (fst (e fp)), DTYPE_VNODE)" by (auto simp: fcores_def)
  show ?thesis
  proof (cases "n = 1")
    case False
    have "api_inv_at e R D0 K H (s\<lparr>files := (files s)(fp \<mapsto> f\<lparr>f_count := f_count f - 1\<rparr>)\<rparr>)"
      using tab_drop_shared [OF tab c False] f K by (intro api_inv_files [OF e f(1)]) (simp_all add: fcore_def)
    then show ?thesis using f False by (intro fdrop_shared [OF refs f(1)]) (auto simp: fcore_def api_inv_def)
  next
    case True
    let ?D = "D0 + file_refs e ((fcores s)(fp := None))" and ?L = "image_mset snd K"
    note last = tab_drop_last [OF tab c [unfolded True]]
    have D: "D0 + file_refs e (fcores s) = add_mset (fst (e fp), snd (e fp)) ?D"
      using file_refs_remove [OF tab_ok_finite [OF tab], of fp e] c by simp
    have "v \<in> snd ` set_mset ?D" if "(p, v) \<in># K" for p v
    proof -
      have "p \<in># image_mset fst K" using that by force
      then have "p \<in># cwd_ref s + H" using K by (meson mset_subset_eqD union_iff)
      then have "((fcores s)(fp := None)) p \<noteq> None" using tab_ok_held [OF last(1)] by blast
      then have "e p \<in># file_refs e ((fcores s)(fp := None))" using file_refs_known [OF tab_ok_finite [OF last(1)]] by blast
      moreover have "v = snd (e p)" using e that by (auto simp: api_inv_at_def)
      ultimately show ?thesis by auto
    qed
    then have held: "held R ?D {#} ?L" using D0 by (fastforce simp: held_def)
    have drop: "wp (fdrop ops fp) (\<lambda>x s'. x \<and> refs_ok R {} ?D {#} ?L s') s"
      by (rule fdrop_last [OF refs [unfolded D] held f(1)]) (use f True in \<open>simp_all add: fcore_def\<close>)
    have "api_inv R D0 K H s'" if s': "fdrop ops fp s = Inr (True, s')" "refs_ok R {} ?D {#} ?L s'" for s'
    proof -
      note eff = fdrop_effect [OF s'(1) f(1)]
      have core: "fcores s' = (fcores s)(fp := None)" using eff(1,2) by (auto simp: kept_def fun_eq_iff)
      then have "api_inv_at e R D0 K H s'"
        using s'(2) last(1) K D0 eff(1) fresh locked unfolding api_inv_at_def kept_def files_fresh_def cwd_ref_def by auto
      then show ?thesis by (auto simp: api_inv_def)
    qed
    then show ?thesis using drop by (auto simp: wp_def split: sum.splits)
  qed
qed

lemma fdrop_drops: "api_drops G fp (fdrop ops fp)"
  by (simp add: api_drops_def fdrop_rule)

lemma fdrop_then [api_intros]: "(\<And>x. api_keeps G (g x)) \<Longrightarrow> api_drops G fp (bnd (fdrop ops fp) g)"
  by (rule api_drops_then [OF fdrop_drops])

text \<open>The descriptor table takes references of its own.\<close>

lemma fdalloc_min_keeps [api_intros]: "fp \<in># G \<Longrightarrow> api_keeps G (fdalloc_min ops fp m)"
  unfolding api_keeps_def
proof (intro allI impI)
  fix R D0 K H and s :: "'fs vfs" assume "fp \<in># G" "G \<subseteq># H" and inv: "api_inv R D0 K H s"
  then obtain f where f: "files s fp = Some f" using api_inv_held_file [OF inv, of fp] by (metis mset_subset_eqD)
  have K: "image_mset fst K \<subseteq># H" using inv by (auto simp: api_inv_def api_inv_at_def)
  note hold = fhold_rule [OF inv f]
  show "wp (fdalloc_min ops fp m) (\<lambda>_. api_inv R D0 K H) s"
  proof (cases "free_fd (gfdt s) m")
    case None
    then show ?thesis using f fdrop_rule [OF hold K] by (simp add: fdalloc_min_def fhold_def)
  next
    case (Some fd)
    then show ?thesis using f install_rule [OF hold K, of fd] free_fd_Some [OF Some] by (simp add: fdalloc_min_def fhold_def)
  qed
qed

lemma fdalloc_keeps [api_intros]: "fp \<in># G \<Longrightarrow> api_keeps G (fdalloc ops fp)"
  unfolding fdalloc_def by (rule fdalloc_min_keeps)

lemma fdclose_keeps [api_intros]: "api_keeps G (fdclose ops fd)"
  unfolding api_keeps_def
proof (intro allI impI)
  fix R D0 K H and s :: "'fs vfs" assume inv: "api_inv R D0 K H s"
  then have K: "image_mset fst K \<subseteq># H" by (auto simp: api_inv_def api_inv_at_def)
  show "wp (fdclose ops fd) (\<lambda>_. api_inv R D0 K H) s"
    using inv fdrop_rule [OF uninstall_rule [OF inv] K] by (auto simp: fdclose_def excused_def split: option.splits)
qed

lemma fdset_keeps [api_intros]: "fp \<in># G \<Longrightarrow> api_keeps G (fdset ops fd fp)"
  unfolding api_keeps_def
proof (intro allI impI)
  fix R D0 K H and s :: "'fs vfs" assume "fp \<in># G" "G \<subseteq># H" and inv: "api_inv R D0 K H s"
  then obtain f where f: "files s fp = Some f" using api_inv_held_file [OF inv, of fp] by (metis mset_subset_eqD)
  have K: "image_mset fst K \<subseteq># H" using inv by (auto simp: api_inv_def api_inv_at_def)
  let ?s = "s\<lparr>files := (files s)(fp \<mapsto> f\<lparr>f_count := f_count f + 1\<rparr>)\<rparr>"
  have hold: "api_inv R D0 K (add_mset fp H) ?s" by (rule fhold_rule [OF inv f])
  show "wp (fdset ops fd fp) (\<lambda>_. api_inv R D0 K H) s"
  proof (cases "fd < 0 \<or> int FDMAX \<le> fd")
    case True
    then show ?thesis using inv by (simp add: fdset_def)
  next
    case False
    then have fd: "nat fd < FDMAX" by auto
    show ?thesis
    proof (cases "gfdt s (nat fd)")
      case None
      then show ?thesis using False f install_rule [OF hold K _ fd] by (simp add: fdset_def fhold_def)
    next
      case (Some old)
      have "api_inv R D0 K (add_mset fp (add_mset old H)) (?s\<lparr>gfdt := (gfdt ?s)(nat fd := None)\<rparr>)"
        using uninstall_rule [OF hold, of "nat fd" old] Some by (simp add: add_mset_commute)
      from install_rule [OF this submset_add [OF K] _ fd]
      have "api_inv R D0 K (add_mset old H) (?s\<lparr>gfdt := (gfdt s)(nat fd \<mapsto> fp)\<rparr>)" by simp
      from fdrop_rule [OF this K] show ?thesis using False Some f by (simp add: fdset_def fhold_def)
    qed
  qed
qed

text \<open>An opened file is a new one; its entry is held for it.\<close>

lemma acquires_sys_open: "acquires (sys_open ops path flags mode)"
  unfolding acquires_def
proof (intro allI impI)
  fix R D0 K H and s :: "'fs vfs" assume "api_inv R D0 K H s"
  then obtain e where e: "api_inv_at e R D0 K H s" by (auto simp: api_inv_def)
  let ?D = "D0 + file_refs e (fcores s)" and ?L = "image_mset snd K"
  have refs: "refs_ok R {} ?D {#} ?L s" and tab: "tab_ok (cwd_ref s + H) e (fcores s) (gfdt s)" and fresh: "files_fresh s"
    and K: "image_mset fst K \<subseteq># H" and D0: "held R D0 {#} {#}"
    using e by (simp_all add: api_inv_at_def)
  let ?Q = "\<lambda>r s'. case r of Inl _ \<Rightarrow> refs_ok R {} ?D {#} ?L s'
    | Inr fp \<Rightarrow> \<exists>d v fl. refs_ok R {} (add_mset (d, v) ?D) {#} ?L s' \<and> fcores s' fp = Some (fcore (new_file fl d))"
  have "wp (sys_open ops path flags mode) ?Q s"
  proof (rule sys_open_rule [OF refs])
    show "?Q (Inr fp) s'" if "refs_ok R {} (add_mset (d, v) ?D) {#} ?L s'" "files s' fp = Some f" "fcore f = fcore (new_file fl d)"
      for fp f d v fl and s' :: "'fs vfs"
      using that by (auto simp: fcores_def)
  qed simp
  moreover have "case r of Inl _ \<Rightarrow> api_inv R D0 K H s' | Inr fp \<Rightarrow> api_inv R D0 K (add_mset fp H) s'"
    if ret: "sys_open ops path flags mode s = Inr (r, s')" and Q: "?Q r s'" for r s'
  proof -
    have at: "opens_at s r s'" using sys_open_opens ret fresh unfolding opens_def by blast
    show ?thesis
    proof (cases r)
      case (Inl err)
      have "kept {} s s'" using at Inl by (simp add: opens_at_def)
      then have "api_inv_at e R D0 K H s'" using Q Inl by (intro api_inv_kept [OF e]) (auto dest: kept_fcores)
      then show ?thesis using Inl by (auto simp: api_inv_def)
    next
      case (Inr fp)
      obtain d v fl where new: "refs_ok R {} (add_mset (d, v) ?D) {#} ?L s'" "fcores s' fp = Some (fcore (new_file fl d))" using Q Inr by auto
      have k: "kept {fp} s s'" "next_ptr s \<le> fp" "fp < next_ptr s'" using at Inr by (auto simp: opens_at_def)
      let ?e = "e(fp := (d, v))" and ?c = "(fl, 1, Some d, DTYPE_VNODE)"
      have none: "fcores s fp = None" using fresh k(2) by (simp add: files_fresh_def)
      have core: "fcores s' = (fcores s)(fp \<mapsto> ?c)"
        using k(1) new(2) by (auto simp: kept_def fun_eq_iff fcore_def new_file_def)
      have "p \<noteq> fp" if "(p, v') \<in># K" for p v'
      proof -
        have "p \<in># image_mset fst K" using that by force
        then have "p \<in># H" using K by (meson mset_subset_eqD)
        then show ?thesis using none tab_ok_held [OF tab, of p] by auto
      qed
      then have L: "\<forall>(p, v)\<in>#K. snd (?e p) = v" using e by (auto simp: api_inv_at_def)
      have D: "D0 + file_refs ?e (fcores s') = add_mset (d, v) ?D" using file_refs_new [OF tab_ok_finite [OF tab] none] core by simp
      have "tab_ok (cwd_ref s' + add_mset fp H) ?e (fcores s') (gfdt s')"
        using tab_new [OF tab none, of d v fl] k(1) unfolding core by (simp add: kept_def cwd_ref_def)
      moreover have "files_fresh s'" using fresh k unfolding files_fresh_def core by (auto simp: kept_def)
      ultimately have "api_inv_at ?e R D0 K (add_mset fp H) s'"
        using new(1) D0 submset_add [OF K] L unfolding api_inv_at_def D by simp
      then show ?thesis using Inr by (auto simp: api_inv_def)
    qed
  qed
  ultimately show "wp (sys_open ops path flags mode) (\<lambda>r. case r of Inl _ \<Rightarrow> api_inv R D0 K H | Inr fp \<Rightarrow> api_inv R D0 K (add_mset fp H)) s"
    by (auto simp: wp_def split: sum.splits)
qed


text \<open>System calls.\<close>

lemma sys_rmdir_keeps: "api_keeps G (sys_rmdir ops path)"
  unfolding api_keeps_def
proof (intro allI impI)
  fix R D0 K H and s :: "'fs vfs" assume "api_inv R D0 K H s"
  then obtain e where e: "api_inv_at e R D0 K H s" by (auto simp: api_inv_def)
  let ?D = "D0 + file_refs e (fcores s)"
  have "refs_ok R {} ?D {#} (image_mset snd K) s" "files_fresh s" using e by (simp_all add: api_inv_at_def)
  then have "wp (sys_rmdir ops path) (\<lambda>_. refs_ok R {} ?D {#} (image_mset snd K)) s"
    "\<And>x s'. sys_rmdir ops path s = Inr (x, s') \<Longrightarrow> kept {} s s'"
    using rmdir_call sys_rmdir_restores by blast+
  moreover have "api_inv R D0 K H s'" if "kept {} s s'" "refs_ok R {} ?D {#} (image_mset snd K) s'" for s'
    using api_inv_kept [OF e that(1) kept_fcores [OF that(1)] that(2)] by (auto simp: api_inv_def)
  ultimately show "wp (sys_rmdir ops path) (\<lambda>_. api_inv R D0 K H) s" by (auto simp: wp_def split: sum.splits)
qed

lemmas path_keeps [api_intros] =
  api_keeps_path [OF mkdir_call path_calls_quiet(1)] api_keeps_path [OF mknod_call path_calls_quiet(2)]
  api_keeps_path [OF unlink_call path_calls_quiet(3)] api_keeps_path [OF symlink_call path_calls_quiet(4)]
  api_keeps_path [OF access_call path_calls_quiet(5)] api_keeps_path [OF lstat_call path_calls_quiet(6)]
  api_keeps_path [OF truncate_call path_calls_quiet(7)] api_keeps_path [OF readlink_call path_calls_quiet(8)]
  api_keeps_path [OF utimes_call path_calls_quiet(9)] api_keeps_path [OF chmod_call path_calls_quiet(10)]
  sys_rmdir_keeps

lemma api_keeps_file:
  assumes "\<And>R D L s. \<lbrakk>refs_ok R {} D {#} L s; file_ok D s fp\<rbrakk> \<Longrightarrow> wp f (bal R D {#} L s) s" "quiet {fp} f" "fp \<in># G"
  shows "api_keeps G f"
  by (rule api_keepsI [OF assms(1,2)]) (use assms(3) in auto)

lemmas file_keeps [api_intros] =
  api_keeps_file [OF read_write_calls(1) file_calls_quiet(1)] api_keeps_file [OF read_write_calls(2) file_calls_quiet(2)]
  api_keeps_file [OF lseek_call file_calls_quiet(3)] api_keeps_file [OF simple_file_calls(1) file_calls_quiet(4)]
  api_keeps_file [OF simple_file_calls(2) file_calls_quiet(5)] api_keeps_file [OF simple_file_calls(3) file_calls_quiet(6)]
  api_keeps_file [OF simple_file_calls(4) file_calls_quiet(12)] api_keeps_file [OF directory_calls(1) file_calls_quiet(8)]
  api_keeps_file [OF directory_calls(2) file_calls_quiet(10)] api_keeps_file [OF directory_calls(3) file_calls_quiet(9)]
  api_keeps_file [OF directory_calls(4) file_calls_quiet(11)] api_keeps_file [OF directory_calls(5) file_calls_quiet(14)]
  api_keeps_file [OF directory_calls(6) file_calls_quiet(13)]


section \<open>The calls of a program\<close>

lemma fd_call_keeps [api_intros]: "(\<And>fp. api_keeps (add_mset fp G) (f fp)) \<Longrightarrow> api_keeps G (fd_call ops fd f)"
  unfolding fd_call_def
  by (rule acquires_bnd [OF acquires_fget]; simp only: sum.case) (intro api_intros api_drops_bnd; assumption)+

lemma path_call_keeps [api_intros]: "(\<And>p. api_keeps G (f p)) \<Longrightarrow> api_keeps G (path_call path f)"
  unfolding path_call_def by (intro api_intros)

lemma path_call_null_keeps [api_intros]: "(\<And>p. api_keeps G (f p)) \<Longrightarrow> api_keeps G (path_call_null path f)"
  unfolding path_call_null_def by (intro api_intros)

lemma status_keeps [api_intros]: "api_keeps G f \<Longrightarrow> api_keeps G (status f)"
  unfolding status_def by (intro api_intros)

lemma api_open_keeps [api_intros]: "api_keeps G (api_open ops um path flags mode)"
  unfolding api_open_def Let_def
  by (rule path_call_keeps, rule acquires_bnd [OF acquires_sys_open]; simp only: sum.case) (intro api_intros api_drops_bnd; simp)+

lemma api_dup_keeps [api_intros]: "api_keeps G (api_dup ops fd)"
  unfolding api_dup_def by (rule acquires_bnd [OF acquires_fget]; simp only: sum.case) (intro api_intros api_drops_bnd; simp)+

lemma api_dup3_keeps [api_intros]: "api_keeps G (api_dup3 ops fd newfd flags)"
  unfolding api_dup3_def
  by (intro api_keeps_if api_keeps_ret acquires_bnd [OF acquires_fget]; simp only: sum.case) (intro api_intros api_drops_bnd; simp)+

text \<open>The vnode of a held file is locked and unlocked again.\<close>

lemma lock_rule:
  assumes e: "api_inv_at e R D0 K (add_mset fp H) s" and K: "image_mset fst K \<subseteq># H"
  shows "wp (vn_lock (snd (e fp))) (\<lambda>_ s'. api_inv_at e R D0 (add_mset (fp, snd (e fp)) K) (add_mset fp H) s' \<and> dentries s' = dentries s) s"
proof -
  have refs: "refs_ok R {} (D0 + file_refs e (fcores s)) {#} (image_mset snd K) s"
    and tab: "tab_ok (cwd_ref s + add_mset fp H) e (fcores s) (gfdt s)" using e by (simp_all add: api_inv_at_def)
  have "e fp \<in># file_refs e (fcores s)" using file_refs_known [OF tab_ok_finite [OF tab]] tab_ok_held [OF tab, of fp] by simp
  then have v: "snd (e fp) \<in># {#} \<or> snd (e fp) \<in> snd ` set_mset (D0 + file_refs e (fcores s))" by auto
  have q: "quiet {} (vn_lock (snd (e fp)))" by (intro quiet_intros)
  show ?thesis
    by (rule wp_quiet [OF vn_lock_rule [OF refs v, of "\<lambda>_ s'. refs_ok R {} (D0 + file_refs e (fcores s)) {#} (add_mset (snd (e fp)) (image_mset snd K)) s' \<and> dentries s' = dentries s"] q])
      (use e K in \<open>auto simp: api_inv_at_def kept_def files_fresh_def cwd_ref_def fun_eq_iff [symmetric] dest: kept_fcores\<close>)
qed

lemma unlock_rule:
  assumes "api_inv R D0 (add_mset (fp, v) K) (add_mset fp H) s" and K: "image_mset fst K \<subseteq># H"
  shows "wp (vn_unlock v) (\<lambda>_. api_inv R D0 K (add_mset fp H)) s"
proof -
  obtain e where e: "api_inv_at e R D0 (add_mset (fp, v) K) (add_mset fp H) s" using assms(1) by (auto simp: api_inv_def)
  then have refs: "refs_ok R {} (D0 + file_refs e (fcores s)) {#} (add_mset v (image_mset snd K)) s" by (simp add: api_inv_at_def)
  have q: "quiet {} (vn_unlock v)" by (intro quiet_intros)
  have "wp (vn_unlock v) (\<lambda>_. api_inv_at e R D0 K (add_mset fp H)) s"
    by (rule wp_quiet [OF vn_unlock_rule [OF refs, of "\<lambda>_. refs_ok R {} (D0 + file_refs e (fcores s)) {#} (image_mset snd K)"] q])
      (use e submset_add [OF K] in \<open>auto simp: api_inv_at_def kept_def files_fresh_def cwd_ref_def fun_eq_iff [symmetric] dest: kept_fcores\<close>)
  then show ?thesis by (rule wp_mono) (auto simp: api_inv_def)
qed

lemma api_inv_at_entry:
  assumes e: "api_inv_at e R D0 K H s" and fp: "fp \<in># H"
  obtains f where "files s fp = Some f" "f_dentry f = Some (fst (e fp))" "f_type f = DTYPE_VNODE" "(fst (e fp), snd (e fp)) \<in># D0 + file_refs e (fcores s)"
proof -
  have tab: "tab_ok (cwd_ref s + H) e (fcores s) (gfdt s)" using e by (simp add: api_inv_at_def)
  obtain fl n where c: "fcores s fp = Some (fl, n, Some (fst (e fp)), DTYPE_VNODE)" by (rule tab_file [OF tab, of fp]) (use fp in auto)
  then obtain f where "files s fp = Some f" "f_dentry f = Some (fst (e fp))" "f_type f = DTYPE_VNODE" by (auto simp: fcores_def fcore_def)
  moreover have "(fst (e fp), snd (e fp)) \<in># D0 + file_refs e (fcores s)" using file_refs_known [OF tab_ok_finite [OF tab]] c by simp
  ultimately show thesis by (rule that)
qed

lemma entry_known:
  assumes "refs_ok R {} D V L s" "(d, v) \<in># D"
  obtains de where "dentries s d = Some de" "d_vnode de = v" "d_mount de \<in> dom (mounts s)"
proof -
  have "wp (deref dentries d) (\<lambda>de s'. d_vnode de = v \<and> d_mount de \<in> dom (mounts s)) s" by (rule deref_dentry_rule [OF assms]) simp
  then show thesis using that by (auto split: option.splits)
qed

lemma locked_call_drops:
  assumes call: "\<And>p. api_keeps {#} (call p)"
  shows "api_drops G fp (bnd (deref files fp) (\<lambda>f. bnd (nonnull (f_dentry f)) (\<lambda>dp. bnd (deref dentries dp) (\<lambda>de.
      bnd (vn_lock (d_vnode de)) (\<lambda>_. bnd (deref mounts (d_mount de)) (\<lambda>me. bnd (call (p me de)) (\<lambda>error.
      bnd (vn_unlock (d_vnode de)) (\<lambda>_. bnd (fdrop ops fp) (\<lambda>_. ret error)))))))))"
  unfolding api_drops_def
proof (intro allI impI)
  fix R D0 K H and s :: "'fs vfs" assume K: "image_mset fst K \<subseteq># H" and "api_inv R D0 K (add_mset fp H) s"
  then obtain e where e: "api_inv_at e R D0 K (add_mset fp H) s" by (auto simp: api_inv_def)
  let ?d = "fst (e fp)" and ?v = "snd (e fp)"
  obtain f where f: "files s fp = Some f" "f_dentry f = Some ?d" and d: "(?d, ?v) \<in># D0 + file_refs e (fcores s)"
    by (rule api_inv_at_entry [OF e, of fp]) auto
  have "refs_ok R {} (D0 + file_refs e (fcores s)) {#} (image_mset snd K) s" using e by (simp add: api_inv_at_def)
  then obtain de where de: "dentries s ?d = Some de" "d_vnode de = ?v" using d by (rule entry_known)
  have unlock: "wp (vn_unlock ?v) (\<lambda>_. wp (fdrop ops fp) (\<lambda>_. api_inv R D0 K H)) s2"
    if "api_inv R D0 (add_mset (fp, ?v) K) (add_mset fp H) s2" for s2
    by (rule wp_mono [OF unlock_rule [OF that K]]) (rule fdrop_rule [OF _ K])
  have mount: "d_mount de \<in> dom (mounts s1)" if e1: "api_inv_at e R D0 (add_mset (fp, ?v) K) (add_mset fp H) s1" and "dentries s1 = dentries s" for s1
  proof -
    have "(?d, ?v) \<in># D0 + file_refs e (fcores s1)" by (rule api_inv_at_entry [OF e1, of fp]) auto
    moreover have "refs_ok R {} (D0 + file_refs e (fcores s1)) {#} (add_mset ?v (image_mset snd K)) s1" using e1 by (simp add: api_inv_at_def)
    ultimately show ?thesis using entry_known [of R _ _ _ s1 ?d ?v] de(1) that(2) by (metis option.inject)
  qed
  have "wp (vn_lock ?v) (\<lambda>_ s1. case mounts s1 (d_mount de) of None \<Rightarrow> False
      | Some me \<Rightarrow> wp (call (p me de)) (\<lambda>error. wp (vn_unlock ?v) (\<lambda>_. wp (fdrop ops fp) (\<lambda>_. api_inv R D0 K H))) s1) s"
  proof (rule wp_mono [OF lock_rule [OF e K]])
    fix x and s1 :: "'fs vfs" assume s1: "api_inv_at e R D0 (add_mset (fp, ?v) K) (add_mset fp H) s1 \<and> dentries s1 = dentries s"
    then obtain me where me: "mounts s1 (d_mount de) = Some me" using mount by blast
    have "api_inv R D0 (add_mset (fp, ?v) K) (add_mset fp H) s1" using s1 by (auto simp: api_inv_def)
    then have "wp (call (p me de)) (\<lambda>_. api_inv R D0 (add_mset (fp, ?v) K) (add_mset fp H)) s1" using call by (simp add: api_keeps_def)
    then show "case mounts s1 (d_mount de) of None \<Rightarrow> False
      | Some me \<Rightarrow> wp (call (p me de)) (\<lambda>error. wp (vn_unlock ?v) (\<lambda>_. wp (fdrop ops fp) (\<lambda>_. api_inv R D0 K H))) s1"
      unfolding me option.case by (rule wp_mono) (rule unlock)
  qed
  then show "wp (bnd (deref files fp) (\<lambda>f. bnd (nonnull (f_dentry f)) (\<lambda>dp. bnd (deref dentries dp) (\<lambda>de.
      bnd (vn_lock (d_vnode de)) (\<lambda>_. bnd (deref mounts (d_mount de)) (\<lambda>me. bnd (call (p me de)) (\<lambda>error.
      bnd (vn_unlock (d_vnode de)) (\<lambda>_. bnd (fdrop ops fp) (\<lambda>_. ret error))))))))) (\<lambda>_. api_inv R D0 K H) s"
    by (simp only: wp_bnd wp_deref wp_nonnull wp_ret f de option.case)
qed

lemma bnd_assoc: "bnd (bnd f g) h = bnd f (\<lambda>x. bnd (g x) h)"
  by (auto simp: bnd_def fun_eq_iff split: sum.splits)

lemma bnd_ret: "bnd (ret x) f = f x"
  by (simp add: bnd_def ret_def fun_eq_iff)

lemma at_call_keeps [api_intros]:
  assumes "\<And>p. api_keeps {#} (call p)"
  shows "api_keeps G (at_call ops dirfd path call)"
  unfolding at_call_def fd_call_def bnd_assoc bnd_ret
  by (rule api_keeps_if, rule api_keeps_mono [OF assms], rule acquires_bnd [OF acquires_fget]; simp only: sum.case)
    (rule api_keeps_ret, rule locked_call_drops [OF assms])


text \<open>Reading a directory, and the attributes of the entry of an open file.\<close>

lemma readdir_keeps [api_intros]: "fp \<in># G \<Longrightarrow> api_keeps G (sys_readdir ops fp)"
proof (rule api_keeps_file [OF _ file_calls_quiet(7)])
  fix R D L and s :: "'fs vfs" assume ok: "refs_ok R {} D {#} L s" and "file_ok D s fp"
  then show "wp (sys_readdir ops fp) (bal R D {#} L s) s"
  proof (cases rule: file_okE [OF \<open>file_ok D s fp\<close>])
    case (1 f)
    then show ?thesis using ok by (simp add: sys_readdir_def bal_def)
  next
    case (2 f d v)
    show ?thesis by (rule wp_mono [OF sys_readdir_rule [OF ok 2(3,1,2)]]) (simp add: bal_def)
  qed
qed

lemma entry_keeps:
  fixes g :: "dentry \<Rightarrow> ('a, 'fs) vm"
  assumes "\<And>de R D L s. \<lbrakk>refs_ok R {} D {#} L s; d_vnode de \<in> snd ` set_mset D; d_mount de \<in> dom (mounts s)\<rbrakk> \<Longrightarrow> wp (g de) (\<lambda>_. refs_ok R {} D {#} L) s"
    "\<And>de. quiet {} (g de)" "fp \<in># G"
  shows "api_keeps G (bnd (deref files fp) (\<lambda>f. case f_dentry f of None \<Rightarrow> ret x | Some dp \<Rightarrow> bnd (deref dentries dp) g))"
proof (rule api_keeps_file [OF _ _ assms(3)])
  fix R D L and s :: "'fs vfs" assume ok: "refs_ok R {} D {#} L s" and "file_ok D s fp"
  then show "wp (bnd (deref files fp) (\<lambda>f. case f_dentry f of None \<Rightarrow> ret x | Some dp \<Rightarrow> bnd (deref dentries dp) g)) (bal R D {#} L s) s"
  proof (cases rule: file_okE [OF \<open>file_ok D s fp\<close>])
    case (1 f)
    then show ?thesis using ok by (simp add: bal_def)
  next
    case (2 f d v)
    obtain de where de: "dentries s d = Some de" "d_vnode de = v" "d_mount de \<in> dom (mounts s)" by (rule entry_known [OF ok 2(3)])
    have "wp (g de) (bal R D {#} L s) s"
      by (rule wp_quiet [OF assms(1) [OF ok] assms(2)]) (use de 2(3) in \<open>force simp: bal_def dest: kept_fcores\<close>)+
    then show ?thesis using 2(1,2) de(1) by simp
  qed
qed (intro quiet_intros assms(2) [THEN quiet_mono])

lemma sys_fchmod_keeps [api_intros]: "api_keeps G (sys_fchmod ops fd mode)"
proof -
  define g where "g = (\<lambda>de :: dentry. bnd (deref mounts (d_mount de)) (\<lambda>me. if m_flags me AND MNT_RDONLY \<noteq> 0 then ret (Some EROFS) else vn_setmode ops (d_vnode de) mode))"
  define chmod_file where "chmod_file fp = bnd (deref files fp) (\<lambda>f. case f_dentry f of None \<Rightarrow> ret None | Some dp \<Rightarrow> bnd (deref dentries dp) g)" for fp
  have "api_keeps (add_mset fp G) (chmod_file fp)" for fp
    unfolding chmod_file_def
  proof (rule entry_keeps)
    fix de :: dentry and R D L and s :: "'fs vfs"
    assume ok: "refs_ok R {} D {#} L s" and v: "d_vnode de \<in> snd ` set_mset D" and m: "d_mount de \<in> dom (mounts s)"
    have "wp (vn_setmode ops (d_vnode de) mode) (\<lambda>_. refs_ok R {} D {#} L) s" by (rule vn_setattr_rules [OF ok]) (use v in auto)
    then show "wp (g de) (\<lambda>_. refs_ok R {} D {#} L) s" using m ok by (auto simp: g_def)
  qed (auto simp: g_def intro!: quiet_intros)
  moreover have "sys_fchmod ops fd mode = bnd (fget fd) (\<lambda>r. case r of Inl _ \<Rightarrow> ret (Some EBADF)
    | Inr fp \<Rightarrow> bnd (chmod_file fp) (\<lambda>error. bnd (fdrop ops fp) (\<lambda>_. ret error)))"
    unfolding sys_fchmod_def chmod_file_def g_def bnd_assoc by simp
  ultimately show ?thesis
    by (simp only:) (rule acquires_bnd [OF acquires_fget]; simp only: sum.case; intro api_intros api_drops_bnd)
qed

lemma deref_entry_keeps:
  fixes g :: "dentry \<Rightarrow> ('a, 'fs) vm"
  assumes g: "\<And>de. api_keeps G (g de)" and fp: "fp \<in># G"
  shows "api_keeps G (bnd (deref files fp) (\<lambda>f. bnd (nonnull (f_dentry f)) (\<lambda>dp. bnd (deref dentries dp) g)))"
  unfolding api_keeps_def
proof (intro allI impI)
  fix R D0 K H and s :: "'fs vfs" assume G: "G \<subseteq># H" and inv: "api_inv R D0 K H s"
  then obtain e where e: "api_inv_at e R D0 K H s" by (auto simp: api_inv_def)
  obtain f where f: "files s fp = Some f" "f_dentry f = Some (fst (e fp))" and d: "(fst (e fp), snd (e fp)) \<in># D0 + file_refs e (fcores s)"
    by (rule api_inv_at_entry [OF e, of fp]) (use G fp in \<open>auto dest: mset_subset_eqD\<close>)
  have "refs_ok R {} (D0 + file_refs e (fcores s)) {#} (image_mset snd K) s" using e by (simp add: api_inv_at_def)
  then obtain de where "dentries s (fst (e fp)) = Some de" using d by (rule entry_known)
  then show "wp (bnd (deref files fp) (\<lambda>f. bnd (nonnull (f_dentry f)) (\<lambda>dp. bnd (deref dentries dp) g))) (\<lambda>_. api_inv R D0 K H) s"
    using f g [unfolded api_keeps_def] G inv by simp
qed

text \<open>The working directory.\<close>

lemma chdir_drops: "api_drops G fp (bnd (replace_cwd ops fp (change (\<lambda>s. s\<lparr>t_cwd := c\<rparr>))) (\<lambda>_. ret x))"
  unfolding api_drops_def
proof (intro allI impI)
  fix R D0 K H and s :: "'fs vfs" assume K: "image_mset fst K \<subseteq># H" and inv: "api_inv R D0 K (add_mset fp H) s"
  have "api_keeps {#} (change (\<lambda>s :: 'fs vfs. s\<lparr>t_cwd := c\<rparr>))" by (rule api_keeps_cwd)
  then have "api_inv R D0 K (add_mset fp H) (s\<lparr>t_cwd := c\<rparr>)" using inv by (simp add: api_keeps_def)
  from set_cwd_rule [OF this K]
  have "api_inv R D0 K (cwd_ref s + H) (s\<lparr>t_cwd := c, t_cwdfp := Some fp\<rparr>)" by (simp add: cwd_ref_def)
  then show "wp (bnd (replace_cwd ops fp (change (\<lambda>s. s\<lparr>t_cwd := c\<rparr>))) (\<lambda>_. ret x)) (\<lambda>_. api_inv R D0 K H) s"
    using fdrop_rule [OF _ K] by (auto simp: replace_cwd_def cwd_ref_def split: option.splits)
qed

lemma api_chdir_keeps: "api_keeps G (api_chdir ops path)"
  unfolding api_chdir_def
  by (rule path_call_null_keeps, rule acquires_bnd [OF acquires_sys_open]; simp only: sum.case) (rule api_keeps_ret, rule chdir_drops)

text \<open>File control.\<close>

lemma set_flags_keeps:
  fixes g :: "file_obj \<Rightarrow> ('a, 'fs) vm"
  assumes "fp \<in># G" "\<And>f. api_keeps G (g f)"
  shows "api_keeps G (bnd (deref files fp) (\<lambda>f. bnd (set_file fp (f\<lparr>f_flags := h f\<rparr>)) (\<lambda>_. g f)))"
  unfolding api_keeps_def
proof (intro allI impI)
  fix R D0 K H and s :: "'fs vfs" assume G: "G \<subseteq># H" and inv: "api_inv R D0 K H s"
  then obtain e where e: "api_inv_at e R D0 K H s" by (auto simp: api_inv_def)
  obtain f where f: "files s fp = Some f" by (rule api_inv_at_entry [OF e, of fp]) (use G assms(1) in \<open>auto dest: mset_subset_eqD\<close>)
  then have c: "fcores s fp = Some (f_flags f, f_count f, f_dentry f, f_type f)" by (simp add: fcores_def fcore_def)
  have tab: "tab_ok (cwd_ref s + H) e (fcores s) (gfdt s)" and K: "image_mset fst K \<subseteq># H" using e by (simp_all add: api_inv_at_def)
  have "api_inv_at e R D0 K H (s\<lparr>files := (files s)(fp \<mapsto> f\<lparr>f_flags := h f\<rparr>)\<rparr>)"
    using tab_flags [OF tab c] by (intro api_inv_files [OF e f K]) (simp add: fcore_def)
  then have "api_inv R D0 K H (s\<lparr>files := (files s)(fp \<mapsto> f\<lparr>f_flags := h f\<rparr>)\<rparr>)" by (auto simp: api_inv_def)
  then show "wp (bnd (deref files fp) (\<lambda>f. bnd (set_file fp (f\<lparr>f_flags := h f\<rparr>)) (\<lambda>_. g f))) (\<lambda>_. api_inv R D0 K H) s"
    using f assms(2) [unfolded api_keeps_def] G by simp
qed

lemma deref_file_keeps:
  fixes g :: "file_obj \<Rightarrow> ('a, 'fs) vm"
  assumes "fp \<in># G" "\<And>f. api_keeps G (g f)"
  shows "api_keeps G (bnd (deref files fp) g)"
  unfolding api_keeps_def
proof (intro allI impI)
  fix R D0 K H and s :: "'fs vfs" assume G: "G \<subseteq># H" and inv: "api_inv R D0 K H s"
  obtain f where "files s fp = Some f" by (rule api_inv_held_file [OF inv, of fp]) (use G assms(1) in \<open>auto dest: mset_subset_eqD\<close>)
  then show "wp (bnd (deref files fp) g) (\<lambda>_. api_inv R D0 K H) s" using assms(2) [unfolded api_keeps_def] G inv by simp
qed

lemma sync_flag_keeps:
  assumes "fp \<in># G"
  shows "api_keeps G (sync_flag ops fp com tmp bits)"
  unfolding sync_flag_def
proof (rule api_keeps_file [OF _ _ assms])
  let ?ioctl = "\<lambda>f. bnd (change (\<lambda>s. s\<lparr>user := mem_write (user s) tmp (map (\<lambda>i. Some (ucast (drop_bit (8 * i) (f_flags f AND bits)))) [0..<4])\<rparr>))
    (\<lambda>_. if f_type f = DTYPE_VNODE then vfs_file_ioctl ops fp com tmp else file_ioctl ops fp com tmp)"
  show "quiet {fp} (bnd (deref files fp) ?ioctl)"
    unfolding vfs_file_ioctl_def by (intro quiet_intros with_file_vnode_quiet)
  fix R D L and s :: "'fs vfs" assume ok: "refs_ok R {} D {#} L s" and fp: "file_ok D s fp"
  have "wp (if f_type f = DTYPE_VNODE then vfs_file_ioctl ops fp com tmp else file_ioctl ops fp com tmp) (bal R D {#} L s) (s\<lparr>user := m\<rparr>)"
    if f: "files s fp = Some f" for f m
  proof -
    let ?s = "s\<lparr>user := m\<rparr>"
    have ok': "refs_ok R {} D {#} L ?s" using ok by simp
    have bal: "bal R D {#} L ?s = bal R D {#} L s" by (simp add: bal_def fcores_def fun_eq_iff)
    have "file_ok D ?s fp" using fp by (simp add: file_ok_def)
    then show ?thesis unfolding bal [symmetric]
      by (cases rule: file_okE [OF \<open>file_ok D ?s fp\<close>])
        (use f in \<open>auto simp: vfs_file_ioctl_def intro!: with_file_vnode_keeps [OF ok'] ioctl_keeps keeps_bal [OF file_ioctl_keeps ok']\<close>)
  qed
  moreover obtain f where "files s fp = Some f" using fp by (auto simp: file_ok_def)
  ultimately show "wp (bnd (deref files fp) ?ioctl) (bal R D {#} L s) s" by (simp only: wp_bnd wp_deref wp_change option.case)
qed

lemma fcntl_cmds_keeps:
  assumes "fp \<in># G"
  shows "api_keeps G (fcntl_cmds ops tmp fp cmd arg)"
  unfolding fcntl_cmds_def Let_def
  by (cases cmd; simp only: fcntl_cmd.case)
    (intro deref_file_keeps set_flags_keeps sync_flag_keeps api_intros; simp add: assms excused_def)+

lemma api_fcntl_keeps: "cmd \<noteq> F_DUPFD \<Longrightarrow> api_keeps G (api_fcntl ops tmp fd cmd arg)"
  unfolding api_fcntl_def
  by (rule acquires_bnd [OF acquires_fget]; simp) (intro api_intros api_drops_bnd fcntl_cmds_keeps; simp)+

lemma api_futimesat_keeps: "api_keeps G (api_futimesat ops now dirfd path tv)"
proof -
  have utimes: "api_keeps G (api_utimes ops now p tv)" for G p
    unfolding api_utimes_def api_do_utimes_def by (intro api_intros)
  have main: "api_keeps G (bnd (fget dirfd) (\<lambda>r. case r of Inl error \<Rightarrow> ret (Inl (Errno error))
    | Inr fp \<Rightarrow> bnd (bnd (deref files fp) (\<lambda>f. bnd (nonnull (f_dentry f)) (\<lambda>dp. bnd (deref dentries dp) (\<lambda>de. api_utimes ops now (q de) tv))))
        (\<lambda>r. bnd (fdrop ops fp) (\<lambda>_. ret (case r of Inl _ \<Rightarrow> Inl Minus_one | Inr _ \<Rightarrow> Inr 0)))))" for q
    by (rule acquires_bnd [OF acquires_fget]; simp only: sum.case) (intro api_intros api_drops_bnd deref_entry_keeps utimes; simp)+
  show ?thesis
    unfolding api_futimesat_def api_fstat_def
    by (intro main [unfolded bnd_assoc] api_intros utimes) (simp_all add: excused_def)
qed

end

end
