(* ===== verification/Vfs_Program.thy ===== *)
theory Vfs_Program
  imports Vfs_Api_Refs Vfs_Demo
begin

text \<open>
  Whole programs on a mounted RAM file system: the calls that keep the references in balance, run in any order and number, and the two calls
  that do not.
\<close>

section \<open>Balanced calls\<close>

text \<open>
  Left out are the calls whose failures leak a reference (\<open>stat\<close>, \<open>statfs\<close>, \<open>fstatat\<close>, \<open>utimensat\<close>, \<open>futimens\<close>, \<open>link\<close>, \<open>rename\<close>,
  \<open>fchdir\<close>, and \<open>fcntl\<close> with \<open>F_DUPFD\<close>) and \<open>faccessat\<close> with the flag that aborts.
\<close>

definition balanced_call :: "api_call \<Rightarrow> bool" where
  "balanced_call c = (case c of
     Stat _ \<Rightarrow> False
   | Statfs _ \<Rightarrow> False
   | Fstatat _ _ _ \<Rightarrow> False
   | Utimensat _ _ _ _ _ \<Rightarrow> False
   | Futimens _ _ _ \<Rightarrow> False
   | Link _ _ \<Rightarrow> False
   | Rename _ _ \<Rightarrow> False
   | Fchdir _ \<Rightarrow> False
   | Fcntl _ _ cmd _ \<Rightarrow> cmd \<noteq> F_DUPFD
   | Faccessat _ _ _ flags \<Rightarrow> flags AND AT_SYMLINK_NOFOLLOW = 0
   | _ \<Rightarrow> True)"

lemmas api_defs =
  api_openat_def api_creat_def api_close_def api_dup2_def api_getcwd_def api_lseek_def api_read_def api_write_def api_pread_def api_pwrite_def
  api_preadv_def api_pwritev_def api_ioctl_def api_fsync_def api_fstat_def api_fstatfs_def api_ftruncate_def api_fallocate_def
  api_opendir_def api_fdopendir_def api_closedir_def api_readdir_def api_readdir_r_def api_rewinddir_def api_telldir_def api_seekdir_def
  api_mknod_def api_mkdir_def api_rmdir_def api_symlink_def api_unlink_def api_lstat_def api_access_def api_faccessat_def
  api_truncate_def api_chmod_def api_fchmod_def api_readlink_def api_utimes_def api_lutimes_def api_utime_def api_do_utimes_def

lemma free_fd_least: "free_fd table m = Some fd \<Longrightarrow> m \<le> fd \<and> fd < FDMAX \<and> table fd = None \<and> (\<forall>i. m \<le> i \<and> i < fd \<longrightarrow> table i \<noteq> None)"
proof (induction table m rule: free_fd.induct)
  case (1 table m)
  show ?case
  proof (cases "table m = None")
    case True
    then show ?thesis using 1(2) by (auto simp: free_fd.simps [of table m] split: if_splits)
  next
    case False
    then have m: "m < FDMAX" "free_fd table (Suc m) = Some fd" using 1(2) by (auto simp: free_fd.simps [of table m] split: if_splits)
    have "Suc m \<le> fd \<and> fd < FDMAX \<and> table fd = None \<and> (\<forall>i. Suc m \<le> i \<and> i < fd \<longrightarrow> table i \<noteq> None)" using 1(1) m False by simp
    then show ?thesis using False by (metis Suc_leD Suc_leI le_neq_implies_less)
  qed
qed

lemma bndE:
  assumes "bnd f g s = Inr (r, s')"
  obtains x s1 where "f s = Inr (x, s1)" "g x s1 = Inr (r, s')"
  using assms by (auto simp: bnd_def split: sum.splits)

lemma task_conv_state: "task_conv path s = Inr (r, s') \<Longrightarrow> s' = s"
  by (auto simp: task_conv_def bnd_def look_def fail_def ret_def split: option.splits)

context fs_quiet
begin

lemma fdrop_eq: "\<lbrakk>files s fp = Some f; f_count f \<noteq> 1\<rbrakk> \<Longrightarrow> fdrop ops fp s = Inr (False, s\<lparr>files := (files s)(fp \<mapsto> f\<lparr>f_count := f_count f - 1\<rparr>)\<rparr>)"
  by (simp add: fdrop_def bnd_def deref_def set_file_def change_def ret_def)

lemma fdalloc_eq:
  assumes "files s fp = Some f" "0 < f_count f"
  shows "fdalloc ops fp s = Inr (case free_fd (gfdt s) 0 of
      Some fd \<Rightarrow> (Inr fd, s\<lparr>files := (files s)(fp \<mapsto> f\<lparr>f_count := f_count f + 1\<rparr>), gfdt := (gfdt s)(fd \<mapsto> fp)\<rparr>)
    | None \<Rightarrow> (Inl EMFILE, s\<lparr>files := (files s)(fp \<mapsto> f)\<rparr>))"
  using assms
  by (simp add: fdalloc_def fdalloc_min_def fhold_def bnd_def deref_def set_file_def change_def ret_def look_def fdrop_eq split: option.splits)

text \<open>The end of \<open>open\<close>: a descriptor is given to the new file, or the file is freed.\<close>

lemma new_fd_effect:
  assumes f: "files s fp = Some f" "f_count f = 1"
    and eq: "bnd (fdalloc ops fp) (\<lambda>r. case r of
        Inl error \<Rightarrow> bnd (fdrop ops fp) (\<lambda>_. ret (Inl error))
      | Inr fd \<Rightarrow> bnd (fdrop ops fp) (\<lambda>_. ret (Inr (int fd)))) s = Inr (r, s')"
  shows "case r of
      Inl e \<Rightarrow> gfdt s' = gfdt s \<and> fcores s' = (fcores s)(fp := None)
    | Inr fd \<Rightarrow> 0 \<le> fd \<and> free_fd (gfdt s) 0 = Some (nat fd) \<and> gfdt s' = (gfdt s)(nat fd \<mapsto> fp) \<and> fcores s' = fcores s"
proof -
  obtain x s2 where s2: "fdalloc ops fp s = Inr (x, s2)" "(case x of
        Inl error \<Rightarrow> bnd (fdrop ops fp) (\<lambda>_. ret (Inl error))
      | Inr fd \<Rightarrow> bnd (fdrop ops fp) (\<lambda>_. ret (Inr (int fd)))) s2 = Inr (r, s')"
    using eq by (rule bndE)
  note alloc = fdalloc_eq [OF f(1), unfolded f(2), simplified]
  show ?thesis
  proof (cases "free_fd (gfdt s) 0")
    case None
    let ?s = "s\<lparr>files := (files s)(fp \<mapsto> f)\<rparr>"
    have "x = Inl EMFILE" "s2 = ?s" using s2(1) alloc None by simp_all
    then have "bnd (fdrop ops fp) (\<lambda>_. ret (Inl EMFILE)) ?s = Inr (r, s')" using s2(2) by simp
    then obtain b s3 where "fdrop ops fp ?s = Inr (b, s3)" "ret (Inl EMFILE) s3 = Inr (r, s')" by (rule bndE)
    then have drop: "fdrop ops fp ?s = Inr (b, s')" "r = Inl EMFILE" by (simp_all add: ret_def)
    note eff = fdrop_effect [OF drop(1), of f]
    have "fcores s' q = ((fcores s)(fp := None)) q" for q
      using eff f(2) by (cases "q = fp") (simp_all add: kept_def, simp add: fcores_def)
    then show ?thesis using drop(2) eff(1) by (auto simp: kept_def)
  next
    case (Some fd)
    let ?s = "s\<lparr>files := (files s)(fp \<mapsto> f\<lparr>f_count := 2\<rparr>), gfdt := (gfdt s)(fd \<mapsto> fp)\<rparr>"
    have "x = Inr fd" "s2 = ?s" using s2(1) alloc Some by simp_all
    then have "bnd (fdrop ops fp) (\<lambda>_. ret (Inr (int fd))) ?s = Inr (r, s')" using s2(2) by simp
    then obtain b s3 where drop: "fdrop ops fp ?s = Inr (b, s3)" "ret (Inr (int fd)) s3 = Inr (r, s')" by (rule bndE)
    have "fdrop ops fp ?s = Inr (False, ?s\<lparr>files := (files s)(fp \<mapsto> f\<lparr>f_count := 1\<rparr>)\<rparr>)"
      using fdrop_eq [of ?s fp "f\<lparr>f_count := 2\<rparr>"] by simp
    then have "r = Inr (int fd)" "s' = ?s\<lparr>files := (files s)(fp \<mapsto> f\<lparr>f_count := 1\<rparr>)\<rparr>" using drop by (simp_all add: ret_def)
    then show ?thesis using Some f by (auto simp: fcores_def fcore_def)
  qed
qed

text \<open>What \<open>open\<close> does to the table and the open files.\<close>

lemma api_open_effect:
  assumes fresh: "files_fresh s" and eq: "api_open ops um path flags mode s = Inr (r, s')"
  shows "case r of
      Inl e \<Rightarrow> gfdt s' = gfdt s \<and> fcores s' = fcores s
    | Inr fd \<Rightarrow> 0 \<le> fd \<and> free_fd (gfdt s) 0 = Some (nat fd) \<and> (\<exists>fp f. gfdt s' = (gfdt s)(nat fd \<mapsto> fp) \<and> fcores s fp = None \<and>
        files s' fp = Some f \<and> f_count f = 1 \<and> (\<forall>p. p \<noteq> fp \<longrightarrow> fcores s' p = fcores s p))"
proof -
  let ?m = "if flags AND O_CREAT \<noteq> 0 then apply_umask um mode else 0"
  let ?alloc = "\<lambda>fp. bnd (fdalloc ops fp) (\<lambda>r. case r of
        Inl error \<Rightarrow> bnd (fdrop ops fp) (\<lambda>_. ret (Inl error))
      | Inr fd \<Rightarrow> bnd (fdrop ops fp) (\<lambda>_. ret (Inr (int fd))))"
  let ?open = "\<lambda>p. bnd (sys_open ops p flags ?m) (\<lambda>r. case r of Inl error \<Rightarrow> ret (Inl error) | Inr fp \<Rightarrow> ?alloc fp)"
  have "bnd (task_conv path) (\<lambda>r. case r of Inl error \<Rightarrow> ret (Inl error) | Inr p \<Rightarrow> ?open p) s = Inr (r, s')"
    using eq by (simp only: api_open_def path_call_def Let_def)
  then obtain c s0 where c: "task_conv path s = Inr (c, s0)" "(case c of Inl error \<Rightarrow> ret (Inl error) | Inr p \<Rightarrow> ?open p) s0 = Inr (r, s')" by (rule bndE)
  have s0: "s0 = s" by (rule task_conv_state [OF c(1)])
  show ?thesis
  proof (cases c)
    case (Inl e)
    then show ?thesis using c(2) s0 by (auto simp: ret_def)
  next
    case (Inr p)
    then have "?open p s = Inr (r, s')" using c(2) s0 by (simp only: sum.case)
    then obtain o' s1 where s1: "sys_open ops p flags ?m s = Inr (o', s1)" "(case o' of Inl error \<Rightarrow> ret (Inl error) | Inr fp \<Rightarrow> ?alloc fp) s1 = Inr (r, s')"
      by (rule bndE)
    have at: "opens_at s o' s1" using sys_open_opens fresh s1(1) unfolding opens_def by blast
    show ?thesis
    proof (cases o')
      case (Inl e)
      then have "r = Inl e" "s' = s1" using s1(2) by (simp_all add: ret_def)
      then show ?thesis using at Inl by (auto simp: opens_at_def kept_def fun_eq_iff)
    next
      case new: (Inr fp)
      then have k: "gfdt s1 = gfdt s" "\<And>q. q \<noteq> fp \<Longrightarrow> fcores s1 q = fcores s q" "fcores s fp = None"
        using at fresh by (auto simp: opens_at_def files_fresh_def kept_def)
      obtain f where f: "files s1 fp = Some f" "f_count f = 1" using at new by (auto simp: opens_at_def fcores_def fcore_def new_file_def)
      have "?alloc fp s1 = Inr (r, s')" using s1(2) new by (simp only: sum.case)
      note eff = new_fd_effect [OF f this]
      show ?thesis
      proof (cases r)
        case (Inl e)
        then have "fcores s' = (fcores s1)(fp := None)" "gfdt s' = gfdt s" using eff k(1) by simp_all
        then show ?thesis using Inl k(2,3) by (auto simp: fun_eq_iff)
      next
        case (Inr fd)
        then have e: "fcores s' = fcores s1" "0 \<le> fd" "free_fd (gfdt s) 0 = Some (nat fd)" "gfdt s' = (gfdt s)(nat fd \<mapsto> fp)" using eff k(1) by simp_all
        obtain f' where f': "files s' fp = Some f'" "fcore f' = fcore f" by (rule fcoresE [OF e(1) f(1)])
        then have "f_count f' = 1" using f(2) by (simp add: fcore_def)
        then show ?thesis using Inr e k(2,3) f'(1) by (auto simp del: fun_upd_apply)
      qed
    qed
  qed
qed

lemma api_exec_keeps: "balanced_call c \<Longrightarrow> api_keeps {#} (api_exec ops um c)"
  by (cases c; simp only: api_exec.simps balanced_call_def api_call.case api_defs Let_def)
    (intro api_intros api_chdir_keeps api_fcntl_keeps api_futimesat_keeps; simp)+

lemma api_run_keeps: "list_all balanced_call cs \<Longrightarrow> api_keeps {#} (api_run ops um cs)"
  by (induction cs arbitrary: um) (simp_all add: api_keeps_ret api_keeps_bnd api_exec_keeps)

end

section \<open>Properties\<close>

lemma api_inv_counts:
  assumes "api_inv R D0 {#} {#} s"
  shows "\<And>fp f. files s fp = Some f \<Longrightarrow> f_count f = int (card {fd. gfdt s fd = Some fp}) + (if t_cwdfp s = Some fp then 1 else 0)"
    and "\<And>fp fd. gfdt s fd = Some fp \<or> t_cwdfp s = Some fp \<Longrightarrow> \<exists>f. files s fp = Some f \<and> 0 < f_count f"
    and "\<lbrakk>gfdt s = Map.empty; t_cwdfp s = None\<rbrakk> \<Longrightarrow> files s = Map.empty \<and> refs_ok R {} D0 {#} {#} s"
proof -
  obtain e where e: "tab_ok (cwd_ref s) e (fcores s) (gfdt s)" "refs_ok R {} (D0 + file_refs e (fcores s)) {#} {#} s"
    using assms by (auto simp: api_inv_def api_inv_at_def)
  show count: "f_count f = int (card {fd. gfdt s fd = Some fp}) + (if t_cwdfp s = Some fp then 1 else 0)" if "files s fp = Some f" for fp f
    using tab_ok_core(4) [OF e(1), of fp] that by (fastforce simp: fcores_def fcore_def fds_def cwd_ref_def split: option.splits)
  show "\<exists>f. files s fp = Some f \<and> 0 < f_count f" if "gfdt s fd = Some fp \<or> t_cwdfp s = Some fp" for fp fd
    using api_inv_held_file [OF assms, of fp fd] that by metis
  show "files s = Map.empty \<and> refs_ok R {} D0 {#} {#} s" if "gfdt s = Map.empty" "t_cwdfp s = None"
  proof -
    have "files s fp = None" for fp
      using count [of fp] that tab_ok_core(3) [OF e(1), of fp] by (cases "files s fp") (auto simp: fcores_def fcore_def)
    then show ?thesis using e(2) by (auto simp: fcores_def file_refs_def dom_def)
  qed
qed

text \<open>C1: Any program of balanced calls, in any order and with any arguments, keeps the count of every open file equal to the number of
  descriptors that name it, plus one for the working directory: no file is leaked by a call that fails, none is freed while a descriptor or the
  working directory still names it, and when the last descriptor is closed all references to entries are as they were at the start. No assertion
  fails and no freed object is used. (The faults not excluded are those of \<open>path_calls_balanced\<close> and descriptors out of the range of the
  table, which \<open>close\<close> does not check.)\<close>

theorem program_references:
  assumes "api_inv R D0 {#} {#} s" "list_all balanced_call cs"
  shows "wp (api_run ramfs_ops um cs) (\<lambda>_ s'. api_inv R D0 {#} {#} s' \<and>
    (\<forall>fp f. files s' fp = Some f \<longrightarrow> f_count f = int (card {fd. gfdt s' fd = Some fp}) + (if t_cwdfp s' = Some fp then 1 else 0)) \<and>
    (\<forall>fp fd. gfdt s' fd = Some fp \<or> t_cwdfp s' = Some fp \<longrightarrow> (\<exists>f. files s' fp = Some f \<and> 0 < f_count f)) \<and>
    (gfdt s' = Map.empty \<and> t_cwdfp s' = None \<longrightarrow> files s' = Map.empty \<and> refs_ok R {} D0 {#} {#} s')) s"
proof -
  have "wp (api_run ramfs_ops um cs) (\<lambda>_. api_inv R D0 {#} {#}) s"
    using ramfs_quiet.api_run_keeps [OF assms(2)] assms(1) by (simp add: api_keeps_def)
  then show ?thesis by (rule wp_mono) (use api_inv_counts in blast)
qed

lemma demo_api_inv: "api_inv {3} {#(3, 2)#} {#} {#} demo"
proof -
  have "fcores demo = Map.empty" "gfdt demo = Map.empty" "t_cwdfp demo = None" by (simp_all add: fcores_def demo_def fun_eq_iff)
  then have "api_inv_at (\<lambda>_. (0, 0)) {3} {#(3, 2)#} {#} {#} demo"
    using demo_ok by (simp add: api_inv_at_def file_refs_def tab_ok_def cwd_ref_def files_fresh_def held_def)
  then show ?thesis by (auto simp: api_inv_def)
qed

theorem program_references_witness:
  "wp (api_run ramfs_ops 0x12 [Mkdir ''/d'' 0x1FF, Open ''/d/f'' 0x42 0x1B6, Dup 0, Chdir (Some ''/d''), Close 0, Unlink (Some ''f''), Close 1])
    (\<lambda>_ s'. api_inv {3} {#(3, 2)#} {#} {#} s' \<and>
    (\<forall>fp f. files s' fp = Some f \<longrightarrow> f_count f = int (card {fd. gfdt s' fd = Some fp}) + (if t_cwdfp s' = Some fp then 1 else 0)) \<and>
    (\<forall>fp fd. gfdt s' fd = Some fp \<or> t_cwdfp s' = Some fp \<longrightarrow> (\<exists>f. files s' fp = Some f \<and> 0 < f_count f)) \<and>
    (gfdt s' = Map.empty \<and> t_cwdfp s' = None \<longrightarrow> files s' = Map.empty \<and> refs_ok {3} {} {#(3, 2)#} {#} {#} s')) demo"
  by (rule program_references [OF demo_api_inv]) (simp add: balanced_call_def)

text \<open>C8: \<open>open\<close> returns the lowest descriptor not in use and stores there a new file with that descriptor as its only reference; when it
  fails, also for want of a descriptor, the table and the open files are as before.\<close>

theorem open_lowest_descriptor:
  assumes "api_inv R D0 {#} {#} s"
  shows "wp (api_open ramfs_ops um path flags mode) (\<lambda>r s'. case r of
      Inl e \<Rightarrow> gfdt s' = gfdt s \<and> fcores s' = fcores s
    | Inr fd \<Rightarrow> 0 \<le> fd \<and> fd < int FDMAX \<and> gfdt s (nat fd) = None \<and> (\<forall>i < nat fd. gfdt s i \<noteq> None) \<and>
        (\<exists>fp f. gfdt s' = (gfdt s)(nat fd \<mapsto> fp) \<and> fcores s fp = None \<and> files s' fp = Some f \<and> f_count f = 1 \<and>
          (\<forall>p. p \<noteq> fp \<longrightarrow> fcores s' p = fcores s p))) s"
proof -
  have "files_fresh s" using assms by (auto simp: api_inv_def api_inv_at_def)
  note eff = ramfs_quiet.api_open_effect [OF this]
  have "wp (api_open ramfs_ops um path flags mode) (\<lambda>_. api_inv R D0 {#} {#}) s"
    using ramfs_quiet.api_open_keeps [of "{#}"] assms by (simp add: api_keeps_def)
  then show ?thesis
  proof (cases "api_open ramfs_ops um path flags mode s")
    case (Inr p)
    then have "case fst p of Inl e \<Rightarrow> gfdt (snd p) = gfdt s \<and> fcores (snd p) = fcores s
      | Inr fd \<Rightarrow> 0 \<le> fd \<and> free_fd (gfdt s) 0 = Some (nat fd) \<and> (\<exists>fp f. gfdt (snd p) = (gfdt s)(nat fd \<mapsto> fp) \<and> fcores s fp = None \<and>
          files (snd p) fp = Some f \<and> f_count f = 1 \<and> (\<forall>q. q \<noteq> fp \<longrightarrow> fcores (snd p) q = fcores s q))"
      by (intro eff [of um path flags mode]) simp
    then show ?thesis using Inr free_fd_least [of "gfdt s" 0 "nat (projr (fst p))"] by (cases p; cases "fst p") (auto simp: wp_def)
  qed (simp add: wp_def)
qed

theorem open_lowest_descriptor_witness:
  "wp (api_open ramfs_ops 0x12 ''/f'' 0x42 0x1B6) (\<lambda>r s'. case r of
      Inl e \<Rightarrow> gfdt s' = gfdt demo \<and> fcores s' = fcores demo
    | Inr fd \<Rightarrow> 0 \<le> fd \<and> fd < int FDMAX \<and> gfdt demo (nat fd) = None \<and> (\<forall>i < nat fd. gfdt demo i \<noteq> None) \<and>
        (\<exists>fp f. gfdt s' = (gfdt demo)(nat fd \<mapsto> fp) \<and> fcores demo fp = None \<and> files s' fp = Some f \<and> f_count f = 1 \<and>
          (\<forall>p. p \<noteq> fp \<longrightarrow> fcores s' p = fcores demo p))) demo"
  by (rule open_lowest_descriptor [OF demo_api_inv])

text \<open>C40: \<open>fcntl\<close> with \<open>F_DUPFD\<close> that finds no free descriptor fails without giving back the reference \<open>fget\<close> took: the file's count is one
  too high afterwards, and the file can never be freed.\<close>

theorem fcntl_dupfd_leaks:
  assumes "0 \<le> fd" "fd < int FDMAX" "gfdt s (nat fd) = Some fp" "files s fp = Some f" "0 < f_count f"
    "0 \<le> sint arg" "free_fd (gfdt s) (nat (sint arg)) = None"
  shows "api_fcntl ops tmp fd F_DUPFD arg s = Inr (Inl EMFILE, s\<lparr>files := (files s)(fp \<mapsto> f\<lparr>f_count := f_count f + 1\<rparr>)\<rparr>)"
  using assms
  by (simp add: api_fcntl_def fcntl_cmds_def fget_def fhold_if_positive_def fdalloc_min_def fhold_def fdrop_def bnd_def look_def deref_def ret_def
      set_file_def change_def Let_def) (simp add: add.commute)

theorem fcntl_dupfd_leaks_witness:
  "api_fcntl ramfs_ops 0 5 F_DUPFD 0x4000 (demo\<lparr>gfdt := [5 \<mapsto> 9], files := [9 \<mapsto> new_file 3 3]\<rparr>) =
    Inr (Inl EMFILE, demo\<lparr>gfdt := [5 \<mapsto> 9], files := [9 \<mapsto> (new_file 3 3)\<lparr>f_count := 2\<rparr>]\<rparr>)"
  using fcntl_dupfd_leaks [of 5 "demo\<lparr>gfdt := [5 \<mapsto> 9], files := [9 \<mapsto> new_file 3 3]\<rparr>" 9 "new_file 3 3" "0x4000" ramfs_ops 0]
  by (simp add: FDMAX_def new_file_def free_fd.simps [of _ 16384])

text \<open>
  A failing \<open>fchdir\<close>, the first to be called, leaves the working directory pointing to a file to which it holds no reference: once the
  descriptor is closed, the next change of directory drops a file that was freed.
\<close>

lemma fchdir_failure_unreferenced:
  assumes inv: "api_inv R D0 {#} {#} s" and cwd: "t_cwdfp s = None" and fd: "0 \<le> fd" "fd < int FDMAX" "gfdt s (nat fd) = Some fp"
  shows "wp (api_fchdir ramfs_ops fd) (\<lambda>r s'. case r of
      Inl e \<Rightarrow> t_cwdfp s' = Some fp \<and> gfdt s' = gfdt s \<and> fcores s' = fcores s
    | Inr _ \<Rightarrow> api_inv R D0 {#} {#} s') s"
proof -
  obtain f where f: "files s fp = Some f" "0 < f_count f" by (rule api_inv_held_file [OF inv, of fp "nat fd"]) (use fd in simp)
  let ?s = "s\<lparr>files := (files s)(fp \<mapsto> f\<lparr>f_count := f_count f + 1\<rparr>)\<rparr>"
  have hold: "api_inv R D0 {#} {#fp#} ?s" by (rule fhold_rule [OF inv f(1)])
  then obtain e where e: "api_inv_at e R D0 {#} {#fp#} ?s" by (auto simp: api_inv_def)
  let ?D = "D0 + file_refs e (fcores ?s)"
  have "refs_ok R {} ?D {#} {#} ?s" using e by (simp add: api_inv_at_def)
  then have "wp (sys_fchdir fp) (bal R ?D {#} {#} ?s) ?s" using api_inv_file_ok [OF e, of fp] by (intro ramfs.directory_calls(4)) simp_all
  then have chdir: "wp (sys_fchdir fp) (\<lambda>_ s1. kept {fp} ?s s1 \<and> fcores s1 = fcores ?s \<and> api_inv R D0 {#} {#fp#} s1) ?s"
    by (rule wp_quiet [OF _ ramfs_quiet.file_calls_quiet(11)]) (use api_inv_kept [OF e] in \<open>auto simp: bal_def api_inv_def\<close>)
  have held_f: "files ?s fp = Some (f\<lparr>f_count := f_count f + 1\<rparr>)" by simp
  have fail: "wp (fdrop ramfs_ops fp) (\<lambda>_ s'. t_cwdfp s' = Some fp \<and> gfdt s' = gfdt s \<and> fcores s' = fcores s) (s1\<lparr>t_cwdfp := Some fp\<rparr>)"
    if k: "kept {fp} ?s s1" and c: "fcores s1 = fcores ?s" for s1
  proof -
    obtain f1 where f1: "files s1 fp = Some f1" "fcore f1 = fcore (f\<lparr>f_count := f_count f + 1\<rparr>)" by (rule fcoresE [OF c held_f])
    have "fcores (s1\<lparr>files := (files s1)(fp \<mapsto> f1\<lparr>f_count := f_count f1 - 1\<rparr>)\<rparr>) = (fcores s1)(fp \<mapsto> fcore f)"
      using f1(2) by (simp add: fcores_update fcore_def)
    also have "\<dots> = fcores s" using c f(1) by (auto simp: fcores_def fun_eq_iff)
    finally have "fcores (s1\<lparr>t_cwdfp := Some fp, files := (files s1)(fp \<mapsto> f1\<lparr>f_count := f_count f1 - 1\<rparr>)\<rparr>) = fcores s"
      by (simp add: fcores_def fun_eq_iff)
    moreover have "f_count f1 \<noteq> 1" using f1(2) f(2) by (simp add: fcore_def)
    ultimately show ?thesis using f1(1) k ramfs_quiet.fdrop_eq [of "s1\<lparr>t_cwdfp := Some fp\<rparr>" fp f1] by (simp add: wp_def kept_def)
  qed
  have success: "api_inv R D0 {#} {#} (s1\<lparr>t_cwd := c, t_cwdfp := Some fp\<rparr>)" if "api_inv R D0 {#} {#fp#} s1" "t_cwdfp s1 = None" for s1 :: "ramfs vfs" and c
  proof -
    have "api_keeps {#} (change (\<lambda>s :: ramfs vfs. s\<lparr>t_cwd := c\<rparr>))" by (rule api_keeps_cwd)
    then have "api_inv R D0 {#} {#fp#} (s1\<lparr>t_cwd := c\<rparr>)" using that(1) by (simp add: api_keeps_def)
    from set_cwd_rule [OF this] show ?thesis using that(2) by (simp add: cwd_ref_def)
  qed
  have "wp (sys_fchdir fp) (\<lambda>r. wp (case r of Inl error \<Rightarrow> ret (Some error) | Inr cwd \<Rightarrow> bnd (change (\<lambda>s. s\<lparr>t_cwd := cwd\<rparr>)) (\<lambda>_. ret None))
      (\<lambda>error s1. wp (case error of Some e \<Rightarrow> bnd (fdrop ramfs_ops fp) (\<lambda>_. ret (Inl e)) | None \<Rightarrow> ret (Inr 0))
        (\<lambda>r s'. case r of Inl e \<Rightarrow> t_cwdfp s' = Some fp \<and> gfdt s' = gfdt s \<and> fcores s' = fcores s | Inr _ \<Rightarrow> api_inv R D0 {#} {#} s')
        (s1\<lparr>t_cwdfp := Some fp\<rparr>))) ?s"
    by (rule wp_mono [OF chdir]) (use fail success cwd in \<open>auto simp: kept_def split: sum.splits\<close>)
  then show ?thesis using f fd cwd by (simp add: api_fchdir_def replace_cwd_def fget_def fhold_if_positive_def)
qed

end
