(* ===== verification/Ramfs_Spec.thy ===== *)
theory Ramfs_Spec
  imports Vfs_Demo Linked_List
begin

text \<open>
  What the RAM file system stores: directories are lists of named nodes, regular files are byte strings. \<open>ramfs_tree K r\<close> says
  that the heap of \<^verbatim>\<open>fs/ramfs/ramfs_vnops.cc\<close> holds, for every node \<open>d\<close>, the children \<open>K d\<close> in this order, that no
  node is in two directories, and that sizes, buffers and name lengths agree. The operations of the file system are shown to
  keep it, never to fault on it, and to act on \<open>K\<close> and on the contents as the obvious operations on lists.
\<close>

section \<open>The heap of nodes\<close>

definition nexts :: "(nat \<Rightarrow> ramfs_node option) \<Rightarrow> nat \<Rightarrow> nat option" where
  "nexts heap p = Option.bind (heap p) rn_next"

definition node_ok :: "ramfs_node \<Rightarrow> bool" where
  "node_ok n \<longleftrightarrow> rn_namelen n = length (rn_name n) \<and> 0 \<le> rn_size n \<and> rn_size n \<le> 2 ^ 62 \<and> rn_size n \<le> rn_bufsize n \<and>
     rn_bufsize n = (case rn_buf n of None \<Rightarrow> 0 | Some b \<Rightarrow> int (length b))"

definition ramfs_tree :: "(nat \<Rightarrow> nat list) \<Rightarrow> ramfs \<Rightarrow> bool" where
  "ramfs_tree K r \<longleftrightarrow>
     (\<forall>d n. nodes r d = Some n \<longrightarrow> list_at (nexts (nodes r)) (rn_child n) (K d) \<and> node_ok n \<and> d < brk r) \<and>
     (\<forall>d. nodes r d = None \<longrightarrow> K d = []) \<and>
     (\<forall>d. set (K d) \<subseteq> dom (nodes r)) \<and>
     (\<forall>d d'. d \<noteq> d' \<longrightarrow> set (K d) \<inter> set (K d') = {})"

lemma nexts_upd [simp]: "nexts (heap(p \<mapsto> n)) = (nexts heap)(p := rn_next n)" "nexts (heap(p := None)) = (nexts heap)(p := None)"
  by (auto simp: nexts_def fun_eq_iff)

lemma nexts_Some: "heap p = Some n \<Longrightarrow> nexts heap p = rn_next n"
  by (simp add: nexts_def)

lemma ramfs_treeD:
  assumes "ramfs_tree K r" "nodes r d = Some n"
  shows "list_at (nexts (nodes r)) (rn_child n) (K d)" "node_ok n" "d < brk r"
  using assms by (auto simp: ramfs_tree_def)

lemma ramfs_tree_kids:
  assumes "ramfs_tree K r"
  shows "set (K d) \<subseteq> dom (nodes r)" "d \<noteq> d' \<Longrightarrow> set (K d) \<inter> set (K d') = {}" "distinct (K d)" "length (K d) \<le> brk r"
proof -
  show sub: "set (K d) \<subseteq> dom (nodes r)" and "d \<noteq> d' \<Longrightarrow> set (K d) \<inter> set (K d') = {}" using assms by (auto simp: ramfs_tree_def)
  show dist: "distinct (K d)"
  proof (cases "nodes r d")
    case None
    then show ?thesis using assms by (simp add: ramfs_tree_def)
  next
    case (Some n)
    then show ?thesis using ramfs_treeD(1) [OF assms Some] list_at_distinct by blast
  qed
  have "set (K d) \<subseteq> {..<brk r}" using sub ramfs_treeD(3) [OF assms] by fastforce
  then have "card (set (K d)) \<le> brk r" using card_mono [of "{..<brk r}" "set (K d)"] by simp
  then show "length (K d) \<le> brk r" using distinct_card [OF dist] by simp
qed


section \<open>The loops over a directory\<close>

lemma last_child_chain:
  "\<lbrakk>list_at (nexts heap) (Some c) (xs @ [l]); set (xs @ [l]) \<subseteq> dom heap; length xs < k\<rbrakk> \<Longrightarrow> last_child k heap c = Some l"
proof (induction xs arbitrary: c k)
  case Nil
  then show ?case by (cases k) (auto simp: nexts_def)
next
  case (Cons x xs)
  then obtain n j where n: "heap x = Some n" "k = Suc j" "c = x" by (cases k) auto
  then show ?case using Cons by (cases "rn_next n") (auto simp: nexts_def)
qed

lemma find_prev_chain:
  "\<lbrakk>list_at (nexts heap) (Some c) (xs @ l # np # ys); set xs \<union> {l} \<subseteq> dom heap; np \<notin> set (xs @ [l]); length xs < k\<rbrakk>
    \<Longrightarrow> find_prev k heap np c = Some (Inr l)"
proof (induction xs arbitrary: c k)
  case Nil
  then show ?case by (cases k) (auto simp: nexts_def)
next
  case (Cons x xs)
  then obtain n j where n: "heap x = Some n" "k = Suc j" "c = x" by (cases k) auto
  have "nexts heap x = Some (case xs @ l # np # ys of z # zs \<Rightarrow> z)" using Cons.prems(1) by (cases xs) auto
  moreover have "(case xs @ l # np # ys of z # zs \<Rightarrow> z) \<noteq> np" using Cons.prems(3) by (cases xs) auto
  ultimately show ?case using Cons n by (auto simp: nexts_def)
qed

lemma find_prev_missing:
  "\<lbrakk>list_at (nexts heap) (Some c) xs; set xs \<subseteq> dom heap; np \<notin> set xs; length xs \<le> k\<rbrakk>
    \<Longrightarrow> find_prev k heap np c = Some (Inl ENOENT)"
proof (induction xs arbitrary: c k)
  case Nil
  then show ?case by simp
next
  case (Cons x xs)
  then obtain n j where n: "heap x = Some n" "k = Suc j" "c = x" by (cases k) auto
  show ?case
  proof (cases "rn_next n")
    case None
    then show ?thesis using n by simp
  next
    case (Some p)
    then have "xs \<noteq> [] \<and> hd xs = p" using Cons.prems(1) n by (cases xs) (auto simp: nexts_def)
    then have "p \<noteq> np" using Cons.prems(3) by auto
    then show ?thesis using Cons n Some by (auto simp: nexts_def)
  qed
qed

lemma find_child_chain:
  "\<lbrakk>list_at (nexts heap) p xs; \<And>x. x \<in> set xs \<Longrightarrow> \<exists>n. heap x = Some n \<and> node_ok n; length xs < k\<rbrakk>
    \<Longrightarrow> find_child k heap name p = Some (find (\<lambda>x. map_option rn_name (heap x) = Some name) xs)"
proof (induction xs arbitrary: p k)
  case Nil
  then show ?case by (cases k) auto
next
  case (Cons x xs)
  then obtain n j where n: "heap x = Some n" "node_ok n" "k = Suc j" "p = Some x" by (cases k) force+
  then show ?case using Cons by (auto simp: node_ok_def nexts_def)
qed

lemma nth_child_chain:
  "\<lbrakk>list_at (nexts heap) (Some c) xs; set xs \<subseteq> dom heap; length xs \<le> k; 0 \<le> i\<rbrakk>
    \<Longrightarrow> nth_child k heap i c = Some (if nat i < length xs then Some (xs ! nat i) else None)"
proof (induction xs arbitrary: c k i)
  case Nil
  then show ?case by simp
next
  case (Cons x xs)
  then obtain n j where n: "heap x = Some n" "k = Suc j" "c = x" by (cases k) auto
  show ?case
  proof (cases "i = 0")
    case True
    then show ?thesis using n by simp
  next
    case False
    then have i: "0 \<le> i - 1" "nat i = Suc (nat (i - 1))" using Cons.prems(4) by auto
    show ?thesis
    proof (cases "rn_next n")
      case None
      then have "xs = []" using Cons.prems(1) n by (simp add: nexts_def)
      then show ?thesis using n None False i by simp
    next
      case (Some p)
      then have "nth_child j heap (i - 1) p = Some (if nat (i - 1) < length xs then Some (xs ! nat (i - 1)) else None)"
        using Cons.IH [of p j "i - 1"] Cons.prems n i by (auto simp: nexts_def)
      then show ?thesis using n Some False i by simp
    qed
  qed
qed


section \<open>Executions that do not fault\<close>

definition exec :: "('a, 'fs) vm \<Rightarrow> ('a \<Rightarrow> 'fs vfs \<Rightarrow> bool) \<Rightarrow> 'fs vfs \<Rightarrow> bool" where
  "exec f Q s = (case f s of Inl e \<Rightarrow> False | Inr (x, s') \<Rightarrow> Q x s')"

lemma exec_prim [simp]:
  "exec (ret x) Q0 = Q0 x"
  "exec (bnd f g) Q1 = exec f (\<lambda>x. exec (g x) Q1)"
  "exec (look h) Q2 = (\<lambda>s. Q2 (h s) s)"
  "exec (change c) Q = (\<lambda>s. Q () (c s))"
  "exec (ASSERT b) Q = (\<lambda>s. b \<and> Q () s)"
  "exec (fail e) Q3 = (\<lambda>s. False)"
  "exec (deref hp p) Q4 = (\<lambda>s. case hp s p of None \<Rightarrow> False | Some y \<Rightarrow> Q4 y s)"
  "exec (nonnull q) P = (\<lambda>s. case q of None \<Rightarrow> False | Some y \<Rightarrow> P y s)"
  by (auto simp: exec_def fun_eq_iff ret_def bnd_def look_def change_def ASSERT_def fail_def deref_def nonnull_def split: sum.splits option.splits)

lemma exec_set [simp]:
  "exec (set_vnode v vn) Q = (\<lambda>s. Q () (s\<lparr>vnodes := (vnodes s)(v \<mapsto> vn)\<rparr>))"
  "exec (set_file fp f) Q = (\<lambda>s. Q () (s\<lparr>files := (files s)(fp \<mapsto> f)\<rparr>))"
  "exec (set_mount m me) Q = (\<lambda>s. Q () (s\<lparr>mounts := (mounts s)(m \<mapsto> me)\<rparr>))"
  "exec new_ptr P = (\<lambda>s. P (next_ptr s) (s\<lparr>next_ptr := Suc (next_ptr s)\<rparr>))"
  by (simp_all add: set_vnode_def set_file_def set_mount_def new_ptr_def exec_def fun_eq_iff)

lemma exec_node [simp]:
  "exec (node p) R = (\<lambda>s. case nodes (fs s) p of None \<Rightarrow> False | Some n \<Rightarrow> R n s)"
  "exec (set_node p n) Q = (\<lambda>s. Q () (s\<lparr>fs := (fs s)\<lparr>nodes := (nodes (fs s))(p \<mapsto> n)\<rparr>\<rparr>))"
  "exec (walk_nodes loop) W = (\<lambda>s. case loop (Suc (brk (fs s))) (nodes (fs s)) of None \<Rightarrow> False | Some x \<Rightarrow> W x s)"
  by (auto simp: node_def set_node_def walk_nodes_def fun_eq_iff split: option.splits)

lemma exec_mono: "\<lbrakk>exec f P s; \<And>x s'. P x s' \<Longrightarrow> Q x s'\<rbrakk> \<Longrightarrow> exec f Q s"
  by (auto simp: exec_def split: sum.splits)

lemma exec_if: "exec (if b then f else g) Q s = (if b then exec f Q s else exec g Q s)"
  by simp

lemma execE: "exec f Q s \<Longrightarrow> (\<And>x s'. f s = Inr (x, s') \<Longrightarrow> Q x s' \<Longrightarrow> P) \<Longrightarrow> P"
  by (auto simp: exec_def split: sum.splits)


section \<open>Adding a node to a directory and removing it\<close>

text \<open>What a node holds, apart from its place in the tree.\<close>

definition info :: "ramfs_node option \<Rightarrow> (vtype \<times> string \<times> int \<times> byte list option) option" where
  "info p = map_option (\<lambda>n. (rn_type n, rn_name n, rn_size n, rn_buf n)) p"

definition fresh_node :: "string \<Rightarrow> vtype \<Rightarrow> ramfs_node" where
  "fresh_node name type = \<lparr>rn_next = None, rn_child = None, rn_type = type, rn_name = name, rn_namelen = length name,
     rn_size = 0, rn_buf = None, rn_bufsize = 0\<rparr>"

lemma tree_append:
  assumes tree: "ramfs_tree K r" and d: "nodes r d = Some dn" and np: "np = brk r"
  shows "K d = [] \<Longrightarrow> ramfs_tree (K(d := [np]))
       (r\<lparr>brk := Suc np, nodes := (nodes r)(np \<mapsto> fresh_node name type, d \<mapsto> dn\<lparr>rn_child := Some np\<rparr>)\<rparr>)"
    and "\<lbrakk>K d = xs @ [l]; nodes r l = Some ln\<rbrakk> \<Longrightarrow> ramfs_tree (K(d := K d @ [np]))
       (r\<lparr>brk := Suc np, nodes := (nodes r)(np \<mapsto> fresh_node name type, l \<mapsto> ln\<lparr>rn_next := Some np\<rparr>)\<rparr>)"
proof -
  have np_free: "nodes r np = None" using ramfs_treeD(3) [OF tree, of np] np by (cases "nodes r np") auto
  have K_np: "K np = []" using tree np_free by (simp add: ramfs_tree_def)
  have notin: "np \<notin> set (K e)" for e using ramfs_tree_kids(1) [OF tree, of e] np_free by (metis domD option.distinct(1) subsetD)
  have d_np: "d \<noteq> np" using d np_free by auto
  have free: "nexts (nodes r) np = None" by (simp add: nexts_def np_free)
  have fresh: "node_ok (fresh_node name type)" "rn_next (fresh_node name type) = None" "rn_child (fresh_node name type) = None"
    by (simp_all add: node_ok_def fresh_node_def)
  {
    assume empty: "K d = []"
    let ?h = "(nodes r)(np \<mapsto> fresh_node name type, d \<mapsto> dn\<lparr>rn_child := Some np\<rparr>)"
    have nx: "nexts ?h = nexts (nodes r)" using free d fresh(2) by (auto simp: fun_eq_iff nexts_def)
    have dirs: "list_at (nexts ?h) (rn_child n) ((K(d := [np])) e) \<and> node_ok n \<and> e < Suc np" if e: "?h e = Some n" for e n
    proof -
      consider "e = d" "n = dn\<lparr>rn_child := Some np\<rparr>" | "e = np" "e \<noteq> d" "n = fresh_node name type" | "e \<noteq> d" "e \<noteq> np" "nodes r e = Some n"
        using e by (auto split: if_splits)
      then show ?thesis
      proof cases
        case 1
        then show ?thesis using ramfs_treeD(2,3) [OF tree d] nx free np by (simp add: node_ok_def del: nexts_upd)
      next
        case 2
        then show ?thesis using fresh K_np by simp
      next
        case 3
        then show ?thesis using ramfs_treeD [OF tree 3(3)] nx np by (simp del: nexts_upd)
      qed
    qed
    have "set ((K(d := [np])) e) \<subseteq> dom ?h" for e using ramfs_tree_kids(1) [OF tree, of e] by auto
    moreover have "set ((K(d := [np])) e) \<inter> set ((K(d := [np])) e') = {}" if "e \<noteq> e'" for e e'
      using that ramfs_tree_kids(2) [OF tree, of e e'] notin [of e] notin [of e'] by auto
    moreover have "(K(d := [np])) e = []" if "?h e = None" for e
    proof -
      have "nodes r e = None" "e \<noteq> d" using that d by (auto split: if_splits)
      then show ?thesis using tree by (simp add: ramfs_tree_def)
    qed
    ultimately show "ramfs_tree (K(d := [np])) (r\<lparr>brk := Suc np, nodes := ?h\<rparr>)"
      unfolding ramfs_tree_def using dirs by (simp del: nexts_upd)
  }
  {
    assume last: "K d = xs @ [l]" and l: "nodes r l = Some ln"
    let ?h = "(nodes r)(np \<mapsto> fresh_node name type, l \<mapsto> ln\<lparr>rn_next := Some np\<rparr>)"
    have l_np: "l \<noteq> np" using l np_free by auto
    have nx: "nexts ?h = (nexts (nodes r))(l := Some np)" using free fresh(2) by (auto simp: fun_eq_iff nexts_def)
    have other: "l \<notin> set (K e)" if "e \<noteq> d" for e using ramfs_tree_kids(2) [OF tree that] last by auto
    have grown: "list_at ((nexts (nodes r))(l := Some np)) (rn_child dn) (K d @ [np])"
      using list_at_snoc [of "nexts (nodes r)" "rn_child dn" xs l np] ramfs_treeD(1) [OF tree d] last notin [of d] free by simp
    have dirs: "list_at (nexts ?h) (rn_child n) ((K(d := K d @ [np])) e) \<and> node_ok n \<and> e < Suc np" if e: "?h e = Some n" for e n
    proof (cases "e = np")
      case True
      then show ?thesis using e l_np d_np K_np fresh by simp
    next
      case False
      then obtain m where m: "nodes r e = Some m" "rn_child n = rn_child m" "node_ok n = node_ok m"
        using e l by (auto simp: node_ok_def split: if_splits)
      have "list_at ((nexts (nodes r))(l := Some np)) (rn_child m) ((K(d := K d @ [np])) e)"
        using grown other [of e] ramfs_treeD(1) [OF tree m(1)] m(1) d by (cases "e = d") simp_all
      then show ?thesis using ramfs_treeD(2,3) [OF tree m(1)] m(2,3) np nx by (simp del: nexts_upd)
    qed
    have "set ((K(d := K d @ [np])) e) \<subseteq> dom ?h" for e
      using ramfs_tree_kids(1) [OF tree, of e] ramfs_tree_kids(1) [OF tree, of d] by auto
    moreover have "set ((K(d := K d @ [np])) e) \<inter> set ((K(d := K d @ [np])) e') = {}" if "e \<noteq> e'" for e e'
      using that ramfs_tree_kids(2) [OF tree, of e e'] notin [of e] notin [of e'] by auto
    moreover have "(K(d := K d @ [np])) e = []" if "?h e = None" for e
    proof -
      have "nodes r e = None" "e \<noteq> d" using that d by (auto split: if_splits)
      then show ?thesis using tree by (simp add: ramfs_tree_def)
    qed
    ultimately show "ramfs_tree (K(d := K d @ [np])) (r\<lparr>brk := Suc np, nodes := ?h\<rparr>)"
      unfolding ramfs_tree_def using dirs by (simp del: nexts_upd)
  }
qed

lemma tree_unlink:
  assumes tree: "ramfs_tree K r" and np: "np \<in> set (K d)" and dom_h: "dom h = dom (nodes r) - {np}" and ys: "set ys \<subseteq> set (K d) - {np}"
    and self: "\<And>m. d \<noteq> np \<Longrightarrow> h d = Some m \<Longrightarrow> list_at (nexts h) (rn_child m) ys"
    and other: "\<And>e m. \<lbrakk>e \<noteq> d; e \<noteq> np; h e = Some m\<rbrakk> \<Longrightarrow> list_at (nexts h) (rn_child m) (K e)"
    and ok: "\<And>e m. h e = Some m \<Longrightarrow> node_ok m"
  shows "ramfs_tree (K(d := ys, np := [])) (r\<lparr>nodes := h\<rparr>)"
proof -
  let ?K = "K(d := ys, np := [])"
  have "list_at (nexts h) (rn_child m) (?K e) \<and> node_ok m \<and> e < brk r" if "h e = Some m" for e m
  proof -
    have e: "e \<in> dom (nodes r)" "e \<noteq> np" using that dom_h by auto
    then have "e < brk r" using ramfs_treeD(3) [OF tree] by blast
    then show ?thesis using that e self [of m] other [of e m] ok [of e m] by (cases "e = d") simp_all
  qed
  moreover have "?K e = []" if "h e = None" for e
  proof (cases "e = np")
    case False
    then have "nodes r e = None" using that dom_h by (metis Diff_iff domIff singletonD)
    then show ?thesis using tree ys False by (auto simp: ramfs_tree_def)
  qed simp
  moreover have "set (?K e) \<subseteq> dom h" for e
    using ramfs_tree_kids(1) [OF tree, of e] ramfs_tree_kids(2) [OF tree, of e d] np ys dom_h by auto
  moreover have "set (?K e) \<inter> set (?K e') = {}" if "e \<noteq> e'" for e e'
    using that ramfs_tree_kids(2) [OF tree that] ramfs_tree_kids(2) [OF tree, of e d] ramfs_tree_kids(2) [OF tree, of e' d] ys by auto
  ultimately show ?thesis unfolding ramfs_tree_def by simp
qed

lemma tree_remove:
  assumes tree: "ramfs_tree K r" and d: "nodes r d = Some dn" and n: "nodes r np = Some n"
  shows "K d = np # ys \<Longrightarrow>
       ramfs_tree (K(d := ys, np := [])) (r\<lparr>nodes := (nodes r)(d \<mapsto> dn\<lparr>rn_child := rn_next n\<rparr>, np := None)\<rparr>)"
    and "\<lbrakk>K d = xs @ l # np # ys; nodes r l = Some ln\<rbrakk> \<Longrightarrow>
       ramfs_tree (K(d := xs @ l # ys, np := [])) (r\<lparr>nodes := (nodes r)(l \<mapsto> ln\<lparr>rn_next := rn_next n\<rparr>, np := None)\<rparr>)"
proof -
  have dist: "distinct (K d)" by (rule ramfs_tree_kids(3) [OF tree])
  {
    assume K: "K d = np # ys"
    let ?h = "(nodes r)(d \<mapsto> dn\<lparr>rn_child := rn_next n\<rparr>, np := None)"
    have nx: "nexts ?h = (nexts (nodes r))(np := None)" using d by (auto simp: fun_eq_iff nexts_def)
    have rest: "list_at (nexts (nodes r)) (rn_next n) ys"
      using ramfs_treeD(1) [OF tree d] K n by (simp add: nexts_Some)
    show "ramfs_tree (K(d := ys, np := [])) (r\<lparr>nodes := ?h\<rparr>)"
    proof (rule tree_unlink [OF tree])
      fix m assume "d \<noteq> np" "?h d = Some m"
      then show "list_at (nexts ?h) (rn_child m) ys" using rest dist K nx by auto
    next
      fix e m assume e: "e \<noteq> d" "e \<noteq> np" "?h e = Some m"
      then have "np \<notin> set (K e)" using ramfs_tree_kids(2) [OF tree e(1)] K by auto
      then show "list_at (nexts ?h) (rn_child m) (K e)" using e ramfs_treeD(1) [OF tree, of e m] nx by simp
    next
      fix e m assume "?h e = Some m"
      then show "node_ok m" using ramfs_treeD(2) [OF tree, of e] ramfs_treeD(2) [OF tree d] by (auto simp: node_ok_def split: if_splits)
    qed (use K d n dist in auto)
  }
  {
    assume K: "K d = xs @ l # np # ys" and l: "nodes r l = Some ln"
    let ?h = "(nodes r)(l \<mapsto> ln\<lparr>rn_next := rn_next n\<rparr>, np := None)"
    have nx: "nexts ?h = (nexts (nodes r))(l := rn_next n, np := None)" by (auto simp: fun_eq_iff nexts_def)
    have new: "np \<notin> set (xs @ l # ys)" using dist K by auto
    have "list_at ((nexts (nodes r))(l := nexts (nodes r) np)) (rn_child dn) (xs @ l # ys)"
      by (rule list_at_unlink) (use ramfs_treeD(1) [OF tree d] K in simp)
    then have rest: "list_at ((nexts (nodes r))(l := rn_next n, np := None)) (rn_child dn) (xs @ l # ys)"
      using new nexts_Some [of "nodes r", OF n] by simp
    show "ramfs_tree (K(d := xs @ l # ys, np := [])) (r\<lparr>nodes := ?h\<rparr>)"
    proof (rule tree_unlink [OF tree])
      fix m assume "d \<noteq> np" "?h d = Some m"
      then have "rn_child m = rn_child dn" using d l by (auto split: if_splits)
      then show "list_at (nexts ?h) (rn_child m) (xs @ l # ys)" using rest nx by simp
    next
      fix e m assume e: "e \<noteq> d" "e \<noteq> np" "?h e = Some m"
      then obtain m' where m': "nodes r e = Some m'" "rn_child m = rn_child m'" using l by (auto split: if_splits)
      have "np \<notin> set (K e)" "l \<notin> set (K e)" using ramfs_tree_kids(2) [OF tree e(1)] K by auto
      then show "list_at (nexts ?h) (rn_child m) (K e)" using m' ramfs_treeD(1) [OF tree m'(1)] nx by simp
    next
      fix e m assume "?h e = Some m"
      then show "node_ok m" using ramfs_treeD(2) [OF tree, of e] ramfs_treeD(2) [OF tree l] by (auto simp: node_ok_def split: if_splits)
    qed (use K d n l dist in auto)
  }
qed

lemma tree_attrs:
  assumes tree: "ramfs_tree K r" and p: "nodes r p = Some n" and same: "rn_next n' = rn_next n" "rn_child n' = rn_child n" "node_ok n'"
  shows "ramfs_tree K (r\<lparr>nodes := (nodes r)(p \<mapsto> n')\<rparr>)"
proof -
  have nx: "nexts ((nodes r)(p \<mapsto> n')) = nexts (nodes r)" using p same(1) by (auto simp: fun_eq_iff nexts_def)
  have "list_at (nexts (nodes r)) (rn_child m) (K e) \<and> node_ok m \<and> e < brk r" if "((nodes r)(p \<mapsto> n')) e = Some m" for e m
    using that ramfs_treeD [OF tree, of e] p same by (cases "e = p") auto
  moreover have "K e = []" if "((nodes r)(p \<mapsto> n')) e = None" for e
    using that tree by (simp add: ramfs_tree_def split: if_splits)
  moreover have "set (K e) \<subseteq> dom ((nodes r)(p \<mapsto> n'))" for e using ramfs_tree_kids(1) [OF tree, of e] by auto
  ultimately show ?thesis unfolding ramfs_tree_def using ramfs_tree_kids(2) [OF tree] nx by (simp del: nexts_upd)
qed

lemma exec_allocate_node:
  "exec (ramfs_allocate_node name type) Q s =
     Q (brk (fs s)) (s\<lparr>fs := (fs s)\<lparr>brk := Suc (brk (fs s)), nodes := (nodes (fs s))(brk (fs s) \<mapsto> fresh_node name type)\<rparr>\<rparr>)"
  by (simp add: ramfs_allocate_node_def fresh_node_def)

text \<open>\<open>ramfs_add_node\<close> appends an empty node to the directory and changes nothing else.\<close>

lemma exec_add_node:
  assumes tree: "ramfs_tree K (fs s)" and d: "nodes (fs s) d = Some dn"
  shows "exec (ramfs_add_node d name type) (\<lambda>np s'. np = brk (fs s) \<and> ramfs_tree (K(d := K d @ [np])) (fs s') \<and>
    nodes (fs s') np = Some (fresh_node name type) \<and> (\<forall>p. p \<noteq> np \<longrightarrow> info (nodes (fs s') p) = info (nodes (fs s) p)) \<and>
    inode_count (fs s') = inode_count (fs s) \<and> s' = s\<lparr>fs := fs s'\<rparr>) s"
proof -
  let ?np = "brk (fs s)"
  have free: "nodes (fs s) ?np = None" using ramfs_treeD(3) [OF tree, of ?np] by (cases "nodes (fs s) ?np") auto
  then have d_np: "d \<noteq> ?np" using d by auto
  note chain = ramfs_treeD(1) [OF tree d] and kids = ramfs_tree_kids [OF tree, of d]
  show ?thesis
  proof (cases "rn_child dn")
    case None
    then have K: "K d = []" using chain by simp
    show ?thesis
      using tree_append(1) [OF tree d refl K, of name type] d d_np None K
      by (simp add: ramfs_add_node_def exec_allocate_node info_def)
  next
    case (Some c)
    then have "K d \<noteq> []" using chain by auto
    then obtain xs l where K: "K d = xs @ [l]" by (cases "K d" rule: rev_cases) auto
    let ?h = "(nodes (fs s))(?np \<mapsto> fresh_node name type)"
    obtain ln where l: "nodes (fs s) l = Some ln" using kids(1) K by auto
    then have l_np: "l \<noteq> ?np" using free by auto
    have sub: "set (xs @ [l]) \<subseteq> dom ?h" using kids(1) K by auto
    have "list_at (nexts ?h) (Some c) (xs @ [l])" using chain Some K kids(1) free by (subst nexts_upd(1), subst list_at_upd) auto
    then have "last_child (Suc (Suc ?np)) ?h c = Some l" by (rule last_child_chain [OF _ sub]) (use kids(4) K in simp)
    then show ?thesis
      using tree_append(2) [OF tree d refl K l, of name type] d d_np l l_np Some
      by (simp add: ramfs_add_node_def exec_allocate_node info_def del: last_child.simps)
  qed
qed

text \<open>\<open>ramfs_remove_node\<close> takes exactly the node out of the directory and frees it, or fails and changes nothing.\<close>

lemma exec_remove_node:
  assumes tree: "ramfs_tree K (fs s)" and d: "nodes (fs s) d = Some dn"
  shows "exec (ramfs_remove_node d np) (\<lambda>e s'.
    if np \<in> set (K d) then e = None \<and> ramfs_tree (K(d := remove1 np (K d), np := [])) (fs s') \<and> nodes (fs s') np = None \<and>
      (\<forall>p. p \<noteq> np \<longrightarrow> info (nodes (fs s') p) = info (nodes (fs s) p)) \<and> inode_count (fs s') = inode_count (fs s) \<and> s' = s\<lparr>fs := fs s'\<rparr>
    else e = Some (if K d = [] then EBUSY else ENOENT) \<and> s' = s) s"
proof -
  note chain = ramfs_treeD(1) [OF tree d] and kids = ramfs_tree_kids [OF tree, of d]
  show ?thesis
  proof (cases "rn_child dn")
    case None
    then have "K d = []" using chain by simp
    then show ?thesis using d None by (simp add: ramfs_remove_node_def)
  next
    case (Some c)
    then have c: "K d \<noteq> []" "hd (K d) = c" using chain by (cases "K d"; simp)+
    show ?thesis
    proof (cases "np \<in> set (K d)")
      case False
      then have "find_prev (Suc (brk (fs s))) (nodes (fs s)) np c = Some (Inl ENOENT)"
        by (intro find_prev_missing [of _ _ "K d"]) (use chain kids Some in auto)
      then show ?thesis using False c d Some by (auto simp: ramfs_remove_node_def simp del: find_prev.simps)
    next
      case np: True
      then obtain n where n: "nodes (fs s) np = Some n" using kids(1) by blast
      show ?thesis
      proof (cases "c = np")
        case True
        then obtain ys where K: "K d = np # ys" using c by (cases "K d") auto
        show ?thesis
          using tree_remove(1) [OF tree d n K] d n Some True K
          by (auto simp: ramfs_remove_node_def ramfs_free_node_def info_def)
      next
        case False
        obtain xs ys where split: "K d = xs @ np # ys" "np \<notin> set xs" using split_list_first [OF np] by blast
        then have "xs \<noteq> []" using c False by auto
        then obtain zs l where K: "K d = zs @ l # np # ys" "xs = zs @ [l]" using split by (cases xs rule: rev_cases) auto
        have new: "np \<notin> set (zs @ [l])" "remove1 np (K d) = zs @ l # ys" using K split by (auto simp: remove1_append)
        obtain ln where l: "nodes (fs s) l = Some ln" using kids(1) K by auto
        have "find_prev (Suc (brk (fs s))) (nodes (fs s)) np c = Some (Inr l)"
          by (rule find_prev_chain [OF _ _ new(1)]) (use chain kids(1,4) Some K in auto)
        then show ?thesis
          using tree_remove(2) [OF tree d n K(1) l] d n l Some False np new
          by (auto simp: ramfs_remove_node_def ramfs_free_node_def info_def simp del: find_prev.simps)
      qed
    qed
  qed
qed


section \<open>Directory operations\<close>

lemma exec_find_vnode_none:
  "(\<And>v. v \<in> set xs \<Longrightarrow> \<exists>vn. vnodes s v = Some vn \<and> \<not> (v_mount vn = mp \<and> v_ino vn = ino)) \<Longrightarrow> exec (find_vnode mp ino xs) Q s = Q None s"
proof (induction xs)
  case (Cons v xs)
  then obtain vn where "vnodes s v = Some vn" "\<not> (v_mount vn = mp \<and> v_ino vn = ino)" by auto
  then show ?case using Cons by (cases "v_mount vn = mp") simp_all
qed simp

text \<open>A number that no vnode of the mount has gives a new vnode.\<close>

lemma exec_vget_new:
  assumes ok: "refs_ok R {} D V L s" and mp: "mp \<in> dom (mounts s)"
    and fresh: "\<And>v vn. vnodes s v = Some vn \<Longrightarrow> v_mount vn = mp \<Longrightarrow> v_ino vn \<noteq> ino"
  shows "exec (vget ramfs_vget mp ino) (\<lambda>r s'. r = Vget_new (next_ptr s) \<and> fs s' = fs s \<and> files s' = files s \<and> user s' = user s \<and>
    vnodes s' = (vnodes s)(next_ptr s \<mapsto> (new_vnode mp ino)\<lparr>v_nrlocks := 1\<rparr>)) s"
proof -
  obtain me where me: "mounts s mp = Some me" using mp by blast
  have "vtable_ok s" using ok by (simp add: refs_ok_def)
  then have none: "exec (find_vnode mp ino (vnode_table s ! vn_hash mp ino)) Q s = Q None s" for Q
    by (intro exec_find_vnode_none) (use vn_hash_less [of mp ino] fresh in \<open>fastforce simp: vtable_ok_def\<close>)
  show ?thesis by (simp add: vget_def vn_lookup_def none ramfs_vget_def vfs_busy_def me new_vnode_def)
qed

text \<open>The first child with the name.\<close>

definition child :: "(nat \<Rightarrow> nat list) \<Rightarrow> ramfs \<Rightarrow> nat \<Rightarrow> string \<Rightarrow> nat option" where
  "child K r d name = find (\<lambda>c. map_option rn_name (nodes r c) = Some name) (K d)"

lemma exec_lookup:
  assumes ok: "refs_ok R {} D V L s" and tree: "ramfs_tree K (fs s)" and v: "vnodes s v = Some dvn" and d: "nodes (fs s) (v_data dvn) = Some dn"
    and fresh: "\<And>u un. vnodes s u = Some un \<Longrightarrow> v_mount un = v_mount dvn \<Longrightarrow> v_ino un \<noteq> inode_count (fs s)"
    and name: "name \<noteq> []"
  shows "exec (ramfs_lookup v name) (\<lambda>r s'. case child K (fs s) (v_data dvn) name of
      None \<Rightarrow> r = Inl ENOENT \<and> s' = s
    | Some c \<Rightarrow> \<exists>vp vn n. r = Inr vp \<and> vnodes s vp = None \<and> vnodes s' vp = Some vn \<and> (\<forall>u. u \<noteq> vp \<longrightarrow> vnodes s' u = vnodes s u) \<and> nodes (fs s) c = Some n \<and>
        v_data vn = c \<and> v_type vn = rn_type n \<and> v_size vn = rn_size n \<and> v_mount vn = v_mount dvn \<and> v_refcnt vn = 1 \<and> v_nrlocks vn = 1 \<and>
        fs s' = (fs s)\<lparr>inode_count := inode_count (fs s) + 1\<rparr>) s"
proof -
  note chain = ramfs_treeD(1) [OF tree d] and kids = ramfs_tree_kids [OF tree, of "v_data dvn"]
  have found: "find_child (Suc (brk (fs s))) (nodes (fs s)) name (rn_child dn) = Some (child K (fs s) (v_data dvn) name)"
  proof -
    have "\<exists>n. nodes (fs s) x = Some n \<and> node_ok n" if "x \<in> set (K (v_data dvn))" for x
      using subsetD [OF kids(1) that] ramfs_treeD(2) [OF tree, of x] by blast
    moreover have "length (K (v_data dvn)) < Suc (brk (fs s))" using kids(4) by simp
    ultimately show ?thesis unfolding child_def by (rule find_child_chain [OF chain])
  qed
  have mp: "v_mount dvn \<in> dom (mounts s)" by (rule refs_ok_vnodeD(6) [OF ok v])
  show ?thesis
  proof (cases "child K (fs s) (v_data dvn) name")
    case None
    then show ?thesis using found name v d by (simp add: ramfs_lookup_def del: find_child.simps)
  next
    case (Some c)
    then have "c \<in> set (K (v_data dvn))" by (auto simp: child_def find_Some_iff)
    then obtain n where n: "nodes (fs s) c = Some n" using kids(1) by blast
    let ?r = "(fs s)\<lparr>inode_count := inode_count (fs s) + 1\<rparr>"
    have "refs_ok R {} D V L (s\<lparr>fs := ?r\<rparr>)" by (rule refs_ok_frame [OF ok]) simp_all
    then have get: "exec (vget ramfs_vget (v_mount dvn) (inode_count (fs s))) (\<lambda>r s'. r = Vget_new (next_ptr s) \<and> fs s' = ?r \<and>
        files s' = files s \<and> user s' = user s \<and>
        vnodes s' = (vnodes s)(next_ptr s \<mapsto> (new_vnode (v_mount dvn) (inode_count (fs s)))\<lparr>v_nrlocks := 1\<rparr>)) (s\<lparr>fs := ?r\<rparr>)"
      using exec_vget_new [of R D V L "s\<lparr>fs := ?r\<rparr>" "v_mount dvn" "inode_count (fs s)"] mp fresh by simp
    have next_free: "vnodes s (next_ptr s) = None" using ok by (simp add: refs_ok_def)
    show ?thesis
      using found name v d Some n next_free
      by (auto simp: ramfs_lookup_def new_vnode_def simp del: find_child.simps intro!: exec_mono [OF get])
  qed
qed


section \<open>Contents of regular files\<close>

definition content :: "ramfs_node \<Rightarrow> byte list" where
  "content n = take (nat (rn_size n)) (case rn_buf n of None \<Rightarrow> [] | Some b \<Rightarrow> b)"

lemma length_content: "node_ok n \<Longrightarrow> int (length (content n)) = rn_size n"
  by (auto simp: node_ok_def content_def split: option.splits)

lemma size_t_id: "\<lbrakk>0 \<le> x; x < 2 ^ 64\<rbrakk> \<Longrightarrow> size_t x = x"
  by (simp add: size_t_def)

lemma c_int_id: "\<lbrakk>0 \<le> x; x < 2 ^ 31\<rbrakk> \<Longrightarrow> c_int x = x"
  using c_int_small [of "nat x"] by simp

lemma round_page_bounds: "x \<le> round_page x" "round_page x < x + 4096"
  by (simp_all add: round_page_def)

lemma round_page_size:
  assumes "0 \<le> x" "x \<le> 2 ^ 62"
  shows "size_t (round_page x) = round_page x" "x \<le> round_page x"
  using round_page_bounds [of x] assms by (auto intro!: size_t_id)

lemma content_overwrite:
  assumes "take sz b = c" "sz \<le> length b" "off + length bs \<le> length b"
  shows "take (max sz (off + length bs)) (overwrite b off bs) = overwrite (c @ take (off - sz) (drop sz b)) off bs"
proof -
  define e where "e = off + length bs"
  have len: "length (take off b) = off" using assms(3) by simp
  have "take (max sz e) (overwrite b off bs) = take off b @ bs @ take (max sz e - e) (drop e b)"
    using assms(3) by (simp add: overwrite_def e_def len)
  moreover have "take off (c @ take (off - sz) (drop sz b)) = take off b"
    using assms(1,2) take_add [of sz "off - sz" b] by (cases "off \<le> sz") auto
  moreover have "drop e (c @ take (off - sz) (drop sz b)) = take (sz - e) (drop e b)"
    using assms(1,2) by (auto simp: e_def drop_take)
  moreover have "max sz e - e = sz - e" by simp
  ultimately show ?thesis by (simp add: overwrite_def e_def)
qed

text \<open>A buffer that is large enough and begins with the old content.\<close>

lemma grow_buf_ok:
  assumes ok: "node_ok n" and big: "rn_size n \<le> new_size" "0 \<le> new_size"
  obtains b where "grow_buf n (rn_size n) new_size = Some b" "length b = nat new_size" "take (nat (rn_size n)) b = content n"
proof (cases "rn_size n = 0")
  case True
  then show thesis using that [of "replicate (nat new_size) None"] by (simp add: grow_buf_def content_def)
next
  case False
  then obtain b where b: "rn_buf n = Some b" "rn_size n \<le> int (length b)" "0 < rn_size n"
    using ok by (cases "rn_buf n") (auto simp: node_ok_def)
  show thesis
    by (rule that [of "take (nat (rn_size n)) b @ replicate (nat (new_size - rn_size n)) None"])
      (use b big in \<open>auto simp: grow_buf_def content_def nat_diff_distrib min_def\<close>)
qed

text \<open>A vnode of a regular file whose size agrees with its node.\<close>

definition regular_file :: "ramfs vfs \<Rightarrow> nat \<Rightarrow> vnode \<Rightarrow> ramfs_node \<Rightarrow> bool" where
  "regular_file s vp vn n \<longleftrightarrow> vnodes s vp = Some vn \<and> v_type vn = VREG \<and> nodes (fs s) (v_data vn) = Some n \<and> node_ok n \<and> v_size vn = rn_size n"

lemma exec_node_uiomove_write:
  assumes n: "nodes (fs s) np = Some n" "rn_buf n = Some b" and uio: "uio_ok uio" "uio_rw uio = UIO_WRITE" "uio_resid uio < 2 ^ 31"
    and fit: "nat off + nat (uio_resid uio) \<le> length b"
  shows "exec (node_uiomove np off (uio_resid uio) uio) (\<lambda>(e, uio') s'. e = None \<and> uio_resid uio' = 0 \<and>
    uio_offset uio' = uio_offset uio + uio_resid uio \<and>
    s' = s\<lparr>fs := (fs s)\<lparr>nodes := (nodes (fs s))(np \<mapsto> n\<lparr>rn_buf := Some (overwrite b (nat off) (gather (user s) (uio_iov uio)))\<rparr>)\<rparr>\<rparr>) s"
proof -
  have pos: "0 \<le> uio_resid uio" using uio(1) by (simp add: uio_ok_def)
  have all: "take (nat (uio_resid uio)) (gather (user s) (uio_iov uio)) = gather (user s) (uio_iov uio)"
    using uio(1) by (simp add: uio_ok_def)
  obtain uio' where "uiomove b (nat off) (uio_resid uio) uio (user s) =
      Some (overwrite b (nat off) (gather (user s) (uio_iov uio)), uio', user s)"
    "uio_resid uio' = 0" "uio_offset uio' = uio_offset uio + uio_resid uio"
    using uiomove_write_bytes [OF uio(1,2) pos, of "nat off" b "user s"] fit all by auto
  then show ?thesis using n c_int_id [OF pos uio(3)] by (simp add: node_uiomove_def)
qed

text \<open>The part of \<open>ramfs_write\<close> that makes room: afterwards the node is as long as needed and begins with its old content.\<close>

lemma write_room:
  assumes ok: "node_ok n" and e: "0 < e" "e \<le> 2 ^ 62"
  obtains (keep) b where "e \<le> rn_size n" "rn_buf n = Some b" "nat e \<le> length b" "take (nat (rn_size n)) b = content n"
  | (grow) b where "rn_size n < e" "rn_bufsize n < e" "grow_buf n (rn_size n) (size_t (round_page e)) = Some b"
      "length b = nat (round_page e)" "size_t (round_page e) = round_page e" "e \<le> round_page e" "take (nat (rn_size n)) b = content n"
  | (extend) b where "rn_size n < e" "e \<le> rn_bufsize n" "rn_buf n = Some b" "nat e \<le> length b" "take (nat (rn_size n)) b = content n"
proof -
  have page: "size_t (round_page e) = round_page e" "e \<le> round_page e" using round_page_size [of e] e by auto
  consider "e \<le> rn_size n" | "rn_size n < e" "e \<le> rn_bufsize n" | "rn_size n < e" "rn_bufsize n < e" by linarith
  then show thesis
  proof cases
    case 1
    then obtain b where "rn_buf n = Some b" "nat e \<le> length b" using ok e by (cases "rn_buf n") (auto simp: node_ok_def)
    then show thesis using keep [OF 1] by (simp add: content_def)
  next
    case 2
    then obtain b where "rn_buf n = Some b" "nat e \<le> length b" using ok e by (cases "rn_buf n") (auto simp: node_ok_def)
    then show thesis using extend [OF 2] by (simp add: content_def)
  next
    case 3
    have "rn_size n \<le> round_page e" "0 \<le> round_page e" using 3 page e by linarith+
    then obtain b where "grow_buf n (rn_size n) (round_page e) = Some b" "length b = nat (round_page e)" "take (nat (rn_size n)) b = content n"
      by (rule grow_buf_ok [OF ok])
    then show thesis using grow [OF 3] page by simp
  qed
qed

lemma fs_vnodes: "s\<lparr>fs := r, vnodes := v\<rparr> = s\<lparr>vnodes := v, fs := r\<rparr>"
  by simp

lemma exec_write:
  assumes reg: "regular_file s vp vn n" and uio: "uio_ok uio" "uio_rw uio = UIO_WRITE" "uio_resid uio < 2 ^ 31" "0 < uio_resid uio" "0 \<le> uio_offset uio"
    and off: "off = (if ioflag AND IO_APPEND \<noteq> 0 then rn_size n else uio_offset uio)" "off + uio_resid uio \<le> 2 ^ 62"
  shows "exec (ramfs_write vp uio ioflag) (\<lambda>(e, uio') s'. e = None \<and> uio_resid uio' = 0 \<and> uio_offset uio' = off + uio_resid uio \<and>
    (\<exists>n' hole. regular_file s' vp (vn\<lparr>v_size := rn_size n'\<rparr>) n' \<and> length hole = nat off - length (content n) \<and>
      content n' = overwrite (content n @ hole) (nat off) (gather (user s) (uio_iov uio)) \<and>
      s' = s\<lparr>vnodes := (vnodes s)(vp \<mapsto> vn\<lparr>v_size := rn_size n'\<rparr>), fs := (fs s)\<lparr>nodes := (nodes (fs s))(v_data vn \<mapsto> n')\<rparr>\<rparr> \<and>
      rn_next n' = rn_next n \<and> rn_child n' = rn_child n \<and> rn_type n' = rn_type n \<and> rn_name n' = rn_name n)) s"
proof -
  define u where "u = (if ioflag AND IO_APPEND \<noteq> 0 then uio\<lparr>uio_offset := rn_size n\<rparr> else uio)"
  define e where "e = off + uio_resid uio"
  define data where "data = gather (user s) (uio_iov uio)"
  let ?np = "v_data vn"
  let ?st = "\<lambda>n'. s\<lparr>vnodes := (vnodes s)(vp \<mapsto> vn\<lparr>v_size := rn_size n'\<rparr>), fs := (fs s)\<lparr>nodes := (nodes (fs s))(?np \<mapsto> n')\<rparr>\<rparr>"
  let ?Q = "\<lambda>(err, uio') s'. err = None \<and> uio_resid uio' = 0 \<and> uio_offset uio' = e \<and>
    (\<exists>n' hole. regular_file s' vp (vn\<lparr>v_size := rn_size n'\<rparr>) n' \<and> length hole = nat off - length (content n) \<and>
      content n' = overwrite (content n @ hole) (nat off) data \<and> s' = ?st n' \<and>
      rn_next n' = rn_next n \<and> rn_child n' = rn_child n \<and> rn_type n' = rn_type n \<and> rn_name n' = rn_name n)"
  have n: "vnodes s vp = Some vn" "v_type vn = VREG" "nodes (fs s) ?np = Some n" "node_ok n" "v_size vn = rn_size n"
    using reg by (simp_all add: regular_file_def)
  have u: "uio_ok u" "uio_rw u = UIO_WRITE" "uio_resid u = uio_resid uio" "uio_iov u = uio_iov uio" "uio_offset u = off"
    using uio(1,2) off(1) by (simp_all add: u_def uio_ok_def)
  have sz: "0 \<le> rn_size n" "rn_size n \<le> 2 ^ 62" "nat (rn_size n) = length (content n)"
    using n(4) length_content [OF n(4)] by (auto simp: node_ok_def)
  have off0: "0 \<le> off" using off(1) uio(5) sz(1) by (simp split: if_splits)
  have e: "0 < e" "e \<le> 2 ^ 62" "nat e = nat off + length data"
    using off0 off(2) uio(1,4) by (auto simp: e_def data_def uio_ok_def nat_add_distrib)
  have finish: "exec (node_uiomove ?np off (uio_resid u) u) ?Q (?st m)"
    if m: "rn_buf m = Some b" "rn_bufsize m = int (length b)" "rn_size m = max (rn_size n) e" "nat e \<le> length b"
      "take (nat (rn_size n)) b = content n" "rn_size m \<le> int (length b)"
      "rn_next m = rn_next n" "rn_child m = rn_child n" "rn_type m = rn_type n" "rn_name m = rn_name n" "rn_namelen m = rn_namelen n" for m b
  proof -
    let ?n' = "m\<lparr>rn_buf := Some (overwrite b (nat off) data)\<rparr>"
    have fit: "nat off + nat (uio_resid u) \<le> length b" using m(4) e(3) uio(1) by (simp add: u(3) data_def uio_ok_def)
    have len: "length (overwrite b (nat off) data) = length b" using m(4) e(3) by (intro length_overwrite) simp
    have szm: "nat (rn_size m) = max (nat (rn_size n)) (nat off + length data)" unfolding m(3) e(3) [symmetric] using e(1) by (simp add: max_def)
    have ok: "node_ok ?n'" using n(4) m len e by (auto simp: node_ok_def)
    have cont: "content ?n' = overwrite (content n @ take (nat off - nat (rn_size n)) (drop (nat (rn_size n)) b)) (nat off) data"
    proof -
      have "nat (rn_size n) \<le> length b" using m(3,6) by (simp add: nat_le_iff)
      moreover have "nat off + length data \<le> length b" using m(4) e(3) by simp
      moreover have "content ?n' = take (nat (rn_size m)) (overwrite b (nat off) data)" by (simp add: content_def)
      ultimately show ?thesis using content_overwrite [OF m(5), of "nat off" data] by (simp only: szm)
    qed
    have hole: "length (take (nat off - nat (rn_size n)) (drop (nat (rn_size n)) b)) = nat off - length (content n)"
      using m(4) e(3) sz(3) by auto
    let ?P = "\<lambda>(err, uio') s'. err = None \<and> uio_resid uio' = 0 \<and> uio_offset uio' = e \<and> s' = ?st ?n'"
    have run: "exec (node_uiomove ?np off (uio_resid u) u) ?P (?st m)"
      using exec_node_uiomove_write [of "?st m" ?np m b u off] m(1) u fit uio(3) by (simp add: e_def data_def)
    have reg': "regular_file (?st ?n') vp (vn\<lparr>v_size := rn_size ?n'\<rparr>) ?n'" using ok n by (simp add: regular_file_def)
    show ?thesis
    proof (rule exec_mono [OF run])
      fix x s' assume "?P x s'"
      then obtain uio' where x: "x = (None, uio')" "uio_resid uio' = 0" "uio_offset uio' = e" "s' = ?st ?n'" by (cases x) simp
      show "?Q x s'"
        unfolding x(1,4) prod.case
        by (intro conjI exI [of _ ?n'] exI [of _ "take (nat off - nat (rn_size n)) (drop (nat (rn_size n)) b)"] refl x(2,3) reg' hole cont)
          (simp_all add: m)
    qed
  qed
  have same: "?st n = s" using n by (simp add: fun_upd_idem)
  have step: "exec (ramfs_write vp uio ioflag) ?Q s = exec (if rn_size n < e then
                 bnd (if rn_bufsize n < e then
                        (let new_size = size_t (round_page e) in
                         case grow_buf n (rn_size n) new_size of
                           None \<Rightarrow> fail Fs_fault
                         | Some buf \<Rightarrow> ret (n\<lparr>rn_buf := Some buf, rn_bufsize := new_size\<rparr>))
                      else ret n) (\<lambda>n'.
                 bnd (set_node ?np (n'\<lparr>rn_size := e\<rparr>)) (\<lambda>_.
                 set_vnode vp (vn\<lparr>v_size := e\<rparr>)))
               else ret ()) (\<lambda>_. exec (node_uiomove ?np off (uio_resid u) u) ?Q) s"
    using n uio u sz e size_t_id [of "rn_size n"] size_t_id [of e]
    by (simp add: ramfs_write_def Let_def flip: u_def e_def)
  have "exec (ramfs_write vp uio ioflag) ?Q s"
  proof (rule write_room [OF n(4) e(1,2)])
    fix b assume "e \<le> rn_size n" "rn_buf n = Some b" "nat e \<le> length b" "take (nat (rn_size n)) b = content n"
    then show ?thesis unfolding step using finish [of n b] same n(4) by (simp add: max_def node_ok_def)
  next
    fix b assume "rn_size n < e" "e \<le> rn_bufsize n" "rn_buf n = Some b" "nat e \<le> length b" "take (nat (rn_size n)) b = content n"
    then show ?thesis unfolding step using finish [of "n\<lparr>rn_size := e\<rparr>" b] n(4) by (simp add: max_def node_ok_def fs_vnodes)
  next
    fix b assume "rn_size n < e" "rn_bufsize n < e" "grow_buf n (rn_size n) (size_t (round_page e)) = Some b"
      "length b = nat (round_page e)" "size_t (round_page e) = round_page e" "e \<le> round_page e" "take (nat (rn_size n)) b = content n"
    then show ?thesis
      unfolding step using finish [of "n\<lparr>rn_buf := Some b, rn_bufsize := round_page e, rn_size := e\<rparr>" b] e(1) by (simp add: max_def nat_mono fs_vnodes)
  qed
  then show ?thesis by (simp only: e_def data_def)
qed

text \<open>Reading at an offset transfers what the file holds from there on, at most as much as was asked for, and changes only the ranges of the request.\<close>

lemma exec_read:
  assumes reg: "regular_file s vp vn n" and uio: "uio_ok uio" "uio_rw uio = UIO_READ" "iov_disjoint (uio_iov uio)" "uio_resid uio < 2 ^ 31" "0 \<le> uio_offset uio"
  shows "exec (ramfs_read vp fp uio ioflag) (\<lambda>(e, uio') s'. e = None \<and>
    uio_resid uio' = uio_resid uio - int (length (take (nat (uio_resid uio)) (drop (nat (uio_offset uio)) (content n)))) \<and>
    (\<exists>mem'. s' = s\<lparr>user := mem'\<rparr> \<and> (\<forall>x. x \<notin> \<Union> (iov_range ` set (uio_iov uio)) \<longrightarrow> mem' x = user s x) \<and>
      (let got = take (nat (uio_resid uio)) (drop (nat (uio_offset uio)) (content n)) in
       gather mem' (uio_iov uio) = got @ drop (length got) (gather (user s) (uio_iov uio))))) s"
proof -
  define off where "off = nat (uio_offset uio)"
  define got where "got = take (nat (uio_resid uio)) (drop off (content n))"
  have n: "vnodes s vp = Some vn" "v_type vn = VREG" "nodes (fs s) (v_data vn) = Some n" "node_ok n" "v_size vn = rn_size n"
    using reg by (simp_all add: regular_file_def)
  have resid: "0 \<le> uio_resid uio" using uio(1) by (simp add: uio_ok_def)
  have size: "rn_size n = int (length (content n))" using length_content [OF n(4)] by simp
  have off: "uio_offset uio = int off" using uio(5) by (simp add: off_def)
  show ?thesis
  proof (cases "uio_resid uio = 0 \<or> rn_size n \<le> uio_offset uio")
    case True
    then have "got = []" using size off by (auto simp: got_def)
    then show ?thesis
      using True n uio(5) by (auto simp: ramfs_read_def got_def off_def Let_def intro!: exI [of _ "user s"])
  next
    case False
    define k where "k = (if rn_size n - uio_offset uio < uio_resid uio then rn_size n - uio_offset uio else uio_resid uio)"
    have k: "0 \<le> k" "k \<le> uio_resid uio" "k < 2 ^ 31" "min k (uio_resid uio) = k" "off + nat k \<le> length (content n)" "nat k = length got"
      using False resid uio(4) size off by (auto simp: k_def got_def)
    obtain b where b: "rn_buf n = Some b" using False n(4) off by (cases "rn_buf n") (auto simp: node_ok_def)
    have cont: "content n = take (nat (rn_size n)) b" by (simp add: content_def b)
    have fit: "off + nat (min k (uio_resid uio)) \<le> length b" using k(4,5) by (simp add: cont)
    have "off + nat k \<le> nat (rn_size n)" using k(5) by (simp add: cont)
    then have "nat k \<le> nat (rn_size n) - off" by linarith
    then have "take (nat k) (drop off b) = take (nat k) (drop off (content n))" by (simp add: cont drop_take)
    also have "\<dots> = got" unfolding k(6) got_def by (cases "nat (uio_resid uio) \<le> length (drop off (content n))") simp_all
    finally have bytes: "take (nat k) (drop off b) = got" .
    obtain uio' mem' where move: "uiomove b off k uio (user s) = Some (b, uio', mem')"
      "gather mem' (uio_iov uio) = got @ drop (length got) (gather (user s) (uio_iov uio))"
      "\<forall>x. x \<notin> \<Union> (iov_range ` set (uio_iov uio)) \<longrightarrow> mem' x = user s x" "uio_resid uio' = uio_resid uio - k"
      using uiomove_read_bytes [OF uio(1,2,3) k(1) fit, of "user s"] k(4,6) bytes by auto
    have "exec (ramfs_read vp fp uio ioflag) Q s = exec (node_uiomove (v_data vn) (uio_offset uio) k uio) Q s" for Q
      using False n uio(5) by (simp add: ramfs_read_def k_def)
    moreover have "exec (node_uiomove (v_data vn) (uio_offset uio) k uio) Q s = Q (None, uio') (s\<lparr>user := mem'\<rparr>)" for Q
      using n(3) b move(1) c_int_id [OF k(1,3)] by (simp add: node_uiomove_def off_def fun_upd_idem)
    moreover have "uio_resid uio' = uio_resid uio - int (length got)" using move(4) k(1,6) by simp
    ultimately show ?thesis
      unfolding off_def [symmetric] got_def [symmetric] Let_def using move(2,3) by (simp only: prod.case) blast
  qed
qed

lemma take_hole:
  assumes "take k b = c" "k \<le> length b" "m \<le> length b"
  shows "take m b = take m (c @ take (m - length c) (drop (length c) b))" "length (take (m - length c) (drop (length c) b)) = m - length c"
proof -
  have k: "length c = k" using assms(1,2) by auto
  show "take m b = take m (c @ take (m - length c) (drop (length c) b))"
    using assms take_add [of k "m - k" b] by (cases "m \<le> k") (auto simp: k min_def)
  show "length (take (m - length c) (drop (length c) b)) = m - length c" using assms by simp
qed

text \<open>Truncation keeps the common prefix; what lies behind the old end is whatever the buffer held there.\<close>

lemma exec_truncate:
  assumes reg: "regular_file s vp vn n" and len: "0 \<le> len" "len \<le> 2 ^ 62"
  shows "exec (ramfs_truncate vp len) (\<lambda>e s'. e = None \<and> (\<exists>n' hole. regular_file s' vp (vn\<lparr>v_size := len\<rparr>) n' \<and> rn_size n' = len \<and>
    content n' = take (nat len) (content n @ hole) \<and> length hole = nat len - length (content n) \<and>
    (0 < len \<and> len \<le> rn_bufsize n \<longrightarrow> rn_buf n' = rn_buf n \<and> rn_bufsize n' = rn_bufsize n))) s"
proof -
  have n: "vnodes s vp = Some vn" "v_type vn = VREG" "nodes (fs s) (v_data vn) = Some n" "node_ok n" "v_size vn = rn_size n"
    using reg by (simp_all add: regular_file_def)
  have sz: "nat (rn_size n) = length (content n)" "0 \<le> rn_size n" using length_content [OF n(4)] n(4) by (auto simp: node_ok_def)
  have size: "size_t len = len" using len by (intro size_t_id) auto
  have finish: "exec (bnd (set_node (v_data vn) (m\<lparr>rn_size := size_t len\<rparr>)) (\<lambda>_. bnd (set_vnode vp (vn\<lparr>v_size := len\<rparr>)) (\<lambda>_. ret None)))
      (\<lambda>e s'. e = None \<and> (\<exists>n' hole. regular_file s' vp (vn\<lparr>v_size := len\<rparr>) n' \<and> rn_size n' = len \<and>
        content n' = take (nat len) (content n @ hole) \<and> length hole = nat len - length (content n) \<and>
        (0 < len \<and> len \<le> rn_bufsize n \<longrightarrow> rn_buf n' = rn_buf n \<and> rn_bufsize n' = rn_bufsize n))) s"
    if m: "node_ok (m\<lparr>rn_size := len\<rparr>)" "content (m\<lparr>rn_size := len\<rparr>) = take (nat len) (content n @ hole)" "length hole = nat len - length (content n)"
      "0 < len \<and> len \<le> rn_bufsize n \<longrightarrow> m = n" for m hole
    using m n by (auto simp: regular_file_def size intro!: exI [of _ "m\<lparr>rn_size := len\<rparr>"] exI [of _ hole])
  consider "len = 0" | "0 < len" "rn_bufsize n < len" | "0 < len" "len \<le> rn_bufsize n" using len by linarith
  then show ?thesis
  proof cases
    case 1
    have "exec (ramfs_truncate vp len) Q s = exec (bnd (set_node (v_data vn) ((if rn_buf n \<noteq> None then n\<lparr>rn_buf := None, rn_bufsize := 0\<rparr> else n)
        \<lparr>rn_size := size_t len\<rparr>)) (\<lambda>_. bnd (set_vnode vp (vn\<lparr>v_size := len\<rparr>)) (\<lambda>_. ret None))) Q s" for Q
      using 1 n by (simp add: ramfs_truncate_def)
    then show ?thesis
      using finish [of "if rn_buf n \<noteq> None then n\<lparr>rn_buf := None, rn_bufsize := 0\<rparr> else n" "[]"] 1 n(4) by (simp add: node_ok_def content_def)
  next
    case 2
    have page: "size_t (round_page len) = round_page len" "len \<le> round_page len" using round_page_size [of len] len by auto
    have "rn_size n \<le> round_page len" "0 \<le> round_page len" using 2 page n(4) by (auto simp: node_ok_def)
    then obtain b where b: "grow_buf n (rn_size n) (round_page len) = Some b" "length b = nat (round_page len)" "take (nat (rn_size n)) b = content n"
      by (rule grow_buf_ok [OF n(4)])
    let ?m = "n\<lparr>rn_buf := Some b, rn_bufsize := round_page len\<rparr>"
    have small: "rn_size n \<le> len" using 2 n(4) by (simp add: node_ok_def)
    have "nat len \<le> length b" "nat (rn_size n) \<le> length b" using b(2) page(2) small by simp_all
    note hole = take_hole [OF b(3) this(2,1)]
    have "exec (ramfs_truncate vp len) Q s = exec (bnd (set_node (v_data vn) (?m\<lparr>rn_size := size_t len\<rparr>)) (\<lambda>_. bnd (set_vnode vp (vn\<lparr>v_size := len\<rparr>)) (\<lambda>_. ret None))) Q s" for Q
      using 2 n b(1) page by (simp add: ramfs_truncate_def size Let_def)
    moreover have "node_ok (?m\<lparr>rn_size := len\<rparr>)" using n(4) 2 b(2) page len by (simp add: node_ok_def)
    moreover have "content (?m\<lparr>rn_size := len\<rparr>) = take (nat len) b" by (simp add: content_def)
    ultimately show ?thesis using finish [OF _ _ hole(2), of ?m] hole(1) 2 by simp
  next
    case 3
    then obtain b where b: "rn_buf n = Some b" "rn_bufsize n = int (length b)" using n(4) by (cases "rn_buf n") (auto simp: node_ok_def)
    have c: "take (nat (rn_size n)) b = content n" by (simp add: content_def b)
    have "nat len \<le> length b" "nat (rn_size n) \<le> length b" using b(2) 3 n(4) by (simp_all add: node_ok_def nat_le_iff)
    note hole = take_hole [OF c this(2,1)]
    have "exec (ramfs_truncate vp len) Q s = exec (bnd (set_node (v_data vn) (n\<lparr>rn_size := size_t len\<rparr>)) (\<lambda>_. bnd (set_vnode vp (vn\<lparr>v_size := len\<rparr>)) (\<lambda>_. ret None))) Q s" for Q
      using 3 n by (simp add: ramfs_truncate_def size)
    moreover have "node_ok (n\<lparr>rn_size := len\<rparr>)" using n(4) 3 len by (simp add: node_ok_def)
    moreover have "content (n\<lparr>rn_size := len\<rparr>) = take (nat len) b" by (simp add: content_def b)
    ultimately show ?thesis using finish [OF _ _ hole(2), of n] hole(1) by simp
  qed
qed

lemma exec_vn_lock:
  "\<lbrakk>vnodes s v = Some vn; 0 < v_refcnt vn\<rbrakk> \<Longrightarrow> exec (vn_lock v) Q s = Q () (s\<lparr>vnodes := (vnodes s)(v \<mapsto> vn\<lparr>v_nrlocks := Suc (v_nrlocks vn)\<rparr>)\<rparr>)"
  by (simp add: vn_lock_def)

lemma exec_vn_unlock:
  "\<lbrakk>vnodes s v = Some vn; 0 < v_refcnt vn; 0 < v_nrlocks vn\<rbrakk> \<Longrightarrow>
    exec (vn_unlock v) Q s = Q () (s\<lparr>vnodes := (vnodes s)(v \<mapsto> vn\<lparr>v_nrlocks := v_nrlocks vn - 1\<rparr>)\<rparr>)"
  by (simp add: vn_unlock_def)

lemma iov_bytes_total:
  "\<lbrakk>iov_bytes k iovs = Some m; 0 \<le> k\<rbrakk> \<Longrightarrow> m = k + int (iov_total iovs) \<and> (\<forall>i\<in>set iovs. iov_len i < 2 ^ 31) \<and> (m = k \<or> m < 2 ^ 31)"
proof (induction iovs arbitrary: k)
  case (Cons i "is")
  then have i: "int (iov_len i) \<le> 2 ^ 31 - 1 - k" "iov_bytes (k + int (iov_len i)) is = Some m" by (auto simp: IOSIZE_MAX_def split: if_splits)
  then have m: "m = k + int (iov_len i) + int (iov_total is)" "\<forall>i\<in>set is. iov_len i < 2 ^ 31" "m = k + int (iov_len i) \<or> m < 2 ^ 31"
    using Cons.IH [OF i(2)] Cons.prems(2) by auto
  have "m < 2 ^ 31" "int (iov_len i) < 2 ^ 31" using m(3) i(1) Cons.prems(2) by auto
  then show ?case using m(1,2) by (simp add: iov_total_def)
qed (simp add: iov_total_def)

text \<open>An open regular file: its description, entry, vnode and node.\<close>

definition open_regular :: "ramfs vfs \<Rightarrow> nat \<Rightarrow> file_obj \<Rightarrow> nat \<Rightarrow> vnode \<Rightarrow> ramfs_node \<Rightarrow> bool" where
  "open_regular s fp f vp vn n \<longleftrightarrow> files s fp = Some f \<and> f_type f = DTYPE_VNODE \<and>
     (\<exists>dp de. f_dentry f = Some dp \<and> dentries s dp = Some de \<and> d_vnode de = vp) \<and> regular_file s vp vn n \<and> 0 < v_refcnt vn"

lemma exec_pwrite:
  assumes reg: "open_regular s fp f vp vn n" and flags: "f_flags f AND FWRITE \<noteq> 0" "f_flags f AND O_APPEND = 0"
    and iov: "iov_bytes 0 iov = Some len" "0 < len" and off: "0 \<le> off" "off + len \<le> 2 ^ 62"
  shows "exec (sys_write ramfs_ops fp iov off) (\<lambda>(e, count) s'. e = None \<and> count = len \<and> user s' = user s \<and>
    (\<exists>n' hole. open_regular s' fp f vp (vn\<lparr>v_size := rn_size n'\<rparr>) n' \<and> length hole = nat off - length (content n) \<and>
      content n' = overwrite (content n @ hole) (nat off) (gather (user s) iov))) s"
proof -
  obtain dp de where f: "files s fp = Some f" "f_type f = DTYPE_VNODE" "f_dentry f = Some dp" "dentries s dp = Some de" "d_vnode de = vp"
      "regular_file s vp vn n" "0 < v_refcnt vn"
    using reg by (auto simp: open_regular_def)
  let ?uio = "\<lparr>uio_iov = iov, uio_offset = off, uio_resid = len, uio_rw = UIO_WRITE\<rparr>"
  let ?vn = "vn\<lparr>v_nrlocks := Suc (v_nrlocks vn)\<rparr>" and ?s = "s\<lparr>vnodes := (vnodes s)(vp \<mapsto> vn\<lparr>v_nrlocks := Suc (v_nrlocks vn)\<rparr>)\<rparr>"
  have len: "len = int (iov_total iov)" "len < 2 ^ 31" "uio_ok ?uio" using iov_bytes_total [OF iov(1)] iov(2) by (auto simp: uio_ok_def)
  have reg1: "regular_file ?s vp ?vn n" and vp: "vnodes s vp = Some vn" using f by (auto simp: regular_file_def)
  define fl where "fl = (0 :: u32) OR (if f_flags f AND (O_DSYNC OR O_SYNC) \<noteq> 0 then IO_SYNC else 0)"
  have fl: "fl AND IO_APPEND = 0" by (simp add: fl_def IO_APPEND_def IO_SYNC_def)
  have step: "exec (sys_write ramfs_ops fp iov off) Q s = exec (ramfs_write vp ?uio fl)
      (\<lambda>(e, uio'). exec (vn_unlock vp) (\<lambda>_. Q (e, len - uio_resid uio'))) ?s" for Q
    using f flags iov off(1) vp
    by (simp add: sys_write_def vfs_file_write_def ramfs_ops_def ramfs_vnops_def FOF_OFFSET_def exec_vn_lock fl_def split_def)
  let ?st = "\<lambda>n'. s\<lparr>vnodes := (vnodes s)(vp \<mapsto> ?vn\<lparr>v_size := rn_size n'\<rparr>), fs := (fs s)\<lparr>nodes := (nodes (fs s))(v_data vn \<mapsto> n')\<rparr>\<rparr>"
  let ?P = "\<lambda>(e, uio') s'. e = None \<and> uio_resid uio' = 0 \<and> uio_offset uio' = off + len \<and>
      (\<exists>n' hole. regular_file s' vp (?vn\<lparr>v_size := rn_size n'\<rparr>) n' \<and> length hole = nat off - length (content n) \<and>
        content n' = overwrite (content n @ hole) (nat off) (gather (user s) iov) \<and> s' = ?st n' \<and>
        rn_next n' = rn_next n \<and> rn_child n' = rn_child n \<and> rn_type n' = rn_type n \<and> rn_name n' = rn_name n)"
  have run: "exec (ramfs_write vp ?uio fl) ?P ?s"
    using exec_write [OF reg1, of ?uio off fl] len iov(2) off fl by simp
  show ?thesis
    unfolding step
  proof (rule exec_mono [OF run])
    fix x s' assume "?P x s'"
    then obtain uio' n' hole where x: "x = (None, uio')" "uio_resid uio' = 0" and n': "regular_file s' vp (?vn\<lparr>v_size := rn_size n'\<rparr>) n'"
      and hole: "length hole = nat off - length (content n)" "content n' = overwrite (content n @ hole) (nat off) (gather (user s) iov)"
      and s': "s' = ?st n'" by (cases x) auto
    have "open_regular (s\<lparr>vnodes := (vnodes s)(vp \<mapsto> vn\<lparr>v_size := rn_size n'\<rparr>), fs := (fs s)\<lparr>nodes := (nodes (fs s))(v_data vn \<mapsto> n')\<rparr>\<rparr>)
        fp f vp (vn\<lparr>v_size := rn_size n'\<rparr>) n'"
      using f n' by (simp add: open_regular_def regular_file_def s')
    then show "(case x of (e, uio') \<Rightarrow> exec (vn_unlock vp) (\<lambda>_. (\<lambda>(e, count) s'. e = None \<and> count = len \<and> user s' = user s \<and>
        (\<exists>n' hole. open_regular s' fp f vp (vn\<lparr>v_size := rn_size n'\<rparr>) n' \<and> length hole = nat off - length (content n) \<and>
          content n' = overwrite (content n @ hole) (nat off) (gather (user s) iov))) (e, len - uio_resid uio'))) s'"
      using hole f(7) by (auto simp: x s' exec_vn_unlock fs_vnodes intro!: exI [of _ n'] exI [of _ hole])
  qed
qed

lemma exec_pread:
  assumes reg: "open_regular s fp f vp vn n" and flags: "f_flags f AND FREAD \<noteq> 0"
    and iov: "iov_bytes 0 iov = Some len" "0 < len" "iov_disjoint iov" and off: "0 \<le> off"
    and got: "got = take (nat len) (drop (nat off) (content n))"
  shows "exec (sys_read ramfs_ops fp iov off) (\<lambda>(e, count) s'. e = None \<and> count = int (length got) \<and>
    (\<exists>mem'. s' = s\<lparr>user := mem'\<rparr> \<and> (\<forall>x. x \<notin> \<Union> (iov_range ` set iov) \<longrightarrow> mem' x = user s x) \<and>
      gather mem' iov = got @ drop (length got) (gather (user s) iov))) s"
proof -
  obtain dp de where f: "files s fp = Some f" "f_type f = DTYPE_VNODE" "f_dentry f = Some dp" "dentries s dp = Some de" "d_vnode de = vp"
      "regular_file s vp vn n" "0 < v_refcnt vn"
    using reg by (auto simp: open_regular_def)
  let ?uio = "\<lparr>uio_iov = iov, uio_offset = off, uio_resid = len, uio_rw = UIO_READ\<rparr>"
  let ?vn = "vn\<lparr>v_nrlocks := Suc (v_nrlocks vn)\<rparr>" and ?s = "s\<lparr>vnodes := (vnodes s)(vp \<mapsto> vn\<lparr>v_nrlocks := Suc (v_nrlocks vn)\<rparr>)\<rparr>"
  let ?M = "\<lambda>mem'. (\<forall>x. x \<notin> \<Union> (iov_range ` set iov) \<longrightarrow> mem' x = user s x) \<and> gather mem' iov = got @ drop (length got) (gather (user s) iov)"
  have len: "len = int (iov_total iov)" "len < 2 ^ 31" "uio_ok ?uio" using iov_bytes_total [OF iov(1)] iov(2) by (auto simp: uio_ok_def)
  have reg1: "regular_file ?s vp ?vn n" and vp: "vnodes s vp = Some vn" using f by (auto simp: regular_file_def)
  have step: "exec (sys_read ramfs_ops fp iov off) Q s = exec (ramfs_read vp fp ?uio 0)
      (\<lambda>(e, uio'). exec (vn_unlock vp) (\<lambda>_. Q (e, len - uio_resid uio'))) ?s" for Q
    using f flags iov off(1) vp
    by (simp add: sys_read_def vfs_file_read_def ramfs_ops_def ramfs_vnops_def FOF_OFFSET_def exec_vn_lock split_def)
  let ?P = "\<lambda>(e, uio') s'. e = None \<and> uio_resid uio' = len - int (length got) \<and> (\<exists>mem'. s' = ?s\<lparr>user := mem'\<rparr> \<and> ?M mem')"
  have run: "exec (ramfs_read vp fp ?uio 0) ?P ?s"
    using exec_read [OF reg1, of ?uio fp 0] len iov(3) off by (simp add: got Let_def)
  show ?thesis
    unfolding step
  proof (rule exec_mono [OF run])
    fix x s' assume "?P x s'"
    then obtain uio' mem' where x: "x = (None, uio')" "uio_resid uio' = len - int (length got)" "s' = ?s\<lparr>user := mem'\<rparr>" and mem': "?M mem'"
      by (cases x) auto
    have same: "s\<lparr>user := mem', vnodes := (vnodes s)(vp \<mapsto> vn)\<rparr> = s\<lparr>user := mem'\<rparr>" using vp by (simp add: fun_upd_idem)
    have "exec (vn_unlock vp) Q s' = Q () (s\<lparr>user := mem'\<rparr>)" for Q
      using f(7) same by (simp add: x(3) exec_vn_unlock)
    then show "(case x of (e, uio') \<Rightarrow> exec (vn_unlock vp) (\<lambda>_. (\<lambda>(e, count) s'. e = None \<and> count = int (length got) \<and>
        (\<exists>mem'. s' = s\<lparr>user := mem'\<rparr> \<and> ?M mem')) (e, len - uio_resid uio'))) s'"
      using mem' by (auto simp: x(1,2))
  qed
qed

section \<open>Properties\<close>

text \<open>The file system of \<open>demo\<close> with an empty regular file ``a'', and that file opened for reading and writing.\<close>

definition demo_fs :: ramfs where
  "demo_fs = \<lparr>nodes = [1 \<mapsto> demo_root_node\<lparr>rn_child := Some 2\<rparr>, 2 \<mapsto> fresh_node ''a'' VREG], brk = 3, inode_count = 1\<rparr>"

definition demo_kids :: "nat \<Rightarrow> nat list" where
  "demo_kids d = (if d = 1 then [2] else [])"

definition demo_file :: "ramfs vfs" where
  "demo_file = demo\<lparr>fs := demo_fs,
     vnodes := (vnodes demo)(5 \<mapsto> \<lparr>v_ino = 9, v_mount = 1, v_refcnt = 1, v_type = VREG, v_flags = 0, v_mode = 0xFFF, v_size = 0,
       v_names = [6], v_nrlocks = 0, v_data = 2\<rparr>),
     dentries := (dentries demo)(6 \<mapsto> \<lparr>d_refcnt = 1, d_path = ''/a'', d_vnode = 5, d_mount = 1, d_parent = Some 3, d_children = []\<rparr>),
     files := [7 \<mapsto> \<lparr>f_flags = 3, f_count = 1, f_offset = 0, f_dentry = Some 6, f_type = DTYPE_VNODE\<rparr>], user := (\<lambda>x. Some (of_nat x))\<rparr>"

lemma demo_fs_tree: "ramfs_tree demo_kids demo_fs"
  by (auto simp: ramfs_tree_def demo_kids_def demo_fs_def nexts_def demo_root_node_def fresh_node_def node_ok_def split: if_splits)

lemma demo_open: "open_regular demo_file 7 \<lparr>f_flags = 3, f_count = 1, f_offset = 0, f_dentry = Some 6, f_type = DTYPE_VNODE\<rparr> 5
    \<lparr>v_ino = 9, v_mount = 1, v_refcnt = 1, v_type = VREG, v_flags = 0, v_mode = 0xFFF, v_size = 0, v_names = [6], v_nrlocks = 0, v_data = 2\<rparr>
    (fresh_node ''a'' VREG)"
  by (simp add: open_regular_def regular_file_def demo_file_def demo_fs_def node_ok_def fresh_node_def)

text \<open>C7: What is written to a regular file of the RAM file system is read back: a positional write to an open file succeeds with all
  its bytes, and a positional read of the same number of bytes at the same offset then returns exactly these bytes, in whatever way the
  memory of the two requests is scattered, and changes no other memory.\<close>

theorem pwrite_pread:
  assumes "open_regular s fp f vp vn n" and "f_flags f AND FWRITE \<noteq> 0" "f_flags f AND FREAD \<noteq> 0" "f_flags f AND O_APPEND = 0"
    and "iov_bytes 0 iov = Some len" "iov_bytes 0 iov' = Some len" "0 < len" "iov_disjoint iov'" and "0 \<le> off" "off + len \<le> 2 ^ 62"
  shows "exec (sys_write ramfs_ops fp iov off) (\<lambda>w s1. w = (None, len) \<and>
    exec (sys_read ramfs_ops fp iov' off) (\<lambda>r s2. r = (None, len) \<and> gather (user s2) iov' = gather (user s) iov \<and>
      (\<forall>x. x \<notin> \<Union> (iov_range ` set iov') \<longrightarrow> user s2 x = user s x)) s1) s"
proof (rule exec_mono [OF exec_pwrite [OF assms(1,2,4,5,7,9,10)]], clarify, intro conjI)
  fix count s1 n' hole
  assume reg: "open_regular s1 fp f vp (vn\<lparr>v_size := rn_size n'\<rparr>) n'" and user: "user s1 = user s" and hole: "length hole = nat off - length (content n)"
    "content n' = overwrite (content n @ hole) (nat off) (gather (user s) iov)"
  have len: "nat len = iov_total iov" "iov_total iov' = iov_total iov" using iov_bytes_total [OF assms(5)] iov_bytes_total [OF assms(6)] by auto
  have "nat off \<le> length (content n @ hole)" using hole(1) by auto
  then have got: "gather (user s) iov = take (nat len) (drop (nat off) (content n'))" using hole(2) len(1) by (simp add: overwrite_def)
  show "exec (sys_read ramfs_ops fp iov' off) (\<lambda>r s2. r = (None, len) \<and> gather (user s2) iov' = gather (user s) iov \<and>
      (\<forall>x. x \<notin> \<Union> (iov_range ` set iov') \<longrightarrow> user s2 x = user s x)) s1"
    by (rule exec_mono [OF exec_pread [OF reg assms(3,6,7,8,9) got]]) (use len user assms(7) in auto)
qed simp_all


theorem pwrite_pread_witness:
  "exec (sys_write ramfs_ops 7 [\<lparr>iov_base = 100, iov_len = 2\<rparr>, \<lparr>iov_base = 10, iov_len = 1\<rparr>] 4) (\<lambda>w s1. w = (None, 3) \<and>
    exec (sys_read ramfs_ops 7 [\<lparr>iov_base = 200, iov_len = 3\<rparr>] 4) (\<lambda>r s2. r = (None, 3) \<and>
      gather (user s2) [\<lparr>iov_base = 200, iov_len = 3\<rparr>] = [Some 100, Some 101, Some 10]) s1) demo_file"
proof -
  have data: "gather (user demo_file) [\<lparr>iov_base = 100, iov_len = 2\<rparr>, \<lparr>iov_base = 10, iov_len = 1\<rparr>] = [Some 100, Some 101, Some 10]"
    by (simp add: gather_def mem_read_def demo_file_def numeral_eq_Suc)
  show ?thesis
    using pwrite_pread [OF demo_open, of "[\<lparr>iov_base = 100, iov_len = 2\<rparr>, \<lparr>iov_base = 10, iov_len = 1\<rparr>]" 3 "[\<lparr>iov_base = 200, iov_len = 3\<rparr>]" 4] data
    by (auto simp: FWRITE_def FREAD_def O_APPEND_def IOSIZE_MAX_def elim!: exec_mono)
qed


text \<open>C37: Truncating a file to a shorter length that is not zero and back to its old length brings its old bytes back, where \<^verbatim>\<open>ftruncate\<close> is to
  fill the grown part with zeros: \<open>ramfs_truncate\<close> only moves the end of the file inside the buffer.\<close>

theorem truncate_regrow:
  assumes reg: "regular_file s vp vn n" and k: "0 < k" "k \<le> rn_size n"
  shows "exec (ramfs_truncate vp k) (\<lambda>e s1. e = None \<and> exec (ramfs_truncate vp (rn_size n)) (\<lambda>e s2. e = None \<and>
    (\<exists>n'. nodes (fs s2) (v_data vn) = Some n' \<and> content n' = content n)) s1) s"
proof -
  have ok: "node_ok n" using reg by (simp add: regular_file_def)
  have len: "0 \<le> k" "k \<le> 2 ^ 62" "k \<le> rn_bufsize n" "0 \<le> rn_size n" "rn_size n \<le> 2 ^ 62" "rn_size n \<le> rn_bufsize n" "0 < rn_size n"
    using ok k by (auto simp: node_ok_def)
  show ?thesis
  proof (rule exec_mono [OF exec_truncate [OF reg len(1,2)]], elim conjE exE, intro conjI)
    fix e s1 n1 hole
    assume n1: "regular_file s1 vp (vn\<lparr>v_size := k\<rparr>) n1" "0 < k \<and> k \<le> rn_bufsize n \<longrightarrow> rn_buf n1 = rn_buf n \<and> rn_bufsize n1 = rn_bufsize n"
    show "exec (ramfs_truncate vp (rn_size n)) (\<lambda>e s2. e = None \<and> (\<exists>n'. nodes (fs s2) (v_data vn) = Some n' \<and> content n' = content n)) s1"
    proof (rule exec_mono [OF exec_truncate [OF n1(1) len(4,5)]], elim conjE exE, intro conjI)
      fix e s2 n2 hole
      assume n2: "regular_file s2 vp (vn\<lparr>v_size := k, v_size := rn_size n\<rparr>) n2" "rn_size n2 = rn_size n"
        "0 < rn_size n \<and> rn_size n \<le> rn_bufsize n1 \<longrightarrow> rn_buf n2 = rn_buf n1 \<and> rn_bufsize n2 = rn_bufsize n1"
      have "rn_buf n2 = rn_buf n" using n2(3) n1(2) k(1) len by simp
      then have "content n2 = content n" using n2(2) by (simp add: content_def)
      moreover have "nodes (fs s2) (v_data vn) = Some n2" using n2(1) by (simp add: regular_file_def)
      ultimately show "\<exists>n'. nodes (fs s2) (v_data vn) = Some n' \<and> content n' = content n" by blast
    qed
  qed
qed

definition demo_node :: ramfs_node where
  "demo_node = (fresh_node ''a'' VREG)\<lparr>rn_size := 3, rn_buf := Some [Some 7, Some 8, Some 9, None], rn_bufsize := 4\<rparr>"

definition demo_vnode :: vnode where
  "demo_vnode = \<lparr>v_ino = 9, v_mount = 1, v_refcnt = 1, v_type = VREG, v_flags = 0, v_mode = 0xFFF, v_size = 3, v_names = [6], v_nrlocks = 0, v_data = 2\<rparr>"

definition demo_long :: "ramfs vfs" where
  "demo_long = demo_file\<lparr>fs := demo_fs\<lparr>nodes := (nodes demo_fs)(2 \<mapsto> demo_node)\<rparr>, vnodes := (vnodes demo_file)(5 \<mapsto> demo_vnode)\<rparr>"

theorem truncate_regrow_witness:
  "exec (ramfs_truncate 5 1) (\<lambda>e s1. e = None \<and> exec (ramfs_truncate 5 3) (\<lambda>e s2. e = None \<and>
    (\<exists>n'. nodes (fs s2) 2 = Some n' \<and> content n' = [Some 7, Some 8, Some 9])) s1) demo_long"
proof -
  have "regular_file demo_long 5 demo_vnode demo_node"
    by (simp add: regular_file_def demo_long_def demo_vnode_def demo_node_def node_ok_def fresh_node_def)
  moreover have "rn_size demo_node = 3" "v_data demo_vnode = 2" "content demo_node = [Some 7, Some 8, Some 9]"
    by (simp_all add: demo_node_def demo_vnode_def content_def)
  ultimately show ?thesis using truncate_regrow [of demo_long 5 demo_vnode demo_node 1] by simp
qed


section \<open>Directories as finite maps\<close>

text \<open>The names in each directory are different: \<open>sys_open\<close>, \<open>sys_mkdir\<close> and \<open>sys_mknod\<close> look a name up before they create it.\<close>

definition name_of :: "ramfs \<Rightarrow> nat \<Rightarrow> string option" where
  "name_of r c = map_option rn_name (nodes r c)"

definition ramfs_ok :: "(nat \<Rightarrow> nat list) \<Rightarrow> ramfs \<Rightarrow> bool" where
  "ramfs_ok K r \<longleftrightarrow> ramfs_tree K r \<and> (\<forall>d. distinct (map (name_of r) (K d)))"

lemma find_map_cong: "(\<And>x. x \<in> set xs \<Longrightarrow> f x = g x) \<Longrightarrow> find (\<lambda>x. f x = y) xs = find (\<lambda>x. g x = y) xs"
  by (induction xs) auto

lemma find_append: "find P (xs @ ys) = (case find P xs of None \<Rightarrow> find P ys | Some x \<Rightarrow> Some x)"
  by (induction xs) auto

lemma child_name_of: "child K r d name = find (\<lambda>c. name_of r c = Some name) (K d)"
  by (simp add: child_def name_of_def)

lemma name_of_info: "info (nodes r' p) = info (nodes r p) \<Longrightarrow> name_of r' p = name_of r p"
  by (cases "nodes r p"; cases "nodes r' p") (auto simp: info_def name_of_def)

lemma find_remove1:
  "distinct (map f xs) \<Longrightarrow> c \<in> set xs \<Longrightarrow> find (\<lambda>x. f x = y) (remove1 c xs) = (if y = f c then None else find (\<lambda>x. f x = y) xs)"
proof (induction xs)
  case (Cons x xs)
  show ?case
  proof (cases "x = c")
    case True
    have "find (\<lambda>x. f x = f c) xs = None" using Cons.prems(1) True by (auto simp: find_None_iff image_def)
    then show ?thesis using True by auto
  next
    case False
    then have "f x \<noteq> f c" using Cons.prems by auto
    then show ?thesis using Cons False by auto
  qed
qed simp

text \<open>Adding a node with a name that the directory does not have.\<close>

lemma ramfs_ok_add:
  assumes ok: "ramfs_ok K r" and tree: "ramfs_tree (K(d := K d @ [np])) r'" and new: "np = brk r" "nodes r' np = Some (fresh_node name type)"
    and same: "\<forall>p. p \<noteq> np \<longrightarrow> info (nodes r' p) = info (nodes r p)" and none: "child K r d name = None"
  shows "ramfs_ok (K(d := K d @ [np])) r'" "child (K(d := K d @ [np])) r' = (child K r)(d := (child K r d)(name \<mapsto> np))"
proof -
  have t: "ramfs_tree K r" using ok by (simp add: ramfs_ok_def)
  have notin: "np \<notin> set (K e)" for e
  proof
    assume "np \<in> set (K e)"
    then obtain n where "nodes r np = Some n" using ramfs_tree_kids(1) [OF t, of e] by blast
    then show False using ramfs_treeD(3) [OF t] new(1) by blast
  qed
  have names: "name_of r' c = name_of r c" if "c \<in> set (K e)" for c e
    using that notin [of e] same by (intro name_of_info) auto
  have np: "name_of r' np = Some name" using new(2) by (simp add: name_of_def fresh_node_def)
  have "Some name \<notin> name_of r ` set (K d)" using none by (auto simp: child_name_of find_None_iff)
  then have "distinct (map (name_of r') ((K(d := K d @ [np])) e))" for e
    using ok names np by (auto simp: ramfs_ok_def cong: map_cong)
  then show "ramfs_ok (K(d := K d @ [np])) r'" using tree by (simp add: ramfs_ok_def)
  have old: "find (\<lambda>c. name_of r' c = Some y) (K e) = child K r e y" for e y
    unfolding child_name_of by (rule find_map_cong) (rule names)
  show "child (K(d := K d @ [np])) r' = (child K r)(d := (child K r d)(name \<mapsto> np))"
  proof (rule ext, rule ext)
    fix e y
    have "find (\<lambda>c. name_of r' c = Some y) (K d @ [np]) = (if y = name then Some np else child K r d y)"
      using old [of y d] none np by (auto simp: find_append split: option.splits)
    then show "child (K(d := K d @ [np])) r' e y = ((child K r)(d := (child K r d)(name \<mapsto> np))) e y"
      using old by (simp add: child_name_of)
  qed
qed

text \<open>Removing a node from the directory that has it.\<close>

lemma ramfs_ok_remove:
  assumes ok: "ramfs_ok K r" and tree: "ramfs_tree (K(d := remove1 c (K d), c := [])) r'" and c: "child K r d name = Some c"
    and same: "\<forall>p. p \<noteq> c \<longrightarrow> info (nodes r' p) = info (nodes r p)" and leaf: "K c = []"
  shows "ramfs_ok (K(d := remove1 c (K d), c := [])) r'" "child (K(d := remove1 c (K d), c := [])) r' = (child K r)(d := (child K r d)(name := None))"
proof -
  let ?K = "K(d := remove1 c (K d), c := [])"
  have t: "ramfs_tree K r" and dist: "distinct (map (name_of r) (K e))" for e using ok by (simp_all add: ramfs_ok_def)
  have cd: "c \<in> set (K d)" "name_of r c = Some name" using c by (auto simp: child_name_of find_Some_iff)
  then have d_c: "d \<noteq> c" using leaf by auto
  have sub: "set (?K e) \<subseteq> set (K e) - {c}" for e
    using ramfs_tree_kids(2) [OF t, of e d] ramfs_tree_kids(3) [OF t, of d] cd(1) by auto
  have names: "name_of r' x = name_of r x" if "x \<in> set (?K e)" for x e
    using that sub [of e] same by (intro name_of_info) auto
  have "distinct (map (name_of r) (?K e))" for e
    using dist [of e] dist [of d] by (auto simp: distinct_map intro: inj_on_subset dest: notin_set_remove1)
  moreover have "map (name_of r') (?K e) = map (name_of r) (?K e)" for e by (rule map_cong [OF refl]) (rule names)
  ultimately show "ramfs_ok ?K r'" using tree by (simp add: ramfs_ok_def del: map_eq_conv)
  have "child ?K r' e y = ((child K r)(d := (child K r d)(name := None))) e y" for e y
  proof -
    have "child ?K r' e y = find (\<lambda>x. name_of r x = Some y) (?K e)" unfolding child_name_of by (rule find_map_cong) (rule names)
    then show ?thesis using find_remove1 [OF dist [of d] cd(1), of "Some y"] cd(2) leaf d_c by (auto simp: child_name_of)
  qed
  then show "child ?K r' = (child K r)(d := (child K r d)(name := None))" by blast
qed

text \<open>C10: Directories of the RAM file system are finite maps from names to nodes. On every well-formed tree of nodes with different names in each
  directory, \<open>ramfs_create\<close> and \<open>ramfs_mkdir\<close> of a new name bind exactly that name, in exactly that directory, to a new empty node of
  the right type, keep the tree well-formed, and touch nothing but the nodes.\<close>

theorem ramfs_create_binds:
  assumes ok: "ramfs_ok K (fs s)" and v: "vnodes s v = Some vn" "nodes (fs s) (v_data vn) = Some dn" and new: "child K (fs s) (v_data vn) name = None"
  shows "(mode AND 0xF000 = 0x8000 \<longrightarrow> exec (ramfs_create v name mode) (\<lambda>e s'. \<exists>K' np. e = None \<and> ramfs_ok K' (fs s') \<and>
      child K' (fs s') = (child K (fs s))(v_data vn := (child K (fs s) (v_data vn))(name \<mapsto> np)) \<and>
      nodes (fs s') np = Some (fresh_node name VREG) \<and> nodes (fs s) np = None \<and> s' = s\<lparr>fs := fs s'\<rparr>) s) \<and>
    (mode AND 0xF000 = 0x4000 \<longrightarrow> exec (ramfs_mkdir v name mode) (\<lambda>e s'. \<exists>K' np. e = None \<and> ramfs_ok K' (fs s') \<and>
      child K' (fs s') = (child K (fs s))(v_data vn := (child K (fs s) (v_data vn))(name \<mapsto> np)) \<and>
      nodes (fs s') np = Some (fresh_node name VDIR) \<and> nodes (fs s) np = None \<and> s' = s\<lparr>fs := fs s'\<rparr>) s)"
proof -
  let ?d = "v_data vn"
  have tree: "ramfs_tree K (fs s)" using ok by (simp add: ramfs_ok_def)
  have add: "exec (ramfs_add_node ?d name type) (\<lambda>np s'. ramfs_ok (K(?d := K ?d @ [np])) (fs s') \<and>
      child (K(?d := K ?d @ [np])) (fs s') = (child K (fs s))(?d := (child K (fs s) ?d)(name \<mapsto> np)) \<and>
      nodes (fs s') np = Some (fresh_node name type) \<and> nodes (fs s) np = None \<and> s' = s\<lparr>fs := fs s'\<rparr>) s" for type
    by (rule exec_mono [OF exec_add_node [OF tree v(2)]])
      (use ramfs_ok_add [OF ok _ refl _ _ new] ramfs_treeD(3) [OF tree] in \<open>fastforce\<close>)
  have size: "(fresh_node name VDIR)\<lparr>rn_size := 0\<rparr> = fresh_node name VDIR" by (simp add: fresh_node_def)
  have create: "exec (ramfs_create v name mode) Q s" if "mode AND 0xF000 = 0x8000" "exec (ramfs_add_node ?d name VREG) (\<lambda>np. Q None) s" for Q
    using that v(1) by (simp add: ramfs_create_def)
  have mkdir: "exec (ramfs_mkdir v name mode) Q s" if "mode AND 0xF000 = 0x4000"
      "exec (ramfs_add_node ?d name VDIR) (\<lambda>np s'. nodes (fs s') np = Some (fresh_node name VDIR) \<and> Q None s') s" for Q
    using that(1) v(1) by (auto simp: ramfs_mkdir_def size fun_upd_idem intro!: exec_mono [OF that(2)])
  show ?thesis
    by (intro conjI impI create mkdir; assumption?; rule exec_mono [OF add]; blast)
qed

lemma demo_fs_ok: "ramfs_ok demo_kids demo_fs"
  using demo_fs_tree by (simp add: ramfs_ok_def demo_kids_def)

theorem ramfs_create_binds_witness:
  "exec (ramfs_create 2 ''b'' 0x8000) (\<lambda>e s'. e = None \<and> (\<exists>K' np. ramfs_ok K' (fs s') \<and> child K' (fs s') 1 ''b'' = Some np \<and>
     child K' (fs s') 1 ''a'' = Some 2 \<and> nodes (fs s') np = Some (fresh_node ''b'' VREG))) demo_file"
proof -
  have fs: "fs demo_file = demo_fs" "vnodes demo_file 2 = Some demo_root_vnode" "v_data demo_root_vnode = 1"
    "nodes demo_fs 1 = Some (demo_root_node\<lparr>rn_child := Some 2\<rparr>)"
    by (simp_all add: demo_file_def demo_def demo_root_vnode_def demo_fs_def)
  have child: "child demo_kids demo_fs 1 ''b'' = None" "child demo_kids demo_fs 1 ''a'' = Some 2"
    by (simp_all add: child_def demo_kids_def demo_fs_def fresh_node_def)
  show ?thesis
    using ramfs_create_binds [of demo_kids demo_file 2 demo_root_vnode "demo_root_node\<lparr>rn_child := Some 2\<rparr>" "''b''" "0x8000"] demo_fs_ok child
    by (auto simp: fs simp del: One_nat_def elim!: exec_mono)
qed

text \<open>C13: \<open>ramfs_remove\<close> and \<open>ramfs_rmdir\<close> of a childless node unbind exactly its name, in exactly that directory, free the node and keep the
  tree well-formed; a node that is not in the directory is refused, with nothing changed.\<close>

theorem ramfs_remove_unbinds:
  assumes ok: "ramfs_ok K (fs s)" and v: "vnodes s v = Some dvn" "nodes (fs s) (v_data dvn) = Some dn" and w: "vnodes s w = Some vn"
    and f: "f \<in> {ramfs_remove, ramfs_rmdir}"
  shows "(child K (fs s) (v_data dvn) name = Some (v_data vn) \<and> K (v_data vn) = [] \<longrightarrow>
      exec (f v w name) (\<lambda>e s'. \<exists>K'. e = None \<and> ramfs_ok K' (fs s') \<and>
        child K' (fs s') = (child K (fs s))(v_data dvn := (child K (fs s) (v_data dvn))(name := None)) \<and>
        nodes (fs s') (v_data vn) = None \<and> s' = s\<lparr>fs := fs s'\<rparr>) s) \<and>
    (v_data vn \<notin> set (K (v_data dvn)) \<longrightarrow> exec (f v w name) (\<lambda>e s'. e \<noteq> None \<and> s' = s) s)"
proof -
  have tree: "ramfs_tree K (fs s)" using ok by (simp add: ramfs_ok_def)
  have "exec (f v w name) Q s = exec (ramfs_remove_node (v_data dvn) (v_data vn)) Q s" for Q
    using f v(1) w by (auto simp: ramfs_remove_def ramfs_rmdir_def)
  moreover have "v_data vn \<in> set (K (v_data dvn))" if "child K (fs s) (v_data dvn) name = Some (v_data vn)"
    using that by (auto simp: child_def find_Some_iff)
  moreover have "\<exists>K'. ramfs_ok K' r \<and> child K' r = (child K (fs s))(v_data dvn := (child K (fs s) (v_data dvn))(name := None))"
    if "ramfs_tree (K(v_data dvn := remove1 (v_data vn) (K (v_data dvn)), v_data vn := [])) r" "child K (fs s) (v_data dvn) name = Some (v_data vn)"
      "\<forall>p. p \<noteq> v_data vn \<longrightarrow> info (nodes r p) = info (nodes (fs s) p)" "K (v_data vn) = []" for r
    using ramfs_ok_remove [OF ok that] by blast
  ultimately show ?thesis
    by (auto intro!: exec_mono [OF exec_remove_node [OF tree v(2), of "v_data vn"]])
qed

theorem ramfs_remove_unbinds_witness:
  "exec (ramfs_remove 2 5 ''a'') (\<lambda>e s'. e = None \<and> (\<exists>K'. ramfs_ok K' (fs s') \<and> child K' (fs s') 1 ''a'' = None) \<and> nodes (fs s') 2 = None) demo_file"
proof -
  obtain vn where fs: "fs demo_file = demo_fs" "vnodes demo_file 2 = Some demo_root_vnode" "v_data demo_root_vnode = 1"
    "nodes demo_fs 1 = Some (demo_root_node\<lparr>rn_child := Some 2\<rparr>)" "vnodes demo_file 5 = Some vn" "v_data vn = 2"
    by (simp add: demo_file_def demo_def demo_root_vnode_def demo_fs_def)
  have child: "child demo_kids demo_fs 1 ''a'' = Some 2" "demo_kids 2 = []"
    by (simp_all add: child_def demo_kids_def demo_fs_def fresh_node_def)
  show ?thesis
    using ramfs_remove_unbinds [of demo_kids demo_file 2 demo_root_vnode "demo_root_node\<lparr>rn_child := Some 2\<rparr>" 5 vn ramfs_remove "''a''"] demo_fs_ok child
    by (auto simp: fs simp del: One_nat_def elim!: exec_mono)
qed

text \<open>C24: A lookup in a directory finds exactly the node that is bound to the name, and returns a locked new vnode for it with its type and size; for
  a name that is not bound it returns \<open>ENOENT\<close> and changes nothing.\<close>

theorem ramfs_lookup_finds:
  assumes "refs_ok R {} D V L s" "ramfs_tree K (fs s)" "vnodes s v = Some dvn" "nodes (fs s) (v_data dvn) = Some dn"
    and "\<And>u un. vnodes s u = Some un \<Longrightarrow> v_mount un = v_mount dvn \<Longrightarrow> v_ino un \<noteq> inode_count (fs s)" and "name \<noteq> []"
  shows "exec (ramfs_lookup v name) (\<lambda>r s'. case child K (fs s) (v_data dvn) name of
      None \<Rightarrow> r = Inl ENOENT \<and> s' = s
    | Some c \<Rightarrow> \<exists>vp vn n. r = Inr vp \<and> vnodes s vp = None \<and> vnodes s' vp = Some vn \<and> (\<forall>u. u \<noteq> vp \<longrightarrow> vnodes s' u = vnodes s u) \<and> nodes (fs s) c = Some n \<and>
        v_data vn = c \<and> v_type vn = rn_type n \<and> v_size vn = rn_size n \<and> v_mount vn = v_mount dvn \<and> v_refcnt vn = 1 \<and> v_nrlocks vn = 1 \<and>
        fs s' = (fs s)\<lparr>inode_count := inode_count (fs s) + 1\<rparr>) s"
  by (rule exec_lookup [OF assms])

theorem ramfs_lookup_finds_witness:
  "exec (ramfs_lookup 2 ''a'') (\<lambda>r s'. \<exists>vp vn. r = Inr vp \<and> vnodes s' vp = Some vn \<and> v_data vn = 2 \<and> v_type vn = VREG) (demo\<lparr>fs := demo_fs\<rparr>)"
proof -
  have ok: "refs_ok {3} {} {#(3, 2)#} {#} {#} (demo\<lparr>fs := demo_fs\<rparr>)" by (rule refs_ok_frame [OF demo_ok]) simp_all
  have fs: "vnodes demo 2 = Some demo_root_vnode" "v_data demo_root_vnode = 1" "nodes demo_fs 1 = Some (demo_root_node\<lparr>rn_child := Some 2\<rparr>)"
    "nodes demo_fs 2 = Some (fresh_node ''a'' VREG)" "inode_count demo_fs = 1"
    "\<And>u un. vnodes demo u = Some un \<Longrightarrow> v_ino un \<noteq> 1"
    by (auto simp: demo_def demo_root_vnode_def demo_fs_def split: if_splits)
  have child: "child demo_kids demo_fs 1 ''a'' = Some 2" by (simp add: child_def demo_kids_def demo_fs_def fresh_node_def)
  show ?thesis
    using ramfs_lookup_finds [OF ok, of demo_kids 2 demo_root_vnode "demo_root_node\<lparr>rn_child := Some 2\<rparr>" "''a''"] demo_fs_tree
    by (auto simp: fs child fresh_node_def simp del: One_nat_def elim!: exec_mono)
qed

text \<open>The vnode of an open file that was unlinked still points to the node that \<open>ramfs_remove\<close> freed (\<open>ramfs_remove_unbinds\<close>), and the next read from it follows
  that pointer.\<close>

lemma ramfs_read_removed:
  assumes "vnodes s vp = Some vn" "v_type vn = VREG" "nodes (fs s) (v_data vn) = None" "0 \<le> uio_offset uio" "uio_offset uio < v_size vn" "0 < uio_resid uio"
  shows "ramfs_read vp fp uio ioflag s = Inl Fs_fault"
  using assms by (simp add: ramfs_read_def node_uiomove_def node_def bnd_def deref_def look_def fail_def)

end
