(* ===== verification/Semaphore.thy ===== *)
theory Semaphore
  imports Prelude
begin

text \<open>
  Counting semaphores, \<^verbatim>\<open>core/semaphore.cc\<close>. Every operation runs under the semaphore's mutex, so it is one atomic step; a thread that
  must wait leaves a wait record behind and goes on when \<open>post\<close> has cleared the record's owner or when its timer has expired. The
  value is an \<open>unsigned int\<close> and wraps around.
\<close>

section \<open>Operations\<close>

record 't wait_record =
  owner :: 't
  units :: u32

record 't semaphore =
  sem_val :: u32
  sem_waiters :: "'t wait_record list"

definition semaphore_new :: "u32 \<Rightarrow> 't semaphore" where
  "semaphore_new n = \<lparr>sem_val = n, sem_waiters = []\<rparr>"

text \<open>The loop over the wait records: the value left, the records left and the threads woken, in order.\<close>

fun post_loop :: "u32 \<Rightarrow> 't wait_record list \<Rightarrow> u32 \<times> 't wait_record list \<times> 't list" where
  "post_loop v [] = (v, [], [])"
| "post_loop v (wr # wrs) =
     (if \<not> 0 < v then (v, wr # wrs, [])
      else if units wr \<le> v then
        (case post_loop (v - units wr) wrs of (v', left, woken) \<Rightarrow> (v', left, owner wr # woken))
      else
        (case post_loop v wrs of (v', left, woken) \<Rightarrow> (v', wr # left, woken)))"

definition post_unlocked :: "u32 \<Rightarrow> 't semaphore \<Rightarrow> 't semaphore \<times> 't list" where
  "post_unlocked n s =
     (case post_loop (sem_val s + n) (sem_waiters s) of (v, left, woken) \<Rightarrow> (\<lparr>sem_val = v, sem_waiters = left\<rparr>, woken))"

text \<open>The first part of \<open>wait\<close>: it returns at once, or the thread is queued.\<close>

definition sem_wait :: "'t \<Rightarrow> u32 \<Rightarrow> 't semaphore \<Rightarrow> bool \<times> 't semaphore" where
  "sem_wait t n s =
     (if n \<le> sem_val s then (True, s\<lparr>sem_val := sem_val s - n\<rparr>)
      else (False, s\<lparr>sem_waiters := sem_waiters s @ [\<lparr>owner = t, units = n\<rparr>]\<rparr>))"

text \<open>The end of \<open>wait\<close> after a timeout, with the record still queued.\<close>

definition sem_timeout :: "'t \<Rightarrow> 't semaphore \<Rightarrow> 't semaphore" where
  "sem_timeout t s = s\<lparr>sem_waiters := filter (\<lambda>wr. owner wr \<noteq> t) (sem_waiters s)\<rparr>"

definition sem_trywait :: "u32 \<Rightarrow> 't semaphore \<Rightarrow> bool \<times> 't semaphore" where
  "sem_trywait n s = (if n < sem_val s then (True, s\<lparr>sem_val := sem_val s - n\<rparr>) else (False, s))"


section \<open>All interleavings\<close>

text \<open>
  The state with two counters the code does not have: the units posted so far and the units given to threads. A thread calls \<open>wait\<close> only
  when it is not waiting already, and the value is not posted beyond the range of \<open>unsigned\<close>.
\<close>

record 't sem_sys =
  sem :: "'t semaphore"
  posted :: nat
  granted :: nat

definition waiting :: "'t semaphore \<Rightarrow> 't set" where
  "waiting s = owner ` set (sem_waiters s)"

definition units_of :: "'t wait_record list \<Rightarrow> nat" where
  "units_of wrs = sum_list (map (\<lambda>wr. unat (units wr)) wrs)"

inductive sem_step :: "'t sem_sys \<Rightarrow> 't sem_sys \<Rightarrow> bool" where
  post: "\<lbrakk>unat (sem_val (sem s)) + unat n < 2 ^ 32; post_unlocked n (sem s) = (s', woken)\<rbrakk> \<Longrightarrow>
    sem_step s (s\<lparr>sem := s', posted := posted s + unat n,
      granted := granted s + (units_of (sem_waiters (sem s)) - units_of (sem_waiters s'))\<rparr>)"
| wait_now: "\<lbrakk>t \<notin> waiting (sem s); sem_wait t n (sem s) = (True, s')\<rbrakk> \<Longrightarrow>
    sem_step s (s\<lparr>sem := s', granted := granted s + unat n\<rparr>)"
| wait_block: "\<lbrakk>t \<notin> waiting (sem s); sem_wait t n (sem s) = (False, s')\<rbrakk> \<Longrightarrow> sem_step s (s\<lparr>sem := s'\<rparr>)"
| timeout: "t \<in> waiting (sem s) \<Longrightarrow> sem_step s (s\<lparr>sem := sem_timeout t (sem s)\<rparr>)"
| trywait_ok: "\<lbrakk>t \<notin> waiting (sem s); sem_trywait n (sem s) = (True, s')\<rbrakk> \<Longrightarrow>
    sem_step s (s\<lparr>sem := s', granted := granted s + unat n\<rparr>)"
| trywait_fail: "\<lbrakk>t \<notin> waiting (sem s); sem_trywait n (sem s) = (False, s')\<rbrakk> \<Longrightarrow> sem_step s (s\<lparr>sem := s'\<rparr>)"

definition sem_start :: "u32 \<Rightarrow> 't sem_sys" where
  "sem_start n = \<lparr>sem = semaphore_new n, posted = 0, granted = 0\<rparr>"

text \<open>Nobody waits for units that are there, and each thread waits once.\<close>

definition sem_ok :: "'t semaphore \<Rightarrow> bool" where
  "sem_ok s \<longleftrightarrow> (\<forall>wr\<in>set (sem_waiters s). sem_val s < units wr) \<and> distinct (map owner (sem_waiters s))"

lemma unat_sub: "(n :: u32) \<le> v \<Longrightarrow> unat (v - n) = unat v - unat n"
  by (simp add: unat_sub_if' word_le_nat_alt)


lemma units_of_simps [simp]: "units_of [] = 0" "units_of (wr # wrs) = unat (units wr) + units_of wrs" "units_of (xs @ ys) = units_of xs + units_of ys"
  by (simp_all add: units_of_def)

text \<open>
  What the loop of \<open>post\<close> leaves: records in their old order that ask for more than is left, the other threads woken in their order, and not
  a unit lost.
\<close>

lemma post_loop_left:
  assumes "post_loop v wrs = (v', left, woken)" "\<forall>wr\<in>set wrs. 0 < units wr"
  shows "(\<forall>wr\<in>set left. v' < units wr) \<and> set left \<subseteq> set wrs \<and> v' \<le> v \<and> unat v' + units_of wrs = unat v + units_of left \<and>
    (distinct (map owner wrs) \<longrightarrow> distinct (map owner left))"
  using assms
proof (induction v wrs arbitrary: v' left woken rule: post_loop.induct)
  case (1 v)
  then show ?case by simp
next
  case (2 v wr wrs)
  consider "v = 0" | "0 < v" "units wr \<le> v" | "0 < v" "\<not> units wr \<le> v" by (metis word_gt_0)
  then show ?case
  proof cases
    case 1
    then show ?thesis using 2(3,4) by auto
  next
    case take: 2
    obtain l w where r: "post_loop (v - units wr) wrs = (v', l, w)" "left = l" "woken = owner wr # w"
      using 2(3) take by (auto split: prod.splits)
    have sub: "v - units wr \<le> v" using take(2) by (rule word_sub_le)
    show ?thesis using 2(1) [OF _ take(2) r(1)] 2(4) take r(2) sub unat_sub [OF take(2)] by (auto simp: word_le_nat_alt)
  next
    case skip: 3
    obtain l w where r: "post_loop v wrs = (v', l, w)" "left = wr # l" "woken = w"
      using 2(3) skip by (auto split: prod.splits)
    have IH: "(\<forall>wr\<in>set l. v' < units wr) \<and> set l \<subseteq> set wrs \<and> v' \<le> v \<and> unat v' + units_of wrs = unat v + units_of l \<and>
        (distinct (map owner wrs) \<longrightarrow> distinct (map owner l))"
      using 2(2) [OF _ skip(2) r(1)] 2(4) skip by auto
    then have "v' < units wr" using skip(2) by (meson le_less_trans not_le)
    then show ?thesis using IH r(2) by auto
  qed
qed

lemma sem_step_ok: "\<lbrakk>sem_step s s'; sem_ok (sem s)\<rbrakk> \<Longrightarrow> sem_ok (sem s')"
proof (induction rule: sem_step.induct)
  case (post s n s' woken)
  obtain v left where l: "post_loop (sem_val (sem s) + n) (sem_waiters (sem s)) = (v, left, woken)" "s' = \<lparr>sem_val = v, sem_waiters = left\<rparr>"
    using post(2) by (auto simp: post_unlocked_def split: prod.splits)
  have "\<forall>wr\<in>set (sem_waiters (sem s)). 0 < units wr" using post(3) by (auto simp: sem_ok_def intro: le_less_trans [OF word_zero_le])
  then show ?case using post_loop_left [OF l(1)] post(3) l(2) by (auto simp: sem_ok_def)
next
  case (wait_now t s n s')
  then have s': "s' = sem s\<lparr>sem_val := sem_val (sem s) - n\<rparr>" "n \<le> sem_val (sem s)" by (auto simp: sem_wait_def split: if_splits)
  then have "sem_val (sem s) - n \<le> sem_val (sem s)" by (intro word_sub_le)
  then show ?case using wait_now(3) s' by (auto simp: sem_ok_def intro: le_less_trans)
next
  case (wait_block t s n s')
  then show ?case by (auto simp: sem_wait_def sem_ok_def waiting_def split: if_splits)
next
  case (timeout t s)
  then show ?case by (auto simp: sem_timeout_def sem_ok_def distinct_map_filter)
next
  case (trywait_ok t s n s')
  then have s': "s' = sem s\<lparr>sem_val := sem_val (sem s) - n\<rparr>" "n \<le> sem_val (sem s)" by (auto simp: sem_trywait_def split: if_splits)
  then have "sem_val (sem s) - n \<le> sem_val (sem s)" by (intro word_sub_le)
  then show ?case using trywait_ok(3) s' by (auto simp: sem_ok_def intro: le_less_trans)
next
  case (trywait_fail t s n s')
  then show ?case by (auto simp: sem_trywait_def split: if_splits)
qed

text \<open>Units are neither lost nor made up.\<close>

definition sem_balance :: "u32 \<Rightarrow> 't sem_sys \<Rightarrow> bool" where
  "sem_balance n s \<longleftrightarrow> unat (sem_val (sem s)) + granted s = unat n + posted s"

lemma sem_step_balance: "\<lbrakk>sem_step s s'; sem_ok (sem s); sem_balance k s\<rbrakk> \<Longrightarrow> sem_balance k s'"
proof (induction rule: sem_step.induct)
  case (post s n s' woken)
  obtain v left where l: "post_loop (sem_val (sem s) + n) (sem_waiters (sem s)) = (v, left, woken)" "s' = \<lparr>sem_val = v, sem_waiters = left\<rparr>"
    using post(2) by (auto simp: post_unlocked_def split: prod.splits)
  have "\<forall>wr\<in>set (sem_waiters (sem s)). 0 < units wr" using post(3) by (auto simp: sem_ok_def intro: le_less_trans [OF word_zero_le])
  moreover have "unat (sem_val (sem s) + n) = unat (sem_val (sem s)) + unat n" using post(1) by (simp add: unat_word_ariths(1))
  ultimately show ?case using post_loop_left [OF l(1)] post(4) l(2) word_le_nat_alt [of v "sem_val (sem s) + n"]
    by (auto simp: sem_balance_def)
qed (auto simp: sem_balance_def sem_wait_def sem_trywait_def sem_timeout_def unat_sub word_le_nat_alt word_less_nat_alt split: if_splits)

lemma sem_start_ok: "sem_ok (sem (sem_start n))" "sem_balance n (sem_start n)"
  by (simp_all add: sem_start_def semaphore_new_def sem_ok_def sem_balance_def)

lemma sem_reachable: "sem_step\<^sup>*\<^sup>* (sem_start n) s \<Longrightarrow> sem_ok (sem s) \<and> sem_balance n s"
  by (induction rule: rtranclp_induct) (auto simp: sem_start_ok intro: sem_step_ok sem_step_balance)

text \<open>
  The state of a thread that waits for three units when two have been posted.
\<close>

definition sem_demo :: "nat sem_sys" where
  "sem_demo = \<lparr>sem = \<lparr>sem_val = 2, sem_waiters = [\<lparr>owner = 5, units = 3\<rparr>]\<rparr>, posted = 2, granted = 0\<rparr>"

lemma sem_demo_reachable: "sem_step\<^sup>*\<^sup>* (sem_start 0) sem_demo"
proof -
  let ?s = "\<lparr>sem = \<lparr>sem_val = 0, sem_waiters = [\<lparr>owner = 5, units = 3\<rparr>]\<rparr>, posted = 0, granted = 0\<rparr> :: nat sem_sys"
  have "sem_step (sem_start 0) ?s"
    using sem_step.wait_block [of "5 :: nat" "sem_start 0" 3 "sem ?s"] by (simp add: sem_start_def semaphore_new_def waiting_def sem_wait_def)
  moreover have "sem_step ?s sem_demo"
    using sem_step.post [of ?s 2 "sem sem_demo" "[]"] by (simp add: sem_demo_def post_unlocked_def flip: numeral_2_eq_2)
  ultimately show ?thesis by (meson converse_rtranclp_into_rtranclp rtranclp.rtrancl_refl)
qed


section \<open>Properties\<close>

text \<open>C28: No thread sleeps on a semaphore that holds the units it asked for: in every state that any interleaving of \<open>wait\<close>, \<open>trywait\<close>, \<open>post\<close> and
  timeouts reaches, each queued request exceeds the value, so the wake-up of a request that can be granted is never lost.\<close>

theorem sem_no_idle_units:
  assumes "sem_step\<^sup>*\<^sup>* (sem_start n) s"
  shows "\<forall>wr\<in>set (sem_waiters (sem s)). sem_val (sem s) < units wr"
  using sem_reachable [OF assms] by (simp add: sem_ok_def)

theorem sem_no_idle_units_witness: "sem_val (sem sem_demo) < 3"
  using sem_no_idle_units [OF sem_demo_reachable] by (simp add: sem_demo_def)

text \<open>C29: A semaphore neither loses nor invents units: in every interleaving in which the value stays in the range of \<open>unsigned\<close>, its value plus
  the units given to threads is the initial value plus the units posted.\<close>

theorem sem_conserves:
  assumes "sem_step\<^sup>*\<^sup>* (sem_start n) s"
  shows "unat (sem_val (sem s)) + granted s = unat n + posted s"
  using sem_reachable [OF assms] by (simp add: sem_balance_def)

theorem sem_conserves_witness: "unat (sem_val (sem sem_demo)) + granted sem_demo = unat (0 :: u32) + posted sem_demo"
  by (rule sem_conserves [OF sem_demo_reachable])

text \<open>C38: \<open>trywait\<close> refuses to take the last units: for exactly as many units as the semaphore holds, where \<open>wait\<close> would return at once, it fails,
  and it fails for zero units on an empty semaphore; in every other case it succeeds exactly when \<open>wait\<close> would not block, with the same effect.\<close>

theorem sem_trywait_last_unit:
  "sem_trywait (sem_val s) s = (False, s) \<and> fst (sem_wait t (sem_val s) s) \<and>
   (n \<noteq> sem_val s \<and> fst (sem_wait t n s) \<longrightarrow> sem_trywait n s = sem_wait t n s) \<and> (\<not> fst (sem_wait t n s) \<longrightarrow> sem_trywait n s = (False, s))"
  by (auto simp: sem_trywait_def sem_wait_def)

theorem sem_trywait_last_unit_witness:
  "sem_trywait 1 (semaphore_new 1 :: nat semaphore) = (False, semaphore_new 1) \<and> sem_trywait 1 (semaphore_new 2 :: nat semaphore) = (True, semaphore_new 1)"
  using sem_trywait_last_unit [of "semaphore_new 1" "0 :: nat" 1] sem_trywait_last_unit [of "semaphore_new 2" "0 :: nat" 1]
  by (simp add: semaphore_new_def sem_wait_def)

end
