(* ===== verification/Waitqueue.thy ===== *)
theory Waitqueue
  imports Linked_List
begin

text \<open>
  Wait queues, \<^verbatim>\<open>core/waitqueue.cc\<close>: a linked list of wait records from the oldest to the newest waiter, with a pointer to either end. All
  operations run under the mutex of the caller. \<open>None\<close> is the null pointer; the dereference of a null pointer is the result
  \<open>None\<close> of an operation, and so is a loop that does not end.
\<close>

section \<open>Operations\<close>

record 'p waitqueue =
  oldest :: "'p option"
  newest :: "'p option"
  wr_next :: "'p \<Rightarrow> 'p option"

definition arm :: "'p \<Rightarrow> 'p waitqueue \<Rightarrow> 'p waitqueue option" where
  "arm wr q =
     (case oldest q of
        None \<Rightarrow> Some (q\<lparr>oldest := Some wr, newest := Some wr\<rparr>)
      | Some _ \<Rightarrow>
          (case newest q of
             None \<Rightarrow> None
           | Some n \<Rightarrow> Some (q\<lparr>wr_next := (wr_next q)(n := Some wr), newest := Some wr\<rparr>)))"

text \<open>
  The loop of \<open>disarm\<close>: \<open>prev\<close> is the record whose \<open>next\<close> field \<open>pnext\<close> points to (\<open>None\<close> for \<open>fifo.oldest\<close>), which is also the local
  variable \<open>newest\<close> of the code; \<open>cur\<close> is \<open>*pnext\<close>.
\<close>

partial_function (option) disarm_loop :: "'p \<Rightarrow> 'p option \<Rightarrow> 'p option \<Rightarrow> 'p waitqueue \<Rightarrow> 'p waitqueue option" where
  "disarm_loop wr prev cur q =
     (case cur of
        None \<Rightarrow> Some q
      | Some x \<Rightarrow>
          if x = wr then
            (let n = wr_next q wr;
                 q' = (case prev of None \<Rightarrow> q\<lparr>oldest := n\<rparr> | Some p \<Rightarrow> q\<lparr>wr_next := (wr_next q)(p := n)\<rparr>)
             in Some (if (case n of None \<Rightarrow> True | Some y \<Rightarrow> wr_next q' y = None) then q'\<lparr>newest := prev\<rparr> else q'))
          else disarm_loop wr (Some x) (wr_next q x) q)"

definition disarm :: "bool \<Rightarrow> 'p \<Rightarrow> 'p waitqueue \<Rightarrow> 'p waitqueue option" where
  "disarm woken wr q = (if woken then Some q else disarm_loop wr None (oldest q) q)"

definition wake_one :: "'p waitqueue \<Rightarrow> 'p option \<times> 'p waitqueue" where
  "wake_one q =
     (case oldest q of
        None \<Rightarrow> (None, q)
      | Some wr \<Rightarrow>
          (Some wr, q\<lparr>oldest := wr_next q wr, newest := (if wr_next q wr = None then None else newest q)\<rparr>))"

partial_function (option) wake_loop :: "('p \<Rightarrow> 'p option) \<Rightarrow> 'p option \<Rightarrow> 'p list option" where
  "wake_loop nxt cur =
     (case cur of
        None \<Rightarrow> Some []
      | Some wr \<Rightarrow> Option.bind (wake_loop nxt (nxt wr)) (\<lambda>woken. Some (wr # woken)))"

definition wake_all :: "'p waitqueue \<Rightarrow> ('p list \<times> 'p waitqueue) option" where
  "wake_all q = Option.bind (wake_loop (wr_next q) (oldest q)) (\<lambda>woken. Some (woken, q\<lparr>oldest := None, newest := None\<rparr>))"

definition wq_empty :: "'p waitqueue \<Rightarrow> bool" where
  "wq_empty q \<longleftrightarrow> oldest q = None"


section \<open>The queue as a list\<close>

text \<open>The records from the oldest to the newest.\<close>

definition wq_ok :: "'p waitqueue \<Rightarrow> 'p list \<Rightarrow> bool" where
  "wq_ok q ws \<longleftrightarrow> list_at (wr_next q) (oldest q) ws \<and> (ws \<noteq> [] \<longrightarrow> newest q = Some (last ws))"

lemma wq_ok_unique: "wq_ok q xs \<Longrightarrow> wq_ok q ys \<Longrightarrow> xs = ys"
  by (auto simp: wq_ok_def intro: list_at_unique)

lemma arm_ok:
  assumes q: "wq_ok q ws" and wr: "wr \<notin> set ws" "wr_next q wr = None"
  shows "\<exists>q'. arm wr q = Some q' \<and> wq_ok q' (ws @ [wr])"
proof (cases ws rule: rev_cases)
  case Nil
  then have "oldest q = None" using q by (simp add: wq_ok_def)
  then show ?thesis using Nil wr(2) by (auto simp: arm_def wq_ok_def)
next
  case (snoc ys n)
  then have n: "newest q = Some n" "oldest q \<noteq> None" using q by (cases ys; auto simp: wq_ok_def)+
  moreover have "list_at ((wr_next q)(n := Some wr)) (oldest q) (ys @ [n, wr])"
    by (rule list_at_snoc) (use q snoc wr in \<open>auto simp: wq_ok_def\<close>)
  ultimately show ?thesis using snoc by (auto simp: arm_def wq_ok_def)
qed

lemma wake_one_ok:
  assumes q: "wq_ok q ws"
  shows "wake_one q = (None, q) \<and> ws = [] \<or> (\<exists>wr ws' q'. ws = wr # ws' \<and> wake_one q = (Some wr, q') \<and> wq_ok q' ws' \<and> wr_next q' = wr_next q)"
proof (cases ws)
  case Nil
  then show ?thesis using q by (simp add: wq_ok_def wake_one_def)
next
  case (Cons wr ws')
  then have "oldest q = Some wr" "list_at (wr_next q) (wr_next q wr) ws'" using q by (simp_all add: wq_ok_def)
  moreover have "ws' \<noteq> [] \<Longrightarrow> wr_next q wr \<noteq> None" using calculation(2) by (cases ws') auto
  ultimately show ?thesis using q Cons by (auto simp: wake_one_def wq_ok_def)
qed

lemma wake_loop_chain: "list_at nxt p ws \<Longrightarrow> wake_loop nxt p = Some ws"
proof (induction ws arbitrary: p)
  case Nil
  then show ?case by (subst wake_loop.simps) simp
next
  case (Cons w ws)
  then show ?case by (subst wake_loop.simps) simp
qed

lemma wake_all_ok: "wq_ok q ws \<Longrightarrow> \<exists>q'. wake_all q = Some (ws, q') \<and> wq_ok q' []"
  using wake_loop_chain [of "wr_next q" "oldest q" ws] by (simp add: wq_ok_def wake_all_def)

lemma disarm_loop_chain:
  assumes "seg_at (wr_next q) cur xs (Some wr)" "wr \<notin> set xs"
  shows "disarm_loop wr prev cur q = disarm_loop wr (if xs = [] then prev else Some (last xs)) (Some wr) q"
  using assms
proof (induction xs arbitrary: cur prev)
  case (Cons x xs)
  have "disarm_loop wr prev cur q = disarm_loop wr (Some x) (wr_next q x) q" using Cons.prems by (subst disarm_loop.simps) auto
  also have "\<dots> = disarm_loop wr (if xs = [] then Some x else Some (last xs)) (Some wr) q"
    using Cons.IH [of "wr_next q x" "Some x"] Cons.prems by simp
  finally show ?case by simp
qed simp

text \<open>\<open>disarm\<close> unlinks the record. It is right unless exactly one record is queued behind it.\<close>

lemma disarm_unlink:
  assumes q: "wq_ok q (xs @ wr # ys)"
  shows "\<exists>q'. disarm False wr q = Some q' \<and> list_at (wr_next q') (oldest q') (xs @ ys) \<and>
    newest q' = (if length ys \<le> 1 then (if xs = [] then None else Some (last xs)) else newest q) \<and> (\<forall>p. p \<notin> set xs \<longrightarrow> wr_next q' p = wr_next q p)"
proof -
  let ?n = "wr_next q wr"
  have dist: "distinct (xs @ wr # ys)" using list_at_distinct [of "wr_next q" "oldest q" "xs @ wr # ys"] q by (simp add: wq_ok_def)
  have seg: "seg_at (wr_next q) (oldest q) xs (Some wr)" and tail: "list_at (wr_next q) ?n ys" using q by (auto simp: wq_ok_def list_at_append)
  have loop: "disarm False wr q = disarm_loop wr (if xs = [] then None else Some (last xs)) (Some wr) q"
    using disarm_loop_chain [OF seg] dist by (simp add: disarm_def)
  show ?thesis
  proof (cases xs rule: rev_cases)
    case Nil
    have end_n: "(case ?n of None \<Rightarrow> True | Some y \<Rightarrow> wr_next q y = None) \<longleftrightarrow> length ys \<le> 1"
      using tail by (cases ys rule: list.exhaust; cases "tl ys") auto
    then show ?thesis using loop Nil tail by (subst (asm) disarm_loop.simps) (cases ?n; auto simp: Let_def split: if_splits)
  next
    case (snoc zs p)
    have p: "p \<notin> set zs" "p \<notin> set ys" "p \<noteq> wr" using dist snoc by auto
    let ?nx = "(wr_next q)(p := ?n)"
    have end_n: "(case ?n of None \<Rightarrow> True | Some y \<Rightarrow> ?nx y = None) \<longleftrightarrow> length ys \<le> 1"
      using tail p(2) by (cases ys rule: list.exhaust; cases "tl ys") auto
    have "list_at ?nx (oldest q) (zs @ p # ys)" by (rule list_at_unlink) (use q snoc in \<open>simp add: wq_ok_def\<close>)
    then show ?thesis using loop snoc end_n by (subst (asm) disarm_loop.simps) (cases ?n; auto simp: Let_def split: if_splits)
  qed
qed

lemma disarm_ok:
  assumes q: "wq_ok q (xs @ wr # ys)" and ys: "length ys \<noteq> 1"
  shows "\<exists>q'. disarm False wr q = Some q' \<and> wq_ok q' (xs @ ys)"
proof -
  obtain q' where q': "disarm False wr q = Some q'" "list_at (wr_next q') (oldest q') (xs @ ys)"
      "newest q' = (if length ys \<le> 1 then (if xs = [] then None else Some (last xs)) else newest q)"
    using disarm_unlink [OF q] by blast
  have "length ys \<le> 1 \<longleftrightarrow> ys = []" using ys by (cases ys) auto
  then show ?thesis using q q' by (auto simp: wq_ok_def)
qed


section \<open>First in, first out\<close>

datatype 'p wq_op = Arm 'p | Wake_one | Wake_all

text \<open>A sequence of operations on a queue: the threads woken, in order.\<close>

fun queue_run :: "('p \<Rightarrow> 'q \<Rightarrow> 'q option) \<Rightarrow> ('q \<Rightarrow> 'p option \<times> 'q) \<Rightarrow> ('q \<Rightarrow> ('p list \<times> 'q) option) \<Rightarrow> 'p wq_op list \<Rightarrow> 'q \<Rightarrow> ('p list \<times> 'q) option" where
  "queue_run enq deq flush [] q = Some ([], q)"
| "queue_run enq deq flush (Arm p # ops) q = Option.bind (enq p q) (queue_run enq deq flush ops)"
| "queue_run enq deq flush (Wake_one # ops) q =
     (case deq q of (w, q') \<Rightarrow> map_option (map_prod (\<lambda>ws. (case w of None \<Rightarrow> ws | Some x \<Rightarrow> x # ws)) id) (queue_run enq deq flush ops q'))"
| "queue_run enq deq flush (Wake_all # ops) q =
     Option.bind (flush q) (\<lambda>(ws, q'). map_option (map_prod ((@) ws) id) (queue_run enq deq flush ops q'))"

text \<open>The same on a list of waiters.\<close>

fun fifo_run :: "'p wq_op list \<Rightarrow> 'p list \<Rightarrow> 'p list \<times> 'p list" where
  "fifo_run [] ws = ([], ws)"
| "fifo_run (Arm p # ops) ws = fifo_run ops (ws @ [p])"
| "fifo_run (Wake_one # ops) [] = fifo_run ops []"
| "fifo_run (Wake_one # ops) (w # ws) = map_prod ((#) w) id (fifo_run ops ws)"
| "fifo_run (Wake_all # ops) ws = map_prod ((@) ws) id (fifo_run ops [])"

fun armed :: "'p wq_op list \<Rightarrow> 'p list" where
  "armed [] = []"
| "armed (Arm p # ops) = p # armed ops"
| "armed (_ # ops) = armed ops"

lemma fifo_run_order: "fst (fifo_run ops ws) @ snd (fifo_run ops ws) = ws @ armed ops"
  by (induction ops ws rule: fifo_run.induct) simp_all

text \<open>
  What a queue of single-use records promises: \<open>ok q ws U\<close> says that \<open>q\<close> holds the records \<open>ws\<close>, oldest first, and that those of \<open>U\<close> were never queued.
\<close>

locale wait_fifo =
  fixes enq :: "'p \<Rightarrow> 'q \<Rightarrow> 'q option" and deq :: "'q \<Rightarrow> 'p option \<times> 'q" and flush :: "'q \<Rightarrow> ('p list \<times> 'q) option"
    and ok :: "'q \<Rightarrow> 'p list \<Rightarrow> 'p set \<Rightarrow> bool"
  assumes enq_ok: "\<lbrakk>ok q ws U; p \<in> U\<rbrakk> \<Longrightarrow> \<exists>q'. enq p q = Some q' \<and> ok q' (ws @ [p]) (U - {p})"
    and deq_empty: "ok q [] U \<Longrightarrow> deq q = (None, q)"
    and deq_ok: "ok q (w # ws) U \<Longrightarrow> \<exists>q'. deq q = (Some w, q') \<and> ok q' ws U"
    and flush_ok: "ok q ws U \<Longrightarrow> \<exists>q'. flush q = Some (ws, q') \<and> ok q' [] U"
begin

lemma run_fifo:
  "\<lbrakk>ok q ws U; set (armed ops) \<subseteq> U; distinct (armed ops)\<rbrakk> \<Longrightarrow>
    \<exists>q' U'. queue_run enq deq flush ops q = Some (fst (fifo_run ops ws), q') \<and> ok q' (snd (fifo_run ops ws)) U'"
proof (induction ops arbitrary: q ws U)
  case Nil
  then show ?case by auto
next
  case (Cons op ops)
  show ?case
  proof (cases op)
    case (Arm p)
    then obtain q' where q': "enq p q = Some q'" "ok q' (ws @ [p]) (U - {p})" using enq_ok [OF Cons.prems(1)] Cons.prems(2) by auto
    then show ?thesis using Cons.IH [OF q'(2)] Cons.prems(2,3) Arm by auto
  next
    case Wake_one
    show ?thesis
    proof (cases ws)
      case Nil
      then show ?thesis using Cons.IH [OF Cons.prems(1)] Cons.prems Wake_one deq_empty by auto
    next
      case (Cons w ws')
      then obtain q' where q': "deq q = (Some w, q')" "ok q' ws' U" using deq_ok Cons.prems(1) by blast
      then show ?thesis using Cons.IH [OF q'(2)] Cons.prems(2,3) Wake_one \<open>ws = w # ws'\<close> by (auto simp: map_prod_def split_def)
    qed
  next
    case Wake_all
    then obtain q' where q': "flush q = Some (ws, q')" "ok q' [] U" using flush_ok Cons.prems(1) by blast
    then show ?thesis using Cons.IH [OF q'(2)] Cons.prems(2,3) Wake_all by (auto simp: map_prod_def split_def)
  qed
qed

end

interpretation waitqueue: wait_fifo arm wake_one wake_all "\<lambda>q ws U. wq_ok q ws \<and> set ws \<inter> U = {} \<and> (\<forall>p\<in>U. wr_next q p = None)"
proof
  fix q :: "'a waitqueue" and ws U p
  assume q: "wq_ok q ws \<and> set ws \<inter> U = {} \<and> (\<forall>p\<in>U. wr_next q p = None)" and p: "p \<in> U"
  then obtain q' where q': "arm p q = Some q'" "wq_ok q' (ws @ [p])" using arm_ok [of q ws p] by auto
  moreover have "wr_next q' x = wr_next q x" if "x \<in> U - {p}" for x
    using q'(1) q that by (cases ws rule: rev_cases) (auto simp: arm_def wq_ok_def split: option.splits)
  ultimately show "\<exists>q'. arm p q = Some q' \<and> wq_ok q' (ws @ [p]) \<and> set (ws @ [p]) \<inter> (U - {p}) = {} \<and> (\<forall>p\<in>U - {p}. wr_next q' p = None)"
    using q by auto
next
  fix q :: "'a waitqueue" and w ws U
  assume "wq_ok q (w # ws) \<and> set (w # ws) \<inter> U = {} \<and> (\<forall>p\<in>U. wr_next q p = None)"
  then show "\<exists>q'. wake_one q = (Some w, q') \<and> wq_ok q' ws \<and> set ws \<inter> U = {} \<and> (\<forall>p\<in>U. wr_next q' p = None)"
    using wake_one_ok [of q "w # ws"] by auto
next
  fix q :: "'a waitqueue" and U
  assume "wq_ok q [] \<and> set [] \<inter> U = {} \<and> (\<forall>p\<in>U. wr_next q p = None)"
  then show "wake_one q = (None, q)" using wake_one_ok [of q "[]"] by auto
next
  fix q :: "'a waitqueue" and ws U
  assume q: "wq_ok q ws \<and> set ws \<inter> U = {} \<and> (\<forall>p\<in>U. wr_next q p = None)"
  then show "\<exists>q'. wake_all q = Some (ws, q') \<and> wq_ok q' [] \<and> set [] \<inter> U = {} \<and> (\<forall>p\<in>U. wr_next q' p = None)"
    using wake_loop_chain [of "wr_next q" "oldest q" ws] by (auto simp: wake_all_def wq_ok_def)
qed


section \<open>Properties\<close>

text \<open>C30: A wait queue is first in, first out: any sequence of \<open>arm\<close>, \<open>wake_one\<close> and \<open>wake_all\<close> on fresh wait records runs without a fault, wakes the
  threads that the same sequence on a list of waiters wakes, and so wakes them in the order they began to wait, each once, leaving the others queued.\<close>

theorem waitqueue_fifo:
  assumes "wq_ok q []" "distinct (armed ops)" "\<forall>p\<in>set (armed ops). wr_next q p = None"
  shows "\<exists>woken q' left. queue_run arm wake_one wake_all ops q = Some (woken, q') \<and> fifo_run ops [] = (woken, left) \<and> wq_ok q' left \<and> woken @ left = armed ops"
  using waitqueue.run_fifo [of q "[]" "set (armed ops)" ops] assms fifo_run_order [of ops "[]"] by (auto simp: prod_eq_iff)

theorem waitqueue_fifo_witness:
  "\<exists>q'. queue_run arm wake_one wake_all [Arm 1, Arm 2, Wake_one, Arm (3 :: nat), Wake_one] \<lparr>oldest = None, newest = None, wr_next = \<lambda>_. None\<rparr> = Some ([1, 2], q') \<and>
     wq_ok q' [3]"
  using waitqueue_fifo [of "\<lparr>oldest = None, newest = None, wr_next = \<lambda>_. None\<rparr>" "[Arm 1, Arm 2, Wake_one, Arm (3 :: nat), Wake_one]"]
  by (auto simp: wq_ok_def)

text \<open>C39: \<open>disarm\<close> loses a waiter when exactly one thread is queued behind the one that gives up: it sets \<open>newest\<close> to the record in front of the removed
  one instead of the one behind it, so that the next \<open>arm\<close> overwrites the pointer to the last waiter, which is then never woken, or, when the removed
  record was the oldest, dereferences a null pointer. In all other cases it removes exactly its record.\<close>

theorem disarm_loses_waiter:
  assumes q: "wq_ok q (xs @ wr # ys)" and z: "z \<notin> set (xs @ wr # ys)" "wr_next q z = None"
  shows "\<exists>q'. disarm False wr q = Some q' \<and>
    (if length ys \<noteq> 1 then wq_ok q' (xs @ ys)
     else if xs = [] then arm z q' = None
     else \<exists>q''. arm z q' = Some q'' \<and> wq_ok q'' (xs @ [z]))"
proof (cases "length ys = 1")
  case False
  then show ?thesis using disarm_ok [OF q] by simp
next
  case True
  then obtain y where y: "ys = [y]" by (cases ys) auto
  obtain q' where q': "disarm False wr q = Some q'" "list_at (wr_next q') (oldest q') (xs @ [y])"
      "newest q' = (if xs = [] then None else Some (last xs))" "\<forall>p. p \<notin> set xs \<longrightarrow> wr_next q' p = wr_next q p"
    using disarm_unlink [OF q] y by auto
  show ?thesis
  proof (cases xs rule: rev_cases)
    case Nil
    then show ?thesis using q' y by (auto simp: arm_def)
  next
    case (snoc zs p)
    have p: "p \<notin> set zs" "wr_next q' z = None" "z \<notin> set zs" "z \<noteq> p" using list_at_distinct [OF q'(2)] snoc q'(4) z by auto
    have seg: "seg_at (wr_next q') (oldest q') zs (Some p)" using q'(2) snoc by (auto simp: list_at_append)
    then have "oldest q' \<noteq> None" by (cases zs) auto
    moreover have "list_at ((wr_next q')(p := Some z)) (oldest q') (zs @ [p, z])" using seg p by (auto simp: list_at_append)
    ultimately show ?thesis using q'(1,3) snoc y by (auto simp: arm_def wq_ok_def)
  qed
qed

theorem disarm_loses_waiter_witness:
  "\<exists>q'. disarm False 2 \<lparr>oldest = Some 1, newest = Some 3, wr_next = [1 \<mapsto> 2, 2 \<mapsto> 3 :: nat]\<rparr> = Some q' \<and> (\<exists>q''. arm 4 q' = Some q'' \<and> wq_ok q'' [1, 4])"
  using disarm_loses_waiter [of "\<lparr>oldest = Some 1, newest = Some 3, wr_next = [1 \<mapsto> 2, 2 \<mapsto> 3 :: nat]\<rparr>" "[1]" 2 "[3]" 4]
  by (simp add: wq_ok_def)

end
