(* ===== verification/Rwlock.thy ===== *)
theory Rwlock
  imports Prelude
begin

text \<open>
  Read-write locks, \<^verbatim>\<open>core/rwlock.cc\<close>. Each operation runs under the lock's mutex up to the point where the thread blocks; a blocked thread is in one
  of the two wait queues (lists, oldest waiter first: see \<open>Waitqueue\<close>), and once woken runs its loop again. A failed assertion is the result \<open>None\<close>.
\<close>

section \<open>Operations\<close>

record 't rwlock =
  readers :: u32
  wowner :: "'t option"
  wrecurse :: u32
  read_waiters :: "'t list"
  write_waiters :: "'t list"

definition rwlock_init :: "'t rwlock" where
  "rwlock_init = \<lparr>readers = 0, wowner = None, wrecurse = 0, read_waiters = [], write_waiters = []\<rparr>"

definition read_lockable :: "'t rwlock \<Rightarrow> bool" where
  "read_lockable r \<longleftrightarrow> wowner r = None \<and> write_waiters r = []"

definition write_lockable :: "'t \<Rightarrow> 't rwlock \<Rightarrow> bool" where
  "write_lockable t r \<longleftrightarrow> wowner r = Some t \<or> readers r = 0 \<and> wowner r = None"

text \<open>One round of the loop in \<open>reader_wait_lockable\<close> and what follows it: the thread gets the lock, or is queued.\<close>

definition rlock :: "'t \<Rightarrow> 't rwlock \<Rightarrow> bool \<times> 't rwlock" where
  "rlock t r = (if read_lockable r then (True, r\<lparr>readers := readers r + 1\<rparr>) else (False, r\<lparr>read_waiters := read_waiters r @ [t]\<rparr>))"

definition try_rlock :: "'t rwlock \<Rightarrow> bool \<times> 't rwlock" where
  "try_rlock r = (if \<not> read_lockable r then (False, r) else (True, r\<lparr>readers := readers r + 1\<rparr>))"

text \<open>\<open>wake_one\<close> and \<open>wake_all\<close> of the two queues, with the threads woken.\<close>

definition wake_writer :: "'t rwlock \<Rightarrow> 't list \<times> 't rwlock" where
  "wake_writer r = (take 1 (write_waiters r), r\<lparr>write_waiters := drop 1 (write_waiters r)\<rparr>)"

definition wake_readers :: "'t rwlock \<Rightarrow> 't list \<times> 't rwlock" where
  "wake_readers r = (read_waiters r, r\<lparr>read_waiters := []\<rparr>)"

definition runlock :: "'t rwlock \<Rightarrow> ('t list \<times> 't rwlock) option" where
  "runlock r =
     (if wowner r \<noteq> None then None
      else if \<not> 0 < readers r then None
      else
        let r' = r\<lparr>readers := readers r - 1\<rparr> in
        if readers r' = 0 then Some (wake_writer r') else Some ([], r'))"

definition try_upgrade :: "'t \<Rightarrow> 't rwlock \<Rightarrow> (bool \<times> 't rwlock) option" where
  "try_upgrade t r =
     (if readers r = 1 \<and> write_waiters r = [] then
        (if wowner r \<noteq> None then None else Some (True, r\<lparr>readers := 0, wowner := Some t\<rparr>))
      else Some (False, r))"

text \<open>The part of \<open>wlock\<close> and \<open>try_wlock\<close> after the lock was found free or owned.\<close>

definition take_write :: "'t \<Rightarrow> 't rwlock \<Rightarrow> 't rwlock" where
  "take_write t r = (if wowner r = Some t then r\<lparr>wrecurse := wrecurse r + 1\<rparr> else r)\<lparr>wowner := Some t\<rparr>"

definition wlock :: "'t \<Rightarrow> 't rwlock \<Rightarrow> bool \<times> 't rwlock" where
  "wlock t r = (if write_lockable t r then (True, take_write t r) else (False, r\<lparr>write_waiters := write_waiters r @ [t]\<rparr>))"

definition try_wlock :: "'t \<Rightarrow> 't rwlock \<Rightarrow> bool \<times> 't rwlock" where
  "try_wlock t r = (if \<not> write_lockable t r then (False, r) else (True, take_write t r))"

definition wunlock :: "'t \<Rightarrow> 't rwlock \<Rightarrow> ('t list \<times> 't rwlock) option" where
  "wunlock t r =
     (if wowner r \<noteq> Some t then None
      else
        let r' = (if 0 < wrecurse r then r\<lparr>wrecurse := wrecurse r - 1\<rparr> else r\<lparr>wowner := None\<rparr>) in
        Some (if write_waiters r' \<noteq> [] then wake_writer r' else wake_readers r'))"

lemma wunlock_recurse:
  "wunlock t r = Some (ws, r') \<Longrightarrow> wrecurse r \<noteq> 0 \<Longrightarrow> unat (wrecurse r') < unat (wrecurse r)"
  by (auto simp: wunlock_def wake_writer_def wake_readers_def Let_def word_gt_0 unat_minus_one unat_gt_0 split: if_splits)

text \<open>The locked part of \<open>downgrade\<close>; the thread then calls \<open>rlock\<close>.\<close>

function downgrade_unlock :: "'t \<Rightarrow> 't rwlock \<Rightarrow> ('t list \<times> 't rwlock) option" where
  "downgrade_unlock t r =
     (if wrecurse r \<noteq> 0 then
        (case wunlock t r of
           None \<Rightarrow> None
         | Some (ws, r') \<Rightarrow> map_option (map_prod ((@) ws) id) (downgrade_unlock t r'))
      else wunlock t r)"
  by auto
termination
  by (relation "measure (\<lambda>(t, r). unat (wrecurse r))") (auto dest: wunlock_recurse)

declare downgrade_unlock.simps [simp del]

definition wowned :: "'t \<Rightarrow> 't rwlock \<Rightarrow> bool" where
  "wowned t r \<longleftrightarrow> wowner r = Some t"

definition has_readers :: "'t rwlock \<Rightarrow> bool" where
  "has_readers r \<longleftrightarrow> readers r \<noteq> 0"


section \<open>All interleavings\<close>

datatype rw_pc = Rw_run | Rw_rwait | Rw_rtry | Rw_wwait | Rw_wtry

text \<open>
  A thread runs, is queued as a reader or as a writer, or is about to run the loop of \<open>rlock\<close> or \<open>wlock\<close> again. \<open>rholders\<close> and \<open>wholders\<close> are the threads
  that were given the lock for reading and for writing and have not given it back, as often as they were; the code does not see them.
\<close>

record 't rw_sys =
  rw :: "'t rwlock"
  rpc :: "'t \<Rightarrow> rw_pc"
  rholders :: "'t multiset"
  wholders :: "'t multiset"

definition wake :: "'t list \<Rightarrow> ('t \<Rightarrow> rw_pc) \<Rightarrow> 't \<Rightarrow> rw_pc" where
  "wake ws pc t = (if t \<in> set ws then (case pc t of Rw_rwait \<Rightarrow> Rw_rtry | Rw_wwait \<Rightarrow> Rw_wtry | p \<Rightarrow> p) else pc t)"

definition rw_start :: "'t rw_sys" where
  "rw_start = \<lparr>rw = rwlock_init, rpc = \<lambda>_. Rw_run, rholders = {#}, wholders = {#}\<rparr>"

inductive rw_step :: "'t rw_sys \<Rightarrow> 't rw_sys \<Rightarrow> bool" where
  rlock_ok: "\<lbrakk>rpc s t = Rw_run \<or> rpc s t = Rw_rtry; size (rholders s) < 2 ^ 32 - 1; rlock t (rw s) = (True, r)\<rbrakk> \<Longrightarrow>
    rw_step s (s\<lparr>rw := r, rpc := (rpc s)(t := Rw_run), rholders := add_mset t (rholders s)\<rparr>)"
| rlock_block: "\<lbrakk>rpc s t = Rw_run \<or> rpc s t = Rw_rtry; rlock t (rw s) = (False, r)\<rbrakk> \<Longrightarrow>
    rw_step s (s\<lparr>rw := r, rpc := (rpc s)(t := Rw_rwait)\<rparr>)"
| try_rlock: "\<lbrakk>rpc s t = Rw_run; size (rholders s) < 2 ^ 32 - 1; try_rlock (rw s) = (ok, r)\<rbrakk> \<Longrightarrow>
    rw_step s (s\<lparr>rw := r, rholders := (if ok then add_mset t (rholders s) else rholders s)\<rparr>)"
| runlock: "\<lbrakk>rpc s t = Rw_run; t \<in># rholders s; runlock (rw s) = Some (ws, r)\<rbrakk> \<Longrightarrow>
    rw_step s (s\<lparr>rw := r, rpc := wake ws (rpc s), rholders := rholders s - {#t#}\<rparr>)"
| upgrade: "\<lbrakk>rpc s t = Rw_run; t \<in># rholders s; try_upgrade t (rw s) = Some (ok, r)\<rbrakk> \<Longrightarrow>
    rw_step s (s\<lparr>rw := r, rholders := (if ok then rholders s - {#t#} else rholders s),
      wholders := (if ok then add_mset t (wholders s) else wholders s)\<rparr>)"
| wlock_ok: "\<lbrakk>rpc s t = Rw_run \<or> rpc s t = Rw_wtry; unat (wrecurse (rw s)) < 2 ^ 32 - 1; wlock t (rw s) = (True, r)\<rbrakk> \<Longrightarrow>
    rw_step s (s\<lparr>rw := r, rpc := (rpc s)(t := Rw_run), wholders := add_mset t (wholders s)\<rparr>)"
| wlock_block: "\<lbrakk>rpc s t = Rw_run \<or> rpc s t = Rw_wtry; wlock t (rw s) = (False, r)\<rbrakk> \<Longrightarrow>
    rw_step s (s\<lparr>rw := r, rpc := (rpc s)(t := Rw_wwait)\<rparr>)"
| try_wlock: "\<lbrakk>rpc s t = Rw_run; unat (wrecurse (rw s)) < 2 ^ 32 - 1; try_wlock t (rw s) = (ok, r)\<rbrakk> \<Longrightarrow>
    rw_step s (s\<lparr>rw := r, wholders := (if ok then add_mset t (wholders s) else wholders s)\<rparr>)"
| wunlock: "\<lbrakk>rpc s t = Rw_run; t \<in># wholders s; wunlock t (rw s) = Some (ws, r)\<rbrakk> \<Longrightarrow>
    rw_step s (s\<lparr>rw := r, rpc := wake ws (rpc s), wholders := wholders s - {#t#}\<rparr>)"
| downgrade: "\<lbrakk>rpc s t = Rw_run; t \<in># wholders s; downgrade_unlock t (rw s) = Some (ws, r)\<rbrakk> \<Longrightarrow>
    rw_step s (s\<lparr>rw := r, rpc := (wake ws (rpc s))(t := Rw_rtry), wholders := filter_mset (\<lambda>u. u \<noteq> t) (wholders s)\<rparr>)"

text \<open>
  The invariant: the counter counts the readers, readers and writer exclude each other, the queues hold the blocked threads, and whenever a thread is queued
  somebody holds the lock or has been woken to take it.
\<close>

definition rw_inv :: "'t rwlock \<Rightarrow> ('t \<Rightarrow> rw_pc) \<Rightarrow> 't multiset \<Rightarrow> bool" where
  "rw_inv r pc h \<longleftrightarrow>
     unat (readers r) = size h \<and> (wowner r \<noteq> None \<longrightarrow> h = {#}) \<and> (wowner r = None \<longrightarrow> wrecurse r = 0) \<and>
     set (read_waiters r) = {t. pc t = Rw_rwait} \<and> distinct (read_waiters r) \<and>
     set (write_waiters r) = {t. pc t = Rw_wwait} \<and> distinct (write_waiters r) \<and>
     (write_waiters r \<noteq> [] \<longrightarrow> wowner r \<noteq> None \<or> h \<noteq> {#} \<or> (\<exists>t. pc t = Rw_wtry)) \<and>
     (read_waiters r \<noteq> [] \<longrightarrow> wowner r \<noteq> None \<or> write_waiters r \<noteq> [] \<or> (\<exists>t. pc t = Rw_wtry))"

lemma rw_invD:
  assumes "rw_inv r pc h"
  shows "unat (readers r) = size h" "wowner r \<noteq> None \<Longrightarrow> h = {#}" "wowner r = None \<Longrightarrow> wrecurse r = 0"
    "set (read_waiters r) = {t. pc t = Rw_rwait}" "distinct (read_waiters r)" "set (write_waiters r) = {t. pc t = Rw_wwait}" "distinct (write_waiters r)"
    "write_waiters r \<noteq> [] \<Longrightarrow> wowner r \<noteq> None \<or> h \<noteq> {#} \<or> (\<exists>t. pc t = Rw_wtry)"
    "read_waiters r \<noteq> [] \<Longrightarrow> wowner r \<noteq> None \<or> write_waiters r \<noteq> [] \<or> (\<exists>t. pc t = Rw_wtry)"
  using assms by (auto simp: rw_inv_def)

lemma wake_Nil [simp]: "wake [] pc = pc"
  by (simp add: wake_def fun_eq_iff)

lemma wake_append: "wake (xs @ ys) pc = wake ys (wake xs pc)"
  by (auto simp: wake_def fun_eq_iff split: rw_pc.splits)

lemma wake_keeps: "pc t = Rw_wtry \<Longrightarrow> wake ws pc t = Rw_wtry" "wake ws pc t = Rw_run \<longleftrightarrow> pc t = Rw_run"
  by (auto simp: wake_def split: rw_pc.splits)

text \<open>What the two ways to wake do to the queues.\<close>

lemma wake_writer_queues:
  assumes "wake_writer r = (ws, r')" and "set (write_waiters r) = {t. pc t = Rw_wwait}" "distinct (write_waiters r)"
  shows "set (write_waiters r') = {t. wake ws pc t = Rw_wwait}" "distinct (write_waiters r')" "{t. wake ws pc t = Rw_rwait} = {t. pc t = Rw_rwait}"
    "write_waiters r \<noteq> [] \<Longrightarrow> \<exists>t. wake ws pc t = Rw_wtry" "write_waiters r = [] \<Longrightarrow> ws = [] \<and> r' = r"
    "readers r' = readers r" "wowner r' = wowner r" "wrecurse r' = wrecurse r" "read_waiters r' = read_waiters r"
proof -
  have r': "ws = take 1 (write_waiters r)" "r' = r\<lparr>write_waiters := drop 1 (write_waiters r)\<rparr>" using assms(1) by (simp_all add: wake_writer_def)
  then show "readers r' = readers r" "wowner r' = wowner r" "wrecurse r' = wrecurse r" "read_waiters r' = read_waiters r" by simp_all
  show "write_waiters r = [] \<Longrightarrow> ws = [] \<and> r' = r" using r' by simp
  have "set (write_waiters r') = {t. wake ws pc t = Rw_wwait} \<and> distinct (write_waiters r') \<and> {t. wake ws pc t = Rw_rwait} = {t. pc t = Rw_rwait} \<and>
    (write_waiters r \<noteq> [] \<longrightarrow> (\<exists>t. wake ws pc t = Rw_wtry))"
  proof (cases "write_waiters r")
    case Nil
    then show ?thesis using r' assms(2) by simp
  next
    case (Cons w ws')
    then have w: "pc w = Rw_wwait" "set ws' = {t. pc t = Rw_wwait} - {w}" "distinct ws'" using assms(2,3) by auto
    have e: "write_waiters r' = ws'" "wake ws pc = pc(w := Rw_wtry)" using r' Cons w(1) by (simp_all add: wake_def fun_eq_iff)
    have "{t. (pc(w := Rw_wtry)) t = Rw_wwait} = {t. pc t = Rw_wwait} - {w}" "{t. (pc(w := Rw_wtry)) t = Rw_rwait} = {t. pc t = Rw_rwait}"
      using w(1) by (simp_all add: set_eq_iff)
    moreover have "\<exists>t. (pc(w := Rw_wtry)) t = Rw_wtry" by (rule exI [of _ w]) simp
    ultimately show ?thesis unfolding e using w(2,3) by simp
  qed
  then show "set (write_waiters r') = {t. wake ws pc t = Rw_wwait}" "distinct (write_waiters r')" "{t. wake ws pc t = Rw_rwait} = {t. pc t = Rw_rwait}"
    "write_waiters r \<noteq> [] \<Longrightarrow> \<exists>t. wake ws pc t = Rw_wtry" by blast+
qed

lemma wake_readers_queues:
  assumes "wake_readers r = (ws, r')" and "set (read_waiters r) = {t. pc t = Rw_rwait}"
  shows "{t. wake ws pc t = Rw_rwait} = {}" "read_waiters r' = []" "{t. wake ws pc t = Rw_wwait} = {t. pc t = Rw_wwait}"
    "readers r' = readers r" "wowner r' = wowner r" "wrecurse r' = wrecurse r" "write_waiters r' = write_waiters r"
proof -
  have r': "ws = read_waiters r" "r' = r\<lparr>read_waiters := []\<rparr>" using assms(1) by (simp_all add: wake_readers_def)
  have "wake ws pc t = (if pc t = Rw_rwait then Rw_rtry else pc t)" for t using r'(1) assms(2) by (simp add: wake_def)
  then show "{t. wake ws pc t = Rw_rwait} = {}" "read_waiters r' = []" "{t. wake ws pc t = Rw_wwait} = {t. pc t = Rw_wwait}"
    "readers r' = readers r" "wowner r' = wowner r" "wrecurse r' = wrecurse r" "write_waiters r' = write_waiters r"
    using r'(2) by auto
qed

lemma wunlock_inv:
  assumes inv: "rw_inv r pc h" and un: "wunlock t r = Some (ws, r')"
  shows "rw_inv r' (wake ws pc) h" "wowner r = Some t" "wowner r' = (if wrecurse r = 0 then None else Some t)"
proof -
  note d = rw_invD [OF inv]
  show o: "wowner r = Some t" using un by (simp add: wunlock_def split: if_splits)
  define q where "q = (if 0 < wrecurse r then r\<lparr>wrecurse := wrecurse r - 1\<rparr> else r\<lparr>wowner := None\<rparr>)"
  have q: "read_waiters q = read_waiters r" "write_waiters q = write_waiters r" "readers q = readers r"
    "wowner q = (if wrecurse r = 0 then None else Some t)" "wowner q = None \<Longrightarrow> wrecurse q = 0"
    using o by (auto simp: q_def word_gt_0)
  have h: "h = {#}" "readers r = 0" using d(1,2) o by (auto simp: unat_eq_0)
  have r': "(if write_waiters q \<noteq> [] then wake_writer q else wake_readers q) = (ws, r')"
    using un o by (simp only: wunlock_def Let_def q_def [symmetric] option.inject if_False not_True_eq_False simp_thms)
  show "wowner r' = (if wrecurse r = 0 then None else Some t)"
    using r' q(4) by (auto simp: wake_writer_def wake_readers_def split: if_splits)
  show "rw_inv r' (wake ws pc) h"
  proof (cases "write_waiters q = []")
    case True
    then have wq: "wake_readers q = (ws, r')" using r' by simp
    have "set (read_waiters q) = {t. pc t = Rw_rwait}" using d(4) q(1) by simp
    note f = wake_readers_queues [OF wq this]
    have "{t. pc t = Rw_wwait} = {}" "write_waiters r = []" using True q(2) d(6) by simp_all
    then show ?thesis using q(5) by (simp add: rw_inv_def f q h)
  next
    case False
    then have wq: "wake_writer q = (ws, r')" using r' by simp
    have "set (write_waiters q) = {t. pc t = Rw_wwait}" "distinct (write_waiters q)" using d(6,7) q(2) by simp_all
    note f = wake_writer_queues [OF wq this]
    show ?thesis using f(1-4) False q(5) by (simp add: rw_inv_def f(6-9) q(1,3) h d(4,5))
  qed
qed

lemma downgrade_inv:
  "\<lbrakk>rw_inv r pc h; downgrade_unlock t r = Some (ws, r')\<rbrakk> \<Longrightarrow> rw_inv r' (wake ws pc) h \<and> wowner r' = None"
proof (induction t r arbitrary: pc ws r' rule: downgrade_unlock.induct)
  case (1 t r)
  show ?case
  proof (cases "wrecurse r = 0")
    case True
    then have "wunlock t r = Some (ws, r')" using "1.prems"(2) by (simp add: downgrade_unlock.simps [of t r])
    then show ?thesis using wunlock_inv [OF "1.prems"(1)] True by simp
  next
    case False
    have "downgrade_unlock t r = (case wunlock t r of None \<Rightarrow> None
         | Some (ws, r') \<Rightarrow> map_option (map_prod ((@) ws) id) (downgrade_unlock t r'))"
      using False by (subst downgrade_unlock.simps) (simp only: if_True not_False_eq_True)
    then obtain us q vs where q: "wunlock t r = Some (us, q)" "downgrade_unlock t q = Some (vs, r')" "ws = us @ vs"
      using "1.prems"(2) by (cases "wunlock t r"; cases "downgrade_unlock t (snd (the (wunlock t r)))") auto
    have "rw_inv q (wake us pc) h" by (rule wunlock_inv(1) [OF "1.prems"(1) q(1)])
    from "1.IH" [OF False q(1) refl this q(2)] show ?thesis by (simp only: q(3) wake_append)
  qed
qed

text \<open>Each operation keeps the invariant.\<close>

lemma ex_wtry: "\<lbrakk>pc t \<noteq> Rw_wtry; p \<noteq> Rw_wtry\<rbrakk> \<Longrightarrow> (\<exists>u. (pc(t := p)) u = Rw_wtry) \<longleftrightarrow> (\<exists>u. pc u = Rw_wtry)"
  by (metis fun_upd_apply)

lemma rw_inv_pc:
  assumes inv: "rw_inv r pc h" and pc: "pc t = Rw_run \<or> pc t = Rw_rtry" "p = Rw_run \<or> p = Rw_rtry"
  shows "rw_inv r (pc(t := p)) h"
proof -
  have "{u. (pc(t := p)) u = Rw_rwait} = {u. pc u = Rw_rwait}" "{u. (pc(t := p)) u = Rw_wwait} = {u. pc u = Rw_wwait}"
    using pc by auto
  moreover have "(\<exists>u. (pc(t := p)) u = Rw_wtry) \<longleftrightarrow> (\<exists>u. pc u = Rw_wtry)" by (rule ex_wtry) (use pc in auto)
  ultimately show ?thesis using inv unfolding rw_inv_def by simp
qed

lemma rlock_inv:
  assumes inv: "rw_inv r pc h" and free: "read_lockable r" and small: "size h < 2 ^ 32 - 1"
  shows "rw_inv (r\<lparr>readers := readers r + 1\<rparr>) pc (add_mset t h)"
proof -
  have "unat (readers r + 1) = size (add_mset t h)" using rw_invD(1) [OF inv] small by (simp add: unat_word_ariths(1))
  then show ?thesis using inv free by (simp add: rw_inv_def read_lockable_def)
qed

lemma rlock_block_inv:
  assumes inv: "rw_inv r pc h" and busy: "\<not> read_lockable r" and pc: "pc t = Rw_run \<or> pc t = Rw_rtry"
  shows "rw_inv (r\<lparr>read_waiters := read_waiters r @ [t]\<rparr>) (pc(t := Rw_rwait)) h"
proof -
  have "{u. (pc(t := Rw_rwait)) u = Rw_rwait} = insert t {u. pc u = Rw_rwait}" "{u. (pc(t := Rw_rwait)) u = Rw_wwait} = {u. pc u = Rw_wwait}"
    "t \<notin> {u. pc u = Rw_rwait}"
    using pc by auto
  moreover have "(\<exists>u. (pc(t := Rw_rwait)) u = Rw_wtry) \<longleftrightarrow> (\<exists>u. pc u = Rw_wtry)" by (rule ex_wtry) (use pc in auto)
  ultimately show ?thesis using inv busy unfolding rw_inv_def read_lockable_def by simp blast
qed

lemma runlock_inv:
  assumes inv: "rw_inv r pc h" and t: "t \<in># h" and un: "runlock r = Some (ws, r')"
  shows "rw_inv r' (wake ws pc) (h - {#t#})"
proof -
  note d = rw_invD [OF inv]
  have o: "wowner r = None" "0 < readers r" using un by (auto simp: runlock_def split: if_splits)
  have size: "unat (readers r - 1) = size (h - {#t#})" using d(1) t o(2) by (simp add: size_Diff_singleton unat_minus_one word_gt_0)
  show ?thesis
  proof (cases "readers r - 1 = 0")
    case False
    then have "h - {#t#} \<noteq> {#}" "ws = []" "r' = r\<lparr>readers := readers r - 1\<rparr>" using size un o by (auto simp: runlock_def Let_def unat_eq_0)
    then show ?thesis using inv o size by (simp add: rw_inv_def)
  next
    case True
    let ?q = "r\<lparr>readers := readers r - 1\<rparr>"
    have h: "h - {#t#} = {#}" using size True by simp
    have wq: "wake_writer ?q = (ws, r')" using un o True by (simp add: runlock_def)
    have "set (write_waiters ?q) = {u. pc u = Rw_wwait}" "distinct (write_waiters ?q)" using d(6,7) by simp_all
    note f = wake_writer_queues [OF wq this]
    have woken: "\<exists>u. wake ws pc u = Rw_wtry" if "write_waiters r \<noteq> [] \<or> (\<exists>u. pc u = Rw_wtry)"
      using that f(4) wake_keeps(1) [of pc _ ws] by fastforce
    have sub: "write_waiters r' \<noteq> [] \<Longrightarrow> write_waiters r \<noteq> []" using wq by (auto simp: wake_writer_def)
    show ?thesis
      using f(1-3) d(4,5) d(3) [OF o(1)] d(9) o(1) woken sub True unfolding rw_inv_def f(6-9) h by auto
  qed
qed

lemma upgrade_inv:
  assumes inv: "rw_inv r pc h" and t: "t \<in># h" and up: "try_upgrade t r = Some (True, r')"
  shows "rw_inv r' pc (h - {#t#})"
proof -
  have r: "readers r = 1" "write_waiters r = []" "r' = r\<lparr>readers := 0, wowner := Some t\<rparr>" using up by (auto simp: try_upgrade_def split: if_splits)
  then have "size h = 1" using rw_invD(1) [OF inv] by simp
  then have "h - {#t#} = {#}" using t by (simp add: size_Diff_singleton flip: size_eq_0_iff_empty)
  then show ?thesis using inv r by (simp add: rw_inv_def)
qed

lemma take_write_inv:
  assumes inv: "rw_inv r pc h" and free: "write_lockable t r" and pc: "pc t = Rw_run \<or> pc t = Rw_wtry"
  shows "rw_inv (take_write t r) (pc(t := Rw_run)) h"
proof -
  have "{u. (pc(t := Rw_run)) u = Rw_rwait} = {u. pc u = Rw_rwait}" "{u. (pc(t := Rw_run)) u = Rw_wwait} = {u. pc u = Rw_wwait}" using pc by auto
  moreover have "h = {#}" using free rw_invD(1,2) [OF inv] by (auto simp: write_lockable_def)
  ultimately show ?thesis using inv by (simp add: rw_inv_def take_write_def)
qed

lemma wlock_block_inv:
  assumes inv: "rw_inv r pc h" and busy: "\<not> write_lockable t r" and pc: "pc t = Rw_run \<or> pc t = Rw_wtry"
  shows "rw_inv (r\<lparr>write_waiters := write_waiters r @ [t]\<rparr>) (pc(t := Rw_wwait)) h"
proof -
  have "{u. (pc(t := Rw_wwait)) u = Rw_wwait} = insert t {u. pc u = Rw_wwait}" "{u. (pc(t := Rw_wwait)) u = Rw_rwait} = {u. pc u = Rw_rwait}"
    "t \<notin> {u. pc u = Rw_wwait}" using pc by auto
  moreover have "wowner r \<noteq> None \<or> h \<noteq> {#}" using busy rw_invD(1) [OF inv] by (auto simp: write_lockable_def unat_eq_0)
  ultimately show ?thesis using inv unfolding rw_inv_def by auto
qed

lemma rw_step_inv: "\<lbrakk>rw_step s s'; rw_inv (rw s) (rpc s) (rholders s)\<rbrakk> \<Longrightarrow> rw_inv (rw s') (rpc s') (rholders s')"
proof (induction rule: rw_step.induct)
  case (rlock_ok s t r)
  then have "read_lockable (rw s)" "r = rw s\<lparr>readers := readers (rw s) + 1\<rparr>" by (auto simp: rlock_def split: if_splits)
  then show ?case using rw_inv_pc [OF rlock_inv [OF rlock_ok(4) _ rlock_ok(2)] rlock_ok(1), of Rw_run t] by (simp add: fun_upd_def)
next
  case (rlock_block s t r)
  then show ?case using rlock_block_inv [OF rlock_block(3) _ rlock_block(1)] by (auto simp: rlock_def fun_upd_def split: if_splits)
next
  case (try_rlock s t ok r)
  then show ?case using rlock_inv [OF try_rlock(4) _ try_rlock(2)] by (auto simp: try_rlock_def split: if_splits)
next
  case (runlock s t ws r)
  then show ?case using runlock_inv by simp
next
  case (upgrade s t ok r)
  then show ?case using upgrade_inv [of "rw s" "rpc s" "rholders s" t r] by (cases ok) (auto simp: try_upgrade_def split: if_splits)
next
  case (wlock_ok s t r)
  then show ?case using take_write_inv [OF wlock_ok(4) _ wlock_ok(1)] by (auto simp: wlock_def fun_upd_def split: if_splits)
next
  case (wlock_block s t r)
  then show ?case using wlock_block_inv [OF wlock_block(3) _ wlock_block(1)] by (auto simp: wlock_def fun_upd_def split: if_splits)
next
  case (try_wlock s t ok r)
  have "rpc s = (rpc s)(t := Rw_run)" using try_wlock(1) by (simp add: fun_upd_idem)
  then show ?case using try_wlock take_write_inv [OF try_wlock(4), of t] by (auto simp: try_wlock_def split: if_splits)
next
  case (wunlock s t ws r)
  then show ?case using wunlock_inv(1) by simp
next
  case (downgrade s t ws r)
  have "wake ws (rpc s) t = Rw_run" using downgrade(1) by (simp add: wake_keeps(2))
  then show ?case using rw_inv_pc [OF conjunct1 [OF downgrade_inv [OF downgrade(4,3)]], of t Rw_rtry] by (simp add: fun_upd_def)
qed

lemma rw_start_inv: "rw_inv (rw rw_start) (rpc rw_start) (rholders rw_start)"
  by (simp add: rw_start_def rwlock_init_def rw_inv_def)

lemma rw_reachable: "rw_step\<^sup>*\<^sup>* rw_start s \<Longrightarrow> rw_inv (rw s) (rpc s) (rholders s)"
  by (induction rule: rtranclp_induct) (auto simp: rw_start_inv intro: rw_step_inv)

text \<open>The write locks given out are those of the owner, one more than \<open>wrecurse\<close> says.\<close>

definition write_inv :: "'t rwlock \<Rightarrow> 't multiset \<Rightarrow> bool" where
  "write_inv r w \<longleftrightarrow> w = (case wowner r of None \<Rightarrow> {#} | Some t \<Rightarrow> replicate_mset (Suc (unat (wrecurse r))) t)"

lemma write_inv_cong: "\<lbrakk>write_inv r w; wowner r' = wowner r; wrecurse r' = wrecurse r\<rbrakk> \<Longrightarrow> write_inv r' w"
  by (simp add: write_inv_def split: option.splits)

lemma write_inv_owner: "\<lbrakk>write_inv r w; t \<in># w\<rbrakk> \<Longrightarrow> wowner r = Some t"
  by (auto simp: write_inv_def split: option.splits if_splits)

lemma take_write_holders:
  assumes "write_inv r w" "write_lockable t r" "wowner r = None \<Longrightarrow> wrecurse r = 0" "unat (wrecurse r) < 2 ^ 32 - 1"
  shows "write_inv (take_write t r) (add_mset t w)"
proof (cases "wowner r")
  case None
  then show ?thesis using assms by (simp add: write_inv_def take_write_def)
next
  case (Some u)
  then have "u = t" using assms(2) by (simp add: write_lockable_def)
  moreover have "unat (wrecurse r + 1) = Suc (unat (wrecurse r))" using assms(4) by (simp add: unat_word_ariths(1))
  ultimately show ?thesis using Some assms(1) by (simp add: write_inv_def take_write_def)
qed

lemma wunlock_holders:
  assumes "write_inv r w" "wunlock t r = Some (ws, r')"
  shows "write_inv r' (w - {#t#})"
proof -
  define q where "q = (if 0 < wrecurse r then r\<lparr>wrecurse := wrecurse r - 1\<rparr> else r\<lparr>wowner := None\<rparr>)"
  have o: "wowner r = Some t" using assms(2) by (simp add: wunlock_def split: if_splits)
  have "(if write_waiters q \<noteq> [] then wake_writer q else wake_readers q) = (ws, r')"
    using assms(2) o by (simp only: wunlock_def Let_def q_def [symmetric] option.inject if_False not_True_eq_False simp_thms)
  then have "wowner r' = wowner q" "wrecurse r' = wrecurse q" by (auto simp: wake_writer_def wake_readers_def split: if_splits)
  moreover have "write_inv q (w - {#t#})"
    using assms(1) o by (auto simp: write_inv_def q_def word_gt_0 unat_minus_one unat_gt_0)
  ultimately show ?thesis using write_inv_cong by blast
qed

lemma write_inv_same: "\<lbrakk>write_inv r w; wowner r = Some t\<rbrakk> \<Longrightarrow> filter_mset (\<lambda>u. u \<noteq> t) w = {#}"
  by (simp add: write_inv_def)

lemma rw_step_holders: "\<lbrakk>rw_step s s'; rw_inv (rw s) (rpc s) (rholders s); write_inv (rw s) (wholders s)\<rbrakk> \<Longrightarrow> write_inv (rw s') (wholders s')"
proof (induction rule: rw_step.induct)
  case (rlock_ok s t r)
  then show ?case by (auto simp: rlock_def write_inv_def split: if_splits option.splits)
next
  case (rlock_block s t r)
  then show ?case by (auto simp: rlock_def write_inv_def split: if_splits option.splits)
next
  case (try_rlock s t ok r)
  then show ?case by (auto simp: try_rlock_def write_inv_def split: if_splits option.splits)
next
  case (runlock s t ws r)
  then have "wowner r = wowner (rw s)" "wrecurse r = wrecurse (rw s)" by (auto simp: runlock_def wake_writer_def Let_def split: if_splits)
  then show ?case using write_inv_cong runlock(5) by auto
next
  case (upgrade s t ok r)
  then show ?case using rw_invD(3) [OF upgrade(4)] by (auto simp: try_upgrade_def write_inv_def split: if_splits)
next
  case (wlock_ok s t r)
  then show ?case using take_write_holders [OF wlock_ok(5) _ rw_invD(3) [OF wlock_ok(4)] wlock_ok(2)] by (auto simp: wlock_def split: if_splits)
next
  case (wlock_block s t r)
  then show ?case by (auto simp: wlock_def write_inv_def split: if_splits option.splits)
next
  case (try_wlock s t ok r)
  then show ?case using take_write_holders [OF try_wlock(5) _ rw_invD(3) [OF try_wlock(4)] try_wlock(2)] by (auto simp: try_wlock_def split: if_splits)
next
  case (wunlock s t ws r)
  then show ?case using wunlock_holders by simp
next
  case (downgrade s t ws r)
  have "wowner r = None" using downgrade_inv [OF downgrade(4,3)] by blast
  then show ?case using write_inv_same [OF downgrade(5) write_inv_owner [OF downgrade(5,2)]] by (simp add: write_inv_def)
qed

lemma rw_reachable_holders: "rw_step\<^sup>*\<^sup>* rw_start s \<Longrightarrow> write_inv (rw s) (wholders s)"
proof (induction rule: rtranclp_induct)
  case base
  then show ?case by (simp add: write_inv_def rw_start_def rwlock_init_def)
next
  case (step s s')
  then show ?case using rw_step_holders [OF step(2) rw_reachable [OF step(1)]] by blast
qed

lemma wunlock_defined: "wowner r = Some t \<Longrightarrow> wunlock t r \<noteq> None"
  by (simp add: wunlock_def Let_def del: not_None_eq)

lemma downgrade_defined: "wowner r = Some t \<Longrightarrow> downgrade_unlock t r \<noteq> None"
proof (induction t r rule: downgrade_unlock.induct)
  case (1 t r)
  show ?case
  proof (cases "wrecurse r = 0")
    case True
    then show ?thesis using wunlock_defined [OF "1.prems"] by (subst downgrade_unlock.simps) simp
  next
    case False
    obtain ws q where q: "wunlock t r = Some (ws, q)" using wunlock_defined [OF "1.prems"] by auto
    then have "wowner q = Some t" using False "1.prems" by (auto simp: wunlock_def wake_writer_def wake_readers_def Let_def word_gt_0 split: if_splits)
    then show ?thesis using "1.IH" [OF False q refl] False q by (subst downgrade_unlock.simps) simp
  qed
qed


section \<open>Properties\<close>

lemma distinct_count: "distinct xs \<Longrightarrow> count_list xs x = (if x \<in> set xs then 1 else 0)"
  by (induction xs) auto

text \<open>Thread 1 reads, thread 2 waits to write, thread 3 waits to read behind it.\<close>

definition rw_demo :: "nat rw_sys" where
  "rw_demo = \<lparr>rw = \<lparr>readers = 1, wowner = None, wrecurse = 0, read_waiters = [3], write_waiters = [2]\<rparr>,
     rpc = (\<lambda>_. Rw_run)(2 := Rw_wwait, 3 := Rw_rwait), rholders = {#1#}, wholders = {#}\<rparr>"

lemma rw_demo_reachable: "rw_step\<^sup>*\<^sup>* rw_start rw_demo"
proof -
  let ?s1 = "\<lparr>rw = rwlock_init\<lparr>readers := 1\<rparr>, rpc = \<lambda>_. Rw_run, rholders = {#1#}, wholders = {#}\<rparr> :: nat rw_sys"
  let ?s2 = "?s1\<lparr>rw := rwlock_init\<lparr>readers := 1, write_waiters := [2]\<rparr>, rpc := (\<lambda>_. Rw_run)(2 := Rw_wwait)\<rparr>"
  have "rw_step rw_start ?s1"
    using rw_step.try_rlock [of rw_start 1 True "rw ?s1"] by (simp add: rw_start_def rwlock_init_def try_rlock_def read_lockable_def)
  moreover have "rw_step ?s1 ?s2"
    using rw_step.wlock_block [of ?s1 2 "rw ?s2"] by (simp add: rwlock_init_def wlock_def write_lockable_def fun_upd_def)
  moreover have "rw_step ?s2 rw_demo"
    using rw_step.rlock_block [of ?s2 3 "rw rw_demo"] by (simp add: rw_demo_def rwlock_init_def rlock_def read_lockable_def fun_upd_def)
  ultimately show ?thesis by (meson converse_rtranclp_into_rtranclp rtranclp.rtrancl_refl)
qed

text \<open>Thread 1 writes, having taken the lock twice.\<close>

definition rw_demo_writer :: "nat rw_sys" where
  "rw_demo_writer = rw_start\<lparr>rw := rwlock_init\<lparr>wowner := Some 1, wrecurse := 1\<rparr>, wholders := {#1, 1#}\<rparr>"

lemma rw_demo_writer_reachable: "rw_step\<^sup>*\<^sup>* rw_start rw_demo_writer"
proof -
  let ?s = "rw_start\<lparr>rw := rwlock_init\<lparr>wowner := Some 1\<rparr>, wholders := {#1#}\<rparr> :: nat rw_sys"
  have "rw_step rw_start ?s"
    using rw_step.try_wlock [of rw_start 1 True "rw ?s"] by (simp add: rw_start_def rwlock_init_def try_wlock_def write_lockable_def take_write_def)
  moreover have "rw_step ?s rw_demo_writer"
    using rw_step.try_wlock [of ?s 1 True "rw rw_demo_writer"]
    by (simp add: rw_demo_writer_def rw_start_def rwlock_init_def try_wlock_def write_lockable_def take_write_def)
  ultimately show ?thesis by (meson converse_rtranclp_into_rtranclp rtranclp.rtrancl_refl)
qed

text \<open>C14: Readers and writers exclude each other in every interleaving: two threads never hold the lock for writing at the same time, and while one does no
  thread holds it for reading; \<open>wowned\<close> and \<open>has_readers\<close> tell who does; and no assertion of \<open>runlock\<close>, \<open>wunlock\<close>, \<open>try_upgrade\<close> or \<open>downgrade\<close> fails for a
  thread that gives back what it was given. \<open>downgrade\<close> ends and gives up all of the holder's recursive locks.\<close>

theorem rw_exclusion:
  assumes "rw_step\<^sup>*\<^sup>* rw_start s"
  shows "(t \<in># wholders s \<longrightarrow> u \<in># wholders s \<longrightarrow> u = t) \<and> (t \<in># wholders s \<longrightarrow> rholders s = {#}) \<and>
    (wowned t (rw s) \<longleftrightarrow> t \<in># wholders s) \<and> (has_readers (rw s) \<longleftrightarrow> rholders s \<noteq> {#}) \<and> unat (readers (rw s)) = size (rholders s) \<and>
    (t \<in># rholders s \<longrightarrow> runlock (rw s) \<noteq> None \<and> try_upgrade t (rw s) \<noteq> None) \<and>
    (t \<in># wholders s \<longrightarrow> wunlock t (rw s) \<noteq> None \<and> (\<exists>ws r. downgrade_unlock t (rw s) = Some (ws, r) \<and> wowner r = None))"
proof -
  note inv = rw_reachable [OF assms] and d = rw_invD(1-3) [OF rw_reachable [OF assms]] and w = rw_reachable_holders [OF assms]
  have owner: "wowner (rw s) = Some v \<longleftrightarrow> v \<in># wholders s" for v
    using w by (auto simp: write_inv_def split: option.splits if_splits)
  have "runlock (rw s) \<noteq> None \<and> try_upgrade t (rw s) \<noteq> None" if t: "t \<in># rholders s"
  proof -
    have o: "wowner (rw s) = None" using d(2) t by (cases "wowner (rw s)") auto
    have "readers (rw s) \<noteq> 0" using d(1) t by auto
    then show ?thesis using o by (simp add: runlock_def try_upgrade_def word_gt_0 Let_def del: not_None_eq)
  qed
  moreover have "wunlock t (rw s) \<noteq> None \<and> (\<exists>ws r. downgrade_unlock t (rw s) = Some (ws, r) \<and> wowner r = None)" if "t \<in># wholders s"
    using that owner [of t] wunlock_defined [of "rw s" t] downgrade_defined [of "rw s" t] downgrade_inv [OF inv, of t] by auto
  moreover have "rholders s = {#}" if "t \<in># wholders s" using that owner [of t] d(2) by simp
  moreover have "u = t" if "t \<in># wholders s" "u \<in># wholders s" using that owner [of t] owner [of u] by simp
  moreover have "has_readers (rw s) \<longleftrightarrow> rholders s \<noteq> {#}" using d(1) by (auto simp: has_readers_def unat_eq_0)
  ultimately show ?thesis using d(1) owner [of t] unfolding wowned_def by blast
qed

theorem rw_exclusion_witness: "runlock (rw rw_demo) \<noteq> None \<and> \<not> wowned 1 (rw rw_demo) \<and> wunlock 1 (rw rw_demo_writer) \<noteq> None \<and> \<not> has_readers (rw rw_demo_writer)"
  using rw_exclusion [OF rw_demo_reachable, of 1 1] rw_exclusion [OF rw_demo_writer_reachable, of 1 1]
  by (simp add: rw_demo_def rw_demo_writer_def rw_start_def)

text \<open>C15: No wake-up is lost: in every state that any interleaving reaches, a thread that waits for a read-write lock is in the right queue, exactly once, and
  some thread holds the lock or has been woken to take it for writing. So when all holders have released the lock and all woken threads have run, nobody waits.\<close>

theorem rw_no_lost_wakeup:
  assumes "rw_step\<^sup>*\<^sup>* rw_start s" and "rpc s t = Rw_rwait \<or> rpc s t = Rw_wwait"
  shows "(wowner (rw s) \<noteq> None \<or> rholders s \<noteq> {#} \<or> (\<exists>u. rpc s u = Rw_wtry)) \<and>
    count_list (read_waiters (rw s) @ write_waiters (rw s)) t = 1 \<and> (t \<in> set (read_waiters (rw s)) \<longleftrightarrow> rpc s t = Rw_rwait)"
proof -
  note d = rw_invD [OF rw_reachable [OF assms(1)]]
  have "t \<in> set (read_waiters (rw s)) \<and> t \<notin> set (write_waiters (rw s)) \<or> t \<in> set (write_waiters (rw s)) \<and> t \<notin> set (read_waiters (rw s))"
    using assms(2) d(4,6) by auto
  then have "count_list (read_waiters (rw s) @ write_waiters (rw s)) t = 1"
    using d(5,7) by (auto simp: distinct_count)
  moreover have "read_waiters (rw s) \<noteq> [] \<or> write_waiters (rw s) \<noteq> []" using assms(2) d(4,6) by auto
  ultimately show ?thesis using d(4,8,9) by auto
qed

theorem rw_no_lost_wakeup_witness:
  "count_list (read_waiters (rw rw_demo) @ write_waiters (rw rw_demo)) 3 = 1 \<and> 3 \<in> set (read_waiters (rw rw_demo))"
  using rw_no_lost_wakeup [OF rw_demo_reachable, of 3] by (simp add: rw_demo_def)

end
