(* ===== verification/Libc_Time.thy ===== *)
theory Libc_Time
  imports Uio
begin

text \<open>
  Calendar time, \<^verbatim>\<open>libc/time/__time_to_tm.c\<close> and \<^verbatim>\<open>__tm_to_time.c\<close>. Times and days are integers (\<open>time_t\<close> has 64 bits); conversions to \<open>int\<close> are
  \<open>c_int\<close>, and the \<open>unsigned\<close> day of a 400-year cycle is reduced modulo \<open>2 ^ 32\<close>.
\<close>

section \<open>Definitions\<close>

record tm =
  tm_sec :: int
  tm_min :: int
  tm_hour :: int
  tm_mday :: int
  tm_mon :: int
  tm_year :: int
  tm_wday :: int
  tm_yday :: int
  tm_isdst :: int
  tm_gmtoff :: int
  tm_zone :: string

text \<open>Division and remainder of C, which round towards zero, for a positive divisor; the macro \<open>Q\<close>, which rounds down.\<close>

definition c_div :: "int \<Rightarrow> int \<Rightarrow> int" where
  "c_div a b = (if 0 \<le> a then a div b else - ((- a) div b))"

definition c_rem :: "int \<Rightarrow> int \<Rightarrow> int" where
  "c_rem a b = (if 0 \<le> a then a mod b else - ((- a) mod b))"

definition Q :: "int \<Rightarrow> int \<Rightarrow> int" where
  "Q a b = (if 0 < a then c_div a b else - c_div (b - a - 1) b)"

definition days_thru_month :: "int list" where
  "days_thru_month = [31, 61, 92, 122, 153, 184, 214, 245, 275, 306, 337, 366]"

text \<open>The search loop; behind the table it would read out of bounds, which is \<open>None\<close>.\<close>

fun month_loop :: "int \<Rightarrow> int list \<Rightarrow> nat option" where
  "month_loop day [] = None"
| "month_loop day (d # ds) = (if d \<le> day then map_option Suc (month_loop day ds) else Some 0)"

definition time_to_tm :: "int \<Rightarrow> tm \<Rightarrow> tm option" where
  "time_to_tm t0 tm =
     (let t = t0 + (- 946684800 - 86400 * (31 + 29));
          bigday = Q t 86400;
          sec = c_int (t - bigday * 86400);
          hour = c_div sec 3600; sec = sec - hour * 3600;
          min = c_div sec 60; sec = sec - min * 60;
          wday = c_int (c_rem (3 + bigday) 7);
          wday = (if wday < 0 then wday + 7 else wday);
          year400 = c_int (Q bigday 146097);
          day = (bigday - year400 * 146097) mod 2 ^ 32;
          year100 = day div 36524; year100 = (if year100 = 4 then year100 - 1 else year100); day = day - year100 * 36524;
          year4 = day div 1461; year4 = (if year4 = 25 then year4 - 1 else year4); day = day - year4 * 1461;
          year = c_int (day div 365); year = (if year = 4 then year - 1 else year); day = day - year * 365;
          leap = (if year = 0 \<and> (year4 \<noteq> 0 \<or> year100 = 0) then 1 else 0);
          yday = c_int (day + 31 + 28 + leap); yday = (if 365 + leap \<le> yday then yday - (365 + leap) else yday);
          year = c_int (year + (4 * year4 + 100 * year100 + 400 * year400 + 2000 - 1900))
      in case month_loop day days_thru_month of
           None \<Rightarrow> None
         | Some i \<Rightarrow>
             let day = (if i \<noteq> 0 then day - days_thru_month ! (i - 1) else day);
                 month = int i + 2;
                 year = (if 12 \<le> month then year + 1 else year);
                 month = (if 12 \<le> month then month - 12 else month)
             in Some (tm\<lparr>tm_sec := sec, tm_min := min, tm_hour := hour, tm_mday := day + 1, tm_mon := month, tm_year := year, tm_wday := wday, tm_yday := yday,
               tm_zone := ''GMT'', tm_gmtoff := 0\<rparr>))"

definition days_before_month :: "int list" where
  "days_before_month = [0, 31, 59, 90, 120, 151, 181, 212, 243, 273, 304, 334]"

text \<open>The normalisation of month and year.\<close>

definition norm_month :: "int \<Rightarrow> int \<Rightarrow> int \<times> int" where
  "norm_month year month =
     (if 12 \<le> month then (year + c_div month 12, c_rem month 12)
      else if month < 0 then
        (let year = year + c_div month 12; month = c_rem month 12 in
         if month \<noteq> 0 then (year - 1, month + 12) else (year, month))
      else (year, month))"

definition tm_to_time :: "tm \<Rightarrow> int" where
  "tm_to_time tm =
     (let (year, month) = norm_month (tm_year tm + - 100) (tm_mon tm);
          z4 = c_int (Q (year - (if month < 2 then 1 else 0)) 4);
          z100 = Q z4 25;
          z400 = Q z100 4;
          day = c_int (tm_mday tm + (year * 365 + z4 - z100 + z400 + days_before_month ! nat month))
      in day * 86400 + tm_hour tm * 3600 + tm_min tm * 60 + tm_sec tm - - 946684800)"

definition timegm :: "tm \<Rightarrow> int" where
  "timegm tm = tm_to_time tm"


definition gmtime_r :: "int \<Rightarrow> tm \<Rightarrow> tm option" where
  "gmtime_r t result = map_option (\<lambda>tm. tm\<lparr>tm_isdst := 0\<rparr>) (time_to_tm t result)"

text \<open>The time zone, as \<open>tzset\<close> leaves it in its globals: offsets in seconds and the rules for the two changes of a year. The month of a rule is also the letter
  \<open>J\<close> or \<open>L\<close>, for a rule that gives a day of the year.\<close>

record rule =
  r_month :: int
  r_week :: int
  r_day :: int
  r_time :: int

record tz =
  timezone :: int
  daylight :: bool
  dst_offset :: int
  dst_start :: rule
  dst_end :: rule

definition is_leap :: "int \<Rightarrow> bool" where
  "is_leap year = (let year = year - 100 in year mod 4 = 0 \<and> (c_rem year 100 \<noteq> 0 \<or> c_rem year 400 = 0))"

definition days_in_month :: "int list" where
  "days_in_month = [31, 28, 31, 30, 31, 30, 31, 31, 30, 31, 30, 31]"

definition first_day :: "int list" where
  "first_day = [0, 31, 59, 90, 120, 151, 181, 212, 243, 273, 304, 335]"

definition cutoff_yday :: "tm \<Rightarrow> rule \<Rightarrow> int option" where
  "cutoff_yday tm rule =
     (if r_month rule = 74 then Some (r_day rule + (if 1 < tm_mon tm \<and> is_leap (tm_year tm) then 1 else 0))
      else if r_month rule = 76 then Some (r_day rule)
      else if 0 \<le> r_month rule \<and> r_month rule < 12 then
        (let yday = first_day ! nat (r_month rule);
             leap = is_leap (tm_year tm);
             yday = (if 1 < r_month rule \<and> leap then yday + 1 else yday);
             mday = c_rem (r_day rule - (yday + tm_wday tm - tm_yday tm) + 1400) 7 + 7 * r_week rule;
             mday = (if days_in_month ! nat (r_month rule) + (if leap \<and> r_month rule = 1 then 1 else 0) \<le> mday then mday - 7 else mday)
         in Some (mday + yday))
      else None)"

definition dst_adjust :: "tz \<Rightarrow> tm \<Rightarrow> tm option" where
  "dst_adjust z tm =
     (if 0 \<le> tm_isdst tm then Some tm
      else if \<not> daylight z then Some (tm\<lparr>tm_isdst := 0\<rparr>)
      else
        (let secs = tm_hour tm * 3600 + tm_min tm * 60 + tm_sec tm in
         case (cutoff_yday tm (dst_start z), cutoff_yday tm (dst_end z)) of
           (Some start, Some endd) \<Rightarrow>
             (let after_start = (start < tm_yday tm \<or> tm_yday tm = start \<and> r_time (dst_start z) \<le> secs);
                  before_end = (tm_yday tm < endd \<or> tm_yday tm = endd \<and> secs < r_time (dst_end z))
              in if (after_start \<and> before_end) \<or> (endd < start \<and> (after_start \<or> before_end)) then
                   (let tm = tm\<lparr>tm_sec := tm_sec tm - dst_offset z, tm_isdst := 1\<rparr>;
                        t = tm_to_time tm
                    in time_to_tm t tm)
                 else Some (tm\<lparr>tm_isdst := 0\<rparr>))
         | _ \<Rightarrow> None))"

definition localtime_r :: "tz \<Rightarrow> int \<Rightarrow> tm \<Rightarrow> tm option" where
  "localtime_r z t result =
     (case time_to_tm (t - timezone z) result of
        None \<Rightarrow> None
      | Some result \<Rightarrow> dst_adjust z (result\<lparr>tm_isdst := - 1\<rparr>))"

definition mktime :: "tz \<Rightarrow> tm \<Rightarrow> (int \<times> tm) option" where
  "mktime z tm =
     (let isdst = tm_isdst tm;
          tm = tm\<lparr>tm_sec := c_int (tm_sec tm + timezone z)\<rparr>;
          tm = (if 0 < isdst then tm\<lparr>tm_sec := tm_sec tm + dst_offset z\<rparr> else tm);
          t = tm_to_time tm;
          lt = t - timezone z;
          lt = (if 0 < isdst then lt - dst_offset z else lt)
      in case time_to_tm lt tm of
           None \<Rightarrow> None
         | Some tm \<Rightarrow> map_option (\<lambda>tm. (t, tm)) (dst_adjust z tm))"


section \<open>The Gregorian calendar\<close>

lemma Q_floor: "0 < b \<Longrightarrow> Q a b = a div b"
proof (cases "0 < a")
  case False
  assume b: "0 < b"
  have "(b - a - 1) div b = - (a div b)"
  proof -
    define q r where "q = a div b" and "r = a mod b"
    have a: "a = q * b + r" "0 \<le> r" "r < b" using b by (simp_all add: q_def r_def)
    have "b - a - 1 = - q * b + (b - 1 - r)" using a(1) by (simp add: algebra_simps)
    moreover have "(- q * b + (b - 1 - r)) div b = - q" using b a(2,3) by (subst div_mult_self3) auto
    ultimately have "(b - a - 1) div b = - q" by (simp only:)
    then show ?thesis by (simp only: q_def)
  qed
  moreover have "c_div (b - a - 1) b = (b - a - 1) div b" using False b by (simp add: c_div_def)
  ultimately show ?thesis using False by (simp add: Q_def)
qed (simp add: Q_def c_div_def)

definition leap_year :: "int \<Rightarrow> bool" where
  "leap_year y \<longleftrightarrow> y mod 4 = 0 \<and> (y mod 100 \<noteq> 0 \<or> y mod 400 = 0)"

definition month_length :: "int \<Rightarrow> int \<Rightarrow> int" where
  "month_length y m = (if m = 1 then (if leap_year y then 29 else 28) else if m \<in> {3, 5, 8, 10} then 30 else 31)"

lemma c_int_range: "\<lbrakk>- (2 ^ 31) \<le> x; x < 2 ^ 31\<rbrakk> \<Longrightarrow> c_int x = x"
  unfolding c_int_def by simp

text \<open>A day, counted from the first of March of the year 2000, as a place in the cycles of the calendar. A leap day is the last day of its cycle.\<close>

definition cycle_day :: "int \<Rightarrow> int \<Rightarrow> int \<Rightarrow> int \<Rightarrow> int \<Rightarrow> int \<Rightarrow> bool" where
  "cycle_day b y400 y100 y4 y d \<longleftrightarrow>
     b = 146097 * y400 + 36524 * y100 + 1461 * y4 + 365 * y + d \<and> 0 \<le> y100 \<and> y100 \<le> 3 \<and> 0 \<le> y4 \<and> y4 \<le> 24 \<and> 0 \<le> y \<and> y \<le> 3 \<and> 0 \<le> d \<and> d \<le> 365 \<and>
     (d = 365 \<longrightarrow> y = 3 \<and> (y4 = 24 \<longrightarrow> y100 = 3))"

lemma capped_div:
  fixes n :: int
  assumes "0 \<le> n" "n \<le> k * b" "0 < b" "0 < k" "q = n div b" "q' = (if q = k then q - 1 else q)"
  shows "0 \<le> q' \<and> q' \<le> k - 1 \<and> 0 \<le> n - q' * b \<and> n - q' * b \<le> b \<and> (n - q' * b = b \<longrightarrow> q' = k - 1 \<and> n = k * b)"
proof -
  have n: "n = q * b + n mod b" "0 \<le> n mod b" "n mod b < b" using assms by simp_all
  have q0: "0 \<le> q" using assms by (simp add: pos_imp_zdiv_nonneg_iff)
  have "n div b \<le> k * b div b" using assms by (intro zdiv_mono1) auto
  then have qk: "q \<le> k" using assms by simp
  show ?thesis
  proof (cases "q = k")
    case True
    then have "n = k * b" "q' = k - 1" using n assms(2,6) by auto
    moreover have "k * b - (k - 1) * b = b" by (simp add: algebra_simps)
    ultimately show ?thesis using assms(3,4) by simp
  next
    case False
    then have "q' = q" "n - q' * b = n mod b" using assms(6) n(1) by auto
    then show ?thesis using False q0 qk n(2,3) by auto
  qed
qed

lemma cycle_day_exists:
  assumes "y400 = b div 146097" "d0 = b mod 146097"
    and "y100 = (if d0 div 36524 = 4 then d0 div 36524 - 1 else d0 div 36524)" "d1 = d0 - y100 * 36524"
    and "y4 = (if d1 div 1461 = 25 then d1 div 1461 - 1 else d1 div 1461)" "d2 = d1 - y4 * 1461"
    and "y = (if d2 div 365 = 4 then d2 div 365 - 1 else d2 div 365)"
  shows "cycle_day b y400 y100 y4 y (d2 - y * 365) \<and> 0 \<le> d0 \<and> d0 < 146097 \<and> 0 \<le> d1 \<and> d1 \<le> 36524 \<and> 0 \<le> d2 \<and> d2 \<le> 1461"
proof -
  have d0: "0 \<le> d0" "d0 < 146097" "b = 146097 * y400 + d0" using assms(1,2) by simp_all
  have "0 \<le> y100 \<and> y100 \<le> 4 - 1 \<and> 0 \<le> d0 - y100 * 36524 \<and> d0 - y100 * 36524 \<le> 36524 \<and> (d0 - y100 * 36524 = 36524 \<longrightarrow> y100 = 4 - 1 \<and> d0 = 4 * 36524)"
    using d0(1,2) by (intro capped_div [OF _ _ _ _ refl assms(3)]) simp_all
  then have 1: "0 \<le> y100" "y100 \<le> 3" "0 \<le> d1" "d1 \<le> 36524" "d1 = 36524 \<longrightarrow> y100 = 3" by (simp_all add: assms(4))
  have "0 \<le> y4 \<and> y4 \<le> 25 - 1 \<and> 0 \<le> d1 - y4 * 1461 \<and> d1 - y4 * 1461 \<le> 1461 \<and> (d1 - y4 * 1461 = 1461 \<longrightarrow> y4 = 25 - 1 \<and> d1 = 25 * 1461)"
    using 1(3,4) by (intro capped_div [OF _ _ _ _ refl assms(5)]) simp_all
  then have 2: "0 \<le> y4" "y4 \<le> 24" "0 \<le> d2" "d2 \<le> 1460" using 1(4) by (simp_all add: assms(6))
  have "0 \<le> y \<and> y \<le> 4 - 1 \<and> 0 \<le> d2 - y * 365 \<and> d2 - y * 365 \<le> 365 \<and> (d2 - y * 365 = 365 \<longrightarrow> y = 4 - 1 \<and> d2 = 4 * 365)"
    using 2(3,4) by (intro capped_div [OF _ _ _ _ refl assms(7)]) simp_all
  then have 3: "0 \<le> y" "y \<le> 3" "0 \<le> d2 - y * 365" "d2 - y * 365 \<le> 365" "d2 - y * 365 = 365 \<longrightarrow> y = 3 \<and> d2 = 1460" by simp_all
  have leap: "d2 - y * 365 = 365 \<longrightarrow> y = 3 \<and> (y4 = 24 \<longrightarrow> y100 = 3)" using 3(5) 1(5) assms(6) by linarith
  have b: "b = 146097 * y400 + 36524 * y100 + 1461 * y4 + 365 * y + (d2 - y * 365)" using d0(3) assms(4,6) by simp
  show ?thesis unfolding cycle_day_def using d0(1,2) 1(1-4) 2(1-4) 3(1-4) leap b by simp
qed

lemma month_loop_Some:
  "\<lbrakk>ds \<noteq> []; d < last ds\<rbrakk> \<Longrightarrow> \<exists>i<length ds. month_loop d ds = Some i \<and> d < ds ! i \<and> (i \<noteq> 0 \<longrightarrow> ds ! (i - 1) \<le> d)"
proof (induction ds)
  case (Cons e ds)
  show ?case
  proof (cases "e \<le> d")
    case True
    then have "ds \<noteq> []" "d < last ds" using Cons.prems by (auto split: if_splits)
    from Cons.IH [OF this] obtain i where i: "i < length ds" "month_loop d ds = Some i" "d < ds ! i" "i \<noteq> 0 \<longrightarrow> ds ! (i - 1) \<le> d" by blast
    then show ?thesis using True by (intro exI [of _ "Suc i"]) (cases i; simp)
  qed simp
qed simp

lemma month_loop_spec:
  assumes "0 \<le> d" "d \<le> 365"
  obtains i where "i < 12" "month_loop d days_thru_month = Some i" "(if i \<noteq> 0 then days_thru_month ! (i - 1) else 0) \<le> d" "d < days_thru_month ! i"
proof -
  have "days_thru_month \<noteq> []" "d < last days_thru_month" "length days_thru_month = 12" using assms by (simp_all add: days_thru_month_def)
  with month_loop_Some [of days_thru_month d] assms(1) show thesis by (auto intro: that)
qed

text \<open>The result of \<open>time_to_tm\<close>, in the terms of the cycles.\<close>

definition tm_of :: "tm \<Rightarrow> int \<Rightarrow> int \<Rightarrow> int \<Rightarrow> int \<Rightarrow> int \<Rightarrow> int \<Rightarrow> int \<Rightarrow> nat \<Rightarrow> tm" where
  "tm_of tm s b y400 y100 y4 y d i =
     (let leap = (if y = 0 \<and> (y4 \<noteq> 0 \<or> y100 = 0) then 1 else 0); yd = 59 + d + leap; j = (if 10 \<le> i then 1 else 0) in
      tm\<lparr>tm_sec := s mod 60, tm_min := s div 60 mod 60, tm_hour := s div 3600, tm_mday := d - (if i \<noteq> 0 then days_thru_month ! (i - 1) else 0) + 1,
         tm_mon := int i + 2 - 12 * j, tm_year := y + 4 * y4 + 100 * y100 + 400 * y400 + 100 + j, tm_wday := (3 + b) mod 7,
         tm_yday := (if 365 + leap \<le> yd then yd - (365 + leap) else yd), tm_zone := ''GMT'', tm_gmtoff := 0\<rparr>)"

lemma c_rem_mod:
  assumes "0 < b"
  shows "(if c_rem a b < 0 then c_rem a b + b else c_rem a b) = a mod b"
  using pos_mod_sign [OF assms, of a] pos_mod_bound [OF assms, of a] pos_mod_bound [OF assms, of "- a"] pos_mod_sign [OF assms, of "- a"]
  by (cases "0 \<le> a") (auto simp: c_rem_def zmod_zminus1_eq_if simp del: pos_mod_sign pos_mod_bound)

lemma c_rem_bound:
  assumes "0 < b"
  shows "- b < c_rem a b" "c_rem a b < b"
  using pos_mod_sign [OF assms, of a] pos_mod_bound [OF assms, of a] pos_mod_bound [OF assms, of "- a"] pos_mod_sign [OF assms, of "- a"] assms
  by (simp_all add: c_rem_def del: pos_mod_sign pos_mod_bound)

text \<open>Times within about four million years of the epoch: there the number of days fits an \<open>int\<close>.\<close>

definition time_range :: "int \<Rightarrow> bool" where
  "time_range t \<longleftrightarrow> - (2 ^ 47) \<le> t \<and> t < 2 ^ 47"

lemma clock_split:
  assumes "0 \<le> s" "s < 86400"
  shows "c_div s 3600 = s div 3600" and "c_div (s - s div 3600 * 3600) 60 = s div 60 mod 60" and "s - s div 3600 * 3600 - s div 60 mod 60 * 60 = s mod 60"
proof -
  show "c_div s 3600 = s div 3600" using assms by (simp add: c_div_def)
  have h: "s - s div 3600 * 3600 = s mod 3600" by (simp add: minus_div_mult_eq_mod)
  have m: "s mod 3600 div 60 = s div 60 mod 60" using zmod_zmult2_eq [of 60 s 60] by simp
  have z: "s mod 3600 mod 60 = s mod 60" by (rule mod_mod_cancel) simp
  show "c_div (s - s div 3600 * 3600) 60 = s div 60 mod 60" unfolding h by (simp add: c_div_def m)
  show "s - s div 3600 * 3600 - s div 60 mod 60 * 60 = s mod 60" unfolding h m [symmetric] minus_div_mult_eq_mod by (rule z)
qed

lemma time_to_tm_eq:
  assumes t: "time_range t"
  obtains s b y400 y100 y4 y d i where "t - 951868800 = 86400 * b + s" "0 \<le> s" "s < 86400" "cycle_day b y400 y100 y4 y d"
    "i < 12" "(if i \<noteq> 0 then days_thru_month ! (i - 1) else 0) \<le> d" "d < days_thru_month ! i" "- 12000 < y400" "y400 < 12000"
    "\<forall>tm. time_to_tm t tm = Some (tm_of tm s b y400 y100 y4 y d i)"
proof -
  define b s where "b = (t - 951868800) div 86400" and "s = (t - 951868800) mod 86400"
  have ts: "t - 951868800 = 86400 * b + s" "0 \<le> s" "s < 86400" by (simp_all add: b_def s_def)
  define y400 d0 where "y400 = b div 146097" and "d0 = b mod 146097"
  have y400: "- 12000 < y400" "y400 < 12000" and d0: "b - y400 * 146097 = d0" using t ts unfolding y400_def d0_def time_range_def by (simp_all add: minus_div_mult_eq_mod, linarith+)
  define y100 where "y100 = (if d0 div 36524 = 4 then d0 div 36524 - 1 else d0 div 36524)"
  define d1 where "d1 = d0 - y100 * 36524"
  define y4 where "y4 = (if d1 div 1461 = 25 then d1 div 1461 - 1 else d1 div 1461)"
  define d2 where "d2 = d1 - y4 * 1461"
  define y where "y = (if d2 div 365 = 4 then d2 div 365 - 1 else d2 div 365)"
  define d where "d = d2 - y * 365"
  have c: "cycle_day b y400 y100 y4 y d" and r: "0 \<le> d0" "d0 < 146097" "0 \<le> d1" "d1 \<le> 36524" "0 \<le> d2" "d2 \<le> 1461"
    using cycle_day_exists [OF y400_def d0_def y100_def d1_def y4_def d2_def y_def] by (simp_all add: d_def)
  have d: "0 \<le> d" "d \<le> 365" and ys: "0 \<le> y100" "y100 \<le> 3" "0 \<le> y4" "y4 \<le> 24" "0 \<le> y" "y \<le> 3" using c by (simp_all add: cycle_day_def)
  from month_loop_spec [OF d] obtain i where i: "i < 12" "month_loop d days_thru_month = Some i" "(if i \<noteq> 0 then days_thru_month ! (i - 1) else 0) \<le> d" "d < days_thru_month ! i" .
  have q: "Q (t + (- 946684800 - 86400 * (31 + 29))) 86400 = b" "Q b 146097 = y400" by (simp_all add: Q_floor b_def y400_def)
  have cs: "c_int (t + (- 946684800 - 86400 * (31 + 29)) - b * 86400) = s" using ts by (subst c_int_range) simp_all
  have cy: "c_int y400 = y400" using y400 by (intro c_int_range) simp_all
  have dm: "(b - y400 * 146097) mod 2 ^ 32 = d0" using r by (simp add: d0)
  have cd: "c_int (d2 div 365) = d2 div 365" using r zdiv_mono1 [of d2 1461 365] by (intro c_int_range) (simp_all add: pos_imp_zdiv_nonneg_iff order_trans [of _ 0])
  have cw: "c_int (c_rem (3 + b) 7) = c_rem (3 + b) 7" using c_rem_bound [of 7 "3 + b"] by (intro c_int_range) simp_all
  have w: "(if c_int (c_rem (3 + b) 7) < 0 then c_int (c_rem (3 + b) 7) + 7 else c_int (c_rem (3 + b) 7)) = (3 + b) mod 7"
    unfolding cw by (rule c_rem_mod) simp
  have cyear: "c_int (y + (4 * y4 + 100 * y100 + 400 * y400 + 2000 - 1900)) = y + 4 * y4 + 100 * y100 + 400 * y400 + 100" using ys y400 by (subst c_int_range) simp_all
  have cyd: "c_int (60 + d) = 60 + d" "c_int (59 + d) = 59 + d" using d by (simp_all add: c_int_range)
  have "time_to_tm t tm = Some (tm_of tm s b y400 y100 y4 y d i)" for tm
    unfolding time_to_tm_def Let_def q cs cy dm cd w clock_split [OF ts(2,3)] y100_def [symmetric] d1_def [symmetric] y4_def [symmetric] d2_def [symmetric] y_def [symmetric] d_def [symmetric] cyear
    by (simp add: i(2) tm_of_def Let_def cyd)
  then show thesis using y400 by (intro that [OF ts c i(1,3,4)]) simp_all
qed

text \<open>Well-formed broken-down times: every field in its range, the day within its month of the Gregorian calendar, and the day of the year that of the date.\<close>

definition month_start :: "int \<Rightarrow> int \<Rightarrow> int" where
  "month_start y m = days_before_month ! nat m + (if 2 \<le> m \<and> leap_year y then 1 else 0)"

definition tm_valid :: "tm \<Rightarrow> bool" where
  "tm_valid tm \<longleftrightarrow>
     0 \<le> tm_sec tm \<and> tm_sec tm < 60 \<and> 0 \<le> tm_min tm \<and> tm_min tm < 60 \<and> 0 \<le> tm_hour tm \<and> tm_hour tm < 24 \<and>
     0 \<le> tm_mon tm \<and> tm_mon tm < 12 \<and> 1 \<le> tm_mday tm \<and> tm_mday tm \<le> month_length (1900 + tm_year tm) (tm_mon tm) \<and>
     0 \<le> tm_wday tm \<and> tm_wday tm < 7 \<and> tm_yday tm = month_start (1900 + tm_year tm) (tm_mon tm) + tm_mday tm - 1"

lemma cycle_leap:
  assumes "cycle_day b y400 y100 y4 y d"
  shows "leap_year (2000 + (y + 4 * y4 + 100 * y100 + 400 * y400)) \<longleftrightarrow> y = 0 \<and> (y4 \<noteq> 0 \<or> y100 = 0)"
proof -
  have r: "0 \<le> y100" "y100 \<le> 3" "0 \<le> y4" "y4 \<le> 24" "0 \<le> y" "y \<le> 3" using assms by (simp_all add: cycle_day_def)
  have "2000 + (y + 4 * y4 + 100 * y100 + 400 * y400) = y + 4 * (500 + y4 + 25 * y100 + 100 * y400)" by simp
  then have 4: "(2000 + (y + 4 * y4 + 100 * y100 + 400 * y400)) mod 4 = y" using r by (simp only: mod_mult_self2) simp
  have "2000 + (y + 4 * y4 + 100 * y100 + 400 * y400) = (y + 4 * y4) + 100 * (20 + y100 + 4 * y400)" by simp
  then have 100: "(2000 + (y + 4 * y4 + 100 * y100 + 400 * y400)) mod 100 = y + 4 * y4" using r by (simp only: mod_mult_self2) simp
  have "2000 + (y + 4 * y4 + 100 * y100 + 400 * y400) = (y + 4 * y4 + 100 * y100) + 400 * (5 + y400)" by simp
  then have 400: "(2000 + (y + 4 * y4 + 100 * y100 + 400 * y400)) mod 400 = y + 4 * y4 + 100 * y100" using r by (simp only: mod_mult_self2) simp
  show ?thesis unfolding leap_year_def 4 100 400 using r by auto
qed

lemma cycle_leap_end:
  assumes "cycle_day b y400 y100 y4 y 365"
  shows "leap_year (2001 + (y + 4 * y4 + 100 * y100 + 400 * y400))"
proof -
  have r: "0 \<le> y100" "y100 \<le> 3" "0 \<le> y4" "y4 \<le> 24" "y = 3" "y4 = 24 \<longrightarrow> y100 = 3" using assms by (simp_all add: cycle_day_def)
  have e4: "2001 + (y + 4 * y4 + 100 * y100 + 400 * y400) = 4 * (501 + y4 + 25 * y100 + 100 * y400)" using r(5) by simp
  have e100: "2001 + (y + 4 * y4 + 100 * y100 + 400 * y400) = 4 + 4 * y4 + 100 * (20 + y100 + 4 * y400)" using r(5) by simp
  show ?thesis
  proof (cases "y4 = 24")
    case True
    then have "2001 + (y + 4 * y4 + 100 * y100 + 400 * y400) = 400 * (6 + y400)" using r by simp
    then show ?thesis unfolding leap_year_def e4 [symmetric] by (metis e4 mod_mult_self1_is_0)
  next
    case False
    have "(4 + 4 * y4 + 100 * (20 + y100 + 4 * y400)) mod 100 = 4 + 4 * y4" using r False by (simp only: mod_mult_self2) simp
    then have "(2001 + (y + 4 * y4 + 100 * y100 + 400 * y400)) mod 100 \<noteq> 0" using r unfolding e100 by simp
    moreover have "(2001 + (y + 4 * y4 + 100 * y100 + 400 * y400)) mod 4 = 0" unfolding e4 by simp
    ultimately show ?thesis by (simp add: leap_year_def)
  qed
qed

text \<open>A month of the March-based year.\<close>

lemma lt12_cases: "(i :: nat) < 12 \<Longrightarrow> i = 0 \<or> i = 1 \<or> i = 2 \<or> i = 3 \<or> i = 4 \<or> i = 5 \<or> i = 6 \<or> i = 7 \<or> i = 8 \<or> i = 9 \<or> i = 10 \<or> i = 11"
  by presburger

lemma tm_of_valid:
  assumes s: "0 \<le> s" "s < 86400" and c: "cycle_day b y400 y100 y4 y d"
    and i: "i < 12" "(if i \<noteq> 0 then days_thru_month ! (i - 1) else 0) \<le> d" "d < days_thru_month ! i"
  shows "tm_valid (tm_of tm s b y400 y100 y4 y d i)"
proof -
  define Y where "Y = y + 4 * y4 + 100 * y100 + 400 * y400"
  have d: "0 \<le> d" "d \<le> 365" using c by (simp_all add: cycle_day_def)
  have l: "leap_year (2000 + Y) \<longleftrightarrow> y = 0 \<and> (y4 \<noteq> 0 \<or> y100 = 0)" using cycle_leap [OF c] by (simp add: Y_def)
  have e: "d = 365 \<Longrightarrow> leap_year (2001 + Y)" using cycle_leap_end c by (simp add: Y_def)
  have clock: "0 \<le> s div 3600" "s div 3600 < 24" using s by (auto simp: pos_imp_zdiv_nonneg_iff)
  have year: "y + 4 * y4 + 100 * y100 + 400 * y400 = Y" by (simp add: Y_def)
  have dlt: "\<not> leap_year (2001 + Y) \<longrightarrow> d \<le> 364" using d e by linarith
  note defs = tm_valid_def tm_of_def Let_def year month_length_def month_start_def days_thru_month_def days_before_month_def
  from lt12_cases [OF i(1)] show ?thesis
    by (elim disjE; use i(2,3) clock l dlt in \<open>simp add: defs\<close>)
qed

text \<open>The inverse: the day number of a date, counted from the first of January of the year 2000.\<close>

lemma leap_days:
  assumes "cycle_day b y400 y100 y4 y d"
  shows "(y + 4 * y4 + 100 * y100 + 400 * y400) div 4 = y4 + 25 * y100 + 100 * y400" "(y4 + 25 * y100 + 100 * y400) div 25 = y100 + 4 * y400" "(y100 + 4 * y400) div 4 = y400"
proof -
  have r: "0 \<le> y100" "y100 \<le> 3" "0 \<le> y4" "y4 \<le> 24" "0 \<le> y" "y \<le> 3" using assms by (simp_all add: cycle_day_def)
  have e: "y + 4 * y4 + 100 * y100 + 400 * y400 = y + 4 * (y4 + 25 * y100 + 100 * y400)" "y4 + 25 * y100 + 100 * y400 = y4 + 25 * (y100 + 4 * y400)"
    by simp_all
  have q: "y div 4 = 0" "y4 div 25 = 0" "y100 div 4 = 0" using r by (simp_all add: div_pos_pos_trivial)
  show "(y + 4 * y4 + 100 * y100 + 400 * y400) div 4 = y4 + 25 * y100 + 100 * y400" unfolding e(1) by (subst div_mult_self2) (simp_all add: q)
  show "(y4 + 25 * y100 + 100 * y400) div 25 = y100 + 4 * y400" unfolding e(2) by (subst div_mult_self2) (simp_all add: q)
  show "(y100 + 4 * y400) div 4 = y400" by (subst div_mult_self2) (simp_all add: q)
qed

lemma norm_month_id: "\<lbrakk>0 \<le> m; m < 12\<rbrakk> \<Longrightarrow> norm_month y m = (y, m)"
  by (simp add: norm_month_def)

definition same_minute :: "tm \<Rightarrow> tm \<Rightarrow> bool" where
  "same_minute tm' tm \<longleftrightarrow>
     tm_year tm' = tm_year tm \<and> tm_mon tm' = tm_mon tm \<and> tm_mday tm' = tm_mday tm \<and> tm_hour tm' = tm_hour tm \<and> tm_min tm' = tm_min tm"

lemma same_minute_simps [simp]:
  "same_minute tm tm" "same_minute (tm'\<lparr>tm_sec := x\<rparr>) tm = same_minute tm' tm" "same_minute (tm'\<lparr>tm_isdst := k\<rparr>) tm = same_minute tm' tm"
  by (simp_all add: same_minute_def)

lemma tm_to_time_of:
  assumes t: "t - 951868800 = 86400 * b + s" "0 \<le> s" "s < 86400" and c: "cycle_day b y400 y100 y4 y d" and y400: "- 12000 < y400" "y400 < 12000"
    and i: "i < 12" "(if i \<noteq> 0 then days_thru_month ! (i - 1) else 0) \<le> d" "d < days_thru_month ! i"
    and same: "same_minute tm' (tm_of tm s b y400 y100 y4 y d i)"
  shows "tm_to_time tm' = t - s mod 60 + tm_sec tm'"
proof -
  define Y where "Y = y + 4 * y4 + 100 * y100 + 400 * y400"
  define j :: int where "j = (if 10 \<le> i then 1 else 0)"
  define m where "m = int i + 2 - 12 * j"
  have fields: "tm_year tm' = Y + 100 + j" "tm_mon tm' = m" "tm_mday tm' = d - (if i \<noteq> 0 then days_thru_month ! (i - 1) else 0) + 1"
    "tm_hour tm' = s div 3600" "tm_min tm' = s div 60 mod 60" using same by (simp_all add: same_minute_def tm_of_def Let_def Y_def j_def m_def)
  have m: "0 \<le> m" "m < 12" "Y + j - (if m < 2 then 1 else 0) = Y" using i(1) by (auto simp: m_def j_def)
  have r: "0 \<le> y100" "y100 \<le> 3" "0 \<le> y4" "y4 \<le> 24" "0 \<le> y" "y \<le> 3" "0 \<le> d" "d \<le> 365" using c by (simp_all add: cycle_day_def)
  have z: "c_int (y4 + 25 * y100 + 100 * y400) = y4 + 25 * y100 + 100 * y400" using r y400 by (intro c_int_range) simp_all
  have mday: "d - (if i \<noteq> 0 then days_thru_month ! (i - 1) else 0) + 1 + 365 * j + days_before_month ! nat m = d + 60"
    using lt12_cases [OF i(1)] by (elim disjE) (simp_all add: m_def j_def days_thru_month_def days_before_month_def)
  have "d - (if i \<noteq> 0 then days_thru_month ! (i - 1) else 0) + 1 + ((Y + j) * 365 + (y4 + 25 * y100 + 100 * y400) - (y100 + 4 * y400) + y400 + days_before_month ! nat m)
      = d + 60 + (Y * 365 + (y4 + 25 * y100 + 100 * y400) - (y100 + 4 * y400) + y400)" using mday by (simp add: algebra_simps)
  also have "\<dots> = b + 60" using c by (simp add: Y_def cycle_day_def)
  finally have day: "d - (if i \<noteq> 0 then days_thru_month ! (i - 1) else 0) + 1 + ((Y + j) * 365 + (y4 + 25 * y100 + 100 * y400) - (y100 + 4 * y400) + y400 + days_before_month ! nat m) = b + 60" .
  have b: "c_int (b + 60) = b + 60" using c y400 r by (intro c_int_range) (simp_all add: cycle_day_def)
  have nm: "norm_month (Y + 100 + j + - 100) m = (Y + j, m)" using m(1,2) by (simp add: norm_month_id)
  have zs: "Q Y 4 = y4 + 25 * y100 + 100 * y400" "Q (y4 + 25 * y100 + 100 * y400) 25 = y100 + 4 * y400" "Q (y100 + 4 * y400) 4 = y400"
    using leap_days [OF c] by (simp_all add: Q_floor Y_def)
  have "tm_to_time tm' = (b + 60) * 86400 + s div 3600 * 3600 + s div 60 mod 60 * 60 + tm_sec tm' + 946684800"
    unfolding tm_to_time_def Let_def fields nm prod.case m(3) zs z day b by simp
  then show ?thesis using t(1) clock_split(3) [OF t(2,3)] by simp
qed

text \<open>What the clients use: on every time in range \<open>time_to_tm\<close> returns, and its result is inverted by \<open>tm_to_time\<close>, also after the seconds have been shifted.\<close>

lemma time_to_tm_ok:
  assumes "time_range t"
  shows "\<exists>tm'. time_to_tm t tm = Some tm' \<and> tm_valid tm' \<and> tm_wday tm' = (4 + t div 86400) mod 7 \<and> tm_isdst tm' = tm_isdst tm \<and>
    (\<forall>tm''. same_minute tm'' tm' \<longrightarrow> tm_to_time tm'' = t + (tm_sec tm'' - tm_sec tm'))"
proof -
  from time_to_tm_eq [OF assms] obtain s b y400 y100 y4 y d i where t: "t - 951868800 = 86400 * b + s" "0 \<le> s" "s < 86400" and c: "cycle_day b y400 y100 y4 y d"
    and i: "i < 12" "(if i \<noteq> 0 then days_thru_month ! (i - 1) else 0) \<le> d" "d < days_thru_month ! i" and y: "- 12000 < y400" "y400 < 12000"
    and e: "\<forall>tm. time_to_tm t tm = Some (tm_of tm s b y400 y100 y4 y d i)" .
  let ?tm = "tm_of tm s b y400 y100 y4 y d i"
  have sec: "tm_sec ?tm = s mod 60" "tm_isdst ?tm = tm_isdst tm" "tm_wday ?tm = (3 + b) mod 7" by (simp_all add: tm_of_def Let_def)
  have "t = 86400 * (b + 11017) + s" using t(1) by simp
  then have "t div 86400 = b + 11017" using t(2,3) by (metis div_mult_self4 div_pos_pos_trivial add_0_right add.commute zero_neq_numeral)
  then have "4 + t div 86400 = (3 + b) + 7 * 1574" by simp
  then have w: "tm_wday ?tm = (4 + t div 86400) mod 7" unfolding sec(3) by (simp only: mod_mult_self2)
  have "\<forall>tm''. same_minute tm'' ?tm \<longrightarrow> tm_to_time tm'' = t + (tm_sec tm'' - tm_sec ?tm)"
    unfolding sec(1) by (intro allI impI) (simp add: tm_to_time_of [OF t c y i])
  with e [rule_format, of tm] tm_of_valid [OF t(2,3) c i, of tm] w sec(2) show ?thesis by blast
qed


section \<open>Local time\<close>

lemma time_to_tm_isdst:
  assumes "time_range t" "time_to_tm t tm = Some tm1"
  shows "time_to_tm t a = Some (tm1\<lparr>tm_isdst := tm_isdst a\<rparr>)"
proof -
  from time_to_tm_eq [OF assms(1)] obtain s b y400 y100 y4 y d i where e: "\<forall>tm. time_to_tm t tm = Some (tm_of tm s b y400 y100 y4 y d i)" by metis
  moreover have "tm_of a s b y400 y100 y4 y d i = (tm_of tm s b y400 y100 y4 y d i)\<lparr>tm_isdst := tm_isdst a\<rparr>" by (cases a; cases tm) (simp add: tm_of_def Let_def)
  ultimately show ?thesis using assms(2) by simp
qed

definition rule_ok :: "rule \<Rightarrow> bool" where
  "rule_ok r \<longleftrightarrow> r_month r = 74 \<or> r_month r = 76 \<or> (0 \<le> r_month r \<and> r_month r < 12)"

text \<open>The offsets of a zone are at most a few days.\<close>

definition zone_ok :: "tz \<Rightarrow> bool" where
  "zone_ok z \<longleftrightarrow> \<bar>timezone z\<bar> \<le> 2 ^ 20 \<and> \<bar>dst_offset z\<bar> \<le> 2 ^ 20 \<and> rule_ok (dst_start z) \<and> rule_ok (dst_end z)"

lemma cutoff_yday_Some: "rule_ok r \<Longrightarrow> \<exists>d. cutoff_yday tm r = Some d"
  by (auto simp: rule_ok_def cutoff_yday_def Let_def)

lemma dst_adjust_cases:
  assumes "zone_ok z" "tm_isdst tm < 0"
  shows "dst_adjust z tm = Some (tm\<lparr>tm_isdst := 0\<rparr>) \<or>
    dst_adjust z tm = time_to_tm (tm_to_time (tm\<lparr>tm_sec := tm_sec tm - dst_offset z, tm_isdst := 1\<rparr>)) (tm\<lparr>tm_sec := tm_sec tm - dst_offset z, tm_isdst := 1\<rparr>)"
proof -
  obtain a b where "cutoff_yday tm (dst_start z) = Some a" "cutoff_yday tm (dst_end z) = Some b" using assms(1) cutoff_yday_Some by (meson zone_ok_def)
  then show ?thesis using assms(2) by (simp add: dst_adjust_def Let_def)
qed

lemma mktime_of:
  assumes z: "zone_ok z" and r: "time_range lt" and tm: "time_to_tm lt a = Some tm1" and isdst: "k = 0 \<or> k = 1"
  shows "mktime z (tm1\<lparr>tm_isdst := k\<rparr>) = Some (lt + timezone z + (if k = 1 then dst_offset z else 0), tm1\<lparr>tm_isdst := k\<rparr>)"
proof -
  from time_to_tm_ok [OF r, of a] tm have v: "tm_valid tm1" and inv: "\<And>tm''. same_minute tm'' tm1 \<Longrightarrow> tm_to_time tm'' = lt + (tm_sec tm'' - tm_sec tm1)" by auto
  have c: "c_int (tm_sec tm1 + timezone z) = tm_sec tm1 + timezone z" using v z by (intro c_int_range) (auto simp: tm_valid_def zone_ok_def)
  have back_to: "time_to_tm lt x = Some (tm1\<lparr>tm_isdst := tm_isdst x\<rparr>)" for x by (rule time_to_tm_isdst [OF r tm])
  show ?thesis using isdst by (elim disjE) (simp_all add: mktime_def Let_def c inv back_to dst_adjust_def)
qed


lemma c_rem_0: "0 < b \<Longrightarrow> c_rem a b = 0 \<longleftrightarrow> a mod b = 0"
  by (simp add: c_rem_def mod_eq_0_iff_dvd)

lemma is_leap_year: "is_leap y = leap_year (1900 + y)"
proof -
  have "1900 + y = (y - 100) + 4 * 500" "1900 + y = (y - 100) + 100 * 20" "1900 + y = (y - 100) + 400 * 5" by simp_all
  then have "(1900 + y) mod 4 = (y - 100) mod 4" "(1900 + y) mod 100 = (y - 100) mod 100" "(1900 + y) mod 400 = (y - 100) mod 400" by (metis mod_mult_self2)+
  then show ?thesis by (simp add: is_leap_def leap_year_def c_rem_0 Let_def)
qed

lemma month_tables:
  assumes "0 \<le> m" "m < 12"
  shows "days_in_month ! nat m + (if leap_year y \<and> m = 1 then 1 else 0) = month_length y m" "28 \<le> month_length y m" "month_length y m \<le> 31"
    "0 \<le> month_start y m" "month_start y m \<le> 335" "m < 11 \<Longrightarrow> (if 1 < m \<and> leap_year y then first_day ! nat m + 1 else first_day ! nat m) = month_start y m"
proof -
  obtain i where i: "m = int i" "i < 12" using assms by (metis nat_less_numeral_power_cancel_iff nonneg_int_cases of_nat_less_numeral_iff)
  note defs = days_in_month_def month_length_def month_start_def days_before_month_def first_day_def
  show "days_in_month ! nat m + (if leap_year y \<and> m = 1 then 1 else 0) = month_length y m" using lt12_cases [OF i(2)] unfolding i(1) by (elim disjE) (simp_all add: defs)
  show "28 \<le> month_length y m" "month_length y m \<le> 31" by (simp_all add: month_length_def)
  show "0 \<le> month_start y m" "month_start y m \<le> 335" using lt12_cases [OF i(2)] unfolding i(1) by (elim disjE; simp add: defs)+
  show "m < 11 \<Longrightarrow> (if 1 < m \<and> leap_year y then first_day ! nat m + 1 else first_day ! nat m) = month_start y m"
    using lt12_cases [OF i(2)] unfolding i(1) by (elim disjE) (simp_all add: defs)
qed

lemma nth_weekday:
  fixes first wday yday day week len :: int
  assumes "0 \<le> wday" "wday \<le> 6" "0 \<le> yday" "0 \<le> first" "first \<le> 335" "0 \<le> week" "week \<le> 4" "0 \<le> day" "day \<le> 6" "28 \<le> len" "len \<le> 31"
    and mday0: "mday0 = c_rem (day - (first + wday - yday) + 1400) 7 + 7 * week" and mday: "mday = (if len \<le> mday0 then mday0 - 7 else mday0)"
  shows "0 \<le> mday" "mday < len" "(wday + (mday + first - yday)) mod 7 = day" "week < 4 \<Longrightarrow> mday div 7 = week" "week = 4 \<Longrightarrow> len \<le> mday + 7"
proof -
  define e where "e = day - (first + wday - yday) + 1400"
  have e: "0 \<le> e mod 7" "e mod 7 < 7" "c_rem e 7 = e mod 7" using assms by (simp_all add: c_rem_def e_def)
  have m0: "mday0 = e mod 7 + 7 * week" using mday0 e(3) by (simp add: e_def)
  show "0 \<le> mday" "mday < len" using m0 e(1,2) assms(6,7,10) mday by (auto split: if_splits)
  show "week = 4 \<Longrightarrow> len \<le> mday + 7" using m0 e(1,2) assms(11) mday by (auto split: if_splits)
  show "week < 4 \<Longrightarrow> mday div 7 = week" using m0 e(1,2) assms(10) mday by (auto split: if_splits)
  obtain k where k: "mday = e + 7 * k"
  proof -
    have "e mod 7 = e + 7 * (- (e div 7))" by (simp add: minus_mult_div_eq_mod [symmetric])
    then have "mday0 = e + 7 * (week - e div 7)" using m0 by simp
    then show thesis using mday that [of "week - e div 7"] that [of "week - e div 7 - 1"] by (auto split: if_splits)
  qed
  have "wday + (mday + first - yday) = day + 7 * (200 + k)" by (simp add: k e_def)
  then have "(wday + (mday + first - yday)) mod 7 = day mod 7" by (simp only: mod_mult_self2)
  then show "(wday + (mday + first - yday)) mod 7 = day" using assms(8,9) by simp
qed


section \<open>Properties\<close>

text \<open>C21: A time converted to broken-down time is a date of the Gregorian calendar: every field is in its range, the day exists in its month of its year, leap days included, the day
  of the year is that of the date, and the weekday advances by one with each day. The date denotes the time it came from: \<open>timegm\<close> inverts \<open>gmtime_r\<close>.\<close>

theorem gmtime_r_valid:
  assumes "time_range t"
  shows "\<exists>tm'. gmtime_r t tm = Some tm' \<and> tm_valid tm' \<and> tm_isdst tm' = 0 \<and> tm_wday tm' = (4 + t div 86400) mod 7 \<and> timegm tm' = t"
proof -
  from time_to_tm_ok [OF assms, of tm] obtain tm' where "time_to_tm t tm = Some tm'" "tm_valid tm'" "tm_wday tm' = (4 + t div 86400) mod 7"
    "\<forall>tm''. same_minute tm'' tm' \<longrightarrow> tm_to_time tm'' = t + (tm_sec tm'' - tm_sec tm')" by blast
  then show ?thesis by (simp add: gmtime_r_def timegm_def tm_valid_def)
qed

text \<open>C22: \<open>mktime\<close> inverts \<open>localtime_r\<close> in every zone, inside and outside daylight saving time: it returns the time the broken-down time came from, and
  leaves the broken-down time as it was. In particular both return.\<close>

theorem mktime_localtime_r:
  assumes z: "zone_ok z" and t: "- (2 ^ 46) \<le> t" "t < 2 ^ 46"
  shows "\<exists>tm'. localtime_r z t tm = Some tm' \<and> mktime z tm' = Some (t, tm')"
proof -
  have r: "time_range (t - timezone z)" "time_range (t - timezone z - dst_offset z)" using z t by (auto simp: time_range_def zone_ok_def)
  from time_to_tm_ok [OF r(1), of tm] obtain tm1 where tm1: "time_to_tm (t - timezone z) tm = Some tm1"
    and inv: "\<And>tm''. same_minute tm'' tm1 \<Longrightarrow> tm_to_time tm'' = t - timezone z + (tm_sec tm'' - tm_sec tm1)" by auto
  let ?tm2 = "tm1\<lparr>tm_isdst := - 1\<rparr>"
  let ?tm3 = "?tm2\<lparr>tm_sec := tm_sec ?tm2 - dst_offset z, tm_isdst := 1\<rparr>"
  have l: "localtime_r z t tm = dst_adjust z ?tm2" by (simp add: localtime_r_def tm1)
  have t3: "tm_to_time ?tm3 = t - timezone z - dst_offset z" by (simp add: inv)
  from time_to_tm_ok [OF r(2), of ?tm3] obtain tm4 where tm4: "time_to_tm (t - timezone z - dst_offset z) ?tm3 = Some tm4" "tm_isdst tm4 = 1" by auto
  have "tm4\<lparr>tm_isdst := 1\<rparr> = tm4" using tm4(2) by (cases tm4) simp
  moreover have "dst_adjust z ?tm2 = Some (tm1\<lparr>tm_isdst := 0\<rparr>) \<or> dst_adjust z ?tm2 = Some tm4"
    using dst_adjust_cases [OF z, of ?tm2] unfolding t3 tm4 by simp
  ultimately consider "localtime_r z t tm = Some (tm1\<lparr>tm_isdst := 0\<rparr>)" | "localtime_r z t tm = Some (tm4\<lparr>tm_isdst := 1\<rparr>)" unfolding l by metis
  then show ?thesis by cases (simp_all add: mktime_of [OF z r(1) tm1] mktime_of [OF z r(2) tm4(1)])
qed

text \<open>C33: A rule that names a month, a weekday and an occurrence, in any month but December, gives the day of the year it means: a day of that month, on that weekday, and
  the occurrence asked for, where the fifth is the last.\<close>

theorem cutoff_yday_weekday:
  assumes tm: "tm_valid tm" and r: "0 \<le> r_month r" "r_month r < 11" "0 \<le> r_week r" "r_week r \<le> 4" "0 \<le> r_day r" "r_day r \<le> 6"
  shows "\<exists>d. cutoff_yday tm r = Some d \<and>
    (let y = 1900 + tm_year tm; m = r_month r; first = month_start y m; len = month_length y m in
     first \<le> d \<and> d < first + len \<and> (tm_wday tm + (d - tm_yday tm)) mod 7 = r_day r \<and>
     (r_week r < 4 \<longrightarrow> (d - first) div 7 = r_week r) \<and> (r_week r = 4 \<longrightarrow> first + len \<le> d + 7))"
proof -
  let ?y = "1900 + tm_year tm" and ?m = "r_month r"
  have m: "0 \<le> ?m" "?m < 12" using r by simp_all
  note tab = month_tables [OF m, of ?y]
  have y: "0 \<le> tm_yday tm" using tm month_tables(4) [of "tm_mon tm" ?y] by (simp add: tm_valid_def)
  define mday0 where "mday0 = c_rem (r_day r - (month_start ?y ?m + tm_wday tm - tm_yday tm) + 1400) 7 + 7 * r_week r"
  define mday where "mday = (if month_length ?y ?m \<le> mday0 then mday0 - 7 else mday0)"
  have "cutoff_yday tm r = Some (mday + month_start ?y ?m)"
    unfolding cutoff_yday_def Let_def is_leap_year tab(1) tab(6) [OF r(2)] mday_def mday0_def using r(2) m by simp
  moreover have w: "0 \<le> tm_wday tm" "tm_wday tm \<le> 6" using tm by (simp_all add: tm_valid_def)
  note nth_weekday [OF w y tab(4,5) r(3-6) tab(2,3) mday0_def mday_def]
  ultimately show ?thesis by (simp add: Let_def)
qed

text \<open>In December the table of first days is one too large, as if every year were a leap year: for the first Monday of December 2014, which is the first day of the month and day
  334 of the year, the rule gives the day a week later.\<close>

definition december_2014 :: tm where
  "december_2014 = \<lparr>tm_sec = 0, tm_min = 0, tm_hour = 0, tm_mday = 1, tm_mon = 11, tm_year = 114, tm_wday = 1, tm_yday = 334, tm_isdst = 0, tm_gmtoff = 0, tm_zone = ''GMT''\<rparr>"

definition first_monday_of_december :: rule where
  "first_monday_of_december = \<lparr>r_month = 11, r_week = 0, r_day = 1, r_time = 7200\<rparr>"

theorem cutoff_yday_december:
  "tm_valid december_2014 \<and> month_start 2014 11 = 334 \<and> tm_wday december_2014 = r_day first_monday_of_december \<and> tm_yday december_2014 = 334 \<and>
   cutoff_yday december_2014 first_monday_of_december = Some 341"
  by (simp add: december_2014_def first_monday_of_december_def tm_valid_def month_start_def month_length_def leap_year_def days_before_month_def cutoff_yday_def first_day_def days_in_month_def
      is_leap_def c_rem_def Let_def)


section \<open>Instances\<close>

definition epoch :: tm where
  "epoch = \<lparr>tm_sec = 0, tm_min = 0, tm_hour = 0, tm_mday = 1, tm_mon = 0, tm_year = 70, tm_wday = 4, tm_yday = 0, tm_isdst = 0, tm_gmtoff = 0, tm_zone = ''GMT''\<rparr>"

text \<open>The European zone of one hour east, whose clock is set forward on the last Sunday of March and back on that of October.\<close>

definition CET :: tz where
  "CET = \<lparr>timezone = - 3600, daylight = True, dst_offset = - 3600, dst_start = \<lparr>r_month = 2, r_week = 4, r_day = 0, r_time = 7200\<rparr>,
     dst_end = \<lparr>r_month = 9, r_week = 4, r_day = 0, r_time = 10800\<rparr>\<rparr>"

theorem gmtime_r_valid_witness:
  "\<exists>tm'. gmtime_r 1709164800 epoch = Some tm' \<and> tm_valid tm' \<and> tm_isdst tm' = 0 \<and> tm_wday tm' = (4 + 1709164800 div 86400) mod 7 \<and> timegm tm' = 1709164800"
  by (rule gmtime_r_valid) (simp add: time_range_def)

theorem mktime_localtime_r_witness: "\<exists>tm'. localtime_r CET 1720000000 epoch = Some tm' \<and> mktime CET tm' = Some (1720000000, tm')"
  by (rule mktime_localtime_r) (simp_all add: CET_def zone_ok_def rule_ok_def)

theorem cutoff_yday_weekday_witness: "\<exists>d. cutoff_yday epoch (dst_start CET) = Some d \<and> 59 \<le> d \<and> d < 90 \<and> (4 + d) mod 7 = 0 \<and> 83 \<le> d"
  using cutoff_yday_weekday [of epoch "dst_start CET"]
  by (simp add: CET_def epoch_def tm_valid_def month_start_def month_length_def leap_year_def days_before_month_def Let_def)

end
