(* ===== verification/Libc_String.thy ===== *)
theory Libc_String
  imports Prelude
begin

text \<open>
  The string routines of \<^verbatim>\<open>libc/string\<close> that work a machine word at a time. Memory is a function from addresses to bytes, and a word is loaded and stored in little-endian order.
  A loop over a string that has no end is \<open>None\<close>. Words are read only at aligned addresses, so a word that holds a byte of a string may also hold bytes behind its end, but is in the same page.
\<close>

section \<open>Definitions\<close>

type_synonym memory = "nat \<Rightarrow> u8"

definition ALIGN :: nat where "ALIGN = 8"

definition ONES :: u64 where "ONES = 0x0101010101010101"

definition HIGHS :: u64 where "HIGHS = ONES * 128"

definition HASZERO :: "u64 \<Rightarrow> u64" where
  "HASZERO x = (x - ONES) AND NOT x AND HIGHS"

definition load64 :: "memory \<Rightarrow> nat \<Rightarrow> u64" where
  "load64 m a = word_of_int (horner_sum uint 256 (map (\<lambda>k. m (a + k)) [0..<8]))"

definition store64 :: "memory \<Rightarrow> nat \<Rightarrow> u64 \<Rightarrow> memory" where
  "store64 m a w = (\<lambda>x. if a \<le> x \<and> x < a + 8 then word_of_int (uint w div 256 ^ (x - a)) else m x)"

text \<open>\<^verbatim>\<open>strlen\<close>: bytes up to an aligned address, words, and the bytes of the last word.\<close>

function strlen_align :: "memory \<Rightarrow> nat \<Rightarrow> nat + nat" where
  "strlen_align m s = (if s mod ALIGN \<noteq> 0 then if m s = 0 then Inl s else strlen_align m (s + 1) else Inr s)"
  by pat_completeness auto
termination by (relation "measure (\<lambda>(m, s). (8 - s mod 8) mod 8)") (auto simp: ALIGN_def mod_Suc)

declare strlen_align.simps [simp del]

partial_function (option) strlen_words :: "memory \<Rightarrow> nat \<Rightarrow> nat option" where
  "strlen_words m w = (if HASZERO (load64 m w) = 0 then strlen_words m (w + 8) else Some w)"

partial_function (option) strlen_bytes :: "memory \<Rightarrow> nat \<Rightarrow> nat option" where
  "strlen_bytes m s = (if m s \<noteq> 0 then strlen_bytes m (s + 1) else Some s)"

definition strlen :: "memory \<Rightarrow> nat \<Rightarrow> nat option" where
  "strlen m a =
     (case strlen_align m a of
        Inl s \<Rightarrow> Some (s - a)
      | Inr s \<Rightarrow> (case strlen_words m s of
          None \<Rightarrow> None
        | Some w \<Rightarrow> map_option (\<lambda>s. s - a) (strlen_bytes m w)))"

text \<open>\<^verbatim>\<open>strchrnul\<close> and \<^verbatim>\<open>strchr\<close>.\<close>

function strchrnul_align :: "memory \<Rightarrow> u8 \<Rightarrow> nat \<Rightarrow> nat + nat" where
  "strchrnul_align m c s = (if s mod ALIGN \<noteq> 0 then if m s = 0 \<or> m s = c then Inl s else strchrnul_align m c (s + 1) else Inr s)"
  by pat_completeness auto
termination by (relation "measure (\<lambda>(m, c, s). (8 - s mod 8) mod 8)") (auto simp: ALIGN_def mod_Suc)

declare strchrnul_align.simps [simp del]

partial_function (option) strchrnul_words :: "memory \<Rightarrow> u64 \<Rightarrow> nat \<Rightarrow> nat option" where
  "strchrnul_words m k w = (if HASZERO (load64 m w) = 0 \<and> HASZERO (load64 m w XOR k) = 0 then strchrnul_words m k (w + 8) else Some w)"

partial_function (option) strchrnul_bytes :: "memory \<Rightarrow> u8 \<Rightarrow> nat \<Rightarrow> nat option" where
  "strchrnul_bytes m c s = (if m s \<noteq> 0 \<and> m s \<noteq> c then strchrnul_bytes m c (s + 1) else Some s)"

definition strchrnul :: "memory \<Rightarrow> nat \<Rightarrow> int \<Rightarrow> nat option" where
  "strchrnul m s i =
     (let c = word_of_int i :: u8 in
      if c = 0 then map_option (\<lambda>n. s + n) (strlen m s)
      else (case strchrnul_align m c s of
          Inl s \<Rightarrow> Some s
        | Inr s \<Rightarrow> (case strchrnul_words m (ONES * ucast c) s of
            None \<Rightarrow> None
          | Some w \<Rightarrow> strchrnul_bytes m c w)))"

text \<open>A null result is \<open>Some None\<close>.\<close>

definition strchr :: "memory \<Rightarrow> nat \<Rightarrow> int \<Rightarrow> nat option option" where
  "strchr m s i = map_option (\<lambda>r. if m r = word_of_int i then Some r else None) (strchrnul m s i)"

text \<open>\<^verbatim>\<open>memchr\<close>; its loops count the remaining bytes down.\<close>

fun memchr_align :: "memory \<Rightarrow> u8 \<Rightarrow> nat \<Rightarrow> nat \<Rightarrow> nat \<times> nat" where
  "memchr_align m c s 0 = (s, 0)"
| "memchr_align m c s (Suc n) = (if s mod 8 \<noteq> 0 \<and> m s \<noteq> c then memchr_align m c (s + 1) n else (s, Suc n))"

function memchr_words :: "memory \<Rightarrow> u64 \<Rightarrow> nat \<Rightarrow> nat \<Rightarrow> nat \<times> nat" where
  "memchr_words m k w n = (if 8 \<le> n \<and> HASZERO (load64 m w XOR k) = 0 then memchr_words m k (w + 8) (n - 8) else (w, n))"
  by pat_completeness auto
termination by (relation "measure (\<lambda>(m, k, w, n). n)") auto

declare memchr_words.simps [simp del]

fun memchr_bytes :: "memory \<Rightarrow> u8 \<Rightarrow> nat \<Rightarrow> nat \<Rightarrow> nat \<times> nat" where
  "memchr_bytes m c s 0 = (s, 0)"
| "memchr_bytes m c s (Suc n) = (if m s \<noteq> c then memchr_bytes m c (s + 1) n else (s, Suc n))"

definition memchr :: "memory \<Rightarrow> nat \<Rightarrow> int \<Rightarrow> nat \<Rightarrow> nat option" where
  "memchr m src i n =
     (let c = word_of_int i :: u8;
          (s, n) = memchr_align m c src n;
          (s, n) = (if n \<noteq> 0 \<and> m s \<noteq> c then
            (let (w, n) = memchr_words m (ONES * ucast c) s n in memchr_bytes m c w n) else (s, n))
      in if n \<noteq> 0 then Some s else None)"

text \<open>\<^verbatim>\<open>stpcpy\<close>, \<^verbatim>\<open>strcpy\<close> and \<^verbatim>\<open>strcat\<close>. The loops return the memory and the positions in destination and source.\<close>

function stpcpy_align :: "memory \<Rightarrow> nat \<Rightarrow> nat \<Rightarrow> memory \<times> nat + memory \<times> nat \<times> nat" where
  "stpcpy_align m d s =
     (if s mod ALIGN \<noteq> 0 then
        (let m' = m(d := m s) in if m s = 0 then Inl (m', d) else stpcpy_align m' (d + 1) (s + 1))
      else Inr (m, d, s))"
  by pat_completeness auto
termination by (relation "measure (\<lambda>(m, d, s). (8 - s mod 8) mod 8)") (auto simp: ALIGN_def mod_Suc)

declare stpcpy_align.simps [simp del]

partial_function (option) stpcpy_words :: "memory \<Rightarrow> nat \<Rightarrow> nat \<Rightarrow> (memory \<times> nat \<times> nat) option" where
  "stpcpy_words m wd ws = (if HASZERO (load64 m ws) = 0 then stpcpy_words (store64 m wd (load64 m ws)) (wd + 8) (ws + 8) else Some (m, wd, ws))"

partial_function (option) stpcpy_bytes :: "memory \<Rightarrow> nat \<Rightarrow> nat \<Rightarrow> (memory \<times> nat) option" where
  "stpcpy_bytes m d s = (let m' = m(d := m s) in if m s \<noteq> 0 then stpcpy_bytes m' (d + 1) (s + 1) else Some (m', d))"

definition stpcpy :: "memory \<Rightarrow> nat \<Rightarrow> nat \<Rightarrow> (memory \<times> nat) option" where
  "stpcpy m d s =
     (if s mod ALIGN = d mod ALIGN then
        (case stpcpy_align m d s of
           Inl r \<Rightarrow> Some r
         | Inr (m, d, s) \<Rightarrow> (case stpcpy_words m d s of
             None \<Rightarrow> None
           | Some (m, d, s) \<Rightarrow> stpcpy_bytes m d s))
      else stpcpy_bytes m d s)"

definition strcpy :: "memory \<Rightarrow> nat \<Rightarrow> nat \<Rightarrow> (memory \<times> nat) option" where
  "strcpy m dest src = map_option (\<lambda>(m, _). (m, dest)) (stpcpy m dest src)"

definition strcat :: "memory \<Rightarrow> nat \<Rightarrow> nat \<Rightarrow> (memory \<times> nat) option" where
  "strcat m dest src =
     (case strlen m dest of
        None \<Rightarrow> None
      | Some n \<Rightarrow> map_option (\<lambda>(m, _). (m, dest)) (strcpy m (dest + n) src))"

text \<open>\<^verbatim>\<open>strlcpy\<close>.\<close>

fun strlcpy_align :: "memory \<Rightarrow> nat \<Rightarrow> nat \<Rightarrow> nat \<Rightarrow> memory \<times> nat \<times> nat \<times> nat" where
  "strlcpy_align m d s 0 = (m, d, s, 0)"
| "strlcpy_align m d s (Suc n) =
     (if s mod 8 \<noteq> 0 then
        (let m' = m(d := m s) in if m s \<noteq> 0 then strlcpy_align m' (d + 1) (s + 1) n else (m', d, s, Suc n))
      else (m, d, s, Suc n))"

function strlcpy_words :: "memory \<Rightarrow> nat \<Rightarrow> nat \<Rightarrow> nat \<Rightarrow> memory \<times> nat \<times> nat \<times> nat" where
  "strlcpy_words m wd ws n =
     (if 8 \<le> n \<and> HASZERO (load64 m ws) = 0 then strlcpy_words (store64 m wd (load64 m ws)) (wd + 8) (ws + 8) (n - 8) else (m, wd, ws, n))"
  by pat_completeness auto
termination by (relation "measure (\<lambda>(m, wd, ws, n). n)") auto

declare strlcpy_words.simps [simp del]

fun strlcpy_bytes :: "memory \<Rightarrow> nat \<Rightarrow> nat \<Rightarrow> nat \<Rightarrow> memory \<times> nat \<times> nat \<times> nat" where
  "strlcpy_bytes m d s 0 = (m, d, s, 0)"
| "strlcpy_bytes m d s (Suc n) =
     (let m' = m(d := m s) in if m s \<noteq> 0 then strlcpy_bytes m' (d + 1) (s + 1) n else (m', d, s, Suc n))"

definition strlcpy :: "memory \<Rightarrow> nat \<Rightarrow> nat \<Rightarrow> nat \<Rightarrow> (memory \<times> nat) option" where
  "strlcpy m d0 s n =
     (if n = 0 then map_option (\<lambda>l. (m, l)) (strlen m s)
      else
        (let n = n - 1;
             (m, d, s, n) = (if s mod 8 = d0 mod 8 then
               (let (m, d, s, n) = strlcpy_align m d0 s n in
                if n \<noteq> 0 \<and> m s \<noteq> 0 then strlcpy_words m d s n else (m, d, s, n)) else (m, d0, s, n));
             (m, d, s, n) = strlcpy_bytes m d s n;
             m = m(d := 0)
         in map_option (\<lambda>l. (m, d - d0 + l)) (strlen m s)))"

text \<open>\<^verbatim>\<open>memccpy\<close>.\<close>

fun memccpy_align :: "memory \<Rightarrow> u8 \<Rightarrow> nat \<Rightarrow> nat \<Rightarrow> nat \<Rightarrow> memory \<times> nat \<times> nat \<times> nat" where
  "memccpy_align m c d s 0 = (m, d, s, 0)"
| "memccpy_align m c d s (Suc n) =
     (if s mod 8 \<noteq> 0 then
        (let m' = m(d := m s) in if m s \<noteq> c then memccpy_align m' c (d + 1) (s + 1) n else (m', d, s, Suc n))
      else (m, d, s, Suc n))"

function memccpy_words :: "memory \<Rightarrow> u64 \<Rightarrow> nat \<Rightarrow> nat \<Rightarrow> nat \<Rightarrow> memory \<times> nat \<times> nat \<times> nat" where
  "memccpy_words m k wd ws n =
     (if 8 \<le> n \<and> HASZERO (load64 m ws XOR k) = 0 then memccpy_words (store64 m wd (load64 m ws)) k (wd + 8) (ws + 8) (n - 8) else (m, wd, ws, n))"
  by pat_completeness auto
termination by (relation "measure (\<lambda>(m, k, wd, ws, n). n)") auto

declare memccpy_words.simps [simp del]

fun memccpy_bytes :: "memory \<Rightarrow> u8 \<Rightarrow> nat \<Rightarrow> nat \<Rightarrow> nat \<Rightarrow> memory \<times> nat \<times> nat \<times> nat" where
  "memccpy_bytes m c d s 0 = (m, d, s, 0)"
| "memccpy_bytes m c d s (Suc n) =
     (let m' = m(d := m s) in if m s \<noteq> c then memccpy_bytes m' c (d + 1) (s + 1) n else (m', d, s, Suc n))"

definition memccpy :: "memory \<Rightarrow> nat \<Rightarrow> nat \<Rightarrow> int \<Rightarrow> nat \<Rightarrow> memory \<times> nat option" where
  "memccpy m d s i n =
     (let c = word_of_int i :: u8;
          copy = (\<lambda>(m, d, s, n). memccpy_bytes m c d s n);
          (m, d, s, n) = (if s mod 8 = d mod 8 then
            (let (m, d, s, n) = memccpy_align m c d s n in
             if s mod 8 \<noteq> 0 then (m, d, s, n) else copy (memccpy_words m (ONES * ucast c) d s n))
          else copy (m, d, s, n))
      in (m, if m s = c then Some (d + 1) else None))"


section \<open>Zero bytes of a word\<close>

lemma horner_byte: "k < length bs \<Longrightarrow> horner_sum uint 256 (bs :: u8 list) div 256 ^ k mod 256 = uint (bs ! k)"
proof (induction bs arbitrary: k)
  case (Cons b bs)
  have b: "0 \<le> uint b" "uint b < 256" using uint_bounded [of b] by simp_all
  show ?case
  proof (cases k)
    case 0
    then show ?thesis using b by simp
  next
    case (Suc j)
    have "(uint b + 256 * horner_sum uint 256 bs) div 256 ^ k = (uint b + 256 * horner_sum uint 256 bs) div 256 div 256 ^ j"
      by (simp add: Suc zdiv_zmult2_eq)
    also have "\<dots> = horner_sum uint 256 bs div 256 ^ j" using b by simp
    finally show ?thesis using Cons Suc by simp
  qed
qed simp

lemma horner_bound: "0 \<le> horner_sum uint 256 (bs :: u8 list) \<and> horner_sum uint 256 bs < 256 ^ length bs"
proof (induction bs)
  case (Cons b bs)
  have "0 \<le> uint b" "uint b < 256" using uint_bounded [of b] by simp_all
  then show ?case using Cons by simp
qed simp

definition byte_of :: "u64 \<Rightarrow> nat \<Rightarrow> int" where
  "byte_of x k = uint x div 256 ^ k mod 256"

lemma byte_load: "k < 8 \<Longrightarrow> byte_of (load64 m a) k = uint (m (a + k))"
proof -
  assume k: "k < 8"
  let ?bs = "map (\<lambda>k. m (a + k)) [0..<8]"
  have "uint (load64 m a) = horner_sum uint 256 ?bs"
    using horner_bound [of ?bs] by (simp only: load64_def) (simp add: uint_word_of_int)
  then show ?thesis using horner_byte [of k ?bs] k by (simp only: byte_of_def) simp
qed

lemma store_load: "store64 m d (load64 m' s) = (\<lambda>x. if d \<le> x \<and> x < d + 8 then m' (s + (x - d)) else m x)"
proof -
  have "word_of_int (uint (load64 m' s) div 256 ^ k) = m' (s + k)" if "k < 8" for k
  proof -
    have "uint (word_of_int (uint (load64 m' s) div 256 ^ k) :: u8) = uint (m' (s + k))" using byte_load [OF that, of m' s] by (simp add: byte_of_def uint_word_of_int)
    then show ?thesis by (simp only: word_uint_eq_iff)
  qed
  from this [of "x - d" for x] show ?thesis unfolding store64_def by (intro ext) auto
qed

lemma high_bit: "k < 8 \<Longrightarrow> bit (w :: u64) (8 * k + 7) \<longleftrightarrow> 128 \<le> byte_of w k"
proof -
  define h where "h = uint w div 256 ^ k"
  have "(2::int) ^ (8 * k + 7) = 256 ^ k * 128" by (simp add: power_add power_mult)
  then have "uint w div 2 ^ (8 * k + 7) = h div 128" by (simp add: h_def zdiv_zmult2_eq)
  moreover assume "k < 8"
  then have "bit w (8 * k + 7) \<longleftrightarrow> bit (uint w) (8 * k + 7)" by (simp add: bit_uint_iff)
  ultimately have "bit w (8 * k + 7) \<longleftrightarrow> odd (h div 128)" by (simp only: bit_iff_odd [of "uint w"])
  also have "\<dots> \<longleftrightarrow> 128 \<le> h mod 256"
  proof -
    have e: "h mod 256 = 128 * (h div 128 mod 2) + h mod 128" using zmod_zmult2_eq [of 2 h 128] by simp
    have r: "0 \<le> h mod 128" "h mod 128 < 128" by simp_all
    show ?thesis unfolding e using r by (cases "even (h div 128)") (simp_all add: even_iff_mod_2_eq_zero odd_iff_mod_2_eq_one)
  qed
  finally show ?thesis by (simp add: byte_of_def h_def)
qed

text \<open>The low bytes of \<open>ONES\<close>, and subtraction without a borrow from the bytes below.\<close>

fun ones :: "nat \<Rightarrow> int" where
  "ones 0 = 0"
| "ones (Suc k) = ones k + 256 ^ k"

lemma ones_le: "\<forall>j<k. byte_of x j \<noteq> 0 \<Longrightarrow> ones k \<le> uint x mod 256 ^ k"
proof (induction k)
  case (Suc k)
  have e: "uint x mod 256 ^ Suc k = 256 ^ k * (uint x div 256 ^ k mod 256) + uint x mod 256 ^ k" by (simp only: power_Suc2 zmod_zmult2_eq)
  have "1 \<le> uint x div 256 ^ k mod 256" using Suc.prems pos_mod_sign [of 256 "uint x div 256 ^ k"] by (force simp: byte_of_def)
  then have "(256 :: int) ^ k * 1 \<le> 256 ^ k * (uint x div 256 ^ k mod 256)" by (intro mult_left_mono) simp_all
  moreover have "ones k \<le> uint x mod 256 ^ k" using Suc by simp
  ultimately show ?case unfolding e ones.simps by linarith
qed simp

lemma ones_add: "ones (a + b) = ones a + 256 ^ a * ones b"
  by (induction b) (simp_all add: power_add algebra_simps)

lemma ones_nonneg: "0 \<le> ones k"
  by (induction k) simp_all

lemma ones_split:
  assumes "k < 8"
  shows "uint ONES = (1 + 256 * ones (7 - k)) * 256 ^ k + ones k"
proof -
  have "8 = Suc (Suc (Suc (Suc (Suc (Suc (Suc (Suc 0)))))))" by simp
  then have "ones 8 = 72340172838076673" by (simp only: ones.simps) simp
  then have "ones 8 = uint ONES" by (simp add: ONES_def)
  moreover have "8 = k + (1 + (7 - k))" using assms by simp
  then have "ones 8 = ones k + 256 ^ k * ones (1 + (7 - k))" using ones_add [of k "1 + (7 - k)"] by (simp only:)
  moreover have "ones (1 + (7 - k)) = 1 + 256 * ones (7 - k)" using ones_add [of 1 "7 - k"] by simp
  ultimately show ?thesis by (simp only: mult.commute add.commute)
qed

lemma mod_div_cancel: "\<lbrakk>0 < b; 0 < c\<rbrakk> \<Longrightarrow> (a :: int) mod (b * c) div b = a div b mod c"
  by (simp add: zmod_zmult2_eq)

lemma byte_sub:
  assumes k: "k < 8" and low: "\<forall>j<k. byte_of x j \<noteq> 0"
  shows "byte_of (x - ONES) k = (byte_of x k - 1) mod 256"
proof -
  define q where "q = ones (7 - k)"
  have q: "uint ONES = (1 + 256 * q) * 256 ^ k + ones k" "0 \<le> ones k" using ones_split [OF k] ones_nonneg by (simp_all add: q_def)
  define h l where "h = uint x div 256 ^ k" and "l = uint x mod 256 ^ k"
  have l: "ones k \<le> l" "l < 256 ^ k" using ones_le [OF low] by (simp_all add: l_def)
  have x: "uint x = h * 256 ^ k + l" unfolding h_def l_def by (rule div_mult_mod_eq [symmetric])
  have "uint x - uint ONES = (h - 1 - 256 * q) * 256 ^ k + (l - ones k)" using q(1) x by (simp add: algebra_simps)
  moreover have "(l - ones k) div 256 ^ k = 0" using l q(2) by simp
  ultimately have d: "(uint x - uint ONES) div 256 ^ k = h - 1 - 256 * q" by simp
  have "256 ^ 8 = (256 :: int) ^ k * (256 * 256 ^ (7 - k))" using k by (simp add: power_add [symmetric] flip: power_Suc)
  then have "(uint x - uint ONES) mod 256 ^ 8 div 256 ^ k mod 256 = (uint x - uint ONES) div 256 ^ k mod (256 * 256 ^ (7 - k)) mod 256"
    by (simp only: mod_div_cancel zero_less_power zero_less_mult_iff zero_less_numeral simp_thms)
  also have "\<dots> = (uint x - uint ONES) div 256 ^ k mod 256" by (rule mod_mod_cancel) simp
  also have "\<dots> = (h mod 256 - 1) mod 256" unfolding d using mod_mult_self1 [of "h - 1" "- q" 256] mod_diff_left_eq [of h 256 1] by (simp add: algebra_simps)
  finally show ?thesis by (simp add: byte_of_def uint_word_ariths h_def)
qed

lemma bit_HIGHS: "n < 64 \<Longrightarrow> bit HIGHS n \<longleftrightarrow> n mod 8 = 7"
proof -
  have "list_all (\<lambda>n. bit HIGHS n = (n mod 8 = 7)) [0..<64]" by code_simp
  then show "n < 64 \<Longrightarrow> bit HIGHS n \<longleftrightarrow> n mod 8 = 7" by (simp add: list_all_iff)
qed

lemma HASZERO_bit: "bit (HASZERO x) n \<longleftrightarrow> (\<exists>k<8. n = 8 * k + 7 \<and> 128 \<le> byte_of (x - ONES) k \<and> byte_of x k < 128)"
proof
  assume b: "bit (HASZERO x) n"
  then have n: "n < 64" using bit_imp_le_length [OF b] by simp
  define k where "k = n div 8"
  have h: "bit (x - ONES) n" "\<not> bit x n" "bit HIGHS n" using b n by (simp_all add: HASZERO_def bit_and_iff bit_not_iff)
  then have "n = 8 * k + 7" "k < 8" using bit_HIGHS [OF n] n by (simp_all add: k_def) presburger
  then show "\<exists>k<8. n = 8 * k + 7 \<and> 128 \<le> byte_of (x - ONES) k \<and> byte_of x k < 128" using h(1,2) high_bit by (metis not_le)
next
  assume "\<exists>k<8. n = 8 * k + 7 \<and> 128 \<le> byte_of (x - ONES) k \<and> byte_of x k < 128"
  then obtain k where k: "k < 8" "n = 8 * k + 7" "128 \<le> byte_of (x - ONES) k" "byte_of x k < 128" by blast
  have n: "n < 64" using k(1,2) by simp
  have "n mod 8 = 7" using k(2) by simp
  then have "bit HIGHS n" using bit_HIGHS [OF n] by simp
  moreover have "bit (x - ONES) n" "\<not> bit x n" using k high_bit [OF k(1)] by simp_all
  ultimately show "bit (HASZERO x) n" using n by (simp add: HASZERO_def bit_and_iff bit_not_iff)
qed

lemma byte_range: "0 \<le> byte_of x k" "byte_of x k < 256"
  by (simp_all add: byte_of_def)

text \<open>The test is exact: it is zero just for the words without a zero byte.\<close>

lemma HASZERO_iff: "HASZERO x = 0 \<longleftrightarrow> (\<forall>k<8. byte_of x k \<noteq> 0)"
proof
  assume z: "HASZERO x = 0"
  show "\<forall>k<8. byte_of x k \<noteq> 0"
  proof (rule ccontr)
    assume "\<not> (\<forall>k<8. byte_of x k \<noteq> 0)"
    then have ex: "\<exists>k. k < 8 \<and> byte_of x k = 0" by blast
    define j where "j = (LEAST k. k < 8 \<and> byte_of x k = 0)"
    have j: "j < 8" "byte_of x j = 0" using LeastI_ex [OF ex] by (simp_all add: j_def)
    have "\<forall>i<j. byte_of x i \<noteq> 0" using not_less_Least [of _ "\<lambda>k. k < 8 \<and> byte_of x k = 0"] j(1) unfolding j_def by (metis less_trans)
    then have "byte_of (x - ONES) j = 255" using byte_sub [OF j(1)] j(2) by simp
    then have "bit (HASZERO x) (8 * j + 7)" unfolding HASZERO_bit using j by (intro exI [of _ j]) simp
    then show False using z by simp
  qed
next
  assume nz: "\<forall>k<8. byte_of x k \<noteq> 0"
  have "\<not> bit (HASZERO x) n" for n
  proof
    assume "bit (HASZERO x) n"
    then obtain k where k: "k < 8" "128 \<le> byte_of (x - ONES) k" "byte_of x k < 128" unfolding HASZERO_bit by blast
    have "byte_of (x - ONES) k = (byte_of x k - 1) mod 256" using nz k(1) by (intro byte_sub) auto
    also have "\<dots> = byte_of x k - 1"
    proof (rule mod_pos_pos_trivial)
      have "byte_of x k \<noteq> 0" using nz k(1) by blast
      then show "0 \<le> byte_of x k - 1" using byte_range(1) [of x k] by linarith
      show "byte_of x k - 1 < 256" using byte_range(2) [of x k] by linarith
    qed
    finally show False using k(2,3) by simp
  qed
  then show "HASZERO x = 0" by (intro bit_eqI) simp
qed

lemma haszero_load: "HASZERO (load64 m a) = 0 \<longleftrightarrow> (\<forall>k<8. m (a + k) \<noteq> 0)"
  unfolding HASZERO_iff by (metis byte_load uint_0_iff)

lemma byte_xor: "byte_of (x XOR y) k = byte_of x k XOR byte_of y k"
proof -
  have e: "byte_of z k = take_bit 8 (drop_bit (8 * k) (uint z))" for z
    by (simp add: byte_of_def take_bit_eq_mod drop_bit_eq_div power_mult)
  show ?thesis unfolding e by (simp add: uint_xor drop_bit_xor take_bit_xor)
qed

lemma ONES_mult: "ONES * ucast c = load64 (\<lambda>_. c) 0"
proof -
  have "[0..<8] = [0, 1, 2, 3, 4, 5, 6, 7]" by (simp add: upt_rec)
  then have "horner_sum uint 256 (map (\<lambda>k. c) [0..<8]) = uint c * 72340172838076673" by simp
  moreover have "word_of_int (uint c) = (ucast c :: u64)" by (simp add: word_of_int_uint)
  ultimately show ?thesis unfolding load64_def ONES_def by simp
qed

lemma xor_0_iff: "(a :: int) XOR b = 0 \<longleftrightarrow> a = b"
  by (metis xor.assoc xor_self_eq xor.left_neutral xor.right_neutral)

lemma haszero_xor: "HASZERO (load64 m a XOR ONES * ucast c) = 0 \<longleftrightarrow> (\<forall>k<8. m (a + k) \<noteq> c)"
proof -
  have "byte_of (load64 m a XOR ONES * ucast c) k \<noteq> 0 \<longleftrightarrow> m (a + k) \<noteq> c" if "k < 8" for k
    using byte_load [OF that, of m a] byte_load [OF that, of "\<lambda>_. c" 0] by (simp add: byte_xor ONES_mult xor_0_iff word_uint_eq_iff)
  then show ?thesis unfolding HASZERO_iff by blast
qed


section \<open>Searching\<close>

text \<open>The strings of memory, and the first place where a test holds.\<close>

definition cstr :: "memory \<Rightarrow> nat \<Rightarrow> nat \<Rightarrow> bool" where
  "cstr m s n \<longleftrightarrow> m (s + n) = 0 \<and> (\<forall>i<n. m (s + i) \<noteq> 0)"

definition first_at :: "(nat \<Rightarrow> bool) \<Rightarrow> nat \<Rightarrow> nat \<Rightarrow> bool" where
  "first_at P s e \<longleftrightarrow> s \<le> e \<and> P e \<and> (\<forall>x. s \<le> x \<and> x < e \<longrightarrow> \<not> P x)"

lemma first_at_step: "first_at P s e \<Longrightarrow> s \<noteq> e \<Longrightarrow> \<not> P s \<and> first_at P (s + 1) e"
  by (auto simp: first_at_def)

lemma first_at_skip: "\<lbrakk>first_at P s e; \<forall>k<8. \<not> P (s + k)\<rbrakk> \<Longrightarrow> s + 8 \<le> e \<and> first_at P (s + 8) e"
proof -
  assume f: "first_at P s e" and n: "\<forall>k<8. \<not> P (s + k)"
  have "\<not> e < s + 8"
  proof
    assume "e < s + 8"
    then have "\<not> P (s + (e - s))" using n by simp
    then show False using f by (simp add: first_at_def)
  qed
  then show ?thesis using f by (simp add: first_at_def)
qed

lemma cstr_first: "cstr m s n \<longleftrightarrow> first_at (\<lambda>x. m x = 0) s (s + n)"
proof
  assume "cstr m s n"
  moreover have "m x \<noteq> 0" if "\<forall>i<n. m (s + i) \<noteq> 0" "s \<le> x" "x < s + n" for x using that(1) [rule_format, of "x - s"] that(2,3) by simp
  ultimately show "first_at (\<lambda>x. m x = 0) s (s + n)" by (auto simp: cstr_def first_at_def)
qed (auto simp: cstr_def first_at_def)

lemma strlen_align_ok: "first_at (\<lambda>x. m x = 0) s e \<Longrightarrow> strlen_align m s = Inl e \<or> (\<exists>s'. strlen_align m s = Inr s' \<and> first_at (\<lambda>x. m x = 0) s' e)"
proof (induction m s rule: strlen_align.induct)
  case (1 m s)
  show ?case
  proof (cases "s mod ALIGN = 0")
    case True
    then show ?thesis using 1(2) by (simp add: strlen_align.simps)
  next
    case False
    show ?thesis
    proof (cases "s = e")
      case True
      then show ?thesis using False 1(2) by (simp add: strlen_align.simps first_at_def)
    next
      case ne: False
      note st = first_at_step [OF 1(2) ne]
      then have e: "strlen_align m s = strlen_align m (s + 1)" using False by (simp add: strlen_align.simps [of m s])
      show ?thesis unfolding e using 1(1) [OF False] st by blast
    qed
  qed
qed

lemma strlen_bytes_ok: "first_at (\<lambda>x. m x = 0) s e \<Longrightarrow> strlen_bytes m s = Some e"
proof (induction "e - s" arbitrary: s)
  case 0
  then show ?case by (simp add: strlen_bytes.simps [of m e] first_at_def)
next
  case (Suc d)
  then have st: "m s \<noteq> 0" "first_at (\<lambda>x. m x = 0) (s + 1) e" using first_at_step [OF Suc.prems] by auto
  have "strlen_bytes m (s + 1) = Some e" using Suc.hyps st(2) by (intro Suc.hyps(1)) simp_all
  then show ?case using st(1) by (simp add: strlen_bytes.simps [of m s])
qed

lemma strlen_words_ok: "first_at (\<lambda>x. m x = 0) s e \<Longrightarrow> \<exists>w. strlen_words m s = Some w \<and> first_at (\<lambda>x. m x = 0) w e"
proof (induction "e - s" arbitrary: s rule: less_induct)
  case less
  show ?case
  proof (cases "HASZERO (load64 m s) = 0")
    case False
    then show ?thesis using less.prems by (simp add: strlen_words.simps [of m s])
  next
    case True
    then have sk: "s + 8 \<le> e" "first_at (\<lambda>x. m x = 0) (s + 8) e" using first_at_skip [OF less.prems] by (simp_all add: haszero_load)
    have "\<exists>w. strlen_words m (s + 8) = Some w \<and> first_at (\<lambda>x. m x = 0) w e" using sk by (intro less.hyps) simp_all
    then show ?thesis using True by (simp add: strlen_words.simps [of m s])
  qed
qed

lemma strlen_ok: "cstr m s n \<Longrightarrow> strlen m s = Some n"
proof -
  assume "cstr m s n"
  then have f: "first_at (\<lambda>x. m x = 0) s (s + n)" by (simp add: cstr_first)
  from strlen_align_ok [OF f] show ?thesis
  proof (elim disjE exE conjE)
    fix s' assume s': "strlen_align m s = Inr s'" "first_at (\<lambda>x. m x = 0) s' (s + n)"
    from strlen_words_ok [OF s'(2)] obtain w where w: "strlen_words m s' = Some w" "first_at (\<lambda>x. m x = 0) w (s + n)" by blast
    then show ?thesis using s'(1) strlen_bytes_ok [OF w(2)] by (simp add: strlen_def)
  qed (simp add: strlen_def)
qed

lemma strchrnul_align_ok:
  "first_at (\<lambda>x. m x = 0 \<or> m x = c) s e \<Longrightarrow> strchrnul_align m c s = Inl e \<or> (\<exists>s'. strchrnul_align m c s = Inr s' \<and> first_at (\<lambda>x. m x = 0 \<or> m x = c) s' e)"
proof (induction m c s rule: strchrnul_align.induct)
  case (1 m c s)
  show ?case
  proof (cases "s mod ALIGN = 0")
    case True
    then show ?thesis using 1(2) by (simp add: strchrnul_align.simps)
  next
    case False
    show ?thesis
    proof (cases "s = e")
      case True
      then show ?thesis using False 1(2) by (simp add: strchrnul_align.simps first_at_def)
    next
      case ne: False
      note st = first_at_step [OF 1(2) ne]
      then have e: "strchrnul_align m c s = strchrnul_align m c (s + 1)" using False by (simp add: strchrnul_align.simps [of m c s])
      show ?thesis unfolding e using 1(1) [OF False] st by blast
    qed
  qed
qed

lemma strchrnul_bytes_ok: "first_at (\<lambda>x. m x = 0 \<or> m x = c) s e \<Longrightarrow> strchrnul_bytes m c s = Some e"
proof (induction "e - s" arbitrary: s)
  case 0
  then show ?case by (auto simp: strchrnul_bytes.simps [of m c e] first_at_def)
next
  case (Suc d)
  then have st: "m s \<noteq> 0 \<and> m s \<noteq> c" "first_at (\<lambda>x. m x = 0 \<or> m x = c) (s + 1) e" using first_at_step [OF Suc.prems] by auto
  have "strchrnul_bytes m c (s + 1) = Some e" using Suc.hyps st(2) by (intro Suc.hyps(1)) simp_all
  then show ?case using st(1) by (simp add: strchrnul_bytes.simps [of m c s])
qed

lemma strchrnul_words_ok:
  "first_at (\<lambda>x. m x = 0 \<or> m x = c) s e \<Longrightarrow> \<exists>w. strchrnul_words m (ONES * ucast c) s = Some w \<and> first_at (\<lambda>x. m x = 0 \<or> m x = c) w e"
proof (induction "e - s" arbitrary: s rule: less_induct)
  case less
  show ?case
  proof (cases "HASZERO (load64 m s) = 0 \<and> HASZERO (load64 m s XOR ONES * ucast c) = 0")
    case False
    have "strchrnul_words m (ONES * ucast c) s = Some s" by (subst strchrnul_words.simps) (simp only: False if_False)
    then show ?thesis using less.prems by blast
  next
    case True
    then have "\<forall>k<8. \<not> (m (s + k) = 0 \<or> m (s + k) = c)" unfolding haszero_load haszero_xor by blast
    with first_at_skip [OF less.prems] have sk: "s + 8 \<le> e" "first_at (\<lambda>x. m x = 0 \<or> m x = c) (s + 8) e" by blast+
    have "\<exists>w. strchrnul_words m (ONES * ucast c) (s + 8) = Some w \<and> first_at (\<lambda>x. m x = 0 \<or> m x = c) w e" using sk by (intro less.hyps) simp_all
    moreover have "strchrnul_words m (ONES * ucast c) s = strchrnul_words m (ONES * ucast c) (s + 8)" by (subst strchrnul_words.simps) (simp only: True if_True simp_thms)
    ultimately show ?thesis by (simp only:)
  qed
qed

lemma strchrnul_ok: "first_at (\<lambda>x. m x = 0 \<or> m x = word_of_int i) s e \<Longrightarrow> strchrnul m s i = Some e"
proof (cases "word_of_int i = (0 :: u8)")
  case True
  assume "first_at (\<lambda>x. m x = 0 \<or> m x = word_of_int i) s e"
  then have "cstr m s (e - s)" "s \<le> e" using True by (simp_all add: cstr_first first_at_def)
  then show ?thesis using True strlen_ok by (simp add: strchrnul_def)
next
  case False
  define c where "c = (word_of_int i :: u8)"
  assume "first_at (\<lambda>x. m x = 0 \<or> m x = word_of_int i) s e"
  then have f: "first_at (\<lambda>x. m x = 0 \<or> m x = c) s e" by (simp add: c_def)
  from strchrnul_align_ok [OF f] have "(case strchrnul_align m c s of Inl s \<Rightarrow> Some s | Inr s \<Rightarrow>
      case strchrnul_words m (ONES * ucast c) s of None \<Rightarrow> None | Some w \<Rightarrow> strchrnul_bytes m c w) = Some e"
  proof (elim disjE exE conjE)
    fix s' assume s': "strchrnul_align m c s = Inr s'" "first_at (\<lambda>x. m x = 0 \<or> m x = c) s' e"
    from strchrnul_words_ok [OF s'(2)] obtain w where w: "strchrnul_words m (ONES * ucast c) s' = Some w" "first_at (\<lambda>x. m x = 0 \<or> m x = c) w e" by blast
    then show ?thesis using s'(1) strchrnul_bytes_ok [OF w(2)] by simp
  qed simp
  then show ?thesis using False by (simp only: strchrnul_def Let_def c_def if_False)
qed

text \<open>For \<open>memchr\<close> the reference is the first match within the length, if there is one.\<close>

fun find_byte :: "memory \<Rightarrow> u8 \<Rightarrow> nat \<Rightarrow> nat \<Rightarrow> nat option" where
  "find_byte m c s 0 = None"
| "find_byte m c s (Suc n) = (if m s = c then Some s else find_byte m c (s + 1) n)"

lemma find_byte_skip: "\<forall>k<j. m (s + k) \<noteq> c \<Longrightarrow> find_byte m c (s + j) n = find_byte m c s (j + n)"
proof (induction j arbitrary: s)
  case (Suc j)
  have "m s \<noteq> c" using Suc.prems [rule_format, of 0] by simp
  moreover have "\<forall>k<j. m (s + 1 + k) \<noteq> c" using Suc.prems by fastforce
  ultimately show ?case using Suc.IH [of "s + 1"] by simp
qed simp

lemma memchr_align_ok: "memchr_align m c s n = (s', n') \<Longrightarrow> find_byte m c s' n' = find_byte m c s n"
  by (induction m c s n rule: memchr_align.induct) (auto split: if_splits)

lemma memchr_words_ok: "memchr_words m (ONES * ucast c) s n = (s', n') \<Longrightarrow> find_byte m c s' n' = find_byte m c s n"
proof (induction m "ONES * ucast c :: u64" s n rule: memchr_words.induct)
  case (1 m s n)
  show ?case
  proof (cases "8 \<le> n \<and> HASZERO (load64 m s XOR ONES * ucast c) = 0")
    case True
    then have "memchr_words m (ONES * ucast c) (s + 8) (n - 8) = (s', n')" using 1(2) by (subst (asm) memchr_words.simps) (simp only: if_True simp_thms)
    from 1(1) [OF True this] show ?thesis using find_byte_skip [of 8 m s c "n - 8"] True haszero_xor by simp
  next
    case False
    then have "(s, n) = (s', n')" using 1(2) by (subst (asm) memchr_words.simps) (simp only: if_False)
    then show ?thesis by simp
  qed
qed

lemma memchr_bytes_ok: "memchr_bytes m c s n = (s', n') \<Longrightarrow> find_byte m c s n = (if n' \<noteq> 0 then Some s' else None)"
  by (induction m c s n rule: memchr_bytes.induct) (auto split: if_splits)

lemma memchr_ok: "memchr m s i n = find_byte m (word_of_int i) s n"
proof -
  define c where "c = (word_of_int i :: u8)"
  obtain s1 n1 where 1: "memchr_align m c s n = (s1, n1)" by (cases "memchr_align m c s n")
  obtain s2 n2 where 2: "memchr_words m (ONES * ucast c) s1 n1 = (s2, n2)" by (cases "memchr_words m (ONES * ucast c) s1 n1")
  obtain s3 n3 where 3: "memchr_bytes m c s2 n2 = (s3, n3)" by (cases "memchr_bytes m c s2 n2")
  have e: "find_byte m c s n = find_byte m c s1 n1" using memchr_align_ok [OF 1] by simp
  show ?thesis
  proof (cases "n1 \<noteq> 0 \<and> m s1 \<noteq> c")
    case True
    have "memchr m s i n = (if n3 \<noteq> 0 then Some s3 else None)" unfolding memchr_def c_def [symmetric] Let_def 1 prod.case 2 3 using True by simp
    then show ?thesis using e memchr_words_ok [OF 2] memchr_bytes_ok [OF 3] by (simp add: c_def)
  next
    case False
    then have "memchr m s i n = (if n1 \<noteq> 0 then Some s1 else None)" unfolding memchr_def c_def [symmetric] Let_def 1 prod.case by (simp only: if_False prod.case)
    then show ?thesis unfolding c_def [symmetric] e using False by (cases n1) auto
  qed
qed


section \<open>Copying\<close>

text \<open>The reference: \<open>k\<close> bytes copied from \<open>s\<close> to \<open>d\<close>. The two ranges have \<open>k\<close> and \<open>l\<close> bytes and no address in common.\<close>

definition copy_bytes :: "memory \<Rightarrow> nat \<Rightarrow> nat \<Rightarrow> nat \<Rightarrow> memory" where
  "copy_bytes m d s k = (\<lambda>x. if d \<le> x \<and> x < d + k then m (s + (x - d)) else m x)"

definition apart :: "nat \<Rightarrow> nat \<Rightarrow> nat \<Rightarrow> nat \<Rightarrow> bool" where
  "apart d k s l \<longleftrightarrow> d + k \<le> s \<or> s + l \<le> d"

lemma copy_bytes_0 [simp]: "copy_bytes m d s 0 = m"
  by (auto simp: copy_bytes_def fun_eq_iff)

lemma copy_src: "\<lbrakk>apart d K s l; i < l; k \<le> K\<rbrakk> \<Longrightarrow> copy_bytes m d s k (s + i) = m (s + i)"
  by (auto simp: copy_bytes_def apart_def)

lemma copy_step: "(copy_bytes m d s k)(d + k := m (s + k)) = copy_bytes m d s (Suc k)"
  by (auto simp: copy_bytes_def fun_eq_iff not_less_less_Suc_eq)

lemma copy_word:
  assumes "apart d K s l" "k + 8 \<le> l" "k \<le> K"
  shows "store64 (copy_bytes m d s k) (d + k) (load64 (copy_bytes m d s k) (s + k)) = copy_bytes m d s (k + 8)"
proof -
  have "copy_bytes m d s k (s + k + (x - (d + k))) = m (s + (x - d))" if "d + k \<le> x" "x < d + k + 8" for x
    using copy_src [OF assms(1) _ assms(3), of "x - d" m] that assms(2) by (simp add: add.commute add.left_commute)
  then show ?thesis unfolding store_load by (auto simp: copy_bytes_def fun_eq_iff)
qed

lemma no_zero_word:
  assumes z: "m (s + n) = 0" and k: "k \<le> n" and h: "HASZERO (load64 m (s + k)) = 0"
  shows "k + 8 \<le> n"
proof (rule ccontr)
  assume "\<not> k + 8 \<le> n"
  then have "n - k < 8" using k by simp
  then have "m (s + k + (n - k)) \<noteq> 0" using h unfolding haszero_load by blast
  moreover have "s + k + (n - k) = s + n" using k by simp
  ultimately show False using z by simp
qed

lemma stpcpy_bytes_ok:
  assumes c: "cstr m s n" and a: "apart d (n + 1) s (n + 1)"
  shows "k \<le> n \<Longrightarrow> stpcpy_bytes (copy_bytes m d s k) (d + k) (s + k) = Some (copy_bytes m d s (n + 1), d + n)"
proof (induction "n - k" arbitrary: k)
  case 0
  then have k: "k = n" by simp
  have "copy_bytes m d s n (s + n) = m (s + n)" by (rule copy_src [OF a]) simp_all
  then show ?case unfolding k using c copy_step [of m d s n] by (subst stpcpy_bytes.simps) (simp add: cstr_def)
next
  case (Suc j)
  have src: "copy_bytes m d s k (s + k) = m (s + k)" by (rule copy_src [OF a]) (use Suc in simp_all)
  have "m (s + k) \<noteq> 0" using c Suc by (simp add: cstr_def)
  moreover have "stpcpy_bytes (copy_bytes m d s (Suc k)) (d + Suc k) (s + Suc k) = Some (copy_bytes m d s (n + 1), d + n)" by (rule Suc.hyps(1)) (use Suc in simp_all)
  ultimately show ?case by (subst stpcpy_bytes.simps) (simp add: src copy_step)
qed

lemma stpcpy_words_ok:
  assumes c: "cstr m s n" and a: "apart d (n + 1) s (n + 1)"
  shows "k \<le> n \<Longrightarrow> \<exists>k'\<le>n. stpcpy_words (copy_bytes m d s k) (d + k) (s + k) = Some (copy_bytes m d s k', d + k', s + k')"
proof (induction "n - k" arbitrary: k rule: less_induct)
  case less
  let ?m = "copy_bytes m d s k"
  show ?case
  proof (cases "HASZERO (load64 ?m (s + k)) = 0")
    case False
    then show ?thesis using less.prems by (subst stpcpy_words.simps) auto
  next
    case True
    have "?m (s + n) = 0" using copy_src [OF a, of n k m] less.prems c by (simp add: cstr_def)
    from no_zero_word [OF this less.prems True] have k8: "k + 8 \<le> n" .
    have "\<exists>k'\<le>n. stpcpy_words (copy_bytes m d s (k + 8)) (d + (k + 8)) (s + (k + 8)) = Some (copy_bytes m d s k', d + k', s + k')"
      by (rule less.hyps) (use k8 in simp_all)
    moreover have "stpcpy_words ?m (d + k) (s + k) = stpcpy_words (copy_bytes m d s (k + 8)) (d + (k + 8)) (s + (k + 8))"
      using True copy_word [OF a, of k m] k8 by (subst stpcpy_words.simps) (simp add: add.assoc)
    ultimately show ?thesis by simp
  qed
qed

lemma stpcpy_align_ok:
  assumes c: "cstr m s n" and a: "apart d (n + 1) s (n + 1)"
  shows "k \<le> n \<Longrightarrow> stpcpy_align (copy_bytes m d s k) (d + k) (s + k) = Inl (copy_bytes m d s (n + 1), d + n) \<or>
    (\<exists>k'\<le>n. stpcpy_align (copy_bytes m d s k) (d + k) (s + k) = Inr (copy_bytes m d s k', d + k', s + k'))"
proof (induction "n - k" arbitrary: k rule: less_induct)
  case less
  let ?m = "copy_bytes m d s k"
  have src: "?m (s + k) = m (s + k)" by (rule copy_src [OF a]) (use less.prems in simp_all)
  show ?case
  proof (cases "(s + k) mod ALIGN = 0")
    case True
    then have "stpcpy_align ?m (d + k) (s + k) = Inr (?m, d + k, s + k)" by (subst stpcpy_align.simps) simp
    then show ?thesis using less.prems by blast
  next
    case False
    show ?thesis
    proof (cases "k = n")
      case True
      then have "stpcpy_align ?m (d + k) (s + k) = Inl (copy_bytes m d s (n + 1), d + n)"
        using False c src copy_step [of m d s n] by (subst stpcpy_align.simps) (simp add: cstr_def Let_def)
      then show ?thesis by blast
    next
      case ne: False
      then have "m (s + k) \<noteq> 0" using c less.prems by (simp add: cstr_def)
      then have e: "stpcpy_align ?m (d + k) (s + k) = stpcpy_align (copy_bytes m d s (Suc k)) (d + Suc k) (s + Suc k)"
        using False src copy_step [of m d s k] by (subst stpcpy_align.simps) (simp add: Let_def)
      show ?thesis unfolding e by (rule less.hyps) (use ne less.prems in simp_all)
    qed
  qed
qed

lemma stpcpy_ok:
  assumes c: "cstr m s n" and a: "apart d (n + 1) s (n + 1)"
  shows "stpcpy m d s = Some (copy_bytes m d s (n + 1), d + n)"
proof -
  have bytes: "stpcpy_bytes m d s = Some (copy_bytes m d s (n + 1), d + n)" using stpcpy_bytes_ok [OF c a, of 0] by simp
  from stpcpy_align_ok [OF c a le0] show ?thesis
  proof (elim disjE exE conjE)
    fix k assume k: "k \<le> n" "stpcpy_align (copy_bytes m d s 0) (d + 0) (s + 0) = Inr (copy_bytes m d s k, d + k, s + k)"
    from stpcpy_words_ok [OF c a k(1)] obtain k' where "k' \<le> n" "stpcpy_words (copy_bytes m d s k) (d + k) (s + k) = Some (copy_bytes m d s k', d + k', s + k')" by blast
    then show ?thesis using k(2) stpcpy_bytes_ok [OF c a] bytes by (simp add: stpcpy_def)
  qed (use bytes in \<open>simp_all add: stpcpy_def\<close>)
qed

text \<open>\<^verbatim>\<open>strlcpy\<close> copies at most \<open>N\<close> bytes; its loops leave the byte at the current position open.\<close>

definition copied_to :: "memory \<Rightarrow> nat \<Rightarrow> nat \<Rightarrow> nat \<Rightarrow> memory \<Rightarrow> bool" where
  "copied_to m d s k m' \<longleftrightarrow> (\<forall>x. x \<noteq> d + k \<longrightarrow> m' x = copy_bytes m d s k x)"

lemma copied_to_exact: "copied_to m d s k (copy_bytes m d s k)"
  by (simp add: copied_to_def)

lemma copied_to_write: "copied_to m d s k m' \<Longrightarrow> m'(d + k := b) = (copy_bytes m d s k)(d + k := b)"
  by (auto simp: copied_to_def)

lemma copied_to_src: "\<lbrakk>copied_to m d s k m'; apart d (K + 1) s l; k \<le> K; i < l\<rbrakk> \<Longrightarrow> m' (s + i) = m (s + i)"
proof -
  assume c: "copied_to m d s k m'" and a: "apart d (K + 1) s l" and k: "k \<le> K" and i: "i < l"
  have "s + i \<noteq> d + k" using a k i by (auto simp: apart_def)
  then have "m' (s + i) = copy_bytes m d s k (s + i)" using c by (simp add: copied_to_def)
  also have "\<dots> = m (s + i)" using k by (intro copy_src [OF a i]) simp
  finally show ?thesis .
qed

lemma copied_to_step:
  assumes c: "copied_to m d s k m'" and a: "apart d (K + 1) s (n + 1)" and k: "k \<le> K" "K \<le> n"
  shows "m'(d + k := m' (s + k)) = copy_bytes m d s (Suc k)"
  using copied_to_src [OF c a k(1), of k] k copied_to_write [OF c] copy_step [of m d s k] by simp

lemma strlcpy_align_ok:
  assumes c: "cstr m s n" and a: "apart d (min N n + 1) s (n + 1)"
  shows "\<lbrakk>k \<le> min N n; copied_to m d s k m'\<rbrakk> \<Longrightarrow>
    \<exists>k' m''. k' \<le> min N n \<and> strlcpy_align m' (d + k) (s + k) (N - k) = (m'', d + k', s + k', N - k') \<and> copied_to m d s k' m''"
proof (induction "N - k" arbitrary: k m')
  case (Suc j)
  have src: "m' (s + k) = m (s + k)" by (rule copied_to_src [OF Suc.prems(2) a Suc.prems(1)]) (use Suc.prems(1) in simp)
  have st: "m'(d + k := m' (s + k)) = copy_bytes m d s (Suc k)" by (rule copied_to_step [OF Suc.prems(2) a Suc.prems(1)]) simp
  have N: "N - k = Suc j" "N - Suc k = j" using Suc.hyps(2) by simp_all
  show ?case
  proof (cases "(s + k) mod 8 = 0")
    case True
    then have "strlcpy_align m' (d + k) (s + k) (N - k) = (m', d + k, s + k, N - k)" by (simp add: N)
    then show ?thesis using Suc.prems by blast
  next
    case False
    show ?thesis
    proof (cases "m (s + k) = 0")
      case True
      then have "strlcpy_align m' (d + k) (s + k) (N - k) = (m'(d + k := m' (s + k)), d + k, s + k, N - k)" using False src by (simp add: N Let_def)
      moreover have "copied_to m d s k (m'(d + k := m' (s + k)))" using Suc.prems(2) by (simp add: copied_to_def)
      ultimately show ?thesis using Suc.prems(1) by blast
    next
      case nz: False
      then have "strlcpy_align m' (d + k) (s + k) (N - k) = strlcpy_align (copy_bytes m d s (Suc k)) (d + Suc k) (s + Suc k) (N - Suc k)"
        using False src st by (simp add: N Let_def)
      moreover have "k \<noteq> n" using nz c by (auto simp: cstr_def)
      then have "Suc k \<le> min N n" using Suc.prems(1) N(1) by simp
      ultimately show ?thesis using Suc.hyps(1) [of "Suc k"] N(2) copied_to_exact by metis
    qed
  qed
qed (auto intro: exI)

lemma strlcpy_words_ok:
  assumes c: "cstr m s n" and a: "apart d (min N n + 1) s (n + 1)"
  shows "\<lbrakk>k \<le> min N n; copied_to m d s k m'\<rbrakk> \<Longrightarrow>
    \<exists>k' m''. k' \<le> min N n \<and> strlcpy_words m' (d + k) (s + k) (N - k) = (m'', d + k', s + k', N - k') \<and> copied_to m d s k' m''"
proof (induction "N - k" arbitrary: k m' rule: less_induct)
  case less
  note src = copied_to_src [OF less.prems(2) a less.prems(1)]
  show ?case
  proof (cases "8 \<le> N - k \<and> HASZERO (load64 m' (s + k)) = 0")
    case False
    then have "strlcpy_words m' (d + k) (s + k) (N - k) = (m', d + k, s + k, N - k)" by (subst strlcpy_words.simps) (simp only: if_False)
    then show ?thesis using less.prems by blast
  next
    case True
    have "m' (s + n) = 0" using src [of n] c by (simp add: cstr_def)
    from no_zero_word [OF this _ conjunct2 [OF True]] less.prems(1) have n8: "k + 8 \<le> n" by simp
    moreover have N8: "8 \<le> N - k" using True by blast
    ultimately have k8: "k + 8 \<le> min N n" by simp
    have "store64 m' (d + k) (load64 m' (s + k)) = copy_bytes m d s (k + 8)"
    proof (rule ext)
      fix x
      have "m' (s + k + (x - (d + k))) = m (s + (x - d))" if "d + k \<le> x" "x < d + k + 8"
        using src [of "x - d"] that n8 by (simp add: add.commute add.left_commute)
      then show "store64 m' (d + k) (load64 m' (s + k)) x = copy_bytes m d s (k + 8) x"
        using less.prems(2) unfolding store_load by (auto simp: copy_bytes_def copied_to_def)
    qed
    then have "strlcpy_words m' (d + k) (s + k) (N - k) = strlcpy_words (copy_bytes m d s (k + 8)) (d + (k + 8)) (s + (k + 8)) (N - (k + 8))"
      using True by (subst strlcpy_words.simps) (simp add: add.assoc)
    moreover have "\<exists>k' m''. k' \<le> min N n \<and> strlcpy_words (copy_bytes m d s (k + 8)) (d + (k + 8)) (s + (k + 8)) (N - (k + 8)) = (m'', d + k', s + k', N - k') \<and> copied_to m d s k' m''"
      by (rule less.hyps [OF _ k8 copied_to_exact]) (use N8 in simp)
    ultimately show ?thesis by simp
  qed
qed

lemma strlcpy_bytes_ok:
  assumes c: "cstr m s n" and a: "apart d (min N n + 1) s (n + 1)"
  shows "\<lbrakk>k \<le> min N n; copied_to m d s k m'\<rbrakk> \<Longrightarrow>
    \<exists>m''. strlcpy_bytes m' (d + k) (s + k) (N - k) = (m'', d + min N n, s + min N n, N - min N n) \<and> copied_to m d s (min N n) m''"
proof (induction "N - k" arbitrary: k m')
  case 0
  then have "k = N" "min N n = N" by simp_all
  then show ?case using 0 by simp
next
  case (Suc j)
  have src: "m' (s + k) = m (s + k)" by (rule copied_to_src [OF Suc.prems(2) a Suc.prems(1)]) (use Suc.prems(1) in simp)
  have st: "m'(d + k := m' (s + k)) = copy_bytes m d s (Suc k)" by (rule copied_to_step [OF Suc.prems(2) a Suc.prems(1)]) simp
  have N: "N - k = Suc j" "N - Suc k = j" using Suc.hyps(2) by simp_all
  show ?case
  proof (cases "k = n")
    case True
    then have "m (s + k) = 0" "min N n = k" using c Suc.prems(1) by (auto simp: cstr_def)
    then have "strlcpy_bytes m' (d + k) (s + k) (N - k) = (m'(d + k := m' (s + k)), d + k, s + k, N - k)" using src by (simp add: N Let_def)
    moreover have "copied_to m d s k (m'(d + k := m' (s + k)))" using Suc.prems(2) by (simp add: copied_to_def)
    ultimately show ?thesis using \<open>min N n = k\<close> by simp
  next
    case False
    then have "m (s + k) \<noteq> 0" "Suc k \<le> min N n" using c Suc.prems(1) N(1) by (auto simp: cstr_def)
    moreover from this have "strlcpy_bytes m' (d + k) (s + k) (N - k) = strlcpy_bytes (copy_bytes m d s (Suc k)) (d + Suc k) (s + Suc k) (N - Suc k)"
      using src st by (simp add: N Let_def)
    ultimately show ?thesis using Suc.hyps(1) [of "Suc k"] N(2) copied_to_exact by metis
  qed
qed

lemma strlcpy_ok:
  assumes c: "cstr m s n" and sz: "sz \<noteq> 0" and a: "apart d (min (sz - 1) n + 1) s (n + 1)"
  shows "strlcpy m d s sz = Some ((copy_bytes m d s (min (sz - 1) n))(d + min (sz - 1) n := 0), n)"
proof -
  define N K where "N = sz - 1" and "K = min N n"
  note a' = a [folded N_def]
  obtain k m1 where k: "k \<le> K" "copied_to m d s k m1" and pre: "(if s mod 8 = d mod 8 then
      (let (m, d, s, n) = strlcpy_align m d s N in if n \<noteq> 0 \<and> m s \<noteq> 0 then strlcpy_words m d s n else (m, d, s, n)) else (m, d, s, N)) = (m1, d + k, s + k, N - k)"
  proof -
    obtain k1 m' where k1: "k1 \<le> K" "strlcpy_align m d s N = (m', d + k1, s + k1, N - k1)" "copied_to m d s k1 m'"
      using strlcpy_align_ok [OF c a', of 0 m] copied_to_exact [of m d s 0] by (auto simp: K_def)
    obtain k2 m'' where k2: "k2 \<le> K" "strlcpy_words m' (d + k1) (s + k1) (N - k1) = (m'', d + k2, s + k2, N - k2)" "copied_to m d s k2 m''"
      using strlcpy_words_ok [OF c a', of k1 m'] k1 by (auto simp: K_def)
    consider "s mod 8 \<noteq> d mod 8" | "s mod 8 = d mod 8" "N - k1 \<noteq> 0 \<and> m' (s + k1) \<noteq> 0" | "s mod 8 = d mod 8" "\<not> (N - k1 \<noteq> 0 \<and> m' (s + k1) \<noteq> 0)" by blast
    then show thesis
    proof cases
      case 1
      then show thesis using copied_to_exact [of m d s 0] by (intro that [of 0 m]) simp_all
    next
      case 2
      then show thesis using k1 k2 by (intro that [of k2 m'']) simp_all
    next
      case 3
      show thesis by (rule that [OF k1(1,3)]) (simp only: k1(2) Let_def prod.case 3 if_True if_False simp_thms)
    qed
  qed
  obtain m2 where m2: "strlcpy_bytes m1 (d + k) (s + k) (N - k) = (m2, d + K, s + K, N - K)" "copied_to m d s K m2"
    using strlcpy_bytes_ok [OF c a', of k m1] k by (auto simp: K_def)
  define m3 where "m3 = m2(d + K := 0)"
  have m3: "m3 = (copy_bytes m d s K)(d + K := 0)" using copied_to_write [OF m2(2)] by (simp add: m3_def)
  have "copied_to m d s K m3" using m2(2) by (simp add: m3_def copied_to_def)
  from copied_to_src [OF this a'] have src: "m3 (s + i) = m (s + i)" if "i < n + 1" for i using that by (simp add: K_def)
  have "m3 (s + K + i) = m (s + (K + i))" if "i \<le> n - K" for i using src [of "K + i"] that by (simp add: K_def add.assoc)
  moreover have "K + (n - K) = n" "\<And>i. i < n - K \<Longrightarrow> K + i < n" by (simp_all add: K_def)
  ultimately have "cstr m3 (s + K) (n - K)" using c unfolding cstr_def by (metis less_imp_le_nat order_refl)
  then have "strlen m3 (s + K) = Some (n - K)" by (rule strlen_ok)
  moreover have "strlcpy m d s sz = map_option (\<lambda>l. (m3, d + K - d + l)) (strlen m3 (s + K))"
    using sz unfolding strlcpy_def Let_def N_def [symmetric] pre [unfolded Let_def] prod.case m2(1) m3_def by simp
  ultimately show ?thesis using m3 by (simp add: K_def N_def)
qed


section \<open>Properties\<close>

lemma find_byte_None: "find_byte m c s n = None \<Longrightarrow> s \<le> x \<Longrightarrow> x < s + n \<Longrightarrow> m x \<noteq> c"
proof (induction m c s n rule: find_byte.induct)
  case (2 m c s n)
  then show ?case by (cases "x = s") (auto split: if_splits)
qed simp

lemma find_byte_Some: "find_byte m c s n = Some e \<Longrightarrow> s \<le> e \<and> e < s + n \<and> m e = c \<and> (\<forall>x. s \<le> x \<and> x < e \<longrightarrow> m x \<noteq> c)"
proof (induction m c s n rule: find_byte.induct)
  case (2 m c s n)
  show ?case
  proof (cases "m s = c")
    case False
    then have e: "find_byte m c (s + 1) n = Some e" using 2(2) by simp
    note ih = 2(1) [OF False e]
    have "m x \<noteq> c" if "s \<le> x" "x < e" for x using ih that False by (cases "x = s") auto
    then show ?thesis using ih by auto
  qed (use 2(2) in auto)
qed simp

lemma strchr_ok:
  assumes c: "cstr m s n"
  shows "strchr m s i = Some (if word_of_int i = (0 :: u8) then Some (s + n) else find_byte m (word_of_int i) s n)"
proof -
  let ?c = "word_of_int i :: u8"
  have f: "first_at (\<lambda>x. m x = 0) s (s + n)" using c by (simp add: cstr_first)
  have z: "m (s + n) = 0" using c by (simp add: cstr_def)
  consider "?c = 0" | "?c \<noteq> 0" "find_byte m ?c s n = None" | e where "?c \<noteq> 0" "find_byte m ?c s n = Some e" by blast
  then show ?thesis
  proof cases
    case 1
    then have "strchrnul m s i = Some (s + n)" using f by (intro strchrnul_ok) simp
    then show ?thesis using 1 z by (simp add: strchr_def)
  next
    case 2
    then have "strchrnul m s i = Some (s + n)" using f find_byte_None [OF 2(2)] by (intro strchrnul_ok) (auto simp: first_at_def)
    then show ?thesis using 2 z by (simp add: strchr_def)
  next
    case (3 e)
    from find_byte_Some [OF 3(2)] have e: "s \<le> e" "e < s + n" "m e = ?c" "\<forall>x. s \<le> x \<and> x < e \<longrightarrow> m x \<noteq> ?c" by blast+
    have "first_at (\<lambda>x. m x = 0 \<or> m x = ?c) s e" using e f by (auto simp: first_at_def)
    then have "strchrnul m s i = Some e" by (rule strchrnul_ok)
    then show ?thesis using 3 e(3) by (simp add: strchr_def)
  qed
qed

text \<open>C12: The routines that search a word at a time find what a search byte by byte finds, at every alignment: \<open>strlen\<close> the length of the string, \<open>strchr\<close> its first byte
  equal to the argument, counting the terminator, and \<open>memchr\<close> the first such byte within the length. The test they use on words is exact.\<close>

theorem search_by_words:
  assumes "cstr m s n"
  shows "strlen m s = Some n \<and> strchr m s i = Some (if word_of_int i = (0 :: u8) then Some (s + n) else find_byte m (word_of_int i) s n) \<and>
    memchr m s i l = find_byte m (word_of_int i) s l"
  using strlen_ok [OF assms] strchr_ok [OF assms] memchr_ok by blast

text \<open>C26: \<open>strlcpy\<close>, which copies words while source and destination have the same alignment, copies as much of the string as fits with a terminator, changes nothing else, and
  returns the length of the string. With size 0 it changes nothing.\<close>

theorem strlcpy_correct:
  assumes "cstr m s n" and "apart d (min (sz - 1) n + 1) s (n + 1)"
  shows "strlcpy m d s sz = Some (if sz = 0 then m else (copy_bytes m d s (min (sz - 1) n))(d + min (sz - 1) n := 0), n)"
  using strlcpy_ok [OF assms(1) _ assms(2)] strlen_ok [OF assms(1)] by (simp add: strlcpy_def)

text \<open>\<open>strcat\<close> appends the string and keeps what was there.\<close>

theorem strcat_correct:
  assumes d: "cstr m d l" and s: "cstr m s n" and a: "apart (d + l) (n + 1) s (n + 1)"
  shows "strcat m d s = Some (copy_bytes m (d + l) s (n + 1), d) \<and> cstr (copy_bytes m (d + l) s (n + 1)) d (l + n)"
proof
  show "strcat m d s = Some (copy_bytes m (d + l) s (n + 1), d)" by (simp add: strcat_def strcpy_def strlen_ok [OF d] stpcpy_ok [OF s a])
  show "cstr (copy_bytes m (d + l) s (n + 1)) d (l + n)"
    unfolding cstr_def
  proof (intro conjI allI impI)
    show "copy_bytes m (d + l) s (n + 1) (d + (l + n)) = 0" using s by (simp add: copy_bytes_def cstr_def)
    fix i assume i: "i < l + n"
    show "copy_bytes m (d + l) s (n + 1) (d + i) \<noteq> 0"
    proof (cases "i < l")
      case True
      then show ?thesis using d by (simp add: copy_bytes_def cstr_def)
    next
      case False
      then have "i - l < n" using i by simp
      then have "m (s + (i - l)) \<noteq> 0" using s unfolding cstr_def by blast
      then show ?thesis using False i by (simp add: copy_bytes_def)
    qed
  qed
qed

text \<open>When \<open>memccpy\<close> has copied all its bytes without meeting the byte it looks for, it still compares the byte behind them: it then reports a copy that did not happen.\<close>

definition text_ab :: memory where
  "text_ab = (\<lambda>_. 0)(16 := 97, 17 := 98)"

theorem memccpy_past_end: "snd (memccpy text_ab 32 16 98 1) = Some 34 \<and> fst (memccpy text_ab 32 16 98 1) 33 \<noteq> 98"
  by (simp add: memccpy_def text_ab_def memccpy_words.simps)


section \<open>Instances\<close>

lemma text_ab_cstr: "cstr text_ab 16 2"
  by (auto simp: cstr_def text_ab_def dest: less_2_cases)

theorem search_by_words_witness:
  "strlen text_ab 16 = Some 2 \<and> strchr text_ab 16 98 = Some (find_byte text_ab 98 16 2) \<and> memchr text_ab 16 98 1 = find_byte text_ab 98 16 1"
  using search_by_words [OF text_ab_cstr, of 98 1] by simp

theorem strlcpy_correct_witness:
  "strlcpy text_ab 32 16 2 = Some ((copy_bytes text_ab 32 16 1)(33 := 0), 2)"
  using strlcpy_correct [OF text_ab_cstr, of 32 2] by (simp add: apart_def)

end
