(* ===== verification/Lzjb.thy ===== *)
theory Lzjb
  imports Prelude "HOL-Library.Monad_Syntax" "HOL-Library.Code_Target_Nat"
begin

text \<open>
  The compression of ZFS blocks, \<^verbatim>\<open>bsd/sys/cddl/contrib/opensolaris/uts/common/fs/zfs/lzjb.c\<close>. The pointers \<open>src\<close> and \<open>cpy\<close> are indices into the source;
  \<open>s_addr\<close> is the address of the source, which reaches the table of recent positions. The destination of the compressor is the list of the bytes written so far. An access outside a buffer is \<open>None\<close>.
\<close>

section \<open>Definitions\<close>

definition NBBY :: nat where "NBBY = 8"
definition MATCH_BITS :: nat where "MATCH_BITS = 6"
definition MATCH_MIN :: nat where "MATCH_MIN = 3"
definition MATCH_MAX :: nat where "MATCH_MAX = 2 ^ MATCH_BITS + (MATCH_MIN - 1)"
definition LEMPEL_SIZE :: nat where "LEMPEL_SIZE = 1024"

text \<open>\<open>x & OFFSET_MASK\<close>, of an address difference in two's complement.\<close>

definition and_offset_mask :: "int \<Rightarrow> nat" where
  "and_offset_mask x = nat (x mod 2 ^ (16 - MATCH_BITS))"

definition rd :: "u8 list \<Rightarrow> nat \<Rightarrow> u8 option" where
  "rd xs i = (if i < length xs then Some (xs ! i) else None)"

definition put :: "nat \<Rightarrow> u8 list \<Rightarrow> u8 \<Rightarrow> u8 list option" where
  "put d_len dst b = (if length dst < d_len then Some (dst @ [b]) else None)"

record lz =
  lz_src :: nat
  lz_dst :: "u8 list"
  lz_copymap :: nat
  lz_copymask :: nat
  lz_lempel :: "nat \<Rightarrow> nat"

definition hash3 :: "u8 \<Rightarrow> u8 \<Rightarrow> u8 \<Rightarrow> nat" where
  "hash3 a b c =
     (let hash = unat a * 2 ^ 16 + unat b * 2 ^ 8 + unat c;
          hash = hash + hash div 2 ^ 9;
          hash = hash + hash div 2 ^ 5
      in hash mod LEMPEL_SIZE)"

text \<open>The loop that extends a match.\<close>

function extend_match :: "u8 list \<Rightarrow> nat \<Rightarrow> nat \<Rightarrow> nat \<Rightarrow> nat option" where
  "extend_match s src cpy mlen =
     (if mlen < MATCH_MAX then do {
        a \<leftarrow> rd s (src + mlen);
        b \<leftarrow> rd s (cpy + mlen);
        if a \<noteq> b then Some mlen else extend_match s src cpy (mlen + 1)
      } else Some mlen)"
  by pat_completeness auto
termination by (relation "measure (\<lambda>(s, src, cpy, mlen). MATCH_MAX - mlen)") auto

declare extend_match.simps [simp del]

definition copy_literal :: "u8 list \<Rightarrow> nat \<Rightarrow> lz \<Rightarrow> lz option" where
  "copy_literal s d_len z =
     do {
       b \<leftarrow> rd s (lz_src z);
       dst \<leftarrow> put d_len (lz_dst z) b;
       Some (z\<lparr>lz_src := lz_src z + 1, lz_dst := dst\<rparr>)
     }"

definition matches :: "u8 list \<Rightarrow> nat \<Rightarrow> nat \<Rightarrow> bool option" where
  "matches s src offset =
     (if offset \<le> src \<and> offset \<noteq> 0 then do {
        a0 \<leftarrow> rd s src; b0 \<leftarrow> rd s (src - offset);
        a1 \<leftarrow> rd s (src + 1); b1 \<leftarrow> rd s (src - offset + 1);
        a2 \<leftarrow> rd s (src + 2); b2 \<leftarrow> rd s (src - offset + 2);
        Some (a0 = b0 \<and> a1 = b1 \<and> a2 = b2)
      } else Some False)"

definition copy_match :: "u8 list \<Rightarrow> nat \<Rightarrow> nat \<Rightarrow> lz \<Rightarrow> lz option" where
  "copy_match s d_len offset z =
     do {
       let dst = (lz_dst z)[lz_copymap z := (lz_dst z ! lz_copymap z) OR of_nat (lz_copymask z)];
       mlen \<leftarrow> extend_match s (lz_src z) (lz_src z - offset) MATCH_MIN;
       dst \<leftarrow> put d_len dst (of_nat (push_bit (NBBY - MATCH_BITS) (mlen - MATCH_MIN) OR drop_bit NBBY offset));
       dst \<leftarrow> put d_len dst (of_nat offset);
       Some (z\<lparr>lz_src := lz_src z + mlen, lz_dst := dst\<rparr>)
     }"

text \<open>The body of the loop once the control byte is in place.\<close>

definition compress_item :: "nat \<Rightarrow> u8 list \<Rightarrow> nat \<Rightarrow> lz \<Rightarrow> lz option" where
  "compress_item s_addr s d_len z =
     (if int (length s) - int MATCH_MAX < int (lz_src z) then copy_literal s d_len z
      else do {
        a \<leftarrow> rd s (lz_src z); b \<leftarrow> rd s (lz_src z + 1); c \<leftarrow> rd s (lz_src z + 2);
        let hash = hash3 a b c;
        let offset = and_offset_mask (int (s_addr + lz_src z) - int (lz_lempel z hash));
        let z = z\<lparr>lz_lempel := (lz_lempel z)(hash := (s_addr + lz_src z) mod 2 ^ 16)\<rparr>;
        m \<leftarrow> matches s (lz_src z) offset;
        if m then copy_match s d_len offset z else copy_literal s d_len z
      })"

text \<open>One iteration: the returned size when the destination is full (\<open>Inl\<close>), or the next state.\<close>

definition compress_step :: "nat \<Rightarrow> u8 list \<Rightarrow> nat \<Rightarrow> lz \<Rightarrow> (nat + lz) option" where
  "compress_step s_addr s d_len z =
     (let z = z\<lparr>lz_copymask := lz_copymask z * 2\<rparr> in
      if lz_copymask z = 2 ^ NBBY then
        if int d_len - 1 - 2 * int NBBY \<le> int (length (lz_dst z)) then Some (Inl (length s))
        else do {
          dst \<leftarrow> put d_len (lz_dst z) 0;
          z \<leftarrow> compress_item s_addr s d_len (z\<lparr>lz_copymask := 1, lz_copymap := length (lz_dst z), lz_dst := dst\<rparr>);
          Some (Inr z)
        }
      else map_option Inr (compress_item s_addr s d_len z))"

lemma bind_Some: "Option.bind x f = Some y \<longleftrightarrow> (\<exists>a. x = Some a \<and> f a = Some y)"
  by (cases x) auto

lemma extend_match_ge: "extend_match s src cpy mlen = Some n \<Longrightarrow> mlen \<le> n"
proof (induction s src cpy mlen rule: extend_match.induct)
  case (1 s src cpy mlen)
  from 1(2) show ?case using 1(1) by (subst (asm) extend_match.simps) (fastforce simp: bind_Some split: if_splits)
qed

lemma compress_item_src: "compress_item s_addr s d_len z = Some z' \<Longrightarrow> lz_src z < lz_src z'"
  by (auto simp: compress_item_def copy_literal_def copy_match_def bind_Some Let_def MATCH_MIN_def split: if_splits dest!: extend_match_ge)

lemma compress_step_src: "compress_step s_addr s d_len z = Some (Inr z') \<Longrightarrow> lz_src z < lz_src z'"
  by (auto simp: compress_step_def bind_Some Let_def split: if_splits dest!: compress_item_src)

function compress_loop :: "nat \<Rightarrow> u8 list \<Rightarrow> nat \<Rightarrow> lz \<Rightarrow> (nat \<times> u8 list) option" where
  "compress_loop s_addr s d_len z =
     (if lz_src z < length s then
        case compress_step s_addr s d_len z of
          None \<Rightarrow> None
        | Some (Inl n) \<Rightarrow> Some (n, lz_dst z)
        | Some (Inr z) \<Rightarrow> compress_loop s_addr s d_len z
      else Some (length (lz_dst z), lz_dst z))"
  by pat_completeness auto
termination
  by (relation "measure (\<lambda>(s_addr, s, d_len, z). length s - lz_src z)") (auto dest!: compress_step_src)

declare compress_loop.simps [simp del]

definition lzjb_compress :: "nat \<Rightarrow> u8 list \<Rightarrow> nat \<Rightarrow> (nat \<times> u8 list) option" where
  "lzjb_compress s_addr s d_len =
     compress_loop s_addr s d_len \<lparr>lz_src = 0, lz_dst = [], lz_copymap = 0, lz_copymask = 2 ^ (NBBY - 1), lz_lempel = \<lambda>_. 0\<rparr>"

text \<open>The copying loop of the decompressor, inside the destination.\<close>

fun copy_loop :: "u8 list \<Rightarrow> nat \<Rightarrow> nat \<Rightarrow> nat \<Rightarrow> u8 list \<times> nat" where
  "copy_loop d dst cpy 0 = (d, dst)"
| "copy_loop d dst cpy (Suc mlen) = (if dst < length d then copy_loop (d[dst := d ! cpy]) (dst + 1) (cpy + 1) mlen else (d, dst))"

lemma copy_loop_dst: "copy_loop d dst cpy mlen = (d', dst') \<Longrightarrow> length d' = length d \<and> dst \<le> dst' \<and> (0 < mlen \<and> dst < length d \<longrightarrow> dst < dst')"
proof (induction mlen arbitrary: d dst cpy)
  case (Suc mlen)
  show ?case
  proof (cases "dst < length d")
    case True
    then have "copy_loop (d[dst := d ! cpy]) (dst + 1) (cpy + 1) mlen = (d', dst')" using Suc.prems by simp
    from Suc.IH [OF this] show ?thesis by simp
  qed (use Suc.prems in simp)
qed simp

text \<open>The decompressor, with its position in the source, the control byte and mask, the destination and the position there. One iteration has two parts: the control byte,
  and the item its bit announces; \<open>Inl\<close> is the error return.\<close>

type_synonym unlz = "nat \<times> u8 \<times> nat \<times> u8 list \<times> nat"

definition decompress_item :: "u8 list \<Rightarrow> unlz \<Rightarrow> (int + unlz) option" where
  "decompress_item s st =
     (case st of (src, copymap, copymask, d, dst) \<Rightarrow>
        if copymap AND of_nat copymask \<noteq> 0 then do {
          s0 \<leftarrow> rd s src;
          s1 \<leftarrow> rd s (src + 1);
          let mlen = drop_bit (NBBY - MATCH_BITS) (unat s0) + MATCH_MIN;
          let offset = and_offset_mask (int (push_bit NBBY (unat s0) OR unat s1));
          let src = src + 2;
          if dst < offset then Some (Inl (- 1))
          else (case copy_loop d dst (dst - offset) mlen of (d, dst) \<Rightarrow> Some (Inr (src, copymap, copymask, d, dst)))
        } else do {
          b \<leftarrow> rd s src;
          Some (Inr (src + 1, copymap, copymask, d[dst := b], dst + 1))
        })"

definition decompress_step :: "u8 list \<Rightarrow> unlz \<Rightarrow> (int + unlz) option" where
  "decompress_step s st =
     (case st of (src, copymap, copymask, d, dst) \<Rightarrow>
        let copymask = copymask * 2 in
        if copymask = 2 ^ NBBY then do {
          b \<leftarrow> rd s src;
          decompress_item s (src + 1, b, 1, d, dst)
        } else decompress_item s (src, copymap, copymask, d, dst))"

lemma decompress_step_dst:
  "\<lbrakk>decompress_step s (src, copymap, copymask, d, dst) = Some (Inr (src', copymap', copymask', d', dst')); dst < length d\<rbrakk> \<Longrightarrow> length d' = length d \<and> dst < dst'"
  by (auto simp: decompress_step_def decompress_item_def bind_Some Let_def MATCH_MIN_def split: if_splits prod.splits dest!: copy_loop_dst)

function decompress_loop :: "u8 list \<Rightarrow> unlz \<Rightarrow> (int \<times> u8 list) option" where
  "decompress_loop s (src, copymap, copymask, d, dst) =
     (if dst < length d then
        case decompress_step s (src, copymap, copymask, d, dst) of
          None \<Rightarrow> None
        | Some (Inl e) \<Rightarrow> Some (e, d)
        | Some (Inr st) \<Rightarrow> decompress_loop s st
      else Some (0, d))"
  by pat_completeness auto
termination
  by (relation "measure (\<lambda>(s, src, copymap, copymask, d, dst). length d - dst)") (auto dest!: decompress_step_dst)

declare decompress_loop.simps [simp del]

definition lzjb_decompress :: "u8 list \<Rightarrow> u8 list \<Rightarrow> (int \<times> u8 list) option" where
  "lzjb_decompress s d = decompress_loop s (0, 0, 2 ^ (NBBY - 1), d, 0)"


section \<open>The compressor\<close>

lemma extend_match_spec:
  "\<lbrakk>extend_match s src cpy mlen = Some n; mlen \<le> MATCH_MAX\<rbrakk> \<Longrightarrow> n \<le> MATCH_MAX \<and> (\<forall>k. mlen \<le> k \<and> k < n \<longrightarrow> s ! (src + k) = s ! (cpy + k))"
proof (induction s src cpy mlen rule: extend_match.induct)
  case (1 s src cpy mlen)
  show ?case
  proof (cases "mlen < MATCH_MAX")
    case False
    then show ?thesis using 1(2,3) by (subst (asm) extend_match.simps) auto
  next
    case True
    then obtain a b where ab: "rd s (src + mlen) = Some a" "rd s (cpy + mlen) = Some b" "(if a \<noteq> b then Some mlen else extend_match s src cpy (mlen + 1)) = Some n"
      using 1(2) by (subst (asm) extend_match.simps) (auto simp: bind_Some)
    show ?thesis
    proof (cases "a = b")
      case False
      then show ?thesis using ab(3) 1(3) by auto
    next
      case eq: True
      then have m: "extend_match s src cpy (mlen + 1) = Some n" using ab(3) by simp
      have s: "s ! (src + mlen) = s ! (cpy + mlen)" using ab(1,2) eq by (simp add: rd_def split: if_splits)
      from 1(1) [OF True ab(1,2) _ m] eq True have ih: "n \<le> MATCH_MAX" "\<forall>k. mlen + 1 \<le> k \<and> k < n \<longrightarrow> s ! (src + k) = s ! (cpy + k)" by auto
      show ?thesis
      proof (intro conjI allI impI)
        fix k assume "mlen \<le> k \<and> k < n"
        then show "s ! (src + k) = s ! (cpy + k)" using ih(2) s by (cases "k = mlen") auto
      qed (rule ih(1))
    qed
  qed
qed

lemma extend_match_total: "\<lbrakk>src + MATCH_MAX \<le> length s; cpy \<le> src\<rbrakk> \<Longrightarrow> \<exists>n. extend_match s src cpy mlen = Some n"
proof (induction s src cpy mlen rule: extend_match.induct)
  case (1 s src cpy mlen)
  show ?case
  proof (cases "mlen < MATCH_MAX")
    case True
    then have r: "rd s (src + mlen) = Some (s ! (src + mlen))" "rd s (cpy + mlen) = Some (s ! (cpy + mlen))" using 1(2,3) by (simp_all add: rd_def)
    show ?thesis using 1(1) [OF True r _ 1(2,3)] True by (subst extend_match.simps) (auto simp: r)
  qed (simp add: extend_match.simps)
qed

lemma push_bit_or: "b < 2 ^ n \<Longrightarrow> push_bit n a OR b = a * 2 ^ n + (b :: nat)"
proof -
  assume b: "b < 2 ^ n"
  have "\<not> bit (push_bit n a) k \<or> \<not> bit b k" for k
    using b by (metis bit_push_bit_iff_nat bit_take_bit_iff not_le take_bit_nat_eq_self)
  then have "push_bit n a + b = push_bit n a OR b" by (rule disjunctive_add)
  then show ?thesis by (simp add: push_bit_eq_mult)
qed

lemma and_offset_mask_less: "and_offset_mask x < 1024"
  by (simp add: and_offset_mask_def MATCH_BITS_def)

lemma matches_True:
  "matches s src offset = Some True \<Longrightarrow> 0 < offset \<and> offset \<le> src \<and> (\<forall>k<3. s ! (src + k) = s ! (src - offset + k))"
  by (auto simp: matches_def bind_Some rd_def less_Suc_eq numeral_3_eq_3 split: if_splits)

lemma matches_total: "src + 2 < length s \<Longrightarrow> \<exists>b. matches s src offset = Some b"
  by (auto simp: matches_def rd_def)

lemma compress_item_cases:
  assumes src: "lz_src z < length s" and room: "length (lz_dst z) + 2 \<le> d_len"
  obtains
    (literal) l where "compress_item s_addr s d_len z = Some (z\<lparr>lz_lempel := l, lz_src := lz_src z + 1, lz_dst := lz_dst z @ [s ! lz_src z]\<rparr>)"
  | (copy) l offset mlen where "0 < offset" "offset < 1024" "offset \<le> lz_src z" "3 \<le> mlen" "mlen \<le> 66" "lz_src z + mlen \<le> length s"
      "\<forall>k<mlen. s ! (lz_src z + k) = s ! (lz_src z - offset + k)"
      "compress_item s_addr s d_len z = Some (z\<lparr>lz_lempel := l, lz_src := lz_src z + mlen,
         lz_dst := (lz_dst z)[lz_copymap z := (lz_dst z ! lz_copymap z) OR of_nat (lz_copymask z)] @ [of_nat ((mlen - 3) * 4 + offset div 256), of_nat offset]\<rparr>)"
proof (cases "int (length s) - int MATCH_MAX < int (lz_src z)")
  case True
  then have "compress_item s_addr s d_len z = Some (z\<lparr>lz_lempel := lz_lempel z, lz_src := lz_src z + 1, lz_dst := lz_dst z @ [s ! lz_src z]\<rparr>)"
    using assms by (simp add: compress_item_def copy_literal_def rd_def put_def)
  then show thesis by (rule literal)
next
  case False
  then have inside: "lz_src z + MATCH_MAX \<le> length s" by simp
  then have i2: "lz_src z + 2 < length s" by (simp add: MATCH_MAX_def MATCH_BITS_def)
  define h where "h = hash3 (s ! lz_src z) (s ! (lz_src z + 1)) (s ! (lz_src z + 2))"
  define offset where "offset = and_offset_mask (int (s_addr + lz_src z) - int (lz_lempel z h))"
  define l where "l = (lz_lempel z)(h := (s_addr + lz_src z) mod 2 ^ 16)"
  obtain m where m: "matches s (lz_src z) offset = Some m" using matches_total [OF i2] by blast
  have item: "compress_item s_addr s d_len z = (if m then copy_match s d_len offset (z\<lparr>lz_lempel := l\<rparr>) else copy_literal s d_len (z\<lparr>lz_lempel := l\<rparr>))"
    using False i2 m by (simp add: compress_item_def rd_def h_def offset_def l_def Let_def)
  show thesis
  proof (cases m)
    case False
    then show thesis using item assms by (intro literal [of l]) (simp add: copy_literal_def rd_def put_def)
  next
    case True
    then have o: "0 < offset" "offset \<le> lz_src z" "\<forall>k<3. s ! (lz_src z + k) = s ! (lz_src z - offset + k)" using matches_True [of s "lz_src z" offset] m by simp_all
    have o1: "offset < 1024" by (simp add: offset_def and_offset_mask_less)
    obtain mlen where ml: "extend_match s (lz_src z) (lz_src z - offset) MATCH_MIN = Some mlen" using extend_match_total [OF inside, of "lz_src z - offset"] by auto
    have n: "3 \<le> mlen" using extend_match_ge [OF ml] by (simp add: MATCH_MIN_def)
    have "MATCH_MIN \<le> MATCH_MAX" by (simp add: MATCH_MIN_def MATCH_MAX_def MATCH_BITS_def)
    from extend_match_spec [OF ml this] have sp: "mlen \<le> MATCH_MAX" "\<forall>k. 3 \<le> k \<and> k < mlen \<longrightarrow> s ! (lz_src z + k) = s ! (lz_src z - offset + k)"
      by (simp_all add: MATCH_MIN_def)
    have eq: "\<forall>k<mlen. s ! (lz_src z + k) = s ! (lz_src z - offset + k)" using sp(2) o(3) by (metis not_le)
    have le: "mlen \<le> 66" "lz_src z + mlen \<le> length s" using sp(1) inside by (simp_all add: MATCH_MIN_def MATCH_MAX_def MATCH_BITS_def)
    have byte: "push_bit (NBBY - MATCH_BITS) (mlen - MATCH_MIN) OR drop_bit NBBY offset = (mlen - 3) * 4 + offset div 256"
      using push_bit_or [of "offset div 256" 2 "mlen - 3"] o1 by (simp add: NBBY_def MATCH_BITS_def MATCH_MIN_def drop_bit_eq_div)
    show thesis using item True ml room by (intro copy [of offset mlen l] o(1,2) o1 n le eq) (simp add: copy_match_def put_def byte)
  qed
qed

text \<open>The state between iterations: the mask stands at bit \<open>q\<close>, the control byte has no bit above it, and the rest of the group has room.\<close>

definition lz_inv :: "u8 list \<Rightarrow> nat \<Rightarrow> nat \<Rightarrow> lz \<Rightarrow> bool" where
  "lz_inv s d_len q z \<longleftrightarrow>
     q \<le> 7 \<and> lz_copymask z = 2 ^ q \<and> lz_src z \<le> length s \<and> length (lz_dst z) \<le> d_len \<and>
     (q < 7 \<longrightarrow> lz_copymap z < length (lz_dst z) \<and> length (lz_dst z) + 2 * (7 - q) \<le> d_len \<and> (\<forall>k>q. \<not> bit (lz_dst z ! lz_copymap z) k))"

text \<open>The state in front of an item: the control byte is in place and its bit is still clear.\<close>

definition lz_ready :: "u8 list \<Rightarrow> nat \<Rightarrow> nat \<Rightarrow> lz \<Rightarrow> bool" where
  "lz_ready s d_len q z \<longleftrightarrow>
     q \<le> 7 \<and> lz_copymask z = 2 ^ q \<and> lz_src z < length s \<and> lz_copymap z < length (lz_dst z) \<and>
     length (lz_dst z) + 2 * (8 - q) \<le> d_len \<and> (\<forall>k\<ge>q. \<not> bit (lz_dst z ! lz_copymap z) k)"

definition next_bit :: "nat \<Rightarrow> nat" where
  "next_bit q = (if q = 7 then 0 else q + 1)"

definition prepare :: "lz \<Rightarrow> lz" where
  "prepare z = (if lz_copymask z * 2 = 2 ^ NBBY then z\<lparr>lz_copymask := 1, lz_copymap := length (lz_dst z), lz_dst := lz_dst z @ [0]\<rparr> else z\<lparr>lz_copymask := lz_copymask z * 2\<rparr>)"

lemma compress_step_cases:
  assumes inv: "lz_inv s d_len q z" and src: "lz_src z < length s"
  shows "compress_step s_addr s d_len z = Some (Inl (length s)) \<or>
    lz_ready s d_len (next_bit q) (prepare z) \<and> compress_step s_addr s d_len z = map_option Inr (compress_item s_addr s d_len (prepare z))"
proof (cases "q = 7")
  case True
  then have m: "lz_copymask z * 2 = 2 ^ NBBY" using inv by (simp add: lz_inv_def NBBY_def)
  show ?thesis
  proof (cases "int d_len - 1 - 2 * int NBBY \<le> int (length (lz_dst z))")
    case True
    then show ?thesis by (simp add: compress_step_def Let_def m)
  next
    case False
    then have l: "length (lz_dst z) + 17 < d_len" by (simp add: NBBY_def)
    then have "compress_step s_addr s d_len z = map_option Inr (compress_item s_addr s d_len (prepare z))"
      using False by (simp add: compress_step_def prepare_def Let_def m put_def Option.map_conv_bind_option comp_def)
    moreover have "lz_ready s d_len (next_bit q) (prepare z)" using l src \<open>q = 7\<close> by (simp add: lz_ready_def prepare_def next_bit_def m nth_append)
    ultimately show ?thesis by simp
  qed
next
  case False
  then have q: "q < 7" using inv by (simp add: lz_inv_def)
  have "(2::nat) ^ (q + 1) \<noteq> 2 ^ 8" using q by (subst power_inject_exp) simp_all
  then have m: "lz_copymask z * 2 \<noteq> 2 ^ NBBY" using inv by (simp add: lz_inv_def NBBY_def mult.commute)
  then have "compress_step s_addr s d_len z = map_option Inr (compress_item s_addr s d_len (prepare z))" by (simp add: compress_step_def prepare_def Let_def)
  moreover have "lz_ready s d_len (next_bit q) (prepare z)" using inv q src m by (auto simp: lz_ready_def lz_inv_def prepare_def next_bit_def)
  ultimately show ?thesis by simp
qed

lemma bit_2p: "bit ((2::u8) ^ q) k \<longleftrightarrow> k = q \<and> q < 8"
  by (auto simp: bit_simps)

text \<open>An item keeps the invariant, and of the bytes written before it changes at most the bit of the mask in the control byte.\<close>

lemma compress_item_inv:
  assumes r: "lz_ready s d_len q z"
  obtains z' where "compress_item s_addr s d_len z = Some z'" "lz_inv s d_len q z'" "lz_copymap z' = lz_copymap z" "length (lz_dst z) < length (lz_dst z')"
    "\<forall>k<length (lz_dst z). k \<noteq> lz_copymap z \<longrightarrow> lz_dst z' ! k = lz_dst z ! k" "take_bit q (lz_dst z' ! lz_copymap z) = take_bit q (lz_dst z ! lz_copymap z)"
proof -
  have q: "q \<le> 7" "lz_copymask z = 2 ^ q" "lz_src z < length s" "lz_copymap z < length (lz_dst z)" "length (lz_dst z) + 2 * (8 - q) \<le> d_len" "\<forall>k\<ge>q. \<not> bit (lz_dst z ! lz_copymap z) k"
    using r by (simp_all add: lz_ready_def)
  have room: "length (lz_dst z) + 2 \<le> d_len" using q(1,5) by simp
  have more: "length (lz_dst z) + 2 + 2 * (7 - q) \<le> d_len" using q(1,5) Suc_diff_le [of q 7] by simp
  show thesis
  proof (cases rule: compress_item_cases [OF q(3) room, of s_addr])
    case (1 l)
    have "lz_inv s d_len q (z\<lparr>lz_lempel := l, lz_src := lz_src z + 1, lz_dst := lz_dst z @ [s ! lz_src z]\<rparr>)"
      using more q(1-4,6) by (simp add: lz_inv_def nth_append)
    then show thesis using q(4) by (intro that [OF 1]) (simp_all add: nth_append)
  next
    case (2 l offset mlen)
    let ?c = "lz_dst z ! lz_copymap z OR of_nat (lz_copymask z)"
    let ?z = "z\<lparr>lz_lempel := l, lz_src := lz_src z + mlen, lz_dst := (lz_dst z)[lz_copymap z := ?c] @ [of_nat ((mlen - 3) * 4 + offset div 256), of_nat offset]\<rparr>"
    have c: "bit ?c k \<longleftrightarrow> bit (lz_dst z ! lz_copymap z) k \<or> k = q" for k
      using q(1) by (auto simp: q(2) bit_or_iff bit_2p)
    have t: "take_bit q ?c = take_bit q (lz_dst z ! lz_copymap z)" by (rule bit_eqI) (auto simp only: bit_take_bit_iff c)
    have high: "\<forall>k>q. \<not> bit ?c k" unfolding c using q(6) by auto
    have at: "lz_dst ?z ! lz_copymap z = ?c" using q(4) by (simp add: nth_append)
    have "lz_inv s d_len q ?z" unfolding lz_inv_def using more q(1,2,4) 2(6) high at by simp
    then show thesis using 2(8) q(4) t at by (intro that [of ?z]) (simp_all add: nth_append)
  qed
qed

text \<open>The whole loop: it returns, writes inside the destination, and keeps the bytes and the control bits already written.\<close>

definition keeps :: "nat \<Rightarrow> lz \<Rightarrow> u8 list \<Rightarrow> bool" where
  "keeps q z out \<longleftrightarrow>
     length (lz_dst z) \<le> length out \<and> (\<forall>k<length (lz_dst z). k \<noteq> lz_copymap z \<longrightarrow> out ! k = lz_dst z ! k) \<and>
     (lz_copymap z < length (lz_dst z) \<longrightarrow> take_bit (Suc q) (out ! lz_copymap z) = take_bit (Suc q) (lz_dst z ! lz_copymap z))"

lemma take_bit_less_eq: "\<lbrakk>take_bit n a = take_bit n (b :: u8); m \<le> n\<rbrakk> \<Longrightarrow> take_bit m a = take_bit m b"
  using take_bit_take_bit [of m n a] take_bit_take_bit [of m n b] by (simp add: min_def)

lemma keeps_item:
  assumes inv: "lz_inv s d_len q z" and r: "lz_ready s d_len (next_bit q) (prepare z)" and z': "lz_copymap z' = lz_copymap (prepare z)"
    "length (lz_dst (prepare z)) < length (lz_dst z')" "\<forall>k<length (lz_dst (prepare z)). k \<noteq> lz_copymap (prepare z) \<longrightarrow> lz_dst z' ! k = lz_dst (prepare z) ! k"
    "take_bit (next_bit q) (lz_dst z' ! lz_copymap (prepare z)) = take_bit (next_bit q) (lz_dst (prepare z) ! lz_copymap (prepare z))"
    and k: "keeps (next_bit q) z' out"
  shows "keeps q z out"
proof (cases "q = 7")
  case True
  then have p: "prepare z = z\<lparr>lz_copymask := 1, lz_copymap := length (lz_dst z), lz_dst := lz_dst z @ [0]\<rparr>" using inv by (simp add: prepare_def lz_inv_def NBBY_def)
  have "out ! k = lz_dst z ! k" if "k < length (lz_dst z)" for k
  proof -
    have "out ! k = lz_dst z' ! k" using k z'(1,2) that by (simp add: keeps_def p)
    also have "\<dots> = lz_dst z ! k" using z'(3) that by (simp add: p nth_append)
    finally show ?thesis .
  qed
  then show ?thesis using k z'(2) by (simp add: keeps_def p)
next
  case False
  then have q: "q < 7" "next_bit q = Suc q" using inv by (simp_all add: lz_inv_def next_bit_def)
  have "lz_copymask z * 2 \<noteq> 2 ^ NBBY"
    using inv q(1) power_inject_exp [of "2::nat" "q + 1" 8] by (simp add: lz_inv_def NBBY_def mult.commute)
  then have p: "prepare z = z\<lparr>lz_copymask := lz_copymask z * 2\<rparr>" by (simp add: prepare_def)
  have c: "lz_copymap z < length (lz_dst z)" using inv q(1) by (simp add: lz_inv_def)
  have "take_bit (Suc q) (out ! lz_copymap z) = take_bit (Suc q) (lz_dst z' ! lz_copymap z)"
    by (rule take_bit_less_eq [of "Suc (Suc q)"]) (use k z'(1,2) c in \<open>simp_all add: keeps_def p q\<close>)
  also have "\<dots> = take_bit (Suc q) (lz_dst z ! lz_copymap z)" using z'(4) by (simp add: p q)
  finally show ?thesis using k z'(1-3) by (simp add: keeps_def p)
qed

lemma compress_loop_ok:
  "lz_inv s d_len q z \<Longrightarrow> \<exists>n out. compress_loop s_addr s d_len z = Some (n, out) \<and> length out \<le> d_len \<and> keeps q z out \<and> (n = length s \<or> n = length out)"
proof (induction s_addr s d_len z arbitrary: q rule: compress_loop.induct)
  case (1 s_addr s d_len z)
  show ?case
  proof (cases "lz_src z < length s")
    case False
    then show ?thesis using 1(2) by (simp add: compress_loop.simps [of _ _ _ z] keeps_def lz_inv_def)
  next
    case True
    from compress_step_cases [OF 1(2) True, of s_addr] show ?thesis
    proof (elim disjE conjE)
      assume "compress_step s_addr s d_len z = Some (Inl (length s))"
      then show ?thesis using True 1(2) by (simp add: compress_loop.simps [of _ _ _ z] keeps_def lz_inv_def)
    next
      assume r: "lz_ready s d_len (next_bit q) (prepare z)" and st: "compress_step s_addr s d_len z = map_option Inr (compress_item s_addr s d_len (prepare z))"
      from compress_item_inv [OF r, of s_addr] obtain z' where z': "compress_item s_addr s d_len (prepare z) = Some z'" "lz_inv s d_len (next_bit q) z'"
        and rest: "lz_copymap z' = lz_copymap (prepare z)" "length (lz_dst (prepare z)) < length (lz_dst z')"
          "\<forall>k<length (lz_dst (prepare z)). k \<noteq> lz_copymap (prepare z) \<longrightarrow> lz_dst z' ! k = lz_dst (prepare z) ! k"
          "take_bit (next_bit q) (lz_dst z' ! lz_copymap (prepare z)) = take_bit (next_bit q) (lz_dst (prepare z) ! lz_copymap (prepare z))" .
      have st': "compress_step s_addr s d_len z = Some (Inr z')" using st z'(1) by simp
      from 1(1) [OF True st' refl z'(2)] obtain n out where ih: "compress_loop s_addr s d_len z' = Some (n, out)" "length out \<le> d_len" "keeps (next_bit q) z' out" "n = length s \<or> n = length out" by blast
      moreover have "keeps q z out" by (rule keeps_item [OF 1(2) r rest ih(3)])
      moreover have "compress_loop s_addr s d_len z = Some (n, out)" using True st' ih(1) by (simp add: compress_loop.simps [of _ _ _ z])
      ultimately show ?thesis by blast
    qed
  qed
qed


section \<open>The decompressor\<close>

lemma copy_loop_copies:
  "\<lbrakk>length d = length s; take j d = take j s; 0 < off; off \<le> j; \<forall>k<mlen. s ! (j + k) = s ! (j - off + k); j + mlen \<le> length s\<rbrakk> \<Longrightarrow>
   \<exists>d'. copy_loop d j (j - off) mlen = (d', j + mlen) \<and> length d' = length s \<and> take (j + mlen) d' = take (j + mlen) s"
proof (induction mlen arbitrary: d j)
  case (Suc mlen)
  let ?d = "d[j := d ! (j - off)]"
  have j: "j < length d" using Suc.prems(1,6) by simp
  have "d ! (j - off) = s ! (j - off)" using Suc.prems(2-4) by (metis nth_take diff_less le_trans not_le order_less_le_trans)
  also have "\<dots> = s ! j" using Suc.prems(5) by (metis add_0_right zero_less_Suc)
  finally have "take (j + 1) ?d = take (j + 1) s" using Suc.prems(1,2,6) j by (simp add: take_Suc_conv_app_nth)
  moreover have "\<forall>k<mlen. s ! (j + 1 + k) = s ! (j + 1 - off + k)" using Suc.prems(4,5) by (metis Suc_mono add.assoc add.commute Nat.add_diff_assoc2 plus_1_eq_Suc)
  ultimately have "\<exists>d'. copy_loop ?d (j + 1) (j + 1 - off) mlen = (d', j + 1 + mlen) \<and> length d' = length s \<and> take (j + 1 + mlen) d' = take (j + 1 + mlen) s"
    using Suc.prems(1,3,4,6) by (intro Suc.IH) simp_all
  then show ?case using j Suc.prems(4) by (simp add: Suc_diff_le)
qed simp

lemma encode_copy:
  assumes "3 \<le> mlen" "mlen \<le> 66" "offset < 1024" "s0 = (of_nat ((mlen - 3) * 4 + offset div 256) :: u8)" "s1 = (of_nat offset :: u8)"
  shows "drop_bit (NBBY - MATCH_BITS) (unat s0) + MATCH_MIN = mlen" "and_offset_mask (int (push_bit NBBY (unat s0) OR unat s1)) = offset"
proof -
  define m where "m = mlen - 3"
  have m: "m \<le> 63" "offset div 256 < 4" using assms by (simp_all add: m_def)
  then have "m * 4 + offset div 256 < 256" by linarith
  then have s0: "unat s0 = m * 4 + offset div 256" unfolding assms(4) m_def [symmetric] by (simp only: unat_of_nat) simp
  have s1: "unat s1 = offset mod 256" by (simp add: assms(5) unat_of_nat)
  show "drop_bit (NBBY - MATCH_BITS) (unat s0) + MATCH_MIN = mlen" unfolding s0 using m(2) assms(1) by (simp add: NBBY_def MATCH_BITS_def MATCH_MIN_def drop_bit_eq_div m_def)
  have "push_bit NBBY (unat s0) OR unat s1 = (m * 4 + offset div 256) * 256 + offset mod 256" unfolding s0 s1 by (subst push_bit_or) (simp_all add: NBBY_def)
  also have "\<dots> = m * 1024 + offset" by (simp add: algebra_simps)
  finally show "and_offset_mask (int (push_bit NBBY (unat s0) OR unat s1)) = offset"
    using assms(3) by (simp add: and_offset_mask_def MATCH_BITS_def nat_mod_distrib)
qed

lemma mask_bit: "q \<le> 7 \<Longrightarrow> (b :: u8) AND of_nat (2 ^ q) \<noteq> 0 \<longleftrightarrow> bit b q"
  by (simp add: and_exp_eq_0_iff_not_bit)

lemma rd_append: "i < length xs \<Longrightarrow> rd (xs @ ys) i = Some (xs ! i)"
  by (simp add: rd_def nth_append)

text \<open>The decompressor in front of the item that the compressor writes next, reading the final output.\<close>

lemma decompress_step_prepare:
  assumes inv: "lz_inv s d_len q z" and k: "keeps (next_bit q) z' out" "lz_copymap z' = lz_copymap (prepare z)" "length (lz_dst (prepare z)) < length (lz_dst z')" and m: "q < 7 \<longrightarrow> m = out ! lz_copymap z"
  shows "decompress_step (out @ rest) (length (lz_dst z), m, 2 ^ q, d, j) =
    decompress_item (out @ rest) (length (lz_dst (prepare z)), out ! lz_copymap (prepare z), 2 ^ next_bit q, d, j)"
proof (cases "q = 7")
  case True
  then have p: "prepare z = z\<lparr>lz_copymask := 1, lz_copymap := length (lz_dst z), lz_dst := lz_dst z @ [0]\<rparr>" using inv by (simp add: prepare_def lz_inv_def NBBY_def)
  have "length (lz_dst z) < length out" using k by (simp add: keeps_def p)
  then show ?thesis using True by (simp add: decompress_step_def rd_append NBBY_def Let_def p next_bit_def)
next
  case False
  then have q: "q < 7" using inv by (simp add: lz_inv_def)
  have "(2::nat) ^ q * 2 \<noteq> 2 ^ NBBY" using q power_inject_exp [of "2::nat" "q + 1" 8] by (simp add: NBBY_def mult.commute)
  then show ?thesis using inv m q by (simp add: decompress_step_def Let_def prepare_def lz_inv_def next_bit_def mult.commute)
qed

text \<open>It decodes that item, literal or copy, to the bytes of the source it stands for.\<close>

lemma decompress_item_inverts:
  assumes r: "lz_ready s d_len q z" and item: "compress_item s_addr s d_len z = Some z'" and inv: "lz_inv s d_len q z'" and k: "keeps q z' out" "lz_copymap z' = lz_copymap z"
    and d: "length d = length s" "take (lz_src z) d = take (lz_src z) s"
  obtains d' where "length d' = length s" "take (lz_src z') d' = take (lz_src z') s"
    "decompress_item (out @ rest) (length (lz_dst z), out ! lz_copymap z, 2 ^ q, d, lz_src z) = Some (Inr (length (lz_dst z'), out ! lz_copymap z, 2 ^ q, d', lz_src z'))"
proof -
  have q: "q \<le> 7" "lz_copymask z = 2 ^ q" "lz_src z < length s" "lz_copymap z < length (lz_dst z)" "\<not> bit (lz_dst z ! lz_copymap z) q"
    and room: "length (lz_dst z) + 2 \<le> d_len" using r by (auto simp: lz_ready_def)
  have kk: "length (lz_dst z') \<le> length out" "\<And>i. \<lbrakk>i < length (lz_dst z'); i \<noteq> lz_copymap z\<rbrakk> \<Longrightarrow> out ! i = lz_dst z' ! i"
    "lz_copymap z < length (lz_dst z') \<Longrightarrow> take_bit (Suc q) (out ! lz_copymap z) = take_bit (Suc q) (lz_dst z' ! lz_copymap z)" using k by (simp_all add: keeps_def)
  have b: "bit (out ! lz_copymap z) q \<longleftrightarrow> bit (lz_dst z' ! lz_copymap z) q" if "lz_copymap z < length (lz_dst z')"
    using kk(3) [OF that] by (metis bit_take_bit_iff lessI)
  show thesis
  proof (cases rule: compress_item_cases [OF q(3) room, of s_addr])
    case (1 l)
    then have z': "z' = z\<lparr>lz_lempel := l, lz_src := lz_src z + 1, lz_dst := lz_dst z @ [s ! lz_src z]\<rparr>" using item by simp
    have "\<not> bit (out ! lz_copymap z) q" using b q(4,5) by (simp add: z' nth_append)
    moreover have "rd (out @ rest) (length (lz_dst z)) = Some (s ! lz_src z)" using kk(1) kk(2) [of "length (lz_dst z)"] q(4) by (simp add: rd_append z')
    ultimately have "decompress_item (out @ rest) (length (lz_dst z), out ! lz_copymap z, 2 ^ q, d, lz_src z) =
        Some (Inr (length (lz_dst z'), out ! lz_copymap z, 2 ^ q, d[lz_src z := s ! lz_src z], lz_src z'))"
      using mask_bit [OF q(1)] by (simp add: decompress_item_def z' del: of_nat_power)
    moreover have "take (lz_src z') (d[lz_src z := s ! lz_src z]) = take (lz_src z') s" using d q(3) by (simp add: z' take_Suc_conv_app_nth)
    ultimately show thesis using d(1) by (intro that) simp_all
  next
    case (2 l offset mlen)
    let ?s0 = "of_nat ((mlen - 3) * 4 + offset div 256) :: u8" and ?s1 = "of_nat offset :: u8"
    have z': "z' = z\<lparr>lz_lempel := l, lz_src := lz_src z + mlen, lz_dst := (lz_dst z)[lz_copymap z := (lz_dst z ! lz_copymap z) OR of_nat (lz_copymask z)] @ [?s0, ?s1]\<rparr>"
      using item 2(8) by simp
    have "bit (out ! lz_copymap z) q" using b q(1,2,4) by (simp add: z' nth_append bit_or_iff bit_2p)
    then have bit: "out ! lz_copymap z AND of_nat (2 ^ q) \<noteq> 0" using mask_bit [OF q(1)] by simp
    have rds: "rd (out @ rest) (length (lz_dst z)) = Some ?s0" "rd (out @ rest) (length (lz_dst z) + 1) = Some ?s1"
      using kk(1) kk(2) [of "length (lz_dst z)"] kk(2) [of "length (lz_dst z) + 1"] q(4) by (simp_all add: rd_append z' nth_append del: of_nat_add of_nat_mult)
    from copy_loop_copies [OF d 2(1,3,7,6)] obtain d' where d': "copy_loop d (lz_src z) (lz_src z - offset) mlen = (d', lz_src z + mlen)" "length d' = length s" "take (lz_src z + mlen) d' = take (lz_src z + mlen) s" by blast
    have "decompress_item (out @ rest) (length (lz_dst z), out ! lz_copymap z, 2 ^ q, d, lz_src z) = Some (Inr (length (lz_dst z'), out ! lz_copymap z, 2 ^ q, d', lz_src z'))"
      using bit rds d'(1) 2(3) by (simp add: decompress_item_def encode_copy [OF 2(4,5,2) refl refl] Let_def z' del: of_nat_power of_nat_add of_nat_mult)
    then show thesis using d'(2,3) by (intro that) (simp_all add: z')
  qed
qed

lemma decompress_sim:
  "\<lbrakk>lz_inv s d_len q z; compress_loop s_addr s d_len z = Some (n, out); n \<noteq> length s; length d = length s; take (lz_src z) d = take (lz_src z) s; q < 7 \<longrightarrow> m = out ! lz_copymap z\<rbrakk> \<Longrightarrow>
   decompress_loop (out @ rest) (length (lz_dst z), m, 2 ^ q, d, lz_src z) = Some (0, s)"
proof (induction s_addr s d_len z arbitrary: q d m rule: compress_loop.induct)
  case (1 s_addr s d_len z)
  note inv = 1(2) and run = 1(3) and n = 1(4) and d = 1(5,6) and m = 1(7)
  show ?case
  proof (cases "lz_src z < length s")
    case False
    then have "d = s" using inv d by (simp add: lz_inv_def)
    then show ?thesis using False by (simp add: decompress_loop.simps)
  next
    case True
    from compress_step_cases [OF inv True, of s_addr] show ?thesis
    proof (elim disjE conjE)
      assume "compress_step s_addr s d_len z = Some (Inl (length s))"
      then show ?thesis using True run n by (simp add: compress_loop.simps [of _ _ _ z])
    next
      assume r: "lz_ready s d_len (next_bit q) (prepare z)" and st: "compress_step s_addr s d_len z = map_option Inr (compress_item s_addr s d_len (prepare z))"
      from compress_item_inv [OF r, of s_addr] obtain z' where z': "compress_item s_addr s d_len (prepare z) = Some z'" "lz_inv s d_len (next_bit q) z'"
        and rest: "lz_copymap z' = lz_copymap (prepare z)" "length (lz_dst (prepare z)) < length (lz_dst z')" .
      have st': "compress_step s_addr s d_len z = Some (Inr z')" using st z'(1) by simp
      have run': "compress_loop s_addr s d_len z' = Some (n, out)" using run True st' by (simp add: compress_loop.simps [of _ _ _ z])
      have k: "keeps (next_bit q) z' out" using compress_loop_ok [OF z'(2), of s_addr] run' by auto
      have src: "lz_src (prepare z) = lz_src z" by (simp add: prepare_def)
      have dp: "take (lz_src (prepare z)) d = take (lz_src (prepare z)) s" using d(2) by (simp add: src)
      obtain d' where d': "length d' = length s" "take (lz_src z') d' = take (lz_src z') s"
        and it: "decompress_item (out @ rest) (length (lz_dst (prepare z)), out ! lz_copymap (prepare z), 2 ^ next_bit q, d, lz_src (prepare z)) =
          Some (Inr (length (lz_dst z'), out ! lz_copymap (prepare z), 2 ^ next_bit q, d', lz_src z'))"
        by (rule decompress_item_inverts [OF r z' k rest(1) d(1) dp])
      have "decompress_step (out @ rest) (length (lz_dst z), m, 2 ^ q, d, lz_src z) = Some (Inr (length (lz_dst z'), out ! lz_copymap (prepare z), 2 ^ next_bit q, d', lz_src z'))"
        using decompress_step_prepare [OF inv k rest m] it src by simp
      moreover have "decompress_loop (out @ rest) (length (lz_dst z'), out ! lz_copymap (prepare z), 2 ^ next_bit q, d', lz_src z') = Some (0, s)"
        by (rule 1(1) [OF True st' refl z'(2) run' n d']) (simp add: rest(1))
      ultimately show ?thesis using True d(1) by (simp add: decompress_loop.simps [of _ "length (lz_dst z)"])
    qed
  qed
qed

lemma lz_inv_init: "lz_inv s d_len 7 \<lparr>lz_src = 0, lz_dst = [], lz_copymap = 0, lz_copymask = 2 ^ (NBBY - 1), lz_lempel = \<lambda>_. 0\<rparr>"
  by (simp add: lz_inv_def NBBY_def)


section \<open>The address of the source\<close>

text \<open>The table holds addresses, of which only differences modulo the size of the window reach the output.\<close>

definition same_lempel :: "nat \<Rightarrow> nat \<Rightarrow> (nat \<Rightarrow> nat) \<Rightarrow> (nat \<Rightarrow> nat) \<Rightarrow> bool" where
  "same_lempel a b l l' \<longleftrightarrow> (\<forall>h. (int a - int (l h)) mod 1024 = (int b - int (l' h)) mod 1024)"

lemma same_lempel_upd:
  assumes "same_lempel a b l l'"
  shows "same_lempel a b (l(h := (a + i) mod 65536)) (l'(h := (b + i) mod 65536))"
proof -
  have "(int a - int ((a + i) mod 65536)) mod 1024 = (- int i) mod 1024" for a :: nat
  proof -
    have "int ((a + i) mod 65536) mod 1024 = int (a + i) mod 1024" by (simp add: zmod_int mod_mod_cancel)
    then have "(int a - int ((a + i) mod 65536)) mod 1024 = (int a - int (a + i)) mod 1024" by (metis mod_diff_right_eq)
    then show ?thesis by simp
  qed
  then show ?thesis using assms by (simp add: same_lempel_def)
qed

lemma same_lempel_offset: "same_lempel a b l l' \<Longrightarrow> and_offset_mask (int a + int i - int (l h)) = and_offset_mask (int b + int i - int (l' h))"
proof -
  assume "same_lempel a b l l'"
  then have "(int a - int (l h)) mod 1024 = (int b - int (l' h)) mod 1024" by (simp add: same_lempel_def)
  then have "(int a - int (l h) + int i) mod 1024 = (int b - int (l' h) + int i) mod 1024" by (rule mod_add_cong) simp
  moreover have "int a + int i - int (l h) = int a - int (l h) + int i" "int b + int i - int (l' h) = int b - int (l' h) + int i" by simp_all
  ultimately show ?thesis unfolding and_offset_mask_def MATCH_BITS_def by (simp only:) simp
qed

text \<open>The two runs stay in step.\<close>

definition lz_same :: "nat \<Rightarrow> nat \<Rightarrow> lz \<Rightarrow> lz \<Rightarrow> bool" where
  "lz_same a b z z' \<longleftrightarrow> same_lempel a b (lz_lempel z) (lz_lempel z') \<and> z' = z\<lparr>lz_lempel := lz_lempel z'\<rparr>"

lemma compress_item_same:
  assumes "lz_same a b z z'"
  shows "rel_option (lz_same a b) (compress_item a s d_len z) (compress_item b s d_len z')"
proof -
  obtain l' where z': "z' = z\<lparr>lz_lempel := l'\<rparr>" and l: "same_lempel a b (lz_lempel z) l'" using assms unfolding lz_same_def by metis
  have lit: "rel_option (lz_same a b) (copy_literal s d_len (z\<lparr>lz_lempel := k\<rparr>)) (copy_literal s d_len (z\<lparr>lz_lempel := k'\<rparr>))" if "same_lempel a b k k'" for k k'
    using that by (cases "rd s (lz_src z)"; cases "put d_len (lz_dst z) (the (rd s (lz_src z)))") (simp_all add: copy_literal_def lz_same_def)
  have mat: "rel_option (lz_same a b) (copy_match s d_len off (z\<lparr>lz_lempel := k\<rparr>)) (copy_match s d_len off (z\<lparr>lz_lempel := k'\<rparr>))" if "same_lempel a b k k'" for k k' off
    using that by (auto simp: copy_match_def lz_same_def Let_def split: option.splits Option.bind_splits)
  have lit': "rel_option (lz_same a b) (copy_literal s d_len z) (copy_literal s d_len (z\<lparr>lz_lempel := l'\<rparr>))" using lit [OF l] by simp
  show ?thesis unfolding z'
    by (auto simp: compress_item_def Let_def same_lempel_offset [OF l] lit' intro!: lit mat same_lempel_upd l split: Option.bind_splits)
qed

lemma compress_step_same:
  assumes same: "lz_same a b z z'"
  shows "rel_option (rel_sum (=) (lz_same a b)) (compress_step a s d_len z) (compress_step b s d_len z')"
proof -
  obtain l' where z': "z' = z\<lparr>lz_lempel := l'\<rparr>" and l: "same_lempel a b (lz_lempel z) l'" using same unfolding lz_same_def by metis
  have item: "rel_option (rel_sum ((=) :: nat \<Rightarrow> nat \<Rightarrow> bool) (lz_same a b)) (map_option Inr (compress_item a s d_len y)) (map_option Inr (compress_item b s d_len y'))" if "lz_same a b y y'" for y y'
    using compress_item_same [OF that, of s d_len] unfolding option.rel_map rel_sum_simps .
  show ?thesis
  proof (cases "lz_copymask z * 2 = 2 ^ NBBY")
    case True
    let ?p = "\<lambda>z. z\<lparr>lz_copymask := 1, lz_copymap := length (lz_dst z), lz_dst := lz_dst z @ [0]\<rparr>"
    have "lz_same a b (?p z) (?p (z\<lparr>lz_lempel := l'\<rparr>))" using l by (cases z) (simp add: lz_same_def)
    from item [OF this] show ?thesis
      by (simp add: z' compress_step_def Let_def True put_def Option.map_conv_bind_option comp_def)
  next
    case False
    have "lz_same a b (z\<lparr>lz_copymask := lz_copymask z * 2\<rparr>) (z\<lparr>lz_lempel := l', lz_copymask := lz_copymask z * 2\<rparr>)" using l by (cases z) (simp add: lz_same_def)
    from item [OF this] show ?thesis using False by (simp add: z' compress_step_def Let_def)
  qed
qed

lemma compress_loop_same: "lz_same a b z z' \<Longrightarrow> compress_loop a s d_len z = compress_loop b s d_len z'"
proof (induction a s d_len z arbitrary: z' rule: compress_loop.induct)
  case (1 a s d_len z)
  obtain l' where "z' = z\<lparr>lz_lempel := l'\<rparr>" using 1(2) unfolding lz_same_def by metis
  then have eq: "lz_src z' = lz_src z" "lz_dst z' = lz_dst z" by simp_all
  have step: "rel_option (rel_sum (=) (lz_same a b)) (compress_step a s d_len z) (compress_step b s d_len z')" by (rule compress_step_same [OF 1(2)])
  show ?case
  proof (cases "lz_src z < length s")
    case True
    show ?thesis
    proof (cases "compress_step a s d_len z")
      case None
      then show ?thesis using step True by (simp add: compress_loop.simps [of _ _ _ z] compress_loop.simps [of _ _ _ z'] eq)
    next
      case (Some r)
      then obtain r' where r': "compress_step b s d_len z' = Some r'" "rel_sum (=) (lz_same a b) r r'" using step by (auto simp: option_rel_Some1)
      show ?thesis
      proof (cases r)
        case (Inl n)
        then have "r' = Inl n" using r'(2) by (cases r') simp_all
        then show ?thesis using Some Inl r'(1) True by (simp add: compress_loop.simps [of _ _ _ z] compress_loop.simps [of _ _ _ z'] eq)
      next
        case (Inr y)
        then obtain y' where y': "r' = Inr y'" "lz_same a b y y'" using r'(2) by (cases r') simp_all
        have "compress_loop a s d_len y = compress_loop b s d_len y'" by (rule 1(1) [OF True Some [unfolded Inr] refl y'(2)])
        then show ?thesis using Some Inr r'(1) y'(1) True by (simp add: compress_loop.simps [of _ _ _ z] compress_loop.simps [of _ _ _ z'] eq)
      qed
    qed
  qed (simp add: compress_loop.simps [of _ _ _ z] compress_loop.simps [of _ _ _ z'] eq)
qed


section \<open>Properties\<close>

text \<open>C23: The compressor returns for every source, every address of it and every size of the destination, without reading outside the source or writing outside the destination; the
  size it returns is the number of bytes written, or the size of the source when it gives up.\<close>

theorem lzjb_compress_bounds:
  "\<exists>n out. lzjb_compress s_addr s d_len = Some (n, out) \<and> length out \<le> d_len \<and> (n = length s \<or> n = length out)"
  using compress_loop_ok [OF lz_inv_init, of s_addr s d_len] unfolding lzjb_compress_def by blast

text \<open>C9: Decompression inverts compression: where the compressor did not give up, the decompressor, reading the bytes it wrote (and whatever follows them), fills a destination of the size of
  the source with the source.\<close>

theorem lzjb_roundtrip:
  assumes "lzjb_compress s_addr s d_len = Some (n, out)" "n \<noteq> length s" "length d = length s"
  shows "lzjb_decompress (out @ rest) d = Some (0, s)"
  using decompress_sim [OF lz_inv_init, of s_addr s d_len n out d 0 rest] assms by (simp add: lzjb_compress_def lzjb_decompress_def NBBY_def)

text \<open>The compressed bytes do not depend on the address of the source beyond its position in a window of 1024 bytes.\<close>

theorem lzjb_compress_aligned:
  assumes "a mod 1024 = b mod 1024"
  shows "lzjb_compress a s d_len = lzjb_compress b s d_len"
proof -
  have "int a mod 1024 = int b mod 1024" using assms by (metis of_nat_mod of_nat_numeral)
  then show ?thesis unfolding lzjb_compress_def by (intro compress_loop_same) (simp add: lz_same_def same_lempel_def)
qed

text \<open>Within the window it does: two copies of a block at different addresses compress to different sizes.\<close>

definition block :: "u8 list" where
  "block = [0, 1, 2, 3, 0, 1, 2, 4, 1, 2, 4] @ replicate 63 0"

theorem lzjb_address_dependent: "map_option fst (lzjb_compress 0 block 200) = Some 82 \<and> map_option fst (lzjb_compress 1019 block 200) = Some 81"
  by code_simp

text \<open>The decompressor does not look at the size of its source: on a source of no bytes it reads behind it.\<close>

theorem lzjb_decompress_overrun: "lzjb_decompress [] [0] = None"
  by code_simp


section \<open>Instances\<close>

theorem lzjb_roundtrip_witness: "lzjb_decompress ([2, 7, 252, 1, 7, 7, 7] @ [1, 1]) (replicate 70 0) = Some (0, replicate 70 7)"
proof (rule lzjb_roundtrip)
  show "lzjb_compress 0 (replicate 70 7) 70 = Some (7, [2, 7, 252, 1, 7, 7, 7])" by code_simp
qed simp_all

theorem lzjb_compress_aligned_witness: "lzjb_compress 1024 block 200 = lzjb_compress 4096 block 200"
  by (rule lzjb_compress_aligned) simp

end
