(* ===== verification/Pipe.thy ===== *)
theory Pipe
  imports Uio
begin

text \<open>
  The buffer behind pipes and local stream sockets, \<^verbatim>\<open>libc/pipe_buffer.cc\<close> with the files of \<^verbatim>\<open>libc/pipe.cc\<close>, and the threads that
  use it. A critical section, from the moment the mutex is taken until it is released or given up in a wait, is one step of one thread; what a
  thread does after it released the mutex (the wake-up that ends \<open>read\<close> and \<open>write\<close>) is a step of its own. A condition variable is the list
  of the threads that sleep on it. The notification of pollers is not modelled.
\<close>

section \<open>The buffer\<close>

definition max_buf :: nat where "max_buf = 8192"

record pipe_buffer =
  buf_q :: "byte list"
  receiver :: "nat option"
  sender :: "nat option"
  may_read :: "nat list"
  may_write :: "nat list"

definition pipe_buffer_new :: pipe_buffer where
  "pipe_buffer_new = \<lparr>buf_q = [], receiver = None, sender = None, may_read = [], may_write = []\<rparr>"

definition detach_sender :: "pipe_buffer \<Rightarrow> pipe_buffer" where
  "detach_sender b = (if sender b \<noteq> None then b\<lparr>sender := None, may_read := []\<rparr> else b)"

definition detach_receiver :: "pipe_buffer \<Rightarrow> pipe_buffer" where
  "detach_receiver b = (if receiver b \<noteq> None then b\<lparr>receiver := None, may_write := []\<rparr> else b)"

text \<open>\<open>None\<close> is a failed assertion.\<close>

definition attach_sender :: "nat \<Rightarrow> pipe_buffer \<Rightarrow> pipe_buffer option" where
  "attach_sender f b = (if sender b = None then Some (b\<lparr>sender := Some f\<rparr>) else None)"

definition attach_receiver :: "nat \<Rightarrow> pipe_buffer \<Rightarrow> pipe_buffer option" where
  "attach_receiver f b = (if receiver b = None then Some (b\<lparr>receiver := Some f\<rparr>) else None)"

definition POLLIN :: u32 where "POLLIN = 1"

definition POLLOUT :: u32 where "POLLOUT = 4"

definition POLLERR :: u32 where "POLLERR = 8"

definition POLLHUP :: u32 where "POLLHUP = 16"

definition read_events :: "pipe_buffer \<Rightarrow> u32" where
  "read_events b = (if buf_q b \<noteq> [] then POLLIN else 0) OR (if sender b = None then POLLHUP else 0)"

definition write_events :: "pipe_buffer \<Rightarrow> u32" where
  "write_events b =
     (if receiver b = None then POLLERR OR POLLOUT
      else if length (buf_q b) < max_buf then POLLOUT else 0)"

text \<open>\<open>copy_to_uio\<close>: the loop over the array, then the whole function.\<close>

fun copy_to_iovs :: "iovec list \<Rightarrow> byte list \<Rightarrow> uio \<Rightarrow> mem \<Rightarrow> byte list \<times> uio \<times> mem" where
  "copy_to_iovs [] q uio mem = (q, uio, mem)"
| "copy_to_iovs (iov # iovs) q uio mem =
     (if q = [] then (q, uio, mem)
      else
        let n = min (length q) (iov_len iov) in
        copy_to_iovs iovs (drop n q) (uio\<lparr>uio_resid := uio_resid uio - int n\<rparr>) (mem_write mem (iov_base iov) (take n q)))"

definition copy_to_uio :: "byte list \<Rightarrow> uio \<Rightarrow> mem \<Rightarrow> byte list \<times> uio \<times> mem" where
  "copy_to_uio q uio mem = copy_to_iovs (uio_iov uio) q uio mem"

text \<open>\<open>copy_from_uio\<close> from the index \<open>i\<close> and the offset \<open>off\<close>; the difference of the lengths is one of \<open>size_t\<close>.\<close>

partial_function (option) copy_from_uio :: "mem \<Rightarrow> uio \<Rightarrow> nat \<Rightarrow> nat \<Rightarrow> byte list \<Rightarrow> nat \<Rightarrow> (uio \<times> nat \<times> nat \<times> byte list) option" where
  "copy_from_uio mem uio i off buf bufsize =
     (if i < length (uio_iov uio) \<and> length buf < bufsize then
        let iov = uio_iov uio ! i;
            n = min (bufsize - length buf) (nat (size_t (int (iov_len iov) - int off)));
            buf' = buf @ mem_read mem (iov_base iov + off) n;
            uio' = uio\<lparr>uio_resid := uio_resid uio - int n\<rparr>
        in if off + n = iov_len iov then copy_from_uio mem uio' (Suc i) 0 buf' bufsize
           else copy_from_uio mem uio' i (off + n) buf' bufsize
      else Some (uio, i, off, buf))"


section \<open>The threads\<close>

text \<open>
  Where a thread is: asleep in, or woken from, one of the three waits, about to make the wake-up that follows the release of the mutex, or
  returned from its last call. The thread that fails the assertion of \<open>write\<close>, or never leaves \<open>copy_from_uio\<close>, is \<open>Failed\<close>.
\<close>

datatype pipe_pc =
    Read_wait uio
  | Read_wake uio
  | Write_room uio nat
  | Write_full uio nat nat
  | Write_wake uio
  | Done "errno option" uio
  | Idle
  | Failed

text \<open>
  The history variables are \<open>sent\<close>, the copies into the buffer, and \<open>got\<close>, what the readers find in their memory. Of a copy they keep the thread, the array
  of its request, how many bytes of the request were copied before, the memory at that moment and the bytes it appended.
\<close>

record pipe_chunk =
  ck_thread :: nat
  ck_iov :: "iovec list"
  ck_start :: nat
  ck_mem :: mem
  ck_bytes :: "byte list"

record pipe_sys =
  pipe :: pipe_buffer
  pmem :: mem
  pcs :: "nat \<Rightarrow> pipe_pc"
  sent :: "pipe_chunk list"
  got :: "byte list"

definition at_pc :: "nat \<Rightarrow> pipe_pc \<Rightarrow> pipe_sys \<Rightarrow> pipe_sys" where
  "at_pc t p s = s\<lparr>pcs := (pcs s)(t := p)\<rparr>"

definition wait_may_read :: "nat \<Rightarrow> pipe_pc \<Rightarrow> pipe_sys \<Rightarrow> pipe_sys" where
  "wait_may_read t p s = at_pc t p (s\<lparr>pipe := (pipe s)\<lparr>may_read := may_read (pipe s) @ [t]\<rparr>\<rparr>)"

definition wait_may_write :: "nat \<Rightarrow> pipe_pc \<Rightarrow> pipe_sys \<Rightarrow> pipe_sys" where
  "wait_may_write t p s = at_pc t p (s\<lparr>pipe := (pipe s)\<lparr>may_write := may_write (pipe s) @ [t]\<rparr>\<rparr>)"

definition wake_may_read :: "pipe_sys \<Rightarrow> pipe_sys" where
  "wake_may_read s = s\<lparr>pipe := (pipe s)\<lparr>may_read := []\<rparr>\<rparr>"

definition wake_may_write :: "pipe_sys \<Rightarrow> pipe_sys" where
  "wake_may_write s = s\<lparr>pipe := (pipe s)\<lparr>may_write := []\<rparr>\<rparr>"

text \<open>\<open>read\<close> from the test of its loop on, and from its start.\<close>

definition read_loop :: "nat \<Rightarrow> uio \<Rightarrow> pipe_sys \<Rightarrow> pipe_sys" where
  "read_loop t uio s =
     (let b = pipe s in
      if sender b \<noteq> None \<and> buf_q b = [] then wait_may_read t (Read_wait uio) s
      else if buf_q b = [] then at_pc t (Done None uio) s
      else
        case copy_to_uio (buf_q b) uio (pmem s) of (q', uio', mem') \<Rightarrow>
          at_pc t (Read_wake uio')
            (s\<lparr>pipe := b\<lparr>buf_q := q'\<rparr>, pmem := mem',
               got := got s @ take (nat (uio_resid uio - uio_resid uio')) (gather mem' (uio_iov uio))\<rparr>))"

definition pipe_read :: "nat \<Rightarrow> uio \<Rightarrow> bool \<Rightarrow> pipe_sys \<Rightarrow> pipe_sys" where
  "pipe_read t uio nonblock s =
     (if uio_resid uio = 0 then at_pc t (Done None uio) s
      else if nonblock \<and> buf_q (pipe s) = [] then at_pc t (Done (if sender (pipe s) \<noteq> None then Some EAGAIN else None) uio) s
      else read_loop t uio s)"

text \<open>
  \<open>write\<close> from the test of its copying loop on. After a copy that leaves data the buffer is full and the receiver is there, so the first test of
  the inner loop makes the thread wait.
\<close>

definition write_loop :: "nat \<Rightarrow> uio \<Rightarrow> nat \<Rightarrow> nat \<Rightarrow> bool \<Rightarrow> pipe_sys \<Rightarrow> pipe_sys" where
  "write_loop t uio ind offset nonblock s =
     (let b = pipe s in
      if uio_resid uio \<noteq> 0 \<and> receiver b \<noteq> None then
        case copy_from_uio (pmem s) uio ind offset (buf_q b) max_buf of
          None \<Rightarrow> at_pc t Failed s
        | Some (uio', ind', offset', q') \<Rightarrow>
            (let s' = s\<lparr>pipe := b\<lparr>buf_q := q'\<rparr>,
                   sent := sent s @ [\<lparr>ck_thread = t, ck_iov = uio_iov uio, ck_start = iov_total (uio_iov uio) - nat (uio_resid uio), ck_mem = pmem s,
                                     ck_bytes = drop (length (buf_q b)) q'\<rparr>]\<rparr> in
             if uio_resid uio' \<noteq> 0 then
               if length q' \<noteq> max_buf then at_pc t Failed s'
               else if nonblock then at_pc t (Done None uio') (wake_may_read s')
               else wait_may_write t (Write_full uio' ind' offset') (wake_may_read s')
             else at_pc t (Write_wake uio') s')
      else at_pc t (Write_wake uio) s)"

text \<open>A thread that was woken in the inner loop.\<close>

definition write_full :: "nat \<Rightarrow> uio \<Rightarrow> nat \<Rightarrow> nat \<Rightarrow> pipe_sys \<Rightarrow> pipe_sys" where
  "write_full t uio ind offset s =
     (if receiver (pipe s) \<noteq> None \<and> length (buf_q (pipe s)) = max_buf then wait_may_write t (Write_full uio ind offset) s
      else write_loop t uio ind offset False s)"

text \<open>The loop that waits for room, and what follows it.\<close>

definition write_room :: "nat \<Rightarrow> uio \<Rightarrow> nat \<Rightarrow> pipe_sys \<Rightarrow> pipe_sys" where
  "write_room t uio needroom s =
     (if receiver (pipe s) \<noteq> None \<and> max_buf < length (buf_q (pipe s)) + needroom then wait_may_write t (Write_room uio needroom) s
      else if receiver (pipe s) = None then at_pc t (Done (Some EPIPE) uio) s
      else write_loop t uio 0 0 False s)"

definition need_room :: "uio \<Rightarrow> nat" where
  "need_room uio = (if uio_resid uio \<le> 4096 then nat (uio_resid uio) else 1)"

definition pipe_write :: "nat \<Rightarrow> uio \<Rightarrow> bool \<Rightarrow> pipe_sys \<Rightarrow> pipe_sys" where
  "pipe_write t uio nonblock s =
     (if uio_resid uio = 0 then at_pc t (Done None uio) s
      else if nonblock then
        (if receiver (pipe s) = None then at_pc t (Done (Some EPIPE) uio) s
         else if max_buf < length (buf_q (pipe s)) + need_room uio then at_pc t (Done (Some EAGAIN) uio) s
         else write_loop t uio 0 0 True s)
      else write_room t uio (need_room uio) s)"

text \<open>
  The steps. A thread that is not in a call may start one, with a request whose residual count is its total length; a reader's memory ranges do not
  overlap. A thread in a wait goes on once it has been taken off the list of its condition variable. Files are closed, and memory changes, at any time.
\<close>

inductive pipe_step :: "pipe_sys \<Rightarrow> pipe_sys \<Rightarrow> bool" where
  call_read: "\<lbrakk>pcs s t = Idle \<or> pcs s t = Done e u; uio_ok uio; iov_disjoint (uio_iov uio)\<rbrakk> \<Longrightarrow> pipe_step s (pipe_read t uio nonblock s)"
| woken_read: "\<lbrakk>pcs s t = Read_wait uio; t \<notin> set (may_read (pipe s))\<rbrakk> \<Longrightarrow> pipe_step s (read_loop t uio s)"
| end_read: "pcs s t = Read_wake uio \<Longrightarrow> pipe_step s (at_pc t (Done None uio) (wake_may_write s))"
| call_write: "\<lbrakk>pcs s t = Idle \<or> pcs s t = Done e u; uio_ok uio\<rbrakk> \<Longrightarrow> pipe_step s (pipe_write t uio nonblock s)"
| woken_room: "\<lbrakk>pcs s t = Write_room uio n; t \<notin> set (may_write (pipe s))\<rbrakk> \<Longrightarrow> pipe_step s (write_room t uio n s)"
| woken_full: "\<lbrakk>pcs s t = Write_full uio i off; t \<notin> set (may_write (pipe s))\<rbrakk> \<Longrightarrow> pipe_step s (write_full t uio i off s)"
| end_write: "pcs s t = Write_wake uio \<Longrightarrow> pipe_step s (at_pc t (Done None uio) (wake_may_read s))"
| close_sender: "pipe_step s (s\<lparr>pipe := detach_sender (pipe s)\<rparr>)"
| close_receiver: "pipe_step s (s\<lparr>pipe := detach_receiver (pipe s)\<rparr>)"
| store: "pipe_step s (s\<lparr>pmem := mem\<rparr>)"

text \<open>\<open>pipe\<close> makes a buffer and attaches the file \<open>r\<close> of the reading end and the file \<open>w\<close> of the writing end.\<close>

definition pipe_start :: "nat \<Rightarrow> nat \<Rightarrow> mem \<Rightarrow> pipe_sys option" where
  "pipe_start r w mem =
     map_option (\<lambda>b. \<lparr>pipe = b, pmem = mem, pcs = \<lambda>_. Idle, sent = [], got = []\<rparr>)
       (Option.bind (attach_receiver r pipe_buffer_new) (attach_sender w))"


section \<open>The copies\<close>

lemma mem_write_other: "x \<notin> {a ..< a + length bs} \<Longrightarrow> mem_write mem a bs x = mem x"
  by (auto simp: mem_write_def)

lemma mem_read_cong: "(\<And>x. x \<in> {a ..< a + n} \<Longrightarrow> mem x = mem' x) \<Longrightarrow> mem_read mem a n = mem_read mem' a n"
  by (simp add: mem_read_def)

text \<open>A reader finds the first bytes of the buffer in its memory, and nothing else in memory changes.\<close>

lemma copy_to_iovs_spec:
  "iov_disjoint iovs \<Longrightarrow>
   \<exists>mem'. copy_to_iovs iovs q uio mem = (drop (iov_total iovs) q, uio\<lparr>uio_resid := uio_resid uio - int (min (length q) (iov_total iovs))\<rparr>, mem') \<and>
     take (length q) (gather mem' iovs) = take (iov_total iovs) q \<and> (\<forall>x. (\<forall>i\<in>set iovs. x \<notin> iov_range i) \<longrightarrow> mem' x = mem x)"
proof (induction iovs arbitrary: q uio mem)
  case Nil
  then show ?case by (simp add: iov_total_def gather_def)
next
  case (Cons i "is")
  show ?case
  proof (cases "q = []")
    case True
    then show ?thesis by simp
  next
    case False
    let ?n = "min (length q) (iov_len i)" and ?q = "drop (iov_len i) q"
    let ?mem = "mem_write mem (iov_base i) (take ?n q)" and ?uio = "uio\<lparr>uio_resid := uio_resid uio - int ?n\<rparr>"
    have q: "drop ?n q = ?q" by (simp add: min_def)
    obtain mem' where IH: "copy_to_iovs is ?q ?uio ?mem =
          (drop (iov_total is) ?q, ?uio\<lparr>uio_resid := uio_resid ?uio - int (min (length ?q) (iov_total is))\<rparr>, mem')"
        "take (length ?q) (gather mem' is) = take (iov_total is) ?q" "\<forall>x. (\<forall>i\<in>set is. x \<notin> iov_range i) \<longrightarrow> mem' x = ?mem x"
      using Cons.IH [of ?q ?uio ?mem] Cons.prems by auto
    have "mem_read mem' (iov_base i) ?n = mem_read ?mem (iov_base i) ?n"
    proof (rule mem_read_cong)
      fix x assume "x \<in> {iov_base i ..< iov_base i + ?n}"
      then have "x \<in> iov_range i" by (auto simp: iov_range_def)
      then have "\<forall>j\<in>set is. x \<notin> iov_range j" using Cons.prems by (auto dest!: bspec)
      then show "mem' x = ?mem x" using IH(3) by blast
    qed
    then have first: "mem_read mem' (iov_base i) ?n = take ?n q" by (simp add: mem_read_write)
    have rest: "uio_resid uio - int ?n - int (min (length ?q) (iov_total is)) = uio_resid uio - int (min (length q) (iov_total (i # is)))"
      by (auto simp: iov_total_Cons min_def)
    have "copy_to_iovs (i # is) q uio mem = (drop (iov_total (i # is)) q, uio\<lparr>uio_resid := uio_resid uio - int (min (length q) (iov_total (i # is)))\<rparr>, mem')"
      using False IH(1) rest by (simp add: q iov_total_Cons Let_def add.commute)
    moreover have "take (length q) (gather mem' (i # is)) = take (iov_total (i # is)) q"
    proof (cases "length q \<le> iov_len i")
      case True
      then have "take (length q) (gather mem' (i # is)) = q" using first mem_read_split [of "length q" "iov_len i" mem' "iov_base i"] by (simp add: gather_Cons)
      then show ?thesis using True by (simp add: iov_total_Cons)
    next
      case False
      then have "?n = iov_len i" by simp
      then show ?thesis using first IH(2) False by (simp add: gather_Cons iov_total_Cons take_add)
    qed
    moreover have "mem' x = mem x" if "\<forall>j\<in>set (i # is). x \<notin> iov_range j" for x
      using IH(3) that mem_write_other [of x "iov_base i" "take ?n q" mem] by (auto simp: iov_range_def)
    ultimately show ?thesis by blast
  qed
qed

lemma copy_to_uio_spec:
  assumes "uio_ok uio" "iov_disjoint (uio_iov uio)"
  obtains mem' n where "copy_to_uio q uio mem = (drop n q, uio\<lparr>uio_resid := uio_resid uio - int n\<rparr>, mem')"
    "n = min (length q) (nat (uio_resid uio))" "take n (gather mem' (uio_iov uio)) = take n q"
proof -
  let ?t = "iov_total (uio_iov uio)"
  define n where "n = min (length q) ?t"
  obtain mem' where m: "copy_to_uio q uio mem = (drop ?t q, uio\<lparr>uio_resid := uio_resid uio - int n\<rparr>, mem')"
      "take (length q) (gather mem' (uio_iov uio)) = take ?t q"
    using copy_to_iovs_spec [OF assms(2), of q uio mem] unfolding copy_to_uio_def n_def by blast
  have "drop ?t q = drop n q" by (simp add: n_def min_def)
  then have "copy_to_uio q uio mem = (drop n q, uio\<lparr>uio_resid := uio_resid uio - int n\<rparr>, mem')" using m(1) by argo
  moreover have "n = min (length q) (nat (uio_resid uio))" using assms(1) by (simp add: uio_ok_def n_def)
  moreover have "take n (gather mem' (uio_iov uio)) = take n (take (length q) (gather mem' (uio_iov uio)))" "take n (take ?t q) = take n q"
    by (simp_all add: n_def)
  then have "take n (gather mem' (uio_iov uio)) = take n q" using m(2) by argo
  ultimately show thesis by (rule that)
qed

text \<open>A position in the array: an index and an offset inside its range, with the residual count that is left from there on.\<close>

definition uio_at :: "uio \<Rightarrow> nat \<Rightarrow> nat \<Rightarrow> bool" where
  "uio_at uio i off \<longleftrightarrow> (\<forall>j\<in>set (uio_iov uio). iov_len j < 2 ^ 31) \<and> (off = 0 \<or> i < length (uio_iov uio) \<and> off < iov_len (uio_iov uio ! i)) \<and>
     uio_resid uio = int (iov_total (drop i (uio_iov uio))) - int off"

lemma uio_at_start: "uio_ok uio \<Longrightarrow> uio_at uio 0 0"
  by (simp add: uio_at_def uio_ok_def)

lemma uio_at_resid:
  assumes "uio_at uio i off"
  shows "0 \<le> uio_resid uio"
proof (cases "off = 0")
  case False
  then have "i < length (uio_iov uio)" "off < iov_len (uio_iov uio ! i)" using assms by (auto simp: uio_at_def)
  then have "off \<le> iov_total (drop i (uio_iov uio))" by (subst Cons_nth_drop_Suc [symmetric]) (simp_all add: iov_total_Cons)
  then show ?thesis using assms by (simp add: uio_at_def)
qed (use assms in \<open>simp add: uio_at_def\<close>)

lemma size_t_diff: "\<lbrakk>off \<le> len; len < 2 ^ 31\<rbrakk> \<Longrightarrow> nat (size_t (int len - int off)) = len - off"
  by (simp add: size_t_def)

text \<open>A writer appends the next bytes of its request, as many as fit.\<close>

lemma copy_from_uio_spec:
  assumes "uio_at uio i off" "length buf \<le> bufsize"
  shows "\<exists>i' off' n. copy_from_uio mem uio i off buf bufsize =
      Some (uio\<lparr>uio_resid := uio_resid uio - int n\<rparr>, i', off', buf @ take n (drop off (gather mem (drop i (uio_iov uio))))) \<and>
    int n = min (int (bufsize - length buf)) (uio_resid uio) \<and> uio_at (uio\<lparr>uio_resid := uio_resid uio - int n\<rparr>) i' off'"
  using assms
proof (induction "length (uio_iov uio) - i + (bufsize - length buf)" arbitrary: uio i off buf rule: less_induct)
  case less
  show ?case
  proof (cases "i < length (uio_iov uio) \<and> length buf < bufsize")
    case False
    then have "copy_from_uio mem uio i off buf bufsize = Some (uio, i, off, buf)" by (subst copy_from_uio.simps) (simp only: False if_False)
    moreover have "min (int (bufsize - length buf)) (uio_resid uio) = 0"
    proof (cases "i < length (uio_iov uio)")
      case True
      then have "bufsize - length buf = 0" using False by simp
      then show ?thesis using uio_at_resid [OF less.prems(1)] by simp
    next
      case False
      then have "uio_resid uio = 0" using less.prems(1) by (simp add: uio_at_def iov_total_def)
      then show ?thesis by simp
    qed
    ultimately show ?thesis using less.prems(1) by (intro exI [of _ i] exI [of _ off] exI [of _ 0]) simp
  next
    case True
    define iov where "iov = uio_iov uio ! i"
    define rest where "rest = drop (Suc i) (uio_iov uio)"
    define n where "n = min (bufsize - length buf) (iov_len iov - off)"
    let ?uio = "uio\<lparr>uio_resid := uio_resid uio - int n\<rparr>" and ?buf = "buf @ mem_read mem (iov_base iov + off) n"
    have split: "drop i (uio_iov uio) = iov # rest" using True by (simp add: iov_def rest_def Cons_nth_drop_Suc)
    have len: "iov_len iov < 2 ^ 31" "off \<le> iov_len iov" using less.prems(1) True by (auto simp: uio_at_def iov_def)
    have resid: "uio_resid uio = int (iov_len iov - off) + int (iov_total rest)"
      using less.prems(1) len(2) by (simp add: uio_at_def split iov_total_Cons)
    have bytes: "drop off (gather mem (drop i (uio_iov uio))) = mem_read mem (iov_base iov + off) (iov_len iov - off) @ gather mem rest"
      using len(2) mem_read_split [of off "iov_len iov" mem "iov_base iov"] by (simp add: split gather_Cons)
    have step: "copy_from_uio mem uio i off buf bufsize =
        (if off + n = iov_len iov then copy_from_uio mem ?uio (Suc i) 0 ?buf bufsize else copy_from_uio mem ?uio i (off + n) ?buf bufsize)"
      using True by (subst copy_from_uio.simps) (simp add: Let_def iov_def [symmetric] size_t_diff [OF len(2,1)] n_def [symmetric])
    show ?thesis
    proof (cases "off + n = iov_len iov")
      case end_iov: True
      have n: "n = iov_len iov - off" using end_iov by simp
      have at: "uio_at ?uio (Suc i) 0" using less.prems(1) resid n by (simp add: uio_at_def rest_def)
      have b: "length ?buf \<le> bufsize" using True unfolding n_def by auto
      have smaller: "length (uio_iov ?uio) - Suc i + (bufsize - length ?buf) < length (uio_iov uio) - i + (bufsize - length buf)"
        using conjunct1 [OF True] by simp
      obtain i' off' m where IH: "copy_from_uio mem ?uio (Suc i) 0 ?buf bufsize =
            Some (?uio\<lparr>uio_resid := uio_resid ?uio - int m\<rparr>, i', off', ?buf @ take m (drop 0 (gather mem (drop (Suc i) (uio_iov ?uio)))))"
          "int m = min (int (bufsize - length ?buf)) (uio_resid ?uio)" "uio_at (?uio\<lparr>uio_resid := uio_resid ?uio - int m\<rparr>) i' off'"
        using less.hyps [OF smaller at b] by blast
      have "int (n + m) = min (int (bufsize - length buf)) (uio_resid uio)"
        using IH(2) n resid True b by (simp add: min_def) linarith
      moreover have "?buf @ take m (gather mem rest) = buf @ take (n + m) (drop off (gather mem (drop i (uio_iov uio))))"
        unfolding bytes using n by simp
      ultimately show ?thesis
        using step end_iov IH(1,3) by (intro exI [of _ i'] exI [of _ off'] exI [of _ "n + m"]) (simp add: rest_def [symmetric] diff_diff_eq)
    next
      case inside: False
      then have n: "n = bufsize - length buf" "off + n < iov_len iov" using len(2) by (auto simp: n_def min_def split: if_splits)
      then have "length ?buf = bufsize" using True by simp
      then have "copy_from_uio mem ?uio i (off + n) ?buf bufsize = Some (?uio, i, off + n, ?buf)" by (subst copy_from_uio.simps) simp
      moreover have "uio_at ?uio i (off + n)" using less.prems(1) n(2) True by (simp add: uio_at_def iov_def)
      moreover have "take n (drop off (gather mem (drop i (uio_iov uio)))) = mem_read mem (iov_base iov + off) n"
        unfolding bytes using n(2) mem_read_split [of n "iov_len iov - off" mem "iov_base iov + off"] by simp
      moreover have "int n = min (int (bufsize - length buf)) (uio_resid uio)" using n resid by simp
      ultimately show ?thesis using step inside by (intro exI [of _ i] exI [of _ "off + n"] exI [of _ n]) simp
    qed
  qed
qed

section \<open>The invariant\<close>

text \<open>What the steps that changed the buffer promised about the others: the bytes of the two histories, and the requests of the threads.\<close>

fun pc_ok :: "pipe_buffer \<Rightarrow> pipe_pc \<Rightarrow> bool" where
  "pc_ok b (Read_wait uio) \<longleftrightarrow> uio_ok uio \<and> iov_disjoint (uio_iov uio) \<and> uio_resid uio \<noteq> 0"
| "pc_ok b (Write_room uio n) \<longleftrightarrow> uio_ok uio \<and> uio_resid uio \<noteq> 0 \<and> n = need_room uio"
| "pc_ok b (Write_full uio i off) \<longleftrightarrow> uio_at uio i off \<and> uio_resid uio \<noteq> 0 \<and> 4096 < iov_total (uio_iov uio)"
| "pc_ok b (Write_wake uio) \<longleftrightarrow> uio_resid uio = 0 \<or> receiver b = None"
| "pc_ok b Failed \<longleftrightarrow> False"
| "pc_ok b _ \<longleftrightarrow> True"

definition sent_bytes :: "pipe_sys \<Rightarrow> byte list" where
  "sent_bytes s = concat (map ck_bytes (sent s))"

text \<open>The bytes of a copy are the next ones of the request in the memory of the writer, and all of them when the request is short.\<close>

definition chunk_ok :: "pipe_chunk \<Rightarrow> bool" where
  "chunk_ok c \<longleftrightarrow> ck_bytes c \<noteq> [] \<and> ck_bytes c = take (length (ck_bytes c)) (drop (ck_start c) (gather (ck_mem c) (ck_iov c))) \<and>
     (iov_total (ck_iov c) \<le> 4096 \<longrightarrow> ck_bytes c = gather (ck_mem c) (ck_iov c))"

text \<open>The request of the last copy of a thread, and how far it got. A copy starts a request or goes on where the last one of its thread ended.\<close>

definition chunk_pos :: "nat \<Rightarrow> pipe_chunk list \<Rightarrow> iovec list \<times> nat" where
  "chunk_pos t cs = (case filter (\<lambda>c. ck_thread c = t) (rev cs) of [] \<Rightarrow> ([], 0) | c # _ \<Rightarrow> (ck_iov c, ck_start c + length (ck_bytes c)))"

definition in_order :: "pipe_chunk list \<Rightarrow> bool" where
  "in_order cs \<longleftrightarrow> (\<forall>ys c zs. cs = ys @ c # zs \<longrightarrow> ck_start c = 0 \<or> chunk_pos (ck_thread c) ys = (ck_iov c, ck_start c))"

definition uio_pos :: "uio \<Rightarrow> iovec list \<times> nat" where
  "uio_pos uio = (uio_iov uio, iov_total (uio_iov uio) - nat (uio_resid uio))"

fun pos_ok :: "iovec list \<times> nat \<Rightarrow> pipe_pc \<Rightarrow> bool" where
  "pos_ok p (Write_full uio i off) \<longleftrightarrow> p = uio_pos uio"
| "pos_ok p (Write_wake uio) \<longleftrightarrow> p = uio_pos uio"
| "pos_ok p _ \<longleftrightarrow> True"

definition order_ok :: "pipe_sys \<Rightarrow> bool" where
  "order_ok s \<longleftrightarrow> in_order (sent s) \<and> (\<forall>t. pos_ok (chunk_pos t (sent s)) (pcs s t))"

definition stream_ok :: "pipe_sys \<Rightarrow> bool" where
  "stream_ok s \<longleftrightarrow> sent_bytes s = got s @ buf_q (pipe s) \<and> length (buf_q (pipe s)) \<le> max_buf \<and>
     (\<forall>c\<in>set (sent s). chunk_ok c) \<and> (\<forall>t. pc_ok (pipe s) (pcs s t))"

text \<open>The sleeping threads: a reader has nothing to read, a writer no room, unless a thread is about to wake them.\<close>

fun no_room :: "pipe_buffer \<Rightarrow> pipe_pc \<Rightarrow> bool" where
  "no_room b (Write_room uio n) \<longleftrightarrow> max_buf < length (buf_q b) + n"
| "no_room b (Write_full uio i off) \<longleftrightarrow> max_buf \<le> length (buf_q b)"
| "no_room b _ \<longleftrightarrow> False"

fun is_read_wait :: "pipe_pc \<Rightarrow> bool" where
  "is_read_wait (Read_wait _) = True"
| "is_read_wait _ = False"

fun is_write_wait :: "pipe_pc \<Rightarrow> bool" where
  "is_write_wait (Write_room _ _) = True"
| "is_write_wait (Write_full _ _ _) = True"
| "is_write_wait _ = False"

definition wake_reader_pending :: "pipe_sys \<Rightarrow> bool" where
  "wake_reader_pending s \<longleftrightarrow> (\<exists>t uio. pcs s t = Write_wake uio)"

definition wake_writer_pending :: "pipe_sys \<Rightarrow> bool" where
  "wake_writer_pending s \<longleftrightarrow> (\<exists>t uio. pcs s t = Read_wake uio)"

definition sleepers_ok :: "pipe_sys \<Rightarrow> bool" where
  "sleepers_ok s \<longleftrightarrow>
     (\<forall>t\<in>set (may_read (pipe s)). is_read_wait (pcs s t) \<and> sender (pipe s) \<noteq> None \<and> (buf_q (pipe s) = [] \<or> wake_reader_pending s)) \<and>
     (\<forall>t\<in>set (may_write (pipe s)). is_write_wait (pcs s t) \<and> receiver (pipe s) \<noteq> None \<and> (no_room (pipe s) (pcs s t) \<or> wake_writer_pending s))"

lemmas pipe_ops = at_pc_def wait_may_read_def wait_may_write_def wake_may_read_def wake_may_write_def

text \<open>A step of the thread \<open>t\<close>, which does not sleep.\<close>

definition awake :: "nat \<Rightarrow> pipe_sys \<Rightarrow> bool" where
  "awake t s \<longleftrightarrow> t \<notin> set (may_read (pipe s)) \<and> t \<notin> set (may_write (pipe s))"

text \<open>The requests of the other threads do not depend on the contents of the buffer.\<close>

lemma pc_ok_cong: "receiver b' = receiver b \<Longrightarrow> pc_ok b' p = pc_ok b p"
  by (cases p) simp_all

lemma stream_ok_pc:
  assumes "stream_ok s" "pc_ok (pipe s) p"
  shows "stream_ok (at_pc t p s)" "stream_ok (wait_may_read t p s)" "stream_ok (wait_may_write t p s)"
proof -
  have "pc_ok (pipe (wait_may_read t p s)) q = pc_ok (pipe s) q" "pc_ok (pipe (wait_may_write t p s)) q = pc_ok (pipe s) q" for q
    by (rule pc_ok_cong, simp add: pipe_ops)+
  then show "stream_ok (at_pc t p s)" "stream_ok (wait_may_read t p s)" "stream_ok (wait_may_write t p s)"
    using assms by (simp_all add: stream_ok_def sent_bytes_def pipe_ops)
qed

lemma stream_ok_wake:
  assumes "stream_ok s"
  shows "stream_ok (wake_may_read s)" "stream_ok (wake_may_write s)"
proof -
  have "pc_ok (pipe (wake_may_read s)) q = pc_ok (pipe s) q" "pc_ok (pipe (wake_may_write s)) q = pc_ok (pipe s) q" for q
    by (rule pc_ok_cong, simp add: pipe_ops)+
  then show "stream_ok (wake_may_read s)" "stream_ok (wake_may_write s)"
    using assms by (simp_all add: stream_ok_def sent_bytes_def pipe_ops)
qed

lemma read_loop_stream:
  assumes ok: "stream_ok s" and uio: "uio_ok uio" "iov_disjoint (uio_iov uio)" "uio_resid uio \<noteq> 0"
  shows "stream_ok (read_loop t uio s)"
proof -
  consider (wait) "sender (pipe s) \<noteq> None" "buf_q (pipe s) = []" | (eof) "sender (pipe s) = None" "buf_q (pipe s) = []" | (copy) "buf_q (pipe s) \<noteq> []"
    by blast
  then show ?thesis
  proof cases
    case wait
    then have "read_loop t uio s = wait_may_read t (Read_wait uio) s" by (simp add: read_loop_def)
    then show ?thesis using stream_ok_pc(2) [OF ok, of "Read_wait uio"] uio by simp
  next
    case eof
    then have "read_loop t uio s = at_pc t (Done None uio) s" by (simp add: read_loop_def)
    then show ?thesis using stream_ok_pc(1) [OF ok, of "Done None uio"] by simp
  next
    case copy
    obtain mem' n where c: "copy_to_uio (buf_q (pipe s)) uio (pmem s) = (drop n (buf_q (pipe s)), uio\<lparr>uio_resid := uio_resid uio - int n\<rparr>, mem')"
        "n = min (length (buf_q (pipe s))) (nat (uio_resid uio))" "take n (gather mem' (uio_iov uio)) = take n (buf_q (pipe s))"
      by (rule copy_to_uio_spec [OF uio(1,2)])
    define u where "u = s\<lparr>pipe := (pipe s)\<lparr>buf_q := drop n (buf_q (pipe s))\<rparr>, pmem := mem', got := got s @ take n (buf_q (pipe s))\<rparr>"
    have e: "read_loop t uio s = at_pc t (Read_wake (uio\<lparr>uio_resid := uio_resid uio - int n\<rparr>)) u"
      using copy c(1,3) by (simp add: read_loop_def Let_def u_def)
    have "pc_ok (pipe u) p = pc_ok (pipe s) p" for p by (rule pc_ok_cong) (simp add: u_def)
    then have "stream_ok u" using ok by (auto simp: stream_ok_def sent_bytes_def u_def)
    then show ?thesis unfolding e by (rule stream_ok_pc(1)) simp
  qed
qed

text \<open>What is left of a request at a position in its array.\<close>

lemma gather_drop: "gather mem (drop i iovs) = drop (iov_total (take i iovs)) (gather mem iovs)"
  by (induction iovs arbitrary: i) (simp_all add: gather_def iov_total_def drop_Cons' take_Cons')

lemma iov_total_take_drop: "iov_total iovs = iov_total (take i iovs) + iov_total (drop i iovs)"
  unfolding iov_total_def by (metis append_take_drop_id map_append sum_list_append)

lemma uio_at_gather:
  assumes "uio_at uio i off"
  shows "drop off (gather mem (drop i (uio_iov uio))) = drop (snd (uio_pos uio)) (gather mem (uio_iov uio))"
    "int (snd (uio_pos uio)) = int (iov_total (uio_iov uio)) - uio_resid uio"
proof -
  have "0 \<le> uio_resid uio" by (rule uio_at_resid [OF assms])
  then have "iov_total (uio_iov uio) - nat (uio_resid uio) = iov_total (take i (uio_iov uio)) + off"
    "int (iov_total (uio_iov uio)) - uio_resid uio = int (iov_total (take i (uio_iov uio)) + off)"
    using assms iov_total_take_drop [of "uio_iov uio" i] by (simp_all add: uio_at_def)
  then show "drop off (gather mem (drop i (uio_iov uio))) = drop (snd (uio_pos uio)) (gather mem (uio_iov uio))"
    "int (snd (uio_pos uio)) = int (iov_total (uio_iov uio)) - uio_resid uio"
    by (simp_all add: uio_pos_def gather_drop add.commute)
qed

definition uio_chunk :: "nat \<Rightarrow> uio \<Rightarrow> mem \<Rightarrow> byte list \<Rightarrow> pipe_chunk" where
  "uio_chunk t uio mem bs = \<lparr>ck_thread = t, ck_iov = uio_iov uio, ck_start = snd (uio_pos uio), ck_mem = mem, ck_bytes = bs\<rparr>"

text \<open>The copy of a writer: the bytes that \<open>write_loop\<close> appends, and where the thread goes.\<close>

lemma write_loop_cases:
  assumes "uio_at uio i off" "length (buf_q (pipe s)) \<le> max_buf" "uio_resid uio \<noteq> 0" "receiver (pipe s) \<noteq> None"
  obtains bs uio' i' off' s' where
    "s' = s\<lparr>pipe := (pipe s)\<lparr>buf_q := buf_q (pipe s) @ bs\<rparr>, sent := sent s @ [uio_chunk t uio (pmem s) bs]\<rparr>"
    "int (length bs) = min (int (max_buf - length (buf_q (pipe s)))) (uio_resid uio)" "uio_iov uio' = uio_iov uio"
    "uio_resid uio' = uio_resid uio - int (length bs)" "uio_at uio' i' off'"
    "uio_resid uio' \<noteq> 0 \<Longrightarrow> length (buf_q (pipe s)) + length bs = max_buf"
    "write_loop t uio i off nonblock s =
       (if uio_resid uio' = 0 then at_pc t (Write_wake uio') s'
        else if nonblock then at_pc t (Done None uio') (wake_may_read s')
        else wait_may_write t (Write_full uio' i' off') (wake_may_read s'))"
    "bs = take (length bs) (drop (snd (uio_pos uio)) (gather (pmem s) (uio_iov uio)))"
proof -
  let ?q = "buf_q (pipe s)" and ?rest = "drop off (gather (pmem s) (drop i (uio_iov uio)))"
  obtain i' off' n where c: "copy_from_uio (pmem s) uio i off ?q max_buf = Some (uio\<lparr>uio_resid := uio_resid uio - int n\<rparr>, i', off', ?q @ take n ?rest)"
      "int n = min (int (max_buf - length ?q)) (uio_resid uio)" "uio_at (uio\<lparr>uio_resid := uio_resid uio - int n\<rparr>) i' off'"
    using copy_from_uio_spec [OF assms(1,2), of "pmem s"] by blast
  have "length ?rest = nat (uio_resid uio)" using assms(1) by (simp add: uio_at_def nat_diff_distrib')
  then have len: "length (take n ?rest) = n" using c(2) by simp
  define s' where "s' = s\<lparr>pipe := (pipe s)\<lparr>buf_q := ?q @ take n ?rest\<rparr>, sent := sent s @ [uio_chunk t uio (pmem s) (take n ?rest)]\<rparr>"
  have full: "length ?q + n = max_buf" if "uio_resid uio - int n \<noteq> 0" using that c(2) assms(2) by (auto simp: min_def split: if_splits)
  let ?uio = "uio\<lparr>uio_resid := uio_resid uio - int n\<rparr>"
  show thesis
  proof (rule that [OF s'_def])
    show "int (length (take n ?rest)) = min (int (max_buf - length ?q)) (uio_resid uio)" unfolding len by (rule c(2))
    show "uio_iov ?uio = uio_iov uio" by simp
    show "uio_resid ?uio = uio_resid uio - int (length (take n ?rest))" unfolding len by simp
    show "uio_at ?uio i' off'" by (rule c(3))
    show "length ?q + length (take n ?rest) = max_buf" if "uio_resid ?uio \<noteq> 0" unfolding len using full that by simp
    show "write_loop t uio i off nonblock s =
       (if uio_resid ?uio = 0 then at_pc t (Write_wake ?uio) s'
        else if nonblock then at_pc t (Done None ?uio) (wake_may_read s')
        else wait_may_write t (Write_full ?uio i' off') (wake_may_read s'))"
      using assms(3,4) c(1) full len by (simp add: write_loop_def Let_def s'_def uio_chunk_def uio_pos_def)
    show "take n ?rest = take (length (take n ?rest)) (drop (snd (uio_pos uio)) (gather (pmem s) (uio_iov uio)))"
      using uio_at_gather(1) [OF assms(1), of "pmem s"] len by simp
  qed
qed

text \<open>A request of at most 4096 bytes starts to copy only when there is room for all of it.\<close>

definition fits :: "uio \<Rightarrow> pipe_buffer \<Rightarrow> bool" where
  "fits uio b \<longleftrightarrow> length (buf_q b) < max_buf \<and>
     (iov_total (uio_iov uio) \<le> 4096 \<longrightarrow> uio_resid uio = int (iov_total (uio_iov uio)) \<and> length (buf_q b) + iov_total (uio_iov uio) \<le> max_buf)"

lemma fits_start: "\<lbrakk>uio_ok uio; uio_resid uio \<noteq> 0; length (buf_q b) + need_room uio \<le> max_buf\<rbrakk> \<Longrightarrow> fits uio b"
  by (auto simp: fits_def need_room_def uio_ok_def split: if_splits)

lemma write_loop_stream:
  assumes ok: "stream_ok s" and uio: "uio_at uio i off" "uio_resid uio \<noteq> 0" and room: "receiver (pipe s) \<noteq> None \<Longrightarrow> fits uio (pipe s)"
  shows "stream_ok (write_loop t uio i off nonblock s)"
proof (cases "receiver (pipe s)")
  case None
  then have "write_loop t uio i off nonblock s = at_pc t (Write_wake uio) s" by (simp add: write_loop_def)
  then show ?thesis using stream_ok_pc(1) [OF ok, of "Write_wake uio"] None by simp
next
  case (Some r)
  then have recv: "receiver (pipe s) \<noteq> None" by simp
  have small: "length (buf_q (pipe s)) \<le> max_buf" using ok by (simp add: stream_ok_def)
  obtain bs uio' i' off' s' where w:
    "s' = s\<lparr>pipe := (pipe s)\<lparr>buf_q := buf_q (pipe s) @ bs\<rparr>, sent := sent s @ [uio_chunk t uio (pmem s) bs]\<rparr>"
    "int (length bs) = min (int (max_buf - length (buf_q (pipe s)))) (uio_resid uio)" "uio_iov uio' = uio_iov uio"
    "uio_resid uio' = uio_resid uio - int (length bs)" "uio_at uio' i' off'"
    "uio_resid uio' \<noteq> 0 \<Longrightarrow> length (buf_q (pipe s)) + length bs = max_buf"
    "write_loop t uio i off nonblock s =
       (if uio_resid uio' = 0 then at_pc t (Write_wake uio') s'
        else if nonblock then at_pc t (Done None uio') (wake_may_read s')
        else wait_may_write t (Write_full uio' i' off') (wake_may_read s'))"
    "bs = take (length bs) (drop (snd (uio_pos uio)) (gather (pmem s) (uio_iov uio)))"
    by (rule write_loop_cases [OF uio(1) small uio(2) recv, of t nonblock]) blast
  have f: "fits uio (pipe s)" by (rule room [OF recv])
  have pos: "0 < uio_resid uio"
    using uio_at_resid [OF uio(1)] uio(2) by simp
  have "0 < int (length bs)" unfolding w(2) using f pos by (simp add: fits_def)
  moreover have "bs = gather (pmem s) (uio_iov uio)" if "iov_total (uio_iov uio) \<le> 4096"
  proof -
    have "length bs = iov_total (uio_iov uio)" "snd (uio_pos uio) = 0" using that w(2) f by (simp_all add: fits_def uio_pos_def)
    then show ?thesis using w(8) by simp
  qed
  ultimately have chunk: "chunk_ok (uio_chunk t uio (pmem s) bs)" using w(8) by (simp add: chunk_ok_def uio_chunk_def)
  have large: "4096 < iov_total (uio_iov uio)" if "uio_resid uio' \<noteq> 0"
    using that w(2,4) f by (auto simp: fits_def)
  have "length (buf_q (pipe s)) + length bs \<le> max_buf" using w(2) small by simp
  moreover have "pc_ok (pipe s') p = pc_ok (pipe s) p" for p by (rule pc_ok_cong) (simp add: w(1))
  ultimately have ok': "stream_ok s'" using ok chunk by (auto simp: stream_ok_def sent_bytes_def w(1) uio_chunk_def)
  show ?thesis
    unfolding w(7)
  proof (split if_split, intro conjI impI)
    assume "uio_resid uio' = 0"
    then show "stream_ok (at_pc t (Write_wake uio') s')" by (intro stream_ok_pc(1) [OF ok']) simp
  next
    assume left: "uio_resid uio' \<noteq> 0"
    have "stream_ok (wake_may_read s')" by (rule stream_ok_wake(1) [OF ok'])
    then show "stream_ok (if nonblock then at_pc t (Done None uio') (wake_may_read s') else wait_may_write t (Write_full uio' i' off') (wake_may_read s'))"
      using stream_ok_pc [of "wake_may_read s'"] left w(3,5) large by simp
  qed
qed

lemma write_room_stream:
  assumes ok: "stream_ok s" and uio: "uio_ok uio" "uio_resid uio \<noteq> 0"
  shows "stream_ok (write_room t uio (need_room uio) s)"
proof -
  consider (wait) "receiver (pipe s) \<noteq> None" "max_buf < length (buf_q (pipe s)) + need_room uio" | (gone) "receiver (pipe s) = None"
    | (go) "receiver (pipe s) \<noteq> None" "length (buf_q (pipe s)) + need_room uio \<le> max_buf" by linarith
  then show ?thesis
  proof cases
    case wait
    then show ?thesis using stream_ok_pc(3) [OF ok, of "Write_room uio (need_room uio)"] uio by (simp add: write_room_def)
  next
    case gone
    then show ?thesis using stream_ok_pc(1) [OF ok, of "Done (Some EPIPE) uio"] by (simp add: write_room_def)
  next
    case go
    then have "write_room t uio (need_room uio) s = write_loop t uio 0 0 False s" by (auto simp: write_room_def)
    then show ?thesis using write_loop_stream [OF ok uio_at_start [OF uio(1)] uio(2)] fits_start [OF uio go(2)] by simp
  qed
qed

lemma write_full_stream:
  assumes ok: "stream_ok s" and uio: "uio_at uio i off" "uio_resid uio \<noteq> 0" "4096 < iov_total (uio_iov uio)"
  shows "stream_ok (write_full t uio i off s)"
proof (cases "receiver (pipe s) \<noteq> None \<and> length (buf_q (pipe s)) = max_buf")
  case True
  then show ?thesis using stream_ok_pc(3) [OF ok, of "Write_full uio i off"] uio by (simp add: write_full_def)
next
  case False
  then have "write_full t uio i off s = write_loop t uio i off False s" by (auto simp: write_full_def)
  moreover have "fits uio (pipe s)" if "receiver (pipe s) \<noteq> None"
    using that False ok uio(3) by (simp add: fits_def stream_ok_def)
  ultimately show ?thesis using write_loop_stream [OF ok uio(1,2)] by simp
qed

lemma pipe_step_stream:
  assumes "pipe_step s s'" "stream_ok s"
  shows "stream_ok s'"
  using assms
proof (induction rule: pipe_step.induct)
  case (call_read s t e u uio nonblock)
  then show ?case using stream_ok_pc(1) [OF call_read.prems] read_loop_stream [OF call_read.prems call_read.hyps(2,3)] by (simp add: pipe_read_def)
next
  case (woken_read s t uio)
  then have "pc_ok (pipe s) (Read_wait uio)" by (metis stream_ok_def)
  then show ?case using read_loop_stream [OF woken_read.prems] by simp
next
  case (end_read s t uio)
  then show ?case using stream_ok_pc(1) [OF stream_ok_wake(2)] by simp
next
  case (call_write s t e u uio nonblock)
  note ok = call_write.prems and uio = call_write.hyps(2)
  show ?case
    unfolding pipe_write_def
    using stream_ok_pc(1) [OF ok] write_room_stream [OF ok uio] write_loop_stream [OF ok uio_at_start [OF uio], where nonblock = True and t = t]
      fits_start [OF uio, of "pipe s"]
    by (simp add: not_less)
next
  case (woken_room s t uio n)
  then have "pc_ok (pipe s) (Write_room uio n)" by (metis stream_ok_def)
  then show ?case using write_room_stream [OF woken_room.prems] by simp
next
  case (woken_full s t uio i off)
  then have "pc_ok (pipe s) (Write_full uio i off)" by (metis stream_ok_def)
  then show ?case using write_full_stream [OF woken_full.prems] by simp
next
  case (end_write s t uio)
  then show ?case using stream_ok_pc(1) [OF stream_ok_wake(1)] by simp
next
  case (close_sender s)
  have "pc_ok (detach_sender (pipe s)) p = pc_ok (pipe s) p" for p by (rule pc_ok_cong) (simp add: detach_sender_def)
  then show ?case using close_sender.prems by (simp add: stream_ok_def sent_bytes_def detach_sender_def)
next
  case (close_receiver s)
  have "pc_ok (pipe s) p \<Longrightarrow> pc_ok (detach_receiver (pipe s)) p" for p by (cases p) (simp_all add: detach_receiver_def)
  moreover have "buf_q (detach_receiver (pipe s)) = buf_q (pipe s)" by (simp add: detach_receiver_def)
  ultimately show ?case using close_receiver.prems by (simp add: stream_ok_def sent_bytes_def)
next
  case (store s mem)
  then show ?case by (simp add: stream_ok_def sent_bytes_def)
qed

text \<open>The order of the copies.\<close>

lemma chunk_pos_snoc: "chunk_pos t (cs @ [c]) = (if ck_thread c = t then (ck_iov c, ck_start c + length (ck_bytes c)) else chunk_pos t cs)"
  by (simp add: chunk_pos_def)

lemma in_order_snoc: "\<lbrakk>in_order cs; ck_start c = 0 \<or> chunk_pos (ck_thread c) cs = (ck_iov c, ck_start c)\<rbrakk> \<Longrightarrow> in_order (cs @ [c])"
  unfolding in_order_def by (metis append_eq_append_conv2 append_eq_Cons_conv append_Cons append_Nil append_self_conv butlast_append butlast_snoc last_ConsL last_appendR list.distinct(1) last_snoc butlast.simps(2))

lemma order_ok_pc:
  assumes "order_ok s" "pos_ok (chunk_pos t (sent s)) p"
  shows "order_ok (at_pc t p s)" "order_ok (wait_may_read t p s)" "order_ok (wait_may_write t p s)"
  using assms by (simp_all add: order_ok_def pipe_ops)

lemma order_ok_same: "\<lbrakk>order_ok s; sent s' = sent s; pcs s' = pcs s\<rbrakk> \<Longrightarrow> order_ok s'"
  by (simp add: order_ok_def)

lemma read_loop_order:
  assumes "order_ok s"
  shows "order_ok (read_loop t uio s)"
  using assms by (auto simp: read_loop_def Let_def order_ok_def pipe_ops split: prod.splits)

lemma write_loop_order:
  assumes ok: "order_ok s" and uio: "uio_at uio i off" "uio_resid uio \<noteq> 0" and small: "length (buf_q (pipe s)) \<le> max_buf"
    and pos: "snd (uio_pos uio) = 0 \<and> receiver (pipe s) \<noteq> None \<or> chunk_pos t (sent s) = uio_pos uio"
  shows "order_ok (write_loop t uio i off nonblock s)"
proof (cases "receiver (pipe s)")
  case None
  then have "write_loop t uio i off nonblock s = at_pc t (Write_wake uio) s" by (simp add: write_loop_def)
  then show ?thesis using order_ok_pc(1) [OF ok, of t "Write_wake uio"] pos None by simp
next
  case (Some r)
  then have recv: "receiver (pipe s) \<noteq> None" by simp
  obtain bs uio' i' off' s' where w:
    "s' = s\<lparr>pipe := (pipe s)\<lparr>buf_q := buf_q (pipe s) @ bs\<rparr>, sent := sent s @ [uio_chunk t uio (pmem s) bs]\<rparr>"
    "uio_iov uio' = uio_iov uio" "uio_resid uio' = uio_resid uio - int (length bs)" "uio_at uio' i' off'"
    "write_loop t uio i off nonblock s =
       (if uio_resid uio' = 0 then at_pc t (Write_wake uio') s'
        else if nonblock then at_pc t (Done None uio') (wake_may_read s')
        else wait_may_write t (Write_full uio' i' off') (wake_may_read s'))"
    by (rule write_loop_cases [OF uio(1) small uio(2) recv, of t nonblock]) blast
  have "int (snd (uio_pos uio')) = int (snd (uio_pos uio) + length bs)"
    using uio_at_gather(2) [OF uio(1)] uio_at_gather(2) [OF w(4)] w(2,3) by simp
  then have here: "chunk_pos t (sent s') = uio_pos uio'"
    using w(2) by (simp add: w(1) chunk_pos_snoc uio_chunk_def uio_pos_def)
  have other: "chunk_pos u (sent s') = chunk_pos u (sent s)" if "u \<noteq> t" for u using that by (simp add: w(1) chunk_pos_snoc uio_chunk_def)
  have "in_order (sent s')"
    unfolding w(1) using in_order_snoc [of "sent s" "uio_chunk t uio (pmem s) bs"] ok pos
    by (auto simp: order_ok_def uio_chunk_def uio_pos_def)
  then have at: "order_ok (at_pc t p s')" if "pos_ok (uio_pos uio') p" for p
    using ok that here other by (auto simp: order_ok_def at_pc_def w(1))
  have "order_ok (at_pc t (Done None uio') (wake_may_read s'))" by (rule order_ok_same [OF at [of "Done None uio'"]]) (simp_all add: pipe_ops)
  moreover have "order_ok (wait_may_write t (Write_full uio' i' off') (wake_may_read s'))"
    by (rule order_ok_same [OF at [of "Write_full uio' i' off'"]]) (simp_all add: pipe_ops)
  ultimately show ?thesis unfolding w(5) using at [of "Write_wake uio'"] by simp
qed

lemma write_room_order:
  assumes "order_ok s" "uio_ok uio" "uio_resid uio \<noteq> 0" "length (buf_q (pipe s)) \<le> max_buf"
  shows "order_ok (write_room t uio n s)"
proof -
  have "snd (uio_pos uio) = 0" using assms(2) by (simp add: uio_pos_def uio_ok_def)
  then show ?thesis
    using write_loop_order [OF assms(1) uio_at_start [OF assms(2)] assms(3,4), of t False] order_ok_pc [OF assms(1)]
    by (simp add: write_room_def)
qed

lemma pipe_step_order:
  assumes "pipe_step s s'" "stream_ok s" "order_ok s"
  shows "order_ok s'"
  using assms
proof (induction rule: pipe_step.induct)
  case (call_read s t e u uio nonblock)
  then show ?case using order_ok_pc(1) [OF call_read.prems(2)] read_loop_order [OF call_read.prems(2)] by (simp add: pipe_read_def)
next
  case (woken_read s t uio)
  then show ?case using read_loop_order by blast
next
  case (end_read s t uio)
  then show ?case by (auto simp: order_ok_def pipe_ops)
next
  case (call_write s t e u uio nonblock)
  note ok = call_write.prems(2) and uio = call_write.hyps(2)
  have small: "length (buf_q (pipe s)) \<le> max_buf" using call_write.prems(1) by (simp add: stream_ok_def)
  have "snd (uio_pos uio) = 0" using uio by (simp add: uio_pos_def uio_ok_def)
  then show ?case
    unfolding pipe_write_def
    using order_ok_pc(1) [OF ok] write_room_order [OF ok uio _ small] write_loop_order [OF ok uio_at_start [OF uio] _ small, of t True]
    by simp
next
  case (woken_room s t uio n)
  then have "pc_ok (pipe s) (Write_room uio n)" "length (buf_q (pipe s)) \<le> max_buf" by (metis stream_ok_def)+
  then show ?case using write_room_order [OF woken_room.prems(2)] by simp
next
  case (woken_full s t uio i off)
  then have pc: "pc_ok (pipe s) (Write_full uio i off)" "length (buf_q (pipe s)) \<le> max_buf" by (metis stream_ok_def)+
  have "pos_ok (chunk_pos t (sent s)) (Write_full uio i off)" using woken_full by (metis order_ok_def)
  then show ?case
    using write_loop_order [OF woken_full.prems(2), of uio i off t False] pc order_ok_pc(3) [OF woken_full.prems(2), of t "Write_full uio i off"]
    by (simp add: write_full_def)
next
  case (end_write s t uio)
  then show ?case by (auto simp: order_ok_def pipe_ops)
qed (simp_all add: order_ok_def)

text \<open>The sleeping threads.\<close>

fun is_wake :: "pipe_pc \<Rightarrow> bool" where
  "is_wake (Read_wake _) = True"
| "is_wake (Write_wake _) = True"
| "is_wake _ = False"

lemma pending_at_pc:
  assumes "\<not> is_wake (pcs s t)"
  shows "wake_reader_pending s \<Longrightarrow> wake_reader_pending (at_pc t p s)" "wake_writer_pending s \<Longrightarrow> wake_writer_pending (at_pc t p s)"
proof -
  show "wake_reader_pending (at_pc t p s)" if pend: "wake_reader_pending s"
  proof -
    obtain u uio where u: "pcs s u = Write_wake uio" using pend by (auto simp: wake_reader_pending_def)
    then have "u \<noteq> t" using assms by auto
    then show ?thesis using u unfolding wake_reader_pending_def at_pc_def by (intro exI [of _ u] exI [of _ uio]) simp
  qed
  show "wake_writer_pending (at_pc t p s)" if pend: "wake_writer_pending s"
  proof -
    obtain u uio where u: "pcs s u = Read_wake uio" using pend by (auto simp: wake_writer_pending_def)
    then have "u \<noteq> t" using assms by auto
    then show ?thesis using u unfolding wake_writer_pending_def at_pc_def by (intro exI [of _ u] exI [of _ uio]) simp
  qed
qed

lemma pending_new: "wake_reader_pending (at_pc t (Write_wake uio) s)" "wake_writer_pending (at_pc t (Read_wake uio) s)"
  by (auto simp: wake_reader_pending_def wake_writer_pending_def at_pc_def)

text \<open>The facts on the sleepers in a form that does not mention the thread that makes a step.\<close>

definition sleep_inv :: "pipe_buffer \<Rightarrow> (nat \<Rightarrow> pipe_pc) \<Rightarrow> bool \<Rightarrow> bool \<Rightarrow> bool" where
  "sleep_inv b pc rd wr \<longleftrightarrow>
     (\<forall>t\<in>set (may_read b). is_read_wait (pc t) \<and> sender b \<noteq> None \<and> (buf_q b = [] \<or> rd)) \<and>
     (\<forall>t\<in>set (may_write b). is_write_wait (pc t) \<and> receiver b \<noteq> None \<and> (no_room b (pc t) \<or> wr))"

lemma sleepers_ok_inv: "sleepers_ok s \<longleftrightarrow> sleep_inv (pipe s) (pcs s) (wake_reader_pending s) (wake_writer_pending s)"
  by (simp add: sleepers_ok_def sleep_inv_def)

lemma sleep_inv_at:
  "\<lbrakk>sleep_inv b pc rd wr; t \<notin> set (may_read b); t \<notin> set (may_write b); rd \<Longrightarrow> rd'; wr \<Longrightarrow> wr'\<rbrakk> \<Longrightarrow> sleep_inv b (pc(t := p)) rd' wr'"
  unfolding sleep_inv_def by (metis fun_upd_apply)

lemma sleepers_at_pc:
  assumes "sleepers_ok s" "awake t s" "\<not> is_wake (pcs s t)"
  shows "sleepers_ok (at_pc t p s)"
proof -
  have "sleep_inv (pipe s) ((pcs s)(t := p)) (wake_reader_pending (at_pc t p s)) (wake_writer_pending (at_pc t p s))"
    by (rule sleep_inv_at [OF assms(1) [unfolded sleepers_ok_inv]]) (use assms(2) pending_at_pc [OF assms(3)] in \<open>simp_all add: awake_def\<close>)
  then show ?thesis by (simp add: sleepers_ok_inv at_pc_def)
qed

text \<open>The wake-ups depend on the threads only.\<close>

lemma pending_pcs: "pcs s' = pcs s \<Longrightarrow> wake_reader_pending s' = wake_reader_pending s" "pcs s' = pcs s \<Longrightarrow> wake_writer_pending s' = wake_writer_pending s"
  by (simp_all add: wake_reader_pending_def wake_writer_pending_def)

lemma no_room_mono: "\<lbrakk>no_room b p; length (buf_q b) \<le> length (buf_q b')\<rbrakk> \<Longrightarrow> no_room b' p"
  by (cases p) auto

text \<open>A change of the buffer keeps the facts when it leaves no fewer bytes, or a wake-up of the writers is pending, and the same for the readers.\<close>

lemma sleep_inv_buffer:
  assumes inv: "sleep_inv b pc rd wr" and "set (may_read b') \<subseteq> set (may_read b)" "set (may_write b') \<subseteq> set (may_write b)"
    and "may_read b' \<noteq> [] \<Longrightarrow> sender b' = sender b \<and> (buf_q b' = [] \<or> rd')" and "may_write b' \<noteq> [] \<Longrightarrow> receiver b' = receiver b"
    and "length (buf_q b) \<le> length (buf_q b') \<and> (wr \<longrightarrow> wr') \<or> wr'"
  shows "sleep_inv b' pc rd' wr'"
  unfolding sleep_inv_def
proof (intro conjI ballI)
  fix t assume t: "t \<in> set (may_read b')"
  then have "t \<in> set (may_read b)" "may_read b' \<noteq> []" using assms(2) by auto
  then show "is_read_wait (pc t)" "sender b' \<noteq> None" "buf_q b' = [] \<or> rd'" using inv assms(4) unfolding sleep_inv_def by auto
next
  fix t assume t: "t \<in> set (may_write b')"
  then have t': "t \<in> set (may_write b)" "may_write b' \<noteq> []" using assms(3) by auto
  then show "is_write_wait (pc t)" "receiver b' \<noteq> None" using inv assms(5) unfolding sleep_inv_def by auto
  have "no_room b (pc t) \<or> wr" using inv t' unfolding sleep_inv_def by blast
  then show "no_room b' (pc t) \<or> wr'" using assms(6) no_room_mono [of b "pc t" b'] by blast
qed

lemma sleep_inv_wait_read:
  assumes "sleep_inv b (pc(t := Read_wait uio)) rd wr" "sender b \<noteq> None" "buf_q b = []"
  shows "sleep_inv (b\<lparr>may_read := may_read b @ [t]\<rparr>) (pc(t := Read_wait uio)) rd wr"
proof -
  have "no_room (b\<lparr>may_read := may_read b @ [t]\<rparr>) p = no_room b p" for p by (cases p) simp_all
  then show ?thesis using assms by (simp add: sleep_inv_def)
qed

lemma sleep_inv_wait_write:
  assumes "sleep_inv b (pc(t := p)) rd wr" "receiver b \<noteq> None" "is_write_wait p" "no_room b p"
  shows "sleep_inv (b\<lparr>may_write := may_write b @ [t]\<rparr>) (pc(t := p)) rd wr"
proof -
  have "no_room (b\<lparr>may_write := may_write b @ [t]\<rparr>) p = no_room b p" for p by (cases p) simp_all
  then show ?thesis using assms by (simp add: sleep_inv_def)
qed

lemma sleepers_wait_read:
  assumes "sleepers_ok s" "awake t s" "\<not> is_wake (pcs s t)" "sender (pipe s) \<noteq> None" "buf_q (pipe s) = []"
  shows "sleepers_ok (wait_may_read t (Read_wait uio) s)"
proof -
  have "sleepers_ok (at_pc t (Read_wait uio) s)" by (rule sleepers_at_pc [OF assms(1-3)])
  then have "sleep_inv (pipe s) ((pcs s)(t := Read_wait uio)) (wake_reader_pending (at_pc t (Read_wait uio) s)) (wake_writer_pending (at_pc t (Read_wait uio) s))"
    by (simp add: sleepers_ok_inv at_pc_def)
  from sleep_inv_wait_read [OF this assms(4,5)] show ?thesis
    by (simp add: sleepers_ok_inv wait_may_read_def at_pc_def wake_reader_pending_def wake_writer_pending_def)
qed

lemma sleepers_wait_write:
  assumes "sleepers_ok s" "awake t s" "\<not> is_wake (pcs s t)" "receiver (pipe s) \<noteq> None" "is_write_wait p" "no_room (pipe s) p"
  shows "sleepers_ok (wait_may_write t p s)"
proof -
  have "sleepers_ok (at_pc t p s)" by (rule sleepers_at_pc [OF assms(1-3)])
  then have "sleep_inv (pipe s) ((pcs s)(t := p)) (wake_reader_pending (at_pc t p s)) (wake_writer_pending (at_pc t p s))"
    by (simp add: sleepers_ok_inv at_pc_def)
  from sleep_inv_wait_write [OF this assms(4-6)] show ?thesis
    by (simp add: sleepers_ok_inv wait_may_write_def at_pc_def wake_reader_pending_def wake_writer_pending_def)
qed

lemma read_loop_sleepers:
  assumes ok: "sleepers_ok s" and t: "awake t s" "\<not> is_wake (pcs s t)"
  shows "sleepers_ok (read_loop t uio s)"
proof (cases "buf_q (pipe s) = []")
  case True
  then show ?thesis
    using sleepers_wait_read [OF ok t] sleepers_at_pc [OF ok t] by (simp add: read_loop_def Let_def)
next
  case False
  obtain q' uio' mem' where c: "copy_to_uio (buf_q (pipe s)) uio (pmem s) = (q', uio', mem')" by (metis prod_cases3)
  define g where "g = got s @ take (nat (uio_resid uio - uio_resid uio')) (gather mem' (uio_iov uio))"
  let ?u = "at_pc t (Read_wake uio') s"
  have e: "read_loop t uio s = at_pc t (Read_wake uio') (s\<lparr>pipe := (pipe s)\<lparr>buf_q := q'\<rparr>, pmem := mem', got := g\<rparr>)"
    using False c by (simp add: read_loop_def Let_def g_def)
  have u: "sleepers_ok ?u" by (rule sleepers_at_pc [OF ok t])
  have rd: "wake_reader_pending ?u" if "may_read (pipe s) \<noteq> []"
  proof -
    have "wake_reader_pending s" using ok that False unfolding sleepers_ok_def by (cases "may_read (pipe s)") auto
    then show ?thesis by (rule pending_at_pc(1) [OF t(2)])
  qed
  have "sleep_inv ((pipe s)\<lparr>buf_q := q'\<rparr>) (pcs ?u) (wake_reader_pending ?u) (wake_writer_pending ?u)"
    by (rule sleep_inv_buffer [OF u [unfolded sleepers_ok_inv]]) (use rd pending_new(2) [of t uio' s] in \<open>simp_all add: at_pc_def\<close>)
  moreover have "wake_reader_pending (read_loop t uio s) = wake_reader_pending ?u" "wake_writer_pending (read_loop t uio s) = wake_writer_pending ?u"
    by (rule pending_pcs, simp add: e at_pc_def)+
  ultimately show ?thesis unfolding sleepers_ok_inv by (simp add: e at_pc_def)
qed

lemma write_loop_sleepers:
  assumes ok: "sleepers_ok s" and t: "awake t s" "\<not> is_wake (pcs s t)"
    and uio: "uio_at uio i off" "uio_resid uio \<noteq> 0" "length (buf_q (pipe s)) \<le> max_buf"
  shows "sleepers_ok (write_loop t uio i off nonblock s)"
proof (cases "receiver (pipe s)")
  case None
  then have "write_loop t uio i off nonblock s = at_pc t (Write_wake uio) s" by (simp add: write_loop_def)
  then show ?thesis using sleepers_at_pc [OF ok t] by simp
next
  case (Some r)
  then have recv: "receiver (pipe s) \<noteq> None" by simp
  obtain bs uio' i' off' s' where w:
    "s' = s\<lparr>pipe := (pipe s)\<lparr>buf_q := buf_q (pipe s) @ bs\<rparr>, sent := sent s @ [uio_chunk t uio (pmem s) bs]\<rparr>"
    "uio_resid uio' \<noteq> 0 \<Longrightarrow> length (buf_q (pipe s)) + length bs = max_buf"
    "write_loop t uio i off nonblock s =
       (if uio_resid uio' = 0 then at_pc t (Write_wake uio') s'
        else if nonblock then at_pc t (Done None uio') (wake_may_read s')
        else wait_may_write t (Write_full uio' i' off') (wake_may_read s'))"
    by (rule write_loop_cases [OF uio(1,3,2) recv, of t nonblock]) blast
  have pcs: "pcs s' = pcs s" "pcs (wake_may_read s') = pcs s" by (simp_all add: w(1) wake_may_read_def)
  have woken: "sleepers_ok (wake_may_read s')"
    unfolding sleepers_ok_inv pending_pcs [OF pcs(2)] pcs(2)
    by (rule sleep_inv_buffer [OF ok [unfolded sleepers_ok_inv]]) (simp_all add: w(1) wake_may_read_def)
  have t': "awake t (wake_may_read s')" "\<not> is_wake (pcs (wake_may_read s') t)" using t by (simp_all add: w(1) wake_may_read_def awake_def)
  show ?thesis
    unfolding w(3)
  proof (split if_split, intro conjI impI)
    let ?u = "at_pc t (Write_wake uio') s"
    have u: "sleepers_ok ?u" by (rule sleepers_at_pc [OF ok t])
    have p: "pcs (at_pc t (Write_wake uio') s') = pcs ?u" by (simp add: at_pc_def pcs)
    show "sleepers_ok (at_pc t (Write_wake uio') s')"
      unfolding sleepers_ok_inv pending_pcs [OF p] p
      by (rule sleep_inv_buffer [OF u [unfolded sleepers_ok_inv]]) (use pending_new(1) [of t uio' s] in \<open>simp_all add: w(1) at_pc_def\<close>)
  next
    assume left: "uio_resid uio' \<noteq> 0"
    then have "no_room (pipe (wake_may_read s')) (Write_full uio' i' off')" using w(2) by (simp add: w(1) wake_may_read_def)
    moreover have "receiver (pipe (wake_may_read s')) \<noteq> None" using recv by (simp add: w(1) wake_may_read_def)
    ultimately show "sleepers_ok (if nonblock then at_pc t (Done None uio') (wake_may_read s') else wait_may_write t (Write_full uio' i' off') (wake_may_read s'))"
      using sleepers_at_pc [OF woken t'] sleepers_wait_write [OF woken t'] by simp
  qed
qed

lemma write_room_sleepers:
  assumes ok: "sleepers_ok s" "stream_ok s" and t: "awake t s" "\<not> is_wake (pcs s t)" and uio: "uio_ok uio" "uio_resid uio \<noteq> 0"
  shows "sleepers_ok (write_room t uio n s)"
proof -
  have small: "length (buf_q (pipe s)) \<le> max_buf" using ok(2) by (simp add: stream_ok_def)
  show ?thesis
    unfolding write_room_def
    using sleepers_wait_write [OF ok(1) t, of "Write_room uio n"] sleepers_at_pc [OF ok(1) t]
      write_loop_sleepers [OF ok(1) t uio_at_start [OF uio(1)] uio(2) small] by simp
qed

lemma write_full_sleepers:
  assumes ok: "sleepers_ok s" "stream_ok s" and t: "awake t s" "\<not> is_wake (pcs s t)" and uio: "uio_at uio i off" "uio_resid uio \<noteq> 0"
  shows "sleepers_ok (write_full t uio i off s)"
proof -
  have small: "length (buf_q (pipe s)) \<le> max_buf" using ok(2) by (simp add: stream_ok_def)
  show ?thesis
    unfolding write_full_def
    using sleepers_wait_write [OF ok(1) t, of "Write_full uio i off"] write_loop_sleepers [OF ok(1) t uio small] by simp
qed

lemma sleepers_awake:
  assumes "sleepers_ok s"
  shows "\<not> is_read_wait (pcs s t) \<Longrightarrow> t \<notin> set (may_read (pipe s))" "\<not> is_write_wait (pcs s t) \<Longrightarrow> t \<notin> set (may_write (pipe s))"
  using assms by (auto simp: sleepers_ok_def)

lemma sleepers_end:
  assumes ok: "sleepers_ok s" and p: "is_wake (pcs s t)"
  shows "pcs s t = Read_wake uio \<Longrightarrow> sleepers_ok (at_pc t q (wake_may_write s))" "pcs s t = Write_wake uio \<Longrightarrow> sleepers_ok (at_pc t q (wake_may_read s))"
proof -
  have t: "t \<notin> set (may_read (pipe s))" "t \<notin> set (may_write (pipe s))" using sleepers_awake [OF ok, of t] p by (cases "pcs s t"; simp)+
  show "sleepers_ok (at_pc t q (wake_may_write s))" if e: "pcs s t = Read_wake uio"
  proof -
    let ?u = "at_pc t q (wake_may_write s)"
    have rd: "wake_reader_pending ?u" if pend: "wake_reader_pending s"
    proof -
      obtain u v where u: "pcs s u = Write_wake v" using pend by (auto simp: wake_reader_pending_def)
      then have "u \<noteq> t" using e by auto
      then show ?thesis using u by (auto simp: wake_reader_pending_def pipe_ops intro!: exI [of _ u])
    qed
    have "sleep_inv (pipe s) ((pcs s)(t := q)) (wake_reader_pending ?u) True"
      by (rule sleep_inv_at [OF ok [unfolded sleepers_ok_inv] t]) (use rd in simp_all)
    then show ?thesis by (simp add: sleepers_ok_inv sleep_inv_def pipe_ops)
  qed
  show "sleepers_ok (at_pc t q (wake_may_read s))" if e: "pcs s t = Write_wake uio"
  proof -
    let ?u = "at_pc t q (wake_may_read s)"
    have wr: "wake_writer_pending ?u" if pend: "wake_writer_pending s"
    proof -
      obtain u v where u: "pcs s u = Read_wake v" using pend by (auto simp: wake_writer_pending_def)
      then have "u \<noteq> t" using e by auto
      then show ?thesis using u by (auto simp: wake_writer_pending_def pipe_ops intro!: exI [of _ u])
    qed
    have "sleep_inv (pipe s) ((pcs s)(t := q)) True (wake_writer_pending ?u)"
      by (rule sleep_inv_at [OF ok [unfolded sleepers_ok_inv] t]) (use wr in simp_all)
    moreover have "no_room (pipe ?u) p = no_room (pipe s) p" for p by (cases p) (simp_all add: pipe_ops)
    ultimately show ?thesis by (simp add: sleepers_ok_inv sleep_inv_def pipe_ops)
  qed
qed

lemma pipe_step_sleepers:
  assumes "pipe_step s s'" "sleepers_ok s" "stream_ok s"
  shows "sleepers_ok s'"
  using assms
proof (induction rule: pipe_step.induct)
  case (call_read s t e u uio nonblock)
  then have t: "awake t s" "\<not> is_wake (pcs s t)" using sleepers_awake [OF call_read.prems(1), of t] by (auto simp: awake_def)
  then show ?case using sleepers_at_pc [OF call_read.prems(1)] read_loop_sleepers [OF call_read.prems(1)] by (simp add: pipe_read_def)
next
  case (woken_read s t uio)
  then have t: "awake t s" "\<not> is_wake (pcs s t)" using sleepers_awake [OF woken_read.prems(1), of t] by (auto simp: awake_def)
  then show ?case by (rule read_loop_sleepers [OF woken_read.prems(1)])
next
  case (end_read s t uio)
  then show ?case using sleepers_end(1) [of s t uio] by simp
next
  case (call_write s t e u uio nonblock)
  then have t: "awake t s" "\<not> is_wake (pcs s t)" using sleepers_awake [OF call_write.prems(1), of t] by (auto simp: awake_def)
  have "length (buf_q (pipe s)) \<le> max_buf" using call_write.prems(2) by (simp add: stream_ok_def)
  then show ?case
    using sleepers_at_pc [OF call_write.prems(1) t] write_room_sleepers [OF call_write.prems t call_write.hyps(2)]
      write_loop_sleepers [OF call_write.prems(1) t uio_at_start [OF call_write.hyps(2)]] by (simp add: pipe_write_def)
next
  case (woken_room s t uio n)
  then have t: "awake t s" "\<not> is_wake (pcs s t)" using sleepers_awake [OF woken_room.prems(1), of t] by (auto simp: awake_def)
  have "pc_ok (pipe s) (Write_room uio n)" using woken_room by (metis stream_ok_def)
  then show ?case using write_room_sleepers [OF woken_room.prems t] by simp
next
  case (woken_full s t uio i off)
  then have t: "awake t s" "\<not> is_wake (pcs s t)" using sleepers_awake [OF woken_full.prems(1), of t] by (auto simp: awake_def)
  have "pc_ok (pipe s) (Write_full uio i off)" using woken_full by (metis stream_ok_def)
  then show ?case using write_full_sleepers [OF woken_full.prems t] by simp
next
  case (end_write s t uio)
  then show ?case using sleepers_end(2) [of s t uio] by simp
next
  case (close_sender s)
  let ?s = "s\<lparr>pipe := detach_sender (pipe s)\<rparr>"
  have p: "pcs ?s = pcs s" by simp
  show ?case
    unfolding sleepers_ok_inv pending_pcs [OF p] p
    by (rule sleep_inv_buffer [OF close_sender.prems(1) [unfolded sleepers_ok_inv]])
      (use close_sender.prems(1) in \<open>auto simp: detach_sender_def sleepers_ok_def neq_Nil_conv\<close>)
next
  case (close_receiver s)
  let ?s = "s\<lparr>pipe := detach_receiver (pipe s)\<rparr>"
  have p: "pcs ?s = pcs s" by simp
  show ?case
    unfolding sleepers_ok_inv pending_pcs [OF p] p
    by (rule sleep_inv_buffer [OF close_receiver.prems(1) [unfolded sleepers_ok_inv]])
      (use close_receiver.prems(1) in \<open>auto simp: detach_receiver_def sleepers_ok_def neq_Nil_conv\<close>)
next
  case (store s mem)
  then show ?case by (simp add: sleepers_ok_def wake_reader_pending_def wake_writer_pending_def)
qed

text \<open>Every reachable state.\<close>

lemma pipe_reach:
  assumes "pipe_start r w mem = Some s0" "pipe_step\<^sup>*\<^sup>* s0 s"
  shows "stream_ok s \<and> sleepers_ok s \<and> order_ok s"
  using assms(2)
proof (induction rule: rtranclp_induct)
  case base
  then show ?case
    using assms(1) by (auto simp: pipe_start_def attach_receiver_def attach_sender_def pipe_buffer_new_def stream_ok_def sleepers_ok_def sent_bytes_def order_ok_def in_order_def)
next
  case (step y z)
  then show ?case using pipe_step_stream pipe_step_sleepers pipe_step_order by blast
qed

section \<open>Properties\<close>


text \<open>A reader that sleeps on the empty pipe, and a writer that brings it three bytes.\<close>

definition demo_in :: uio where
  "demo_in = \<lparr>uio_iov = [\<lparr>iov_base = 200, iov_len = 4\<rparr>], uio_offset = 0, uio_resid = 4, uio_rw = UIO_READ\<rparr>"

definition demo_out :: uio where
  "demo_out = \<lparr>uio_iov = [\<lparr>iov_base = 100, iov_len = 3\<rparr>], uio_offset = 0, uio_resid = 3, uio_rw = UIO_WRITE\<rparr>"

definition demo_mem :: mem where
  "demo_mem = [100 \<mapsto> 7, 101 \<mapsto> 8, 102 \<mapsto> 9]"

definition demo_s0 :: pipe_sys where
  "demo_s0 = \<lparr>pipe = \<lparr>buf_q = [], receiver = Some 1, sender = Some 2, may_read = [], may_write = []\<rparr>, pmem = demo_mem, pcs = \<lambda>_. Idle,
     sent = [], got = []\<rparr>"

definition demo_s1 :: pipe_sys where
  "demo_s1 = pipe_write 20 demo_out False (pipe_read 10 demo_in False demo_s0)"


lemma demo_start: "pipe_start 1 2 demo_mem = Some demo_s0"
  by (simp add: demo_s0_def pipe_start_def attach_receiver_def attach_sender_def pipe_buffer_new_def)

lemma demo_copy: "copy_from_uio demo_mem demo_out 0 0 [] 8192 = Some (demo_out\<lparr>uio_resid := 0\<rparr>, 1, 0, [Some 7, Some 8, Some 9])"
  by (subst copy_from_uio.simps, simp add: demo_out_def size_t_def, subst copy_from_uio.simps) (simp add: mem_read_def demo_mem_def upt_rec)

lemma demo_uios: "uio_ok demo_in" "iov_disjoint (uio_iov demo_in)" "uio_ok demo_out" "uio_resid demo_in = 4" "uio_resid demo_out = 3"
  "need_room demo_out = 3" "iov_total (uio_iov demo_out) = 3"
  by (simp_all add: demo_in_def demo_out_def uio_ok_def iov_total_def need_room_def)

lemma demo_asleep: "pipe_read 10 demo_in False demo_s0 =
    \<lparr>pipe = \<lparr>buf_q = [], receiver = Some 1, sender = Some 2, may_read = [10], may_write = []\<rparr>, pmem = demo_mem,
     pcs = (\<lambda>_. Idle)(10 := Read_wait demo_in), sent = [], got = []\<rparr>"
  by (simp add: pipe_read_def read_loop_def demo_uios demo_s0_def wait_may_read_def at_pc_def)

lemma demo_s1_eq: "demo_s1 =
    \<lparr>pipe = \<lparr>buf_q = [Some 7, Some 8, Some 9], receiver = Some 1, sender = Some 2, may_read = [10], may_write = []\<rparr>, pmem = demo_mem,
     pcs = (\<lambda>_. Idle)(10 := Read_wait demo_in, 20 := Write_wake (demo_out\<lparr>uio_resid := 0\<rparr>)),
     sent = [\<lparr>ck_thread = 20, ck_iov = uio_iov demo_out, ck_start = 0, ck_mem = demo_mem, ck_bytes = [Some 7, Some 8, Some 9]\<rparr>], got = []\<rparr>"
  by (simp add: demo_s1_def pipe_write_def write_room_def write_loop_def demo_asleep demo_uios demo_copy max_buf_def at_pc_def)

lemma demo_reach1: "pipe_step\<^sup>*\<^sup>* demo_s0 demo_s1"
proof -
  let ?s = "pipe_read 10 demo_in False demo_s0"
  have "pipe_step demo_s0 ?s" by (rule call_read [of demo_s0 10]) (simp_all add: demo_s0_def demo_uios)
  moreover have "pcs ?s 20 = Idle" by (simp add: demo_asleep)
  then have "pipe_step ?s demo_s1" unfolding demo_s1_def by (intro call_write disjI1) (simp_all add: demo_uios)
  ultimately show ?thesis by (meson rtranclp.rtrancl_into_rtrancl rtranclp.rtrancl_refl)
qed



text \<open>C17: No wake-up is lost and the two ends never wait for each other. In every interleaving, when a sleeping reader could go on (there is data, or the
  sender is gone), or a sleeping writer could (there is room for its request, or the receiver is gone), then some thread is about to make the wake-up, and
  its step wakes the sleeper; and when no thread is about to make one, readers and writers do not sleep at the same time.\<close>

theorem pipe_no_lost_wakeup:
  assumes "pipe_start r w mem = Some s0" "pipe_step\<^sup>*\<^sup>* s0 s"
  shows "(t \<in> set (may_read (pipe s)) \<and> (buf_q (pipe s) \<noteq> [] \<or> sender (pipe s) = None) \<longrightarrow>
      (\<exists>u uio. pcs s u = Write_wake uio \<and> pipe_step s (at_pc u (Done None uio) (wake_may_read s)) \<and> may_read (pipe (wake_may_read s)) = [])) \<and>
    (t \<in> set (may_write (pipe s)) \<and> (\<not> no_room (pipe s) (pcs s t) \<or> receiver (pipe s) = None) \<longrightarrow>
      (\<exists>u uio. pcs s u = Read_wake uio \<and> pipe_step s (at_pc u (Done None uio) (wake_may_write s)) \<and> may_write (pipe (wake_may_write s)) = [])) \<and>
    (may_read (pipe s) \<noteq> [] \<and> may_write (pipe s) \<noteq> [] \<longrightarrow> (\<exists>u uio. pcs s u = Read_wake uio \<or> pcs s u = Write_wake uio))"
proof (intro conjI impI)
  have ok: "stream_ok s" "sleepers_ok s" using pipe_reach [OF assms] by blast+
  {
    assume "t \<in> set (may_read (pipe s)) \<and> (buf_q (pipe s) \<noteq> [] \<or> sender (pipe s) = None)"
    then obtain u uio where "pcs s u = Write_wake uio" using ok(2) unfolding sleepers_ok_def wake_reader_pending_def by blast
    then show "\<exists>u uio. pcs s u = Write_wake uio \<and> pipe_step s (at_pc u (Done None uio) (wake_may_read s)) \<and> may_read (pipe (wake_may_read s)) = []"
      using end_write [of s u uio] by (intro exI [of _ u] exI [of _ uio]) (simp add: wake_may_read_def)
  next
    assume "t \<in> set (may_write (pipe s)) \<and> (\<not> no_room (pipe s) (pcs s t) \<or> receiver (pipe s) = None)"
    then obtain u uio where "pcs s u = Read_wake uio" using ok(2) unfolding sleepers_ok_def wake_writer_pending_def by blast
    then show "\<exists>u uio. pcs s u = Read_wake uio \<and> pipe_step s (at_pc u (Done None uio) (wake_may_write s)) \<and> may_write (pipe (wake_may_write s)) = []"
      using end_read [of s u uio] by (intro exI [of _ u] exI [of _ uio]) (simp add: wake_may_write_def)
  next
    assume both: "may_read (pipe s) \<noteq> [] \<and> may_write (pipe s) \<noteq> []"
    then obtain x y where x: "x \<in> set (may_read (pipe s))" and y: "y \<in> set (may_write (pipe s))" by (cases "may_read (pipe s)"; cases "may_write (pipe s)") auto
    have "pc_ok (pipe s) (pcs s y)" using ok(1) by (simp add: stream_ok_def)
    then have "buf_q (pipe s) = [] \<Longrightarrow> \<not> no_room (pipe s) (pcs s y)"
      by (cases "pcs s y") (auto simp: need_room_def max_buf_def)
    then show "\<exists>u uio. pcs s u = Read_wake uio \<or> pcs s u = Write_wake uio"
      using ok(2) x y unfolding sleepers_ok_def wake_reader_pending_def wake_writer_pending_def by blast
  }
qed

theorem pipe_no_lost_wakeup_witness:
  "10 \<in> set (may_read (pipe demo_s1)) \<and> buf_q (pipe demo_s1) \<noteq> [] \<and> (\<exists>u uio. pcs demo_s1 u = Write_wake uio \<and> pipe_step demo_s1 (at_pc u (Done None uio) (wake_may_read demo_s1)))"
proof -
  have "10 \<in> set (may_read (pipe demo_s1)) \<and> buf_q (pipe demo_s1) \<noteq> []" by (simp add: demo_s1_eq)
  then show ?thesis using pipe_no_lost_wakeup [OF demo_start demo_reach1, of 10] by blast
qed

text \<open>A blocking \<open>write\<close> whose receiver goes away while it waits for room returns success although part of its data was never written.\<close>

lemma write_full_receiver_gone:
  "receiver (pipe s) = None \<Longrightarrow> write_full t uio i off s = at_pc t (Write_wake uio) s"
  by (simp add: write_full_def write_loop_def)

end
