(* ===== verification/Spec2Isabelle.thy ===== *)
theory Spec2Isabelle
  imports Lockfree_Queue Vfs_Balance Vfs_Program Ramfs_Spec Semaphore Waitqueue Rwlock Libc_Time Libc_String Lzjb Pipe
begin

text \<open>
  OSv is a kernel that runs one program in a virtual machine. The development verifies those parts of its sources (all paths below are under
  \<^verbatim>\<open>src/\<close>) whose behaviour is a matter of data structures and protocols: the file system layer from the calls of the program down to the RAM file
  system, the lock-free queues, the blocking synchronisation primitives, pipes, and pure routines of the C library and of ZFS. Every
  definition of the model is an executable function or a step relation, and mirrors one function of the sources branch by branch.

  \<^bold>\<open>The parts and how they interact.\<close> A program calls \<^verbatim>\<open>fs/vfs/main.cc\<close>, which turns paths into absolute ones (\<open>task_conv\<close>) and descriptors into
  open files (\<open>fget\<close>) and runs the system calls of \<^verbatim>\<open>fs/vfs/vfs_syscalls.cc\<close>. These resolve paths with \<open>namei\<close>
  (\<^verbatim>\<open>fs/vfs/vfs_lookup.cc\<close>) over the cache of directory entries (\<^verbatim>\<open>vfs_dentry.cc\<close>), the cache of vnodes (\<^verbatim>\<open>vfs_vnode.cc\<close>) and
  the mounts (\<^verbatim>\<open>vfs_mount.cc\<close>), and call the operations of a file system, which is the parameter \<open>fsops\<close> of all of them; the RAM file system
  (\<^verbatim>\<open>fs/ramfs\<close>) is the one instance that is modelled. Reads and writes move bytes with \<open>uiomove\<close>. Pipes, semaphores, wait queues and
  read-write locks are shared by threads that run at the same time.

  \<^bold>\<open>Theories.\<close>
  \<^item> \<open>Prelude\<close>: integer types, the error numbers, shared lemmas. \<open>Linked_List\<close>: chains of \<open>next\<close> pointers in an explicit heap.
  \<^item> \<open>Path\<close> (\<^verbatim>\<open>fs/vfs/vfs_task.cc\<close>, \<^verbatim>\<open>vfs_mount.cc\<close>, \<^verbatim>\<open>vfs_syscalls.cc\<close>): path strings. \<open>path_conv\<close> agrees with a reference resolution, the search of
    the mount table finds the longest covering mount point; two theorems state where \<open>path_conv\<close> goes wrong.
  \<^item> \<open>Uio\<close> (\<^verbatim>\<open>fs/vfs/subr_uio.cc\<close>): scattered transfers copy exactly the bytes asked for.
  \<^item> \<open>Vfs_State\<close>, \<open>Vfs_Refs\<close>, \<open>Vfs_Rules\<close>, \<open>Vfs_Lookup\<close>, \<open>Vfs_File\<close>, \<open>Vfs_Syscalls\<close>, \<open>Vfs_Mount\<close>: the file system layer. The record \<open>vfs\<close> is its
    state: entries, vnodes, mounts and open files as maps from addresses, the hash tables as lists, the descriptor table, the working
    directory, user memory, and the state \<open>fs\<close> of the file systems. A computation \<open>vm\<close> returns a result and a state, or a \<open>fault\<close>: a failed
    assertion, a null or dangling pointer, an index out of bounds, an uninitialised variable, a corrupted list, a loop that does not end. The
    invariant \<open>refs_ok R Z D V L\<close> says that the reference count of every entry and vnode is the number of the references there are, in other
    objects or in the multisets \<open>D\<close> and \<open>V\<close> that the running calls hold, and that \<open>L\<close> are the locks held. \<open>wp\<close> is partial correctness for the
    faults that are not \<open>excused\<close>.
  \<^item> \<open>Ramfs\<close>, \<open>Ramfs_Spec\<close> (\<^verbatim>\<open>fs/ramfs/ramfs_vnops.cc\<close>, \<^verbatim>\<open>ramfs_vfsops.cc\<close>): the RAM file system, and its abstraction to directories of named
    nodes and byte strings, which its operations refine. \<open>Vfs_Demo\<close>: the state after mounting one at the root, on which theorems are evaluated.
  \<^item> \<open>Vfs_Balance\<close>: the system calls on paths and on open files leave all references and locks as they were, on every path through them; for the calls
    that do not (\<open>namei\<close>, \<open>stat\<close> and \<open>statfs\<close> on a path of slashes, \<open>utimensat\<close> without permission) the one reference that is leaked. \<open>open\<close> and the drop of the file it
    returns cancel out.
  \<^item> \<open>Vfs_Quiet\<close>, \<open>Vfs_Api\<close>, \<open>Vfs_Api_Refs\<close>, \<open>Vfs_Program\<close> (\<^verbatim>\<open>fs/vfs/main.cc\<close>): the calls of a program and sequences of them. \<open>api_inv\<close> says that
    every open file is counted once for each descriptor, for the working directory and for each call that holds it; any program of
    the calls that are \<open>balanced_call\<close> keeps it. The others leak a reference on some error path, which the findings name.
  \<^item> \<open>Lockfree_Ring\<close> (\<^verbatim>\<open>include/lockfree/ring.hh\<close>), \<open>Lockfree_Queue\<close> (\<^verbatim>\<open>queue-mpsc.hh\<close>, \<^verbatim>\<open>unordered-queue-mpsc.hh\<close>, \<^verbatim>\<open>unordered-queue-spsc.hh\<close>): as functions,
    and as step relations in which each load and store of the producers and of the consumer is a step.
  \<^item> \<open>Semaphore\<close>, \<open>Waitqueue\<close>, \<open>Rwlock\<close> (\<^verbatim>\<open>core/semaphore.cc\<close>, \<^verbatim>\<open>core/waitqueue.cc\<close>, \<^verbatim>\<open>core/rwlock.cc\<close>), \<open>Pipe\<close> (\<^verbatim>\<open>libc/pipe_buffer.cc\<close>): step relations of
    any number of threads, where what runs under the object's mutex up to the next wait is one step. Exclusion, conservation and order are
    invariants of the reachable states, and so is that no wake-up is lost. They are stated over history variables that the code does not read: who was given
    a lock, and which bytes of whose memory each copy into a pipe took.
  \<^item> \<open>Libc_Time\<close> (\<^verbatim>\<open>libc/time\<close>), \<open>Libc_String\<close> (\<^verbatim>\<open>libc/string\<close>), \<open>Lzjb\<close> (ZFS's \<^verbatim>\<open>lzjb.c\<close>): pure routines, against reference definitions and as round trips.

  \<^bold>\<open>Interfaces.\<close> The locales \<open>fs_backend\<close>, \<open>fs_calls\<close> and \<open>fs_quiet\<close> are what the file system layer asks of a file system, each extending the one
  before; \<open>ramfs\<close> and \<open>ramfs_quiet\<close> interpret them. \<open>bounded_fifo\<close>, \<open>item_bag\<close> and \<open>item_fifo\<close> are the contracts of the lock-free containers, with
  an interpretation for each of them; \<open>wait_fifo\<close> is that of a queue of waiters, interpreted by \<open>waitqueue\<close>.

  \<^bold>\<open>Loops.\<close> The walks along a list of nodes of the RAM file system (\<open>last_child\<close>, \<open>find_prev\<close>, \<open>find_child\<close>, \<open>nth_child\<close>) have a bound of \<open>Suc brk\<close> steps, more than there
  are nodes, which a list without a cycle does not exceed; a walk that runs out of it is an \<open>Fs_fault\<close>. The theorems of \<open>Ramfs_Spec\<close> show that this does not
  happen on a well-formed tree of nodes; those with \<open>wp\<close> excuse it. No other definition has fuel. A loop that ends for a reason that depends on the state is a \<open>partial_function\<close> in the option monad, where \<open>None\<close> is
  the fault \<open>Diverges\<close> or has a theorem that it does not occur (\<open>drele_terminates\<close>, \<open>lzjb_compress_bounds\<close>); \<open>wp\<close> does not excuse \<open>Diverges\<close>. The other loops are total functions.

  \<^bold>\<open>Excused faults.\<close> The theorems with \<open>wp\<close> do not exclude \<open>Null_pointer\<close>, because \<open>namei\<close> succeeds with a null entry for a path of
  slashes; \<open>Out_of_bounds\<close>, because \<open>fdclose\<close> does not check its argument and the following of a relative link in a root directory reads
  before its buffer; and \<open>Fs_fault\<close>, a fault in the data of the file system itself. The theorems of \<open>Ramfs_Spec\<close> exclude \<open>Fs_fault\<close> for operations of the RAM file
  system on a well-formed tree and on vnodes whose node exists. The node of an open file is freed when the file is unlinked, and a later read from it is
  such a fault (\<open>ramfs_read_removed\<close>).

  \<^bold>\<open>Assumptions.\<close> An atomic step of a step relation is a load or a store of the lock-free structures, in program order (their acquire and release
  orderings make the values they publish visible), and a critical section otherwise. A woken thread continues at any later time. Allocation succeeds and
  returns fresh addresses. The file system layer is modelled for one call at a time; its locks are counted, not contended. The
  reference counts of entries, vnodes, files and mounts are natural numbers or integers without a bound: they do not overflow the \<open>int\<close> of the sources.

  \<^bold>\<open>Not modelled.\<close> Start-up, assembly and interrupts, the scheduler, the memory allocator and page tables, the ELF loader, device drivers, the network
  stack and ZFS apart from its codec are bound to hardware, to foreign code or to timers, and their sources state no contract that a
  model without those could have. The hand-off protocol of the mutex is an assumption (a critical section is a step). Polling, tracepoints and statistics have no effect
  on the results of what is modelled. The proofs of balance do not extend to \<open>rename\<close>, \<open>link\<close>, \<open>utimensat\<close> relative to a descriptor, \<open>futimens\<close>, mounting and unmounting, which are defined.
\<close>

end
